(* ===== verification/Prelude.thy ===== *)
theory Prelude
  imports Main "HOL-Library.Word"
begin

unbundle bit_operations_syntax

text \<open>
  The machine of the model and the generic facts the components share.

  The C library is modelled for the i386 port of the system: \<open>char\<close> has 8 bits and is signed,
  \<open>int\<close> and \<open>long\<close> have 32 bits, \<open>quad_t\<close> has 64 bits, arithmetic is two's complement and the
  low-order part of a multi-byte object comes first in memory.
\<close>

section \<open>Machine types\<close>

type_synonym byte = "8 word"
type_synonym u_short = "16 word"
type_synonym u_int = "32 word"
type_synonym u_long = "32 word"
type_synonym u_quad = "64 word"

section \<open>Words\<close>

lemma uint_ucast_up:
  fixes x :: "'a::len word"
  assumes "LENGTH('a) \<le> LENGTH('b::len)"
  shows "uint (ucast x :: 'b word) = uint x"
  using assms by (simp add: unsigned_ucast_eq bintr_uint)

lemma unat_ucast_up:
  fixes x :: "'a::len word"
  assumes "LENGTH('a) \<le> LENGTH('b::len)"
  shows "unat (ucast x :: 'b word) = unat x"
  using uint_ucast_up [OF assms, of x] by (metis unat_eq_nat_uint)

lemma unat_push_bit: "unat (push_bit n x) = unat x * 2 ^ n mod 2 ^ LENGTH('a)" for x :: "'a::len word"
  by (simp only: unsigned_push_bit_eq take_bit_eq_mod) (simp add: push_bit_eq_mult)

lemma unat_drop_bit: "unat (drop_bit n x) = unat x div 2 ^ n" for x :: "'a::len word"
  by (simp only: unsigned_drop_bit_eq) (simp add: drop_bit_eq_div take_bit_nat_eq_self)

lemma ucast_of_int_uint: "(ucast x :: 'b::len word) = of_int (uint x)"
  for x :: "'a::len word"
  by (rule ucast_eq)

text \<open>Sums and differences of two words with the carry written out.\<close>

lemma uint_add_carry:
  fixes a b :: "'a::len word"
  shows "uint (a + b) = uint a + uint b - (if a + b < b then 2 ^ LENGTH('a) else 0)"
  using uint_lt2p [of a] uint_lt2p [of b] by (auto simp: uint_plus_if' word_less_def)

lemma uint_sub_borrow:
  fixes a b :: "'a::len word"
  shows "uint (a - b) = uint a - uint b + (if a < a - b then 2 ^ LENGTH('a) else 0)"
  using uint_lt2p [of a] uint_lt2p [of b] by (auto simp: uint_sub_if' word_less_def)

lemma uint_mult_exact:
  fixes a b :: "'a::len word"
  assumes "uint a * uint b < 2 ^ LENGTH('a)"
  shows "uint (a * b) = uint a * uint b"
  using assms by (simp add: uint_word_ariths)

lemma sint_conv_uint:
  fixes x :: "'a::len word"
  shows "sint x = (if uint x < 2 ^ (LENGTH('a) - 1) then uint x else uint x - 2 ^ LENGTH('a))"
proof -
  let ?h = "2 ^ (LENGTH('a) - 1) :: int"
  have two: "2 ^ LENGTH('a) = 2 * ?h"
    by (metis len_gt_0 power_minus_mult mult.commute)
  have "sint x = (uint x + ?h) mod (2 * ?h) - ?h"
    using int_word_sint [of "uint x", where 'a = 'a] unfolding word_of_int_uint two .
  moreover have "0 \<le> uint x" "uint x < 2 * ?h"
    using uint_lt2p [of x] by (simp_all add: two)
  moreover have "(uint x + ?h) mod (2 * ?h) = (if uint x < ?h then uint x + ?h else uint x - ?h)"
  proof (cases "uint x < ?h")
    case True
    then show ?thesis using uint_ge_0 [of x] by (subst mod_pos_pos_trivial) (simp_all add: add_nonneg_nonneg)
  next
    case False
    have eq: "uint x + ?h = uint x - ?h + 2 * ?h" by simp
    have "(uint x + ?h) mod (2 * ?h) = (uint x - ?h + 2 * ?h) mod (2 * ?h)" unfolding eq ..
    also have "\<dots> = (uint x - ?h) mod (2 * ?h)" by (rule mod_add_self2)
    also have "\<dots> = uint x - ?h" using False \<open>uint x < 2 * ?h\<close> by (intro mod_pos_pos_trivial) auto
    finally show ?thesis using False by simp
  qed
  ultimately show ?thesis by (simp add: two)
qed

section \<open>Two-digit numbers\<close>

lemma two_digit_less:
  fixes B h l h' l' :: int
  assumes "0 \<le> l" "l < B" "0 \<le> l'" "l' < B"
  shows "B * h + l < B * h' + l' \<longleftrightarrow> h < h' \<or> h = h' \<and> l < l'"
proof -
  have step: "B * x + y < B * x' + y'" if "x < x'" "y < B" "0 \<le> y'" for x x' y y' :: int
  proof -
    have "B * x + y < B * (x + 1)" using that by (simp add: algebra_simps)
    also have "\<dots> \<le> B * x'" using that assms by (intro mult_left_mono) auto
    finally show ?thesis using that by simp
  qed
  consider "h < h'" | "h = h'" | "h' < h" by linarith
  then show ?thesis
    using step [of h h' l l'] step [of h' h l' l] assms by cases auto
qed

lemma two_digit_eq:
  fixes B h l h' l' :: int
  assumes "0 \<le> l" "l < B" "0 \<le> l'" "l' < B"
  shows "B * h + l = B * h' + l' \<longleftrightarrow> h = h' \<and> l = l'"
  using two_digit_less [OF assms, of h h'] two_digit_less [OF assms(3,4) assms(1,2), of h' h]
  by auto

end
