(* ===== verification/Quad.thy ===== *)
theory Quad
  imports Prelude
begin

unbundle bit_operations_syntax

text \<open>
  Quad arithmetic (\<^verbatim>\<open>lib/libc/quad\<close>): the routines the compiler calls for 64-bit operations on a
  machine with 32-bit registers. A quad is a \<^typ>\<open>u_quad\<close>; the signed type \<open>quad_t\<close> is the same
  word read by \<^const>\<open>sint\<close>. The union \<open>uu\<close>, which views a quad as two longs, is the record
  \<open>uu\<close> with the conversions \<open>uu_of_q\<close> and \<open>uu_q\<close>. Division is in the theory \<open>QDivRem\<close>.
\<close>

section \<open>Definitions\<close>

text \<open>\<^verbatim>\<open>quad.h\<close>: \<open>union uu\<close>, \<open>LONG_BITS\<close>, \<open>QUAD_BITS\<close>, \<open>HHALF\<close>, \<open>LHALF\<close>, \<open>LHUP\<close>.\<close>

record uu =
  uu_H :: u_long
  uu_L :: u_long

definition uu_of_q :: "u_quad \<Rightarrow> uu" where
  "uu_of_q x = \<lparr>uu_H = ucast (drop_bit 32 x), uu_L = ucast x\<rparr>"

definition uu_q :: "uu \<Rightarrow> u_quad" where
  "uu_q u = (push_bit 32 (ucast (uu_H u))) OR ucast (uu_L u)"

definition LONG_BITS :: u_int where "LONG_BITS = 32"
definition QUAD_BITS :: u_int where "QUAD_BITS = 64"

definition HHALF :: "u_long \<Rightarrow> u_long" where "HHALF x = drop_bit 16 x"
definition LHALF :: "u_long \<Rightarrow> u_long" where "LHALF x = x AND (push_bit 16 1 - 1)"
definition LHUP :: "u_long \<Rightarrow> u_long" where "LHUP x = push_bit 16 x"

text \<open>One definition per routine; the leading underscores of the C names are dropped.\<close>

definition adddi3 :: "u_quad \<Rightarrow> u_quad \<Rightarrow> u_quad" where
  "adddi3 a b =
     (let aa = uu_of_q a; bb = uu_of_q b;
          sumL = uu_L aa + uu_L bb;
          sumH = uu_H aa + uu_H bb + of_bool (sumL < uu_L bb)
      in uu_q \<lparr>uu_H = sumH, uu_L = sumL\<rparr>)"

definition subdi3 :: "u_quad \<Rightarrow> u_quad \<Rightarrow> u_quad" where
  "subdi3 a b =
     (let aa = uu_of_q a; bb = uu_of_q b;
          diffL = uu_L aa - uu_L bb;
          diffH = uu_H aa - uu_H bb - of_bool (diffL > uu_L aa)
      in uu_q \<lparr>uu_H = diffH, uu_L = diffL\<rparr>)"

definition negdi2 :: "u_quad \<Rightarrow> u_quad" where
  "negdi2 a =
     (let aa = uu_of_q a;
          resL = - uu_L aa;
          resH = - uu_H aa - of_bool (resL > 0)
      in uu_q \<lparr>uu_H = resH, uu_L = resL\<rparr>)"

definition one_cmpldi2 :: "u_quad \<Rightarrow> u_quad" where
  "one_cmpldi2 a = (let aa = uu_of_q a in uu_q \<lparr>uu_H = NOT (uu_H aa), uu_L = NOT (uu_L aa)\<rparr>)"

definition anddi3 :: "u_quad \<Rightarrow> u_quad \<Rightarrow> u_quad" where
  "anddi3 a b =
     (let aa = uu_of_q a; bb = uu_of_q b
      in uu_q \<lparr>uu_H = uu_H aa AND uu_H bb, uu_L = uu_L aa AND uu_L bb\<rparr>)"

definition iordi3 :: "u_quad \<Rightarrow> u_quad \<Rightarrow> u_quad" where
  "iordi3 a b =
     (let aa = uu_of_q a; bb = uu_of_q b
      in uu_q \<lparr>uu_H = uu_H aa OR uu_H bb, uu_L = uu_L aa OR uu_L bb\<rparr>)"

definition xordi3 :: "u_quad \<Rightarrow> u_quad \<Rightarrow> u_quad" where
  "xordi3 a b =
     (let aa = uu_of_q a; bb = uu_of_q b
      in uu_q \<lparr>uu_H = uu_H aa XOR uu_H bb, uu_L = uu_L aa XOR uu_L bb\<rparr>)"

definition cmpdi2 :: "u_quad \<Rightarrow> u_quad \<Rightarrow> int" where
  "cmpdi2 a b =
     (let aa = uu_of_q a; bb = uu_of_q b
      in if sint (uu_H aa) < sint (uu_H bb) then 0
         else if sint (uu_H aa) > sint (uu_H bb) then 2
         else if uu_L aa < uu_L bb then 0
         else if uu_L aa > uu_L bb then 2 else 1)"

definition ucmpdi2 :: "u_quad \<Rightarrow> u_quad \<Rightarrow> int" where
  "ucmpdi2 a b =
     (let aa = uu_of_q a; bb = uu_of_q b
      in if uu_H aa < uu_H bb then 0
         else if uu_H aa > uu_H bb then 2
         else if uu_L aa < uu_L bb then 0
         else if uu_L aa > uu_L bb then 2 else 1)"

definition ashldi3 :: "u_quad \<Rightarrow> u_int \<Rightarrow> u_quad" where
  "ashldi3 a shift =
     (let aa = uu_of_q a
      in uu_q
        (if shift \<ge> LONG_BITS then
           \<lparr>uu_H = (if shift \<ge> QUAD_BITS then 0
                    else push_bit (unat (shift - LONG_BITS)) (uu_L aa)),
            uu_L = 0\<rparr>
         else if shift > 0 then
           \<lparr>uu_H = push_bit (unat shift) (uu_H aa) OR drop_bit (unat (LONG_BITS - shift)) (uu_L aa),
            uu_L = push_bit (unat shift) (uu_L aa)\<rparr>
         else aa))"

definition lshldi3 :: "u_quad \<Rightarrow> u_int \<Rightarrow> u_quad" where
  "lshldi3 a shift =
     (let aa = uu_of_q a
      in uu_q
        (if shift \<ge> LONG_BITS then
           \<lparr>uu_H = (if shift \<ge> QUAD_BITS then 0
                    else push_bit (unat (shift - LONG_BITS)) (uu_L aa)),
            uu_L = 0\<rparr>
         else if shift > 0 then
           \<lparr>uu_H = push_bit (unat shift) (uu_H aa) OR drop_bit (unat (LONG_BITS - shift)) (uu_L aa),
            uu_L = push_bit (unat shift) (uu_L aa)\<rparr>
         else aa))"

definition ashrdi3 :: "u_quad \<Rightarrow> u_int \<Rightarrow> u_quad" where
  "ashrdi3 a shift =
     (let aa = uu_of_q a
      in uu_q
        (if shift \<ge> LONG_BITS then
           (let s = signed_drop_bit 1 (signed_drop_bit (unat (LONG_BITS - 1)) (uu_H aa))
            in \<lparr>uu_H = s,
                uu_L = (if shift \<ge> QUAD_BITS then s
                        else signed_drop_bit (unat (shift - LONG_BITS)) (uu_H aa))\<rparr>)
         else if shift > 0 then
           \<lparr>uu_H = signed_drop_bit (unat shift) (uu_H aa),
            uu_L = drop_bit (unat shift) (uu_L aa) OR push_bit (unat (LONG_BITS - shift)) (uu_H aa)\<rparr>
         else aa))"

definition lshrdi3 :: "u_quad \<Rightarrow> u_int \<Rightarrow> u_quad" where
  "lshrdi3 a shift =
     (let aa = uu_of_q a
      in uu_q
        (if shift \<ge> LONG_BITS then
           \<lparr>uu_H = 0,
            uu_L = (if shift \<ge> QUAD_BITS then 0
                    else drop_bit (unat (shift - LONG_BITS)) (uu_H aa))\<rparr>
         else if shift > 0 then
           \<lparr>uu_H = drop_bit (unat shift) (uu_H aa),
            uu_L = drop_bit (unat shift) (uu_L aa) OR push_bit (unat (LONG_BITS - shift)) (uu_H aa)\<rparr>
         else aa))"

definition lmulq :: "u_long \<Rightarrow> u_long \<Rightarrow> u_quad" where
  "lmulq u v =
     (let u1 = HHALF u; u0 = LHALF u; v1 = HHALF v; v0 = LHALF v;
          low = u0 * v0
      in if u1 = 0 \<and> v1 = 0 then ucast low
         else
          let (udiff, neg) = (if u1 \<ge> u0 then (u1 - u0, False) else (u0 - u1, True));
              (vdiff, neg) = (if v0 \<ge> v1 then (v0 - v1, neg) else (v1 - v0, \<not> neg));
              mid = udiff * vdiff;
              high = u1 * v1;
              prodh = high + HHALF high;
              prodl = LHUP high;
              (prodh, prodl) =
                (if neg then
                   let was = prodl; prodl = prodl - LHUP mid
                   in (prodh - (HHALF mid + of_bool (prodl > was)), prodl)
                 else
                   let was = prodl; prodl = prodl + LHUP mid
                   in (prodh + (HHALF mid + of_bool (prodl < was)), prodl));
              was = prodl;
              prodl = prodl + LHUP low;
              prodh = prodh + (HHALF low + of_bool (prodl < was));
              prodl = prodl + low;
              prodh = (if prodl < low then prodh + 1 else prodh)
          in uu_q \<lparr>uu_H = prodh, uu_L = prodl\<rparr>)"

text \<open>
  \<open>__muldi3\<close>: \<open>muldi3_abs\<close> is its middle part, the product of the two operands made non-negative.
\<close>

definition muldi3_abs :: "u_quad \<Rightarrow> u_quad \<Rightarrow> u_quad" where
  "muldi3_abs u v =
     (let u1 = uu_H (uu_of_q u); u0 = uu_L (uu_of_q u);
          v1 = uu_H (uu_of_q v); v0 = uu_L (uu_of_q v)
      in if u1 = 0 \<and> v1 = 0 then lmulq u0 v0
         else
          let low = uu_of_q (lmulq u0 v0);
              (negmid, udiff) = (if u1 \<ge> u0 then (False, u1 - u0) else (True, u0 - u1));
              (negmid, vdiff) = (if v0 \<ge> v1 then (negmid, v0 - v1) else (\<not> negmid, v1 - v0));
              mid = udiff * vdiff;
              high = u1 * v1
          in uu_q \<lparr>uu_H = high + (if negmid then - mid else mid) + uu_L low + uu_H low,
                   uu_L = uu_L low\<rparr>)"

definition muldi3 :: "u_quad \<Rightarrow> u_quad \<Rightarrow> u_quad" where
  "muldi3 a b =
     (let (u, negall) = (if sint a \<ge> 0 then (a, False) else (- a, True));
          (v, negall) = (if sint b \<ge> 0 then (b, negall) else (- b, \<not> negall));
          prod = muldi3_abs u v
      in if negall then - prod else prod)"

section \<open>Two words as one number\<close>

definition hl :: "u_long \<Rightarrow> u_long \<Rightarrow> u_quad" where
  "hl h l = 2 ^ 32 * ucast h + ucast l"

lemma uu_q_hl: "uu_q u = hl (uu_H u) (uu_L u)"
proof -
  have "push_bit 32 (ucast (uu_H u) :: 64 word) AND ucast (uu_L u) = 0"
    by (rule bit_word_eqI) (auto simp: bit_simps dest: bit_imp_le_length)
  then have "uu_q u = push_bit 32 (ucast (uu_H u)) + ucast (uu_L u)"
    unfolding uu_q_def by (rule disjunctive_add_eq_or [symmetric])
  then show ?thesis by (simp add: push_bit_eq_mult mult.commute hl_def)
qed

lemma uu_q_of_q: "uu_q (uu_of_q x) = x"
  unfolding uu_q_def uu_of_q_def
  by (rule bit_word_eqI) (auto simp: bit_simps)

lemma q_split: "x = hl (uu_H (uu_of_q x)) (uu_L (uu_of_q x))"
  using uu_q_hl [of "uu_of_q x"] by (simp add: uu_q_of_q)

lemma push32_mod: "2 ^ 32 * (of_int (k mod 2 ^ 32) :: u_quad) = 2 ^ 32 * of_int k"
proof -
  have "2 ^ 32 * (of_int k :: u_quad) = 2 ^ 32 * of_int (2 ^ 32 * (k div 2 ^ 32) + k mod 2 ^ 32)"
    by simp
  also have "\<dots> = (2 ^ 32 * 2 ^ 32) * of_int (k div 2 ^ 32) + 2 ^ 32 * of_int (k mod 2 ^ 32)"
    by (simp only: of_int_add of_int_mult of_int_power of_int_numeral distrib_left mult.assoc)
  also have "(2 ^ 32 * 2 ^ 32 :: u_quad) = 0" by simp
  finally show ?thesis by simp
qed

lemmas of_int_ring = of_int_add of_int_diff of_int_mult of_int_minus of_int_power of_int_numeral of_int_0

lemma uint32_ariths:
  fixes x y :: u_long
  shows "uint (x + y) = (uint x + uint y) mod 2 ^ 32"
    and "uint (x - y) = (uint x - uint y) mod 2 ^ 32"
    and "uint (x * y) = (uint x * uint y) mod 2 ^ 32"
    and "uint (- x) = (- uint x) mod 2 ^ 32"
  by (simp_all add: uint_word_ariths)

lemma push32_ring:
  fixes x y :: u_long
  shows push32_add: "2 ^ 32 * (ucast (x + y) :: u_quad) = 2 ^ 32 * ucast x + 2 ^ 32 * ucast y"
    and push32_sub: "2 ^ 32 * (ucast (x - y) :: u_quad) = 2 ^ 32 * ucast x - 2 ^ 32 * ucast y"
    and push32_mult: "2 ^ 32 * (ucast (x * y) :: u_quad) = 2 ^ 32 * (ucast x * ucast y)"
    and push32_minus: "2 ^ 32 * (ucast (- x) :: u_quad) = - (2 ^ 32 * ucast x)"
  unfolding ucast_of_int_uint uint32_ariths push32_mod of_int_ring
  by (simp_all only: distrib_left right_diff_distrib mult_minus_right)

lemma push32_of_bool: "2 ^ 32 * (ucast (of_bool b :: u_long) :: u_quad) = (if b then 2 ^ 32 else 0)"
  by simp

lemma ucast_add_carry:
  fixes l l' :: u_long
  shows "(ucast (l + l') :: u_quad) = ucast l + ucast l' - (if l + l' < l' then 2 ^ 32 else 0)"
  unfolding ucast_of_int_uint uint_add_carry of_int_ring by simp

lemma ucast_sub_borrow:
  fixes l l' :: u_long
  shows "(ucast (l - l') :: u_quad) = ucast l - ucast l' + (if l < l - l' then 2 ^ 32 else 0)"
  unfolding ucast_of_int_uint uint_sub_borrow of_int_ring by simp

lemma hl_add: "hl h l + hl h' l' = hl (h + h' + of_bool (l + l' < l')) (l + l')"
  unfolding hl_def push32_add push32_of_bool ucast_add_carry [of l l'] by (simp add: algebra_simps)

lemma hl_sub: "hl h l - hl h' l' = hl (h - h' - of_bool (l < l - l')) (l - l')"
  unfolding hl_def push32_sub push32_of_bool ucast_sub_borrow [of l l'] by (simp add: algebra_simps)

lemma uint_hl: "uint (hl h l) = 2 ^ 32 * uint h + uint l"
proof -
  have "hl h l = word_of_int (2 ^ 32 * uint h + uint l)"
    unfolding hl_def ucast_of_int_uint of_int_ring by (rule refl)
  then have "uint (hl h l) = (2 ^ 32 * uint h + uint l) mod 2 ^ 64"
    by (simp only: uint_word_of_int) simp
  then show ?thesis
    using uint_lt2p [of h] uint_lt2p [of l] by (simp add: mod_pos_pos_trivial)
qed

lemma uint_u_long_bounds: "0 \<le> uint x" "uint x < 2 ^ 32" for x :: u_long
  using uint_lt2p [of x] by simp_all

lemma sint_hl: "sint (hl h l) = 2 ^ 32 * sint h + uint l"
proof -
  have "uint (hl h l) < 2 ^ 32 * 2 ^ 31 + 0 \<longleftrightarrow> uint h < 2 ^ 31"
    unfolding uint_hl
    by (subst two_digit_less) (use uint_u_long_bounds [of l] in simp_all)
  then show ?thesis
    by (simp add: sint_conv_uint [of h] sint_conv_uint [of "hl h l"] uint_hl)
qed

lemma uint_q_split: "uint a = 2 ^ 32 * uint (uu_H (uu_of_q a)) + uint (uu_L (uu_of_q a))"
  by (subst q_split) (rule uint_hl)

lemma sint_q_split: "sint a = 2 ^ 32 * sint (uu_H (uu_of_q a)) + uint (uu_L (uu_of_q a))"
  by (subst q_split) (rule sint_hl)

lemma uint_q_less:
  "uint a < uint b \<longleftrightarrow> uu_H (uu_of_q a) < uu_H (uu_of_q b)
     \<or> uu_H (uu_of_q a) = uu_H (uu_of_q b) \<and> uu_L (uu_of_q a) < uu_L (uu_of_q b)"
  unfolding uint_q_split [of a] uint_q_split [of b]
    two_digit_less [OF uint_u_long_bounds uint_u_long_bounds] word_less_def word_uint_eq_iff ..

lemma sint_q_less:
  "sint a < sint b \<longleftrightarrow> sint (uu_H (uu_of_q a)) < sint (uu_H (uu_of_q b))
     \<or> sint (uu_H (uu_of_q a)) = sint (uu_H (uu_of_q b)) \<and> uu_L (uu_of_q a) < uu_L (uu_of_q b)"
  unfolding sint_q_split [of a] sint_q_split [of b]
    two_digit_less [OF uint_u_long_bounds uint_u_long_bounds] word_less_def ..

section \<open>Addition, subtraction, comparison, bitwise operations, shifts\<close>

lemma adddi3_eq: "adddi3 a b = a + b"
  by (subst (3) q_split, subst (2) q_split)
     (simp add: adddi3_def Let_def uu_q_hl hl_add)

lemma subdi3_eq: "subdi3 a b = a - b"
  by (subst (3) q_split, subst (2) q_split)
     (simp add: subdi3_def Let_def uu_q_hl hl_sub)

lemma negdi2_eq: "negdi2 a = - a"
proof -
  have "hl 0 0 - hl (uu_H (uu_of_q a)) (uu_L (uu_of_q a)) = negdi2 a"
    unfolding hl_sub by (simp add: negdi2_def Let_def uu_q_hl)
  then have "0 - a = negdi2 a" unfolding q_split [of a, symmetric] by (simp add: hl_def)
  then show ?thesis by simp
qed

lemma bitwise_eq:
  "one_cmpldi2 a = NOT a"
  "anddi3 a b = a AND b"
  "iordi3 a b = a OR b"
  "xordi3 a b = a XOR b"
  by (rule bit_word_eqI,
      auto simp: one_cmpldi2_def anddi3_def iordi3_def xordi3_def Let_def uu_q_def uu_of_q_def bit_simps)+

lemma unat_shift_sub:
  fixes s :: u_int
  shows "s \<ge> 32 \<Longrightarrow> unat (s - 32) = unat s - 32" and "s \<le> 32 \<Longrightarrow> unat (32 - s) = 32 - unat s"
  by (simp_all add: unat_sub)

lemma ashldi3_eq: "ashldi3 a shift = push_bit (unat shift) a"
  by (rule bit_word_eqI)
     (auto simp: ashldi3_def Let_def LONG_BITS_def QUAD_BITS_def uu_q_def uu_of_q_def bit_simps
       unat_shift_sub word_le_nat_alt word_less_nat_alt not_le)

lemma lshldi3_ashldi3: "lshldi3 a shift = ashldi3 a shift"
  by (simp add: lshldi3_def ashldi3_def)

lemma add32_diff [simp]: "32 \<le> n \<Longrightarrow> 32 + (m + (n - 32)) = m + n" for m n :: nat
  by simp

lemmas shift_simps = Let_def LONG_BITS_def QUAD_BITS_def uu_q_def uu_of_q_def bit_simps
  unat_shift_sub word_le_nat_alt word_less_nat_alt not_le

lemma lshrdi3_eq: "lshrdi3 a shift = drop_bit (unat shift) a"
  by (rule bit_word_eqI)
     (auto simp: lshrdi3_def shift_simps not_less add.commute [of _ "unat shift"] dest: bit_imp_le_length)

lemma ashrdi3_eq: "ashrdi3 a shift = signed_drop_bit (unat shift) a"
  by (rule bit_word_eqI)
     (auto simp: ashrdi3_def shift_simps not_less add.commute [of _ "unat shift"] min_def dest: bit_imp_le_length)

lemma ucmpdi2_eq: "ucmpdi2 a b = (if uint a < uint b then 0 else if uint a > uint b then 2 else 1)"
  by (auto simp: ucmpdi2_def Let_def uint_q_less)

lemma cmpdi2_eq: "cmpdi2 a b = (if sint a < sint b then 0 else if sint a > sint b then 2 else 1)"
  by (auto simp: cmpdi2_def Let_def sint_q_less)

section \<open>Multiplication\<close>

lemma uint_HHALF: "uint (HHALF x) = uint x div 2 ^ 16"
  by (simp add: HHALF_def drop_bit_eq_div uint_div_distrib)

lemma LHALF_mask: "LHALF x = take_bit 16 x"
  by (simp add: LHALF_def take_bit_eq_mask mask_eq_exp_minus_1)

lemma uint_LHALF: "uint (LHALF x) = uint x mod 2 ^ 16"
  by (simp add: LHALF_mask take_bit_eq_mod uint_mod_distrib)

lemma hl_shift16: "hl (HHALF x) (LHUP x) = 2 ^ 16 * ucast x"
proof -
  have "2 ^ 16 * ucast x = push_bit 16 (ucast x :: u_quad)"
    by (simp add: push_bit_eq_mult mult.commute)
  also have "\<dots> = hl (HHALF x) (LHUP x)"
    unfolding uu_q_hl [of "\<lparr>uu_H = HHALF x, uu_L = LHUP x\<rparr>", simplified, symmetric]
    by (rule bit_word_eqI) (auto simp: uu_q_def bit_simps HHALF_def LHUP_def dest: bit_imp_le_length)
  finally show ?thesis by simp
qed

lemma half_mult_exact:
  fixes a b :: u_long
  assumes "uint a < 2 ^ 16" "uint b < 2 ^ 16"
  shows "(ucast (a * b) :: u_quad) = ucast a * ucast b"
proof -
  have "uint a * uint b < 2 ^ 16 * 2 ^ 16"
    using assms by (intro mult_strict_mono) auto
  then have "uint (a * b) = uint a * uint b" by (intro uint_mult_exact) simp
  then show ?thesis unfolding ucast_of_int_uint by simp
qed

lemma ucast_sub_le: "b \<le> a \<Longrightarrow> (ucast (a - b) :: u_quad) = ucast a - ucast b" for a b :: u_long
  unfolding ucast_of_int_uint by (simp add: uint_minus_simple_alt)

lemma half_diff_bound:
  fixes a b :: u_long
  assumes "uint a < 2 ^ 16" "b \<le> a"
  shows "uint (a - b) < 2 ^ 16"
  using assms uint_ge_0 [of b] unfolding uint_minus_simple_alt by linarith

lemma half_split: "(ucast u :: u_quad) = 2 ^ 16 * ucast (HHALF u) + ucast (LHALF u)"
proof -
  have "uint u = 2 ^ 16 * uint (HHALF u) + uint (LHALF u)"
    unfolding uint_HHALF uint_LHALF by simp
  then show ?thesis unfolding ucast_of_int_uint by (metis of_int_add of_int_mult of_int_power of_int_numeral)
qed

lemma hl_accumulate:
  "hl (h + (h' + of_bool (l + l' < l))) (l + l') = hl h l + hl h' l'"
  "hl (h - (h' + of_bool (l < l - l'))) (l - l') = hl h l - hl h' l'"
  using hl_add [of h' l' h l] hl_sub [of h l h' l'] by (simp_all add: algebra_simps)

lemma hl_add_low: "hl (if l + l' < l' then h + 1 else h) (l + l') = hl h l + ucast l'"
  using hl_add [of h l 0 l'] by (simp add: hl_def)

lemma lmulq_eq: "lmulq u v = ucast u * ucast v"
proof -
  define u1 u0 v1 v0 where "u1 = HHALF u" and "u0 = LHALF u" and "v1 = HHALF v" and "v0 = LHALF v"
  have b: "uint u1 < 2 ^ 16" "uint u0 < 2 ^ 16" "uint v1 < 2 ^ 16" "uint v0 < 2 ^ 16"
    using uint_lt2p [of u] uint_lt2p [of v]
    by (simp_all add: u1_def u0_def v1_def v0_def uint_HHALF uint_LHALF)
  have hh: "hl (high + HHALF high) (LHUP high) = 2 ^ 32 * ucast high + 2 ^ 16 * ucast high" for high
    using hl_shift16 [of high] unfolding hl_def push32_add by (simp add: algebra_simps)
  have uv: "(ucast u :: u_quad) = 2 ^ 16 * ucast u1 + ucast u0" "(ucast v :: u_quad) = 2 ^ 16 * ucast v1 + ucast v0"
    unfolding u1_def u0_def v1_def v0_def by (rule half_split)+
  have exact: "(ucast (u0 * v0) :: u_quad) = ucast u0 * ucast v0"
      "(ucast (u1 * v1) :: u_quad) = ucast u1 * ucast v1"
    by (simp_all only: half_mult_exact b)
  have mid: "(ucast ((a - b) * (c - d)) :: u_quad) = (ucast a - ucast b) * (ucast c - ucast d)"
    if "b \<le> a" "d \<le> c" "uint a < 2 ^ 16" "uint c < 2 ^ 16" for a b c d :: u_long
    using that by (simp only: half_mult_exact half_diff_bound ucast_sub_le)
  note mids = mid [OF _ _ b(1) b(4), of u0 v1] mid [OF _ _ b(1) b(3), of u0 v0]
    mid [OF _ _ b(2) b(4), of u1 v1] mid [OF _ _ b(2) b(3), of u1 v0]
  show ?thesis
    unfolding lmulq_def u1_def [symmetric] u0_def [symmetric] v1_def [symmetric] v0_def [symmetric] uv
    by (cases "u0 \<le> u1"; cases "v1 \<le> v0")
       (simp_all add: Let_def uu_q_hl exact mids hl_accumulate hl_add_low hh hl_shift16,
         simp_all add: algebra_simps)
qed

lemma two64 [simp]: "2 ^ 32 * 2 ^ 32 = (0 :: u_quad)"
  by simp

lemma push32_low: "2 ^ 32 * (ucast (uu_L (uu_of_q x)) :: u_quad) = 2 ^ 32 * x"
proof -
  have "2 ^ 32 * x = 2 ^ 32 * 2 ^ 32 * ucast (uu_H (uu_of_q x)) + 2 ^ 32 * ucast (uu_L (uu_of_q x))"
    by (subst q_split [of x]) (simp only: hl_def distrib_left mult.assoc)
  then show ?thesis unfolding two64 by simp
qed

text \<open>The unsigned product of the two-word operands, before the sign is put back.\<close>

lemma muldi3_unsigned:
  fixes u v :: u_quad
  defines "u1 \<equiv> uu_H (uu_of_q u)" and "u0 \<equiv> uu_L (uu_of_q u)"
    and "v1 \<equiv> uu_H (uu_of_q v)" and "v0 \<equiv> uu_L (uu_of_q v)"
    and "low \<equiv> uu_of_q (lmulq (uu_L (uu_of_q u)) (uu_L (uu_of_q v)))"
  shows "hl (u1 * v1 + (u1 - u0) * (v0 - v1) + uu_L low + uu_H low) (uu_L low) = u * v"
proof -
  have "hl (u1 * v1 + (u1 - u0) * (v0 - v1) + uu_L low + uu_H low) (uu_L low)
      = 2 ^ 32 * (ucast u1 * ucast v1) + 2 ^ 32 * (ucast (u1 - u0) * ucast (v0 - v1))
        + 2 ^ 32 * ucast (uu_L low) + hl (uu_H low) (uu_L low)"
    unfolding hl_def push32_add push32_mult by (simp add: algebra_simps)
  also have "2 ^ 32 * (ucast (u1 - u0) * ucast (v0 - v1) :: u_quad)
      = (2 ^ 32 * ucast u1 - 2 ^ 32 * ucast u0) * ucast (v0 - v1)"
    unfolding mult.assoc [symmetric] push32_sub ..
  also have "\<dots> = (ucast u1 - ucast u0) * (2 ^ 32 * ucast (v0 - v1))"
    by (simp add: algebra_simps)
  also have "\<dots> = (ucast u1 - ucast u0) * (2 ^ 32 * ucast v0 - 2 ^ 32 * ucast v1)"
    unfolding push32_sub ..
  also have "hl (uu_H low) (uu_L low) = ucast u0 * ucast v0"
    unfolding low_def q_split [symmetric] lmulq_eq u0_def v0_def ..
  also have "2 ^ 32 * (ucast (uu_L low) :: u_quad) = 2 ^ 32 * (ucast u0 * ucast v0)"
    unfolding low_def push32_low lmulq_eq u0_def v0_def ..
  also have "2 ^ 32 * (ucast u1 * ucast v1) + (ucast u1 - ucast u0) * (2 ^ 32 * ucast v0 - 2 ^ 32 * ucast v1)
      + 2 ^ 32 * (ucast u0 * ucast v0) + ucast u0 * ucast v0
      = hl u1 u0 * hl v1 v0 - 2 ^ 32 * 2 ^ 32 * (ucast u1 * ucast v1)"
    unfolding hl_def by (simp add: algebra_simps)
  also have "\<dots> = u * v"
    unfolding u1_def u0_def v1_def v0_def q_split [symmetric] two64 by simp
  finally show ?thesis .
qed

lemma muldi3_abs_eq: "muldi3_abs u v = u * v"
proof (cases "uu_H (uu_of_q u) = 0 \<and> uu_H (uu_of_q v) = 0")
  case True
  then show ?thesis
    by (subst (2) q_split [of u], subst (2) q_split [of v]) (simp add: muldi3_abs_def lmulq_eq hl_def)
next
  case False
  have flip: "- ((x - y) * z) = (y - x) * z" "- (z * (x - y)) = z * (y - x)" "(x - y) * (z - w) = (y - x) * (w - z)"
    for x y z w :: u_long by (simp_all add: algebra_simps)
  show ?thesis
    unfolding muldi3_unsigned [symmetric] muldi3_abs_def Let_def
    using False
    by (auto simp: uu_q_hl flip(1,2) split: if_splits
          simp: flip(3) [of "uu_L (uu_of_q u)" "uu_H (uu_of_q u)" "uu_H (uu_of_q v)" "uu_L (uu_of_q v)"])
qed

section \<open>Properties\<close>

text \<open>
  C3: \<open>__muldi3\<close> computes the product of two quads modulo \<open>2 ^ 64\<close>: the sign handling, the
  three-product splitting of Knuth and the half-word carries of \<open>__lmulq\<close> lose nothing.
\<close>

theorem muldi3_correct: "muldi3 a b = a * b"
  unfolding muldi3_def Let_def muldi3_abs_eq by (auto split: if_splits)

text \<open>
  \<open>__adddi3\<close>, \<open>__subdi3\<close> and \<open>__negdi2\<close> compute sum, difference and negation modulo
  \<open>2 ^ 64\<close> from 32-bit operations: the comparison of the low words is exactly the carry.
\<close>

theorem quad_add_sub_neg_correct:
  "adddi3 a b = a + b \<and> subdi3 a b = a - b \<and> negdi2 a = - a"
  by (simp add: adddi3_eq subdi3_eq negdi2_eq)

text \<open>
  The four shift routines agree with the 64-bit shifts for every shift count, including
  counts of 32 and more and of 64 and more, where a single machine shift is undefined.
\<close>

theorem quad_shifts_correct:
  "ashldi3 a shift = push_bit (unat shift) a
   \<and> lshldi3 a shift = push_bit (unat shift) a
   \<and> ashrdi3 a shift = signed_drop_bit (unat shift) a
   \<and> lshrdi3 a shift = drop_bit (unat shift) a"
  by (simp add: lshldi3_ashldi3 ashldi3_eq ashrdi3_eq lshrdi3_eq)

text \<open>
  \<open>__cmpdi2\<close> and \<open>__ucmpdi2\<close> return 0, 1 or 2 as the first operand is less than, equal to
  or greater than the second, as signed and as unsigned quads respectively.
\<close>

theorem quad_compare_correct:
  "cmpdi2 a b = (if sint a < sint b then 0 else if sint a > sint b then 2 else 1)
   \<and> ucmpdi2 a b = (if uint a < uint b then 0 else if uint a > uint b then 2 else 1)"
  by (simp add: cmpdi2_eq ucmpdi2_eq)

end
