(* ===== verification/QDivRem.thy ===== *)
theory QDivRem
  imports Quad "HOL-Library.Signed_Division"
begin

unbundle bit_operations_syntax

text \<open>
  Division of quads (\<^verbatim>\<open>lib/libc/quad/qdivrem.c\<close>, \<^verbatim>\<open>divdi3.c\<close>, \<^verbatim>\<open>moddi3.c\<close>, \<^verbatim>\<open>udivdi3.c\<close>,
  \<^verbatim>\<open>umoddi3.c\<close>): Knuth's Program D in base \<open>2 ^ 16\<close>.

  The arrays \<open>uspace\<close>, \<open>vspace\<close>, \<open>qspace\<close> are lists of five digits, and the pointers \<open>u\<close>, \<open>v\<close>,
  \<open>q\<close> into them are indices. What the stack holds before the call is the argument \<open>stk\<close>: the
  contents of \<open>qspace\<close> and of \<open>vspace[0]\<close>. The result \<open>None\<close> stands for the trap of the
  division \<open>1 / zero\<close> and for a count that would leave its range. The argument \<open>arq\<close> says
  whether the caller passes a non-null pointer for the remainder.
\<close>

section \<open>Definitions\<close>

type_synonym digit = u_short

definition digit_B :: u_long where "digit_B = push_bit 16 1"

definition COMBINE :: "u_long \<Rightarrow> u_long \<Rightarrow> u_long" where
  "COMBINE a b = push_bit 16 a OR b"

text \<open>\<open>shl(&s[p], len, sh)\<close>, from the loop counter \<open>i\<close> on.\<close>

function shl :: "digit list \<Rightarrow> nat \<Rightarrow> nat \<Rightarrow> nat \<Rightarrow> nat \<Rightarrow> digit list" where
  "shl s p i len sh =
     (if i < len then
        shl (s[p + i := ucast (LHALF (push_bit sh (ucast (s ! (p + i))))
                          OR drop_bit (16 - sh) (ucast (s ! (p + i + 1))))]) p (i + 1) len sh
      else s[p + i := ucast (LHALF (push_bit sh (ucast (s ! (p + i)))))])"
  by pat_completeness auto
termination by (relation "measure (\<lambda>(s, p, i, len, sh). len - i)") auto

text \<open>\<open>if (d > 0) shl(...)\<close>.\<close>

definition norm_shl :: "digit list \<Rightarrow> nat \<Rightarrow> nat \<Rightarrow> nat \<Rightarrow> digit list" where
  "norm_shl s p len d = (if d > 0 then shl s p 0 len d else s)"

text \<open>
  \<open>for (n = 4; v[1] == 0; v++) if (--n == 1) ...\<close>: \<open>Inl v\<close> is the exit to the one-digit division,
  with the divisor at \<open>v[2]\<close>.
\<close>

fun skip_v :: "digit list \<Rightarrow> nat \<Rightarrow> nat \<Rightarrow> nat + nat \<times> nat" where
  "skip_v vs v 0 = Inr (v, 0)"
| "skip_v vs v (Suc n) =
     (if vs ! (v + 1) = 0 then (if n = 1 then Inl v else skip_v vs (v + 1) n) else Inr (v, Suc n))"

text \<open>\<open>for (m = 4 - n; u[1] == 0; u++) m--\<close>; \<open>None\<close> when \<open>m\<close> would drop below zero.\<close>

fun skip_u :: "digit list \<Rightarrow> nat \<Rightarrow> nat \<Rightarrow> (nat \<times> nat) option" where
  "skip_u us u 0 = (if us ! (u + 1) = 0 then None else Some (u, 0))"
| "skip_u us u (Suc m) = (if us ! (u + 1) = 0 then skip_u us (u + 1) m else Some (u, Suc m))"

text \<open>\<open>for (i = 4 - m; --i >= 0;) q[i] = 0\<close>.\<close>

fun zero_q :: "digit list \<Rightarrow> nat \<Rightarrow> digit list" where
  "zero_q qs 0 = qs"
| "zero_q qs (Suc i) = zero_q (qs[i := 0]) i"

text \<open>D1, \<open>for (t = v[1]; t < B / 2; t <<= 1) d++\<close>: with \<open>t = 0\<close> the loop would not end.\<close>

partial_function (option) norm_d :: "u_long \<Rightarrow> nat \<Rightarrow> nat option" where
  "norm_d t d = (if t < digit_B div 2 then norm_d (push_bit 1 t) (d + 1) else Some d)"

declare norm_d.simps [code]

text \<open>D3: the loop \<open>while (v2 * qhat > COMBINE(rhat, uj2))\<close> and, in \<open>qhat_D3\<close>, the jump into it.\<close>

function qhat_while :: "u_long \<Rightarrow> u_long \<Rightarrow> u_long \<Rightarrow> u_long \<Rightarrow> u_long \<Rightarrow> u_long" where
  "qhat_while v1 v2 uj2 qhat rhat =
     (if v2 * qhat > COMBINE rhat uj2 then
        (if rhat + v1 \<ge> digit_B then qhat - 1
         else qhat_while v1 v2 uj2 (qhat - 1) (rhat + v1))
      else qhat)"
  by pat_completeness auto
termination
proof (relation "measure (\<lambda>(v1, v2, uj2, qhat, rhat). unat qhat)")
  fix v1 v2 uj2 qhat rhat :: u_long
  assume "COMBINE rhat uj2 < v2 * qhat"
  then have "qhat \<noteq> 0" by auto
  then have "unat (qhat - 1) < unat qhat" by (simp add: unat_minus_one unat_gt_0)
  then show "((v1, v2, uj2, qhat - 1, rhat + v1), v1, v2, uj2, qhat, rhat)
      \<in> measure (\<lambda>(v1, v2, uj2, qhat, rhat). unat qhat)" by simp
qed simp

definition qhat_D3 :: "digit \<Rightarrow> digit \<Rightarrow> digit \<Rightarrow> digit \<Rightarrow> digit \<Rightarrow> u_long" where
  "qhat_D3 v1 v2 uj0 uj1 uj2 =
     (if uj0 = v1 then
        (let qhat = digit_B; rhat = ucast uj1;
             qhat = qhat - 1; rhat = rhat + ucast v1
         in if rhat \<ge> digit_B then qhat
            else qhat_while (ucast v1) (ucast v2) (ucast uj2) qhat rhat)
      else
        (let n = COMBINE (ucast uj0) (ucast uj1)
         in qhat_while (ucast v1) (ucast v2) (ucast uj2) (n div ucast v1) (n mod ucast v1)))"

text \<open>D4, multiply and subtract, and D6, add back; \<open>uj\<close> is the index of \<open>u[j]\<close>.\<close>

fun mulsub_D4 :: "digit list \<Rightarrow> digit list \<Rightarrow> nat \<Rightarrow> nat \<Rightarrow> u_long \<Rightarrow> nat \<Rightarrow> u_long \<Rightarrow> digit list \<times> u_long" where
  "mulsub_D4 us vs uj v qhat 0 t = (us, t)"
| "mulsub_D4 us vs uj v qhat (Suc i) t =
     (let t = ucast (us ! (uj + Suc i)) - ucast (vs ! (v + Suc i)) * qhat - t
      in mulsub_D4 (us[uj + Suc i := ucast (LHALF t)]) vs uj v qhat i
           ((digit_B - HHALF t) AND (digit_B - 1)))"

fun addback_D6 :: "digit list \<Rightarrow> digit list \<Rightarrow> nat \<Rightarrow> nat \<Rightarrow> nat \<Rightarrow> u_long \<Rightarrow> digit list \<times> u_long" where
  "addback_D6 us vs uj v 0 t = (us, t)"
| "addback_D6 us vs uj v (Suc i) t =
     (let t = t + (ucast (us ! (uj + Suc i)) + ucast (vs ! (v + Suc i)))
      in addback_D6 (us[uj + Suc i := ucast (LHALF t)]) vs uj v i (HHALF t))"

text \<open>The body of the main loop for one \<open>j\<close>: the new array and \<open>qhat\<close>.\<close>

definition div_step :: "digit list \<Rightarrow> digit list \<Rightarrow> nat \<Rightarrow> nat \<Rightarrow> nat \<Rightarrow> digit list \<times> u_long" where
  "div_step us vs uj v n =
     (let qhat = qhat_D3 (vs ! (v + 1)) (vs ! (v + 2)) (us ! uj) (us ! (uj + 1)) (us ! (uj + 2));
          (us, t) = mulsub_D4 us vs uj v qhat n 0;
          t = ucast (us ! uj) - t;
          us = us[uj := ucast (LHALF t)]
      in if HHALF t \<noteq> 0 then
           (let qhat = qhat - 1;
                (us, t) = addback_D6 us vs uj v n 0;
                us = us[uj := ucast (LHALF (ucast (us ! uj) + t))]
            in (us, qhat))
         else (us, qhat))"

text \<open>D7: \<open>do ... while (++j <= m)\<close>, with \<open>k\<close> rounds left.\<close>

fun div_loop :: "digit list \<Rightarrow> digit list \<Rightarrow> digit list \<Rightarrow> nat \<Rightarrow> nat \<Rightarrow> nat \<Rightarrow> nat \<Rightarrow> nat \<Rightarrow> nat
    \<Rightarrow> digit list \<times> digit list" where
  "div_loop us vs qs u v q n j 0 = (us, qs)"
| "div_loop us vs qs u v q n j (Suc k) =
     (let (us, qhat) = div_step us vs (u + j) v n
      in div_loop us vs (qs[q + j := ucast qhat]) u v q n (j + 1) k)"

text \<open>\<open>for (i = m + n; i > m; --i) u[i] = (u[i] >> d) | ...; u[i] = 0\<close>.\<close>

fun shr_rem :: "digit list \<Rightarrow> nat \<Rightarrow> nat \<Rightarrow> nat \<Rightarrow> nat \<Rightarrow> digit list" where
  "shr_rem us u m d 0 = us[u + m := 0]"
| "shr_rem us u m d (Suc k) =
     shr_rem (us[u + m + Suc k := ucast (drop_bit d (ucast (us ! (u + m + Suc k)))
        OR LHALF (push_bit (16 - d) (ucast (us ! (u + m + k)))))]) u m d k"

text \<open>Assembling a quad from digits 1 to 4 of an array, and breaking a quad into them.\<close>

definition combine4 :: "digit list \<Rightarrow> u_quad" where
  "combine4 s = uu_q \<lparr>uu_H = COMBINE (ucast (s ! 1)) (ucast (s ! 2)),
                      uu_L = COMBINE (ucast (s ! 3)) (ucast (s ! 4))\<rparr>"

definition break_digits :: "digit \<Rightarrow> u_quad \<Rightarrow> digit list" where
  "break_digits d0 x =
     (let tmp = uu_of_q x
      in [d0, ucast (HHALF (uu_H tmp)), ucast (LHALF (uu_H tmp)),
             ucast (HHALF (uu_L tmp)), ucast (LHALF (uu_L tmp))])"

text \<open>The one-digit divisor, unrolled as in the source.\<close>

definition short_div :: "digit list \<Rightarrow> u_long \<Rightarrow> u_quad \<times> u_quad" where
  "short_div us t =
     (let q1 = ucast (ucast (us ! 1) div t) :: digit;
          rbj = COMBINE (ucast (us ! 1) mod t) (ucast (us ! 2));
          q2 = ucast (rbj div t) :: digit;
          rbj = COMBINE (rbj mod t) (ucast (us ! 3));
          q3 = ucast (rbj div t) :: digit;
          rbj = COMBINE (rbj mod t) (ucast (us ! 4));
          q4 = ucast (rbj div t) :: digit
      in (uu_q \<lparr>uu_H = COMBINE (ucast q1) (ucast q2), uu_L = COMBINE (ucast q3) (ucast q4)\<rparr>,
          ucast (rbj mod t)))"

definition qdivrem :: "(nat \<Rightarrow> digit) \<Rightarrow> u_quad \<Rightarrow> u_quad \<Rightarrow> bool \<Rightarrow> (u_quad \<times> u_quad option) option" where
  "qdivrem stk uq vq arq =
     (if vq = 0 then None
      else if uq < vq then Some (0, if arq then Some uq else None)
      else
       let us = break_digits 0 uq; vs = break_digits (stk 5) vq; qs = map stk [0..<5]
       in case skip_v vs 0 4 of
            Inl v \<Rightarrow>
             (let (q, r) = short_div us (ucast (vs ! (v + 2))) in Some (q, if arq then Some r else None))
          | Inr (v, n) \<Rightarrow>
             (case skip_u us 0 (4 - n) of
                None \<Rightarrow> None
              | Some (u, m) \<Rightarrow>
                let qs = zero_q qs (4 - m);
                    q = 4 - m
                in case norm_d (ucast (vs ! (v + 1))) 0 of
                   None \<Rightarrow> None
                 | Some d \<Rightarrow>
                    (let us = norm_shl us u (m + n) d;
                         vs = norm_shl vs (v + 1) (n - 1) d;
                         (us, qs) = div_loop us vs qs u v q n 0 (m + 1)
                     in Some (combine4 qs,
                          if arq then Some (combine4 (if d > 0 then shr_rem us u m d n else us))
                          else None))))"


text \<open>
  The four entry points. The C routines compute \<open>neg\<close> with \<open>neg ^= 1\<close>; \<open>None\<close> is the trap of the
  division by zero.
\<close>

definition udivdi3 :: "(nat \<Rightarrow> digit) \<Rightarrow> u_quad \<Rightarrow> u_quad \<Rightarrow> u_quad option" where
  "udivdi3 stk a b = map_option fst (qdivrem stk a b False)"

definition umoddi3 :: "(nat \<Rightarrow> digit) \<Rightarrow> u_quad \<Rightarrow> u_quad \<Rightarrow> u_quad option" where
  "umoddi3 stk a b = Option.bind (qdivrem stk a b True) snd"

definition divdi3 :: "(nat \<Rightarrow> digit) \<Rightarrow> u_quad \<Rightarrow> u_quad \<Rightarrow> u_quad option" where
  "divdi3 stk a b =
     (let (ua, neg) = (if sint a < 0 then (- a, True) else (a, False));
          (ub, neg) = (if sint b < 0 then (- b, \<not> neg) else (b, neg))
      in map_option (\<lambda>(uq, _). if neg then - uq else uq) (qdivrem stk ua ub False))"

definition moddi3 :: "(nat \<Rightarrow> digit) \<Rightarrow> u_quad \<Rightarrow> u_quad \<Rightarrow> u_quad option" where
  "moddi3 stk a b =
     (let (ua, neg) = (if sint a < 0 then (- a, True) else (a, False));
          (ub, neg) = (if sint b < 0 then (- b, \<not> neg) else (b, neg))
      in map_option (\<lambda>ur. if neg then - ur else ur) (Option.bind (qdivrem stk ua ub True) snd))"

declare shl.simps [simp del] qhat_while.simps [simp del]

section \<open>Digits\<close>

lemma unat_digit_B: "unat digit_B = 2 ^ 16"
  by (simp add: digit_B_def)

lemma unat_u_long_lt: "unat x < 2 ^ 32" for x :: u_long
  by (rule order_less_le_trans [OF unsigned_less]) simp

lemma unat_digit_lt: "unat x < 2 ^ 16" for x :: digit
  by (rule order_less_le_trans [OF unsigned_less]) simp

lemma unat_HHALF: "unat (HHALF x) = unat x div 2 ^ 16"
  by (simp add: HHALF_def drop_bit_eq_div unat_div_distrib)

lemma unat_LHALF: "unat (LHALF x) = unat x mod 2 ^ 16"
  by (simp add: LHALF_mask take_bit_eq_mod unat_mod_distrib)

lemma unat_ucast_digit: "unat (ucast x :: digit) = unat x mod 2 ^ 16" for x :: u_long
  by (simp add: unsigned_ucast_eq take_bit_eq_mod)

lemma unat_ucast_LHALF: "unat (ucast (LHALF x) :: digit) = unat x mod 2 ^ 16"
  by (simp add: unat_ucast_digit unat_LHALF)

lemma unat_ucast_u_long: "unat (ucast x :: u_long) = unat x" for x :: digit
  by (rule unat_ucast_up) simp

lemma unat_COMBINE:
  assumes "unat a < 2 ^ 16" "unat b < 2 ^ 16"
  shows "unat (COMBINE a b) = unat a * 2 ^ 16 + unat b"
proof -
  have b: "take_bit 16 b = b"
    using assms(2) by (simp add: take_bit_eq_mod word_arith_nat_mod)
  have "push_bit 16 a AND b = 0"
    by (subst b [symmetric]) (rule bit_word_eqI, auto simp: bit_simps)
  then have "COMBINE a b = push_bit 16 a + b"
    unfolding COMBINE_def by (rule disjunctive_add_eq_or [symmetric])
  moreover have "unat (push_bit 16 a) = unat a * 2 ^ 16"
    using assms(1) by (simp add: push_bit_eq_mult unat_word_ariths)
  ultimately show ?thesis
    using assms by (simp add: unat_word_ariths)
qed

section \<open>The estimate of the quotient digit\<close>

text \<open>
  With \<open>qhat * v1 + rhat\<close> equal to the two leading digits of the dividend, the test against the second
  digit of the divisor decides whether the estimate is too big, and leaves it at most one too big.
\<close>

lemma qhat_bounds:
  fixes U V q qhat rhat B P u0 u1 u2 v1 v2 :: nat
  assumes U: "U < (u0 * B ^ 2 + u1 * B + u2 + 1) * P" "(u0 * B ^ 2 + u1 * B + u2) * P \<le> U"
    and V: "(v1 * B + v2) * P \<le> V" "V < (v1 * B + v2 + 1) * P"
    and q: "q * V \<le> U" "U < (q + 1) * V"
    and inv: "qhat * v1 + rhat = u0 * B + u1"
  shows qhat_upper: "v2 * qhat > rhat * B + u2 \<Longrightarrow> q < qhat"
    and qhat_close: "v2 * qhat \<le> rhat * B + u2 \<Longrightarrow> qhat \<le> v1 * B \<Longrightarrow> qhat \<le> q + 1"
proof -
  have n: "u0 * B ^ 2 + u1 * B + u2 = qhat * v1 * B + rhat * B + u2"
    using arg_cong [OF inv, of "\<lambda>x. x * B"] by (simp add: algebra_simps power2_eq_square)
  show "q < qhat" if "v2 * qhat > rhat * B + u2"
  proof (rule ccontr)
    assume "\<not> q < qhat"
    then have "qhat * ((v1 * B + v2) * P) \<le> q * V"
      using V by (intro mult_mono) auto
    then have "(qhat * (v1 * B + v2)) * P < (u0 * B ^ 2 + u1 * B + u2 + 1) * P"
      using q U by (simp add: algebra_simps)
    then have "qhat * (v1 * B + v2) < u0 * B ^ 2 + u1 * B + u2 + 1"
      by (rule mult_less_cancel2 [THEN iffD1, THEN conjunct2])
    with n that show False by (simp add: algebra_simps)
  qed
  show "qhat \<le> q + 1" if le: "v2 * qhat \<le> rhat * B + u2" and b: "qhat \<le> v1 * B"
  proof (rule ccontr)
    assume "\<not> qhat \<le> q + 1"
    then have "(q + 1) * V \<le> (qhat - 1) * V" by (intro mult_le_mono1) auto
    moreover have "(qhat - 1) * V \<le> (qhat - 1) * ((v1 * B + v2 + 1) * P)"
      using V by (intro mult_le_mono2) auto
    moreover have "qhat * (v1 * B + v2) \<le> u0 * B ^ 2 + u1 * B + u2"
      using n le by (simp add: algebra_simps)
    then have "qhat * (v1 * B + v2) * P \<le> (u0 * B ^ 2 + u1 * B + u2) * P" by (rule mult_le_mono1)
    ultimately have "qhat * (v1 * B + v2) * P < (qhat - 1) * (v1 * B + v2 + 1) * P"
      using q U by (simp add: algebra_simps)
    then have lt: "qhat * (v1 * B + v2) < (qhat - 1) * (v1 * B + v2 + 1)"
      by (rule mult_less_cancel2 [THEN iffD1, THEN conjunct2])
    obtain k where k: "qhat = Suc k" using \<open>\<not> qhat \<le> q + 1\<close> by (cases qhat) auto
    from lt have "v1 * B + v2 < k" by (simp add: k algebra_simps)
    with b k show False by simp
  qed
qed

lemma qhat_initial:
  fixes U V q B P u0 u1 v1 :: nat
  assumes U: "U < (u0 * B + u1 + 1) * P" and V: "v1 * P \<le> V" and q: "q * V \<le> U" and v1: "0 < v1"
  shows "q \<le> (u0 * B + u1) div v1"
proof -
  have "q * v1 * P \<le> q * V" using V by (simp add: mult.assoc)
  also have "\<dots> < (u0 * B + u1 + 1) * P" using q U by linarith
  finally have "q * v1 < u0 * B + u1 + 1" by (rule mult_less_cancel2 [THEN iffD1, THEN conjunct2])
  then show ?thesis using v1 by (simp add: less_eq_div_iff_mult_less_eq)
qed

lemma qhat_while_spec:
  fixes v1 v2 uj2 qhat rhat :: u_long and U V q u0 u1 P :: nat
  defines "B \<equiv> 2 ^ 16 :: nat"
  assumes U: "U < (u0 * B ^ 2 + u1 * B + unat uj2 + 1) * P" "(u0 * B ^ 2 + u1 * B + unat uj2) * P \<le> U"
    and V: "(unat v1 * B + unat v2) * P \<le> V" "V < (unat v1 * B + unat v2 + 1) * P"
    and q: "q * V \<le> U" "U < (q + 1) * V"
    and d: "0 < unat v1" "unat v1 < B" "unat v2 < B" "unat uj2 < B"
  shows "unat qhat * unat v1 + unat rhat = u0 * B + u1 \<Longrightarrow> unat qhat < B \<Longrightarrow> unat rhat < B \<Longrightarrow> q \<le> unat qhat \<Longrightarrow>
    q \<le> unat (qhat_while v1 v2 uj2 qhat rhat) \<and> unat (qhat_while v1 v2 uj2 qhat rhat) \<le> q + 1
    \<and> unat (qhat_while v1 v2 uj2 qhat rhat) < B"
proof (induction "unat qhat" arbitrary: qhat rhat rule: less_induct)
  case less
  note inv = less.prems(1) and bounds = less.prems(2,3) and le = less.prems(4)
  have Bv: "B \<le> unat v1 * B" using d by simp
  have prod: "unat (v2 * qhat) = unat v2 * unat qhat"
  proof -
    have "unat v2 * unat qhat < B * B" using d bounds by (intro mult_strict_mono) auto
    then show ?thesis by (simp add: unat_word_ariths B_def)
  qed
  have test: "v2 * qhat > COMBINE rhat uj2 \<longleftrightarrow> unat v2 * unat qhat > unat rhat * B + unat uj2"
    using bounds d unfolding word_less_nat_alt prod by (subst unat_COMBINE) (simp_all add: B_def)
  note close = qhat_close [OF U V q] and upper = qhat_upper [OF U V q]
  show ?case
  proof (cases "v2 * qhat > COMBINE rhat uj2")
    case False
    then have "qhat_while v1 v2 uj2 qhat rhat = qhat"
      by (subst qhat_while.simps) simp
    moreover have "unat qhat \<le> q + 1"
    proof (rule close [OF inv])
      show "unat v2 * unat qhat \<le> unat rhat * B + unat uj2" using False test by simp
      show "unat qhat \<le> unat v1 * B" using bounds Bv by linarith
    qed
    ultimately show ?thesis using le bounds by simp
  next
    case True
    then have lt: "q < unat qhat" using upper [OF inv] test by simp
    have q1: "unat (qhat - 1) = unat qhat - 1"
      using lt by (intro unat_minus_one) auto
    have r1: "unat (rhat + v1) = unat rhat + unat v1"
      using bounds d by (simp add: unat_word_ariths B_def)
    have inv1: "unat (qhat - 1) * unat v1 + unat (rhat + v1) = u0 * B + u1"
      using lt inv unfolding q1 r1 by (cases "unat qhat") auto
    have b1: "unat (qhat - 1) < B" "q \<le> unat (qhat - 1)" using bounds lt unfolding q1 by auto
    show ?thesis
    proof (cases "digit_B \<le> rhat + v1")
      case big: True
      then have "B \<le> unat (rhat + v1)"
        by (simp only: word_le_nat_alt unat_digit_B B_def)
      then have "B * B \<le> unat (rhat + v1) * B" by (rule mult_le_mono1)
      moreover have "unat v2 * unat (qhat - 1) < B * B" using d b1 by (intro mult_strict_mono) auto
      ultimately have "unat v2 * unat (qhat - 1) \<le> unat (rhat + v1) * B + unat uj2" by linarith
      then have "unat (qhat - 1) \<le> q + 1"
        by (rule close [OF inv1]) (use b1 Bv in linarith)
      then show ?thesis using True big b1 by (subst (1 2 3) qhat_while.simps) simp
    next
      case small: False
      then have "unat (rhat + v1) < B" by (simp only: not_le word_less_nat_alt unat_digit_B B_def)
      moreover have "unat (qhat - 1) < unat qhat" using lt unfolding q1 by simp
      ultimately show ?thesis
        using less.hyps [of "qhat - 1" "rhat + v1"] inv1 b1 True small
        by (subst (1 2 3) qhat_while.simps) simp
    qed
  qed
qed

lemma qhat_D3_spec:
  fixes v1 v2 uj0 uj1 uj2 :: digit and U V q P :: nat
  defines "B \<equiv> 2 ^ 16 :: nat"
  assumes U: "U < (unat uj0 * B ^ 2 + unat uj1 * B + unat uj2 + 1) * P"
      "(unat uj0 * B ^ 2 + unat uj1 * B + unat uj2) * P \<le> U"
    and V: "(unat v1 * B + unat v2) * P \<le> V" "V < (unat v1 * B + unat v2 + 1) * P"
    and q: "q * V \<le> U" "U < (q + 1) * V" "q < B"
    and v1: "0 < unat v1" and le: "uj0 \<le> v1"
  shows "q \<le> unat (qhat_D3 v1 v2 uj0 uj1 uj2) \<and> unat (qhat_D3 v1 v2 uj0 uj1 uj2) \<le> q + 1
    \<and> unat (qhat_D3 v1 v2 uj0 uj1 uj2) < B"
proof -
  have lt: "unat x < B" for x :: digit unfolding B_def by (rule unat_digit_lt)
  note spec = qhat_while_spec [where ?uj2.0 = "ucast uj2" and ?v1.0 = "ucast v1" and ?v2.0 = "ucast v2"
      and ?u0.0 = "unat uj0" and ?u1.0 = "unat uj1" and U = U and V = V and q = q and P = P,
      unfolded unat_ucast_u_long, folded B_def, OF U V q(1,2) v1 lt lt lt]
  show ?thesis
  proof (cases "uj0 = v1")
    case True
    have q0: "unat (digit_B - 1) = B - 1" by (simp add: digit_B_def B_def)
    have r0: "unat (ucast uj1 + ucast v1 :: u_long) = unat uj1 + unat v1"
      using lt [of uj1] lt [of v1] by (simp add: unat_word_ariths unat_ucast_u_long B_def)
    have inv: "unat (digit_B - 1) * unat v1 + unat (ucast uj1 + ucast v1 :: u_long) = unat uj0 * B + unat uj1"
      unfolding q0 r0 True by (simp add: B_def)
    show ?thesis
    proof (cases "digit_B \<le> (ucast uj1 + ucast v1 :: u_long)")
      case big: True
      then have "B \<le> unat uj1 + unat v1"
        by (simp only: word_le_nat_alt unat_digit_B r0 B_def)
      then have "B * B \<le> (unat uj1 + unat v1) * B" by (rule mult_le_mono1)
      moreover have "unat v2 * (B - 1) < B * B" using lt [of v2] by (intro mult_strict_mono) (auto simp: B_def)
      ultimately have "unat v2 * (B - 1) \<le> (unat uj1 + unat v1) * B + unat uj2" by linarith
      moreover have "B * 1 \<le> unat v1 * B" using v1 by simp
      then have "B - 1 \<le> unat v1 * B" by linarith
      ultimately have "B - 1 \<le> q + 1"
        by (rule qhat_close [OF U V q(1,2) inv [unfolded q0 r0]])
      then show ?thesis using True big q q0 by (simp add: qhat_D3_def Let_def)
    next
      case False
      then have "unat (ucast uj1 + ucast v1 :: u_long) < B"
        by (simp only: not_le word_less_nat_alt unat_digit_B B_def)
      then show ?thesis
        using spec [OF inv] True False q by (simp add: qhat_D3_def Let_def q0)
    qed
  next
    case False
    then have l: "unat uj0 < unat v1" using le by (simp add: word_le_nat_alt word_unat_eq_iff)
    let ?n = "COMBINE (ucast uj0) (ucast uj1)"
    have n: "unat ?n = unat uj0 * B + unat uj1"
      using lt [of uj0] lt [of uj1] unfolding B_def by (subst unat_COMBINE) (simp_all add: unat_ucast_u_long)
    have dm: "unat (?n div ucast v1) = (unat uj0 * B + unat uj1) div unat v1"
      "unat (?n mod ucast v1) = (unat uj0 * B + unat uj1) mod unat v1"
      by (simp_all add: unat_div_distrib unat_mod_distrib unat_ucast_u_long n)
    have "unat uj0 * B + unat uj1 < (unat uj0 + 1) * B" using lt [of uj1] by simp
    also have "\<dots> \<le> unat v1 * B" using l by (intro mult_le_mono1) simp
    finally have qB: "(unat uj0 * B + unat uj1) div unat v1 < B"
      using v1 by (simp add: div_less_iff_less_mult mult.commute)
    have "q \<le> (unat uj0 * B + unat uj1) div unat v1"
    proof (rule qhat_initial [of U _ _ _ "B * P" _ V])
      show "U < (unat uj0 * B + unat uj1 + 1) * (B * P)"
      proof (rule order_less_le_trans [OF U(1)])
        have "(unat uj2 + 1) * P \<le> B * P" using lt [of uj2] by (intro mult_le_mono1) simp
        then show "(unat uj0 * B ^ 2 + unat uj1 * B + unat uj2 + 1) * P
            \<le> (unat uj0 * B + unat uj1 + 1) * (B * P)"
          by (simp add: algebra_simps power2_eq_square)
      qed
      show "unat v1 * (B * P) \<le> V" using V(1) by (simp add: algebra_simps)
    qed (use q v1 in auto)
    moreover have "(unat uj0 * B + unat uj1) mod unat v1 < B"
      using v1 lt [of v1] by (meson mod_less_divisor order_less_trans)
    ultimately show ?thesis
      using spec [of "?n div ucast v1" "?n mod ucast v1"] False qB by (simp add: qhat_D3_def Let_def dm)
  qed
qed

section \<open>Digit strings as numbers\<close>

text \<open>The number written by the \<open>k\<close> digits that start at index \<open>a\<close>, most significant first.\<close>

fun seg :: "digit list \<Rightarrow> nat \<Rightarrow> nat \<Rightarrow> nat" where
  "seg s a 0 = 0"
| "seg s a (Suc k) = seg s a k * 2 ^ 16 + unat (s ! (a + k))"

lemma seg_less: "seg s a k < (2 ^ 16) ^ k"
proof (induction k)
  case (Suc k)
  have "seg s a (Suc k) < (seg s a k + 1) * 2 ^ 16" using unat_digit_lt [of "s ! (a + k)"] by simp
  also have "\<dots> \<le> (2 ^ 16) ^ k * 2 ^ 16" using Suc by (intro mult_le_mono1) simp
  finally show ?case by (simp add: mult.commute)
qed simp

lemma seg_cong: "(\<And>i. i < k \<Longrightarrow> s ! (a + i) = s' ! (a' + i)) \<Longrightarrow> seg s a k = seg s' a' k"
  by (induction k) simp_all

lemma seg_add: "seg s a (k + l) = seg s a k * (2 ^ 16) ^ l + seg s (a + k) l"
  by (induction l) (simp_all add: algebra_simps)

lemma seg_Suc_front: "seg s a (Suc k) = unat (s ! a) * (2 ^ 16) ^ k + seg s (Suc a) k"
  using seg_add [of s a 1 k] by simp

lemma unat_borrow:
  "unat ((digit_B - HHALF t) AND (digit_B - 1)) = (2 ^ 16 - unat t div 2 ^ 16) mod 2 ^ 16"
proof -
  have "HHALF t \<le> digit_B"
    using unat_u_long_lt [of t] by (simp add: word_le_nat_alt unat_digit_B unat_HHALF)
  then have "unat (digit_B - HHALF t) = 2 ^ 16 - unat t div 2 ^ 16"
    by (simp add: unat_sub unat_digit_B unat_HHALF)
  moreover have "x AND (digit_B - 1) = LHALF x" for x
    by (simp add: LHALF_def digit_B_def)
  ultimately show ?thesis by (simp add: unat_LHALF)
qed

lemma sub_digit:
  fixes u v :: digit and qhat t :: u_long
  assumes "unat qhat < 2 ^ 16" "unat t < 2 ^ 16"
  defines "t' \<equiv> ucast u - ucast v * qhat - t"
  shows "unat u + unat ((digit_B - HHALF t') AND (digit_B - 1)) * 2 ^ 16
      = unat v * unat qhat + unat t + unat (ucast (LHALF t') :: digit)"
    and "unat ((digit_B - HHALF t') AND (digit_B - 1)) < 2 ^ 16"
proof -
  define X where "X = unat v * unat qhat + unat t"
  have "unat v * unat qhat \<le> (2 ^ 16 - 1) * (2 ^ 16 - 1)"
    using unat_digit_lt [of v] assms(1) by (intro mult_le_mono) auto
  then have X: "X \<le> 2 ^ 32 - 2 ^ 16" using assms(2) by (simp add: X_def)
  have "uint t' = (uint u - uint v * uint qhat - uint t) mod 2 ^ 32"
    by (simp add: t'_def uint_word_ariths mod_simps uint_ucast_up)
  moreover have "int X = uint v * uint qhat + uint t" by (simp add: X_def)
  ultimately have T: "int (unat t') = (int (unat u) - int X) mod 2 ^ 32"
    by (simp add: diff_diff_eq)
  let ?T = "unat t'"
  show "unat u + unat ((digit_B - HHALF t') AND (digit_B - 1)) * 2 ^ 16
      = unat v * unat qhat + unat t + unat (ucast (LHALF t') :: digit)"
  proof (cases "X \<le> unat u")
    case True
    have "(int (unat u) - int X) mod 2 ^ 32 = int (unat u) - int X"
    proof (rule mod_pos_pos_trivial)
      show "0 \<le> int (unat u) - int X" using True by linarith
      have "int (unat u) < 65536" using unat_digit_lt [of u] by (simp del: of_nat_unat)
      then have "int (unat u) - int X < 4294967296" by linarith
      then show "int (unat u) - int X < 2 ^ 32" by (simp del: of_nat_unat)
    qed
    then have "?T = unat u - X" using T True by linarith
    moreover have "?T < 2 ^ 16" using calculation unat_digit_lt [of u] by linarith
    ultimately show ?thesis
      using True by (simp add: unat_borrow unat_ucast_LHALF X_def)
  next
    case False
    have "(int (unat u) - int X) mod 2 ^ 32 = (int (unat u) - int X + 2 ^ 32) mod 2 ^ 32" by simp
    also have "\<dots> = int (unat u) - int X + 2 ^ 32"
      by (rule mod_pos_pos_trivial) (use False X in \<open>auto simp del: of_nat_unat\<close>)
    finally have "int (?T + X) = int (unat u + 2 ^ 32)" using T by (simp del: of_nat_unat)
    then have eq: "?T + X = unat u + 2 ^ 32" by (simp only: of_nat_eq_iff)
    then have ge: "2 ^ 16 \<le> ?T" using X by simp
    then have h: "1 \<le> ?T div 2 ^ 16" by (simp add: less_eq_div_iff_mult_less_eq)
    have h2: "?T div 2 ^ 16 \<le> 2 ^ 16" using unat_u_long_lt [of t'] by simp
    define h l where "h = ?T div 2 ^ 16" and "l = ?T mod 2 ^ 16"
    have "?T = h * 65536 + l" by (simp add: h_def l_def)
    then have "unat u + (65536 - h) * 65536 = X + l" using eq h2 [folded h_def] by simp
    moreover have "(65536 - h) mod 65536 = 65536 - h" using h [folded h_def] by simp
    ultimately show ?thesis
      unfolding unat_borrow unat_ucast_LHALF X_def h_def [symmetric] l_def [symmetric] by simp
  qed
  show "unat ((digit_B - HHALF t') AND (digit_B - 1)) < 2 ^ 16"
    unfolding unat_borrow by simp
qed

lemma mulsub_D4_spec:
  assumes "unat qhat < 2 ^ 16" "length us > uj + i"
  shows "unat t < 2 ^ 16 \<Longrightarrow> mulsub_D4 us vs uj v qhat i t = (us', t') \<Longrightarrow>
    seg us' (uj + 1) i + unat qhat * seg vs (v + 1) i + unat t = seg us (uj + 1) i + unat t' * (2 ^ 16) ^ i
    \<and> unat t' < 2 ^ 16 \<and> length us' = length us
    \<and> (\<forall>k. k \<le> uj \<or> uj + i < k \<longrightarrow> us' ! k = us ! k)"
  using assms(2)
proof (induction i arbitrary: us t)
  case 0
  then show ?case by simp
next
  case (Suc i)
  let ?d = "us ! (uj + Suc i)" and ?w = "vs ! (v + Suc i)"
  define r where "r = ucast ?d - ucast ?w * qhat - t"
  define b where "b = (digit_B - HHALF r) AND (digit_B - 1)"
  have digit: "unat ?d + unat b * 2 ^ 16 = unat ?w * unat qhat + unat t + unat (ucast (LHALF r) :: digit)"
    and "unat b < 2 ^ 16"
    unfolding b_def r_def by (rule sub_digit [OF assms(1) Suc.prems(1)])+
  moreover have rec: "mulsub_D4 (us[uj + Suc i := ucast (LHALF r)]) vs uj v qhat i b = (us', t')"
    using Suc.prems(2) by (simp add: Let_def r_def b_def)
  ultimately have IH: "seg us' (uj + 1) i + unat qhat * seg vs (v + 1) i + unat b
        = seg (us[uj + Suc i := ucast (LHALF r)]) (uj + 1) i + unat t' * (2 ^ 16) ^ i"
      "unat t' < 2 ^ 16" "length us' = length us"
      "\<forall>k. k \<le> uj \<or> uj + i < k \<longrightarrow> us' ! k = us[uj + Suc i := ucast (LHALF r)] ! k"
    using Suc.IH [OF _ rec] Suc.prems(3) by auto
  have s1: "seg (us[uj + Suc i := ucast (LHALF r)]) (uj + 1) i = seg us (uj + 1) i"
    by (rule seg_cong) simp
  have s2: "us' ! (uj + Suc i) = ucast (LHALF r)"
    using IH(4) Suc.prems(3) by simp
  have "(seg us' (uj + 1) i + unat qhat * seg vs (v + 1) i + unat b) * 2 ^ 16
      = (seg us (uj + 1) i + unat t' * (2 ^ 16) ^ i) * 2 ^ 16"
    using IH(1) unfolding s1 by simp
  then have "seg us' (uj + 1) (Suc i) + unat qhat * seg vs (v + 1) (Suc i) + unat t
      = seg us (uj + 1) (Suc i) + unat t' * (2 ^ 16) ^ Suc i"
    using digit s2 by (simp add: algebra_simps)
  moreover have "\<forall>k. k \<le> uj \<or> uj + Suc i < k \<longrightarrow> us' ! k = us ! k"
    using IH(4) by auto
  ultimately show ?case using IH by blast
qed

lemma addback_D6_spec:
  assumes "length us > uj + i"
  shows "unat t \<le> 1 \<Longrightarrow> addback_D6 us vs uj v i t = (us', t') \<Longrightarrow>
    seg us' (uj + 1) i + unat t' * (2 ^ 16) ^ i = seg us (uj + 1) i + seg vs (v + 1) i + unat t
    \<and> unat t' \<le> 1 \<and> length us' = length us
    \<and> (\<forall>k. k \<le> uj \<or> uj + i < k \<longrightarrow> us' ! k = us ! k)"
  using assms
proof (induction i arbitrary: us t)
  case 0
  then show ?case by simp
next
  case (Suc i)
  let ?d = "us ! (uj + Suc i)" and ?w = "vs ! (v + Suc i)"
  define r where "r = t + (ucast ?d + ucast ?w)"
  have r: "unat r = unat t + unat ?d + unat ?w"
    using Suc.prems(1) unat_digit_lt [of ?d] unat_digit_lt [of ?w]
    by (simp add: r_def unat_word_ariths unat_ucast_u_long)
  then have "unat (HHALF r) \<le> 1"
    using Suc.prems(1) unat_digit_lt [of ?d] unat_digit_lt [of ?w] by (simp add: unat_HHALF)
  moreover have rec: "addback_D6 (us[uj + Suc i := ucast (LHALF r)]) vs uj v i (HHALF r) = (us', t')"
    using Suc.prems(2) by (simp add: Let_def r_def)
  ultimately have IH: "seg us' (uj + 1) i + unat t' * (2 ^ 16) ^ i
        = seg (us[uj + Suc i := ucast (LHALF r)]) (uj + 1) i + seg vs (v + 1) i + unat (HHALF r)"
      "unat t' \<le> 1" "length us' = length us"
      "\<forall>k. k \<le> uj \<or> uj + i < k \<longrightarrow> us' ! k = us[uj + Suc i := ucast (LHALF r)] ! k"
    using Suc.IH [OF _ rec] Suc.prems(3) by auto
  have s1: "seg (us[uj + Suc i := ucast (LHALF r)]) (uj + 1) i = seg us (uj + 1) i"
    by (rule seg_cong) simp
  have s2: "us' ! (uj + Suc i) = ucast (LHALF r)"
    using IH(4) Suc.prems(3) by simp
  have "(seg us' (uj + 1) i + unat t' * (2 ^ 16) ^ i) * 2 ^ 16 + unat r mod 2 ^ 16
      = (seg us (uj + 1) i + seg vs (v + 1) i) * 2 ^ 16 + unat r"
    using IH(1) unfolding s1 by (simp add: unat_HHALF algebra_simps)
  then have "seg us' (uj + 1) (Suc i) + unat t' * (2 ^ 16) ^ Suc i
      = seg us (uj + 1) (Suc i) + seg vs (v + 1) (Suc i) + unat t"
    using r s2 by (simp add: algebra_simps unat_ucast_LHALF)
  moreover have "\<forall>k. k \<le> uj \<or> uj + Suc i < k \<longrightarrow> us' ! k = us ! k"
    using IH(4) by auto
  ultimately show ?case using IH by blast
qed

text \<open>The estimate of D3 is the true digit of the quotient or one more.\<close>

lemma D3_estimate:
  fixes us vs :: "digit list"
  defines "B \<equiv> 2 ^ 16 :: nat"
  defines "qhat \<equiv> \<lambda>uj v. qhat_D3 (vs ! (v + 1)) (vs ! (v + 2)) (us ! uj) (us ! (uj + 1)) (us ! (uj + 2))"
  assumes n: "2 \<le> n" and v1: "0 < unat (vs ! (v + 1))"
    and small: "seg us uj (Suc n) < B * seg vs (v + 1) n"
  shows "seg us uj (Suc n) div seg vs (v + 1) n \<le> unat (qhat uj v)
    \<and> unat (qhat uj v) \<le> seg us uj (Suc n) div seg vs (v + 1) n + 1 \<and> unat (qhat uj v) < B"
proof -
  define U V where "U = seg us uj (Suc n)" and "V = seg vs (v + 1) n"
  obtain k where k: "n = Suc (Suc k)" using n by (metis add_2_eq_Suc le_Suc_ex)
  have V0: "0 < V" using v1 by (simp add: V_def k seg_Suc_front del: seg.simps(2))
  have "U = U div V * V + U mod V" "U mod V < V" using V0 by simp_all
  then have q: "U div V * V \<le> U" "U < (U div V + 1) * V" unfolding distrib_right by linarith+
  have qB: "U div V < B"
    using V0 small unfolding U_def [symmetric] V_def [symmetric] by (simp add: div_less_iff_less_mult)
  have Us: "U = (unat (us ! uj) * B ^ 2 + unat (us ! (uj + 1)) * B + unat (us ! (uj + 2))) * B ^ k
      + seg us (uj + 3) k"
    by (simp add: U_def k seg_Suc_front B_def algebra_simps power2_eq_square numeral_3_eq_3 del: seg.simps(2))
  have Vs: "V = (unat (vs ! (v + 1)) * B + unat (vs ! (v + 2))) * B ^ k + seg vs (v + 3) k"
    by (simp add: V_def k seg_Suc_front B_def algebra_simps numeral_3_eq_3 del: seg.simps(2))
  have sm: "seg us (uj + 3) k < B ^ k" "seg vs (v + 3) k < B ^ k" unfolding B_def by (rule seg_less)+
  have "unat (us ! uj) * B ^ n \<le> U" by (simp add: U_def seg_Suc_front B_def del: seg.simps(2))
  also have "U < B * V" using small by (simp add: U_def V_def)
  also have "\<dots> \<le> B * ((unat (vs ! (v + 1)) + 1) * B ^ Suc k)"
    using seg_Suc_front [of vs "v + 1" "Suc k"] seg_less [of vs "Suc (v + 1)" "Suc k"]
    unfolding V_def B_def k by (intro mult_le_mono2) (simp add: algebra_simps del: seg.simps(2))
  also have "\<dots> = (unat (vs ! (v + 1)) + 1) * B ^ n" by (simp add: k algebra_simps)
  finally have "unat (us ! uj) < unat (vs ! (v + 1)) + 1"
    by (rule mult_less_cancel2 [THEN iffD1, THEN conjunct2])
  then have le: "us ! uj \<le> vs ! (v + 1)" by (simp add: word_le_nat_alt)
  show ?thesis
    unfolding qhat_def U_def [symmetric] V_def [symmetric]
    by (rule qhat_D3_spec [of U _ _ _ "(2 ^ 16) ^ k" _ _ V, folded B_def, OF _ _ _ _ q qB v1 le])
       (use Us Vs sm in \<open>simp_all add: algebra_simps\<close>)
qed

lemma top_digit:
  fixes a :: digit and t1 :: u_long
  assumes "unat t1 < 2 ^ 16"
  defines "t \<equiv> ucast a - t1"
  shows "HHALF t = 0 \<longleftrightarrow> unat t1 \<le> unat a"
    and "unat t1 \<le> unat a \<Longrightarrow> unat (ucast (LHALF t) :: digit) = unat a - unat t1"
    and "unat a < unat t1 \<Longrightarrow> unat (ucast (LHALF t) :: digit) = 2 ^ 16 + unat a - unat t1"
proof -
  have t: "unat t = (if unat t1 \<le> unat a then unat a - unat t1 else unat a + 2 ^ 32 - unat t1)"
    unfolding t_def unat_sub_if_size by (simp add: unat_ucast_u_long word_size)
  have a: "unat a < 2 ^ 16" by (rule unat_digit_lt)
  have hh: "HHALF t = 0 \<longleftrightarrow> unat t div 2 ^ 16 = 0"
    unfolding unat_HHALF [symmetric] by (simp add: unat_eq_0)
  show "HHALF t = 0 \<longleftrightarrow> unat t1 \<le> unat a"
    unfolding hh using a assms(1) by (auto simp: t)
  show "unat (ucast (LHALF t) :: digit) = unat a - unat t1" if "unat t1 \<le> unat a"
    using that a by (simp add: unat_ucast_LHALF t)
  show "unat (ucast (LHALF t) :: digit) = 2 ^ 16 + unat a - unat t1" if "unat a < unat t1"
  proof -
    have "unat a + 2 ^ 32 - unat t1 = (2 ^ 16 + unat a - unat t1) + 65535 * 2 ^ 16"
      using assms(1) by simp
    then have "(unat a + 2 ^ 32 - unat t1) mod 2 ^ 16 = (2 ^ 16 + unat a - unat t1) mod 2 ^ 16"
      by (metis mod_mult_self1)
    then show ?thesis using that a by (simp add: unat_ucast_LHALF t)
  qed
qed

text \<open>The arithmetic of D4 to D6: what the borrow out of the top digit says.\<close>

lemma partial_remainder:
  fixes x y P z :: int
  assumes "x * P + y = z" "0 \<le> y" "y < P" "0 \<le> z" "z < P"
  shows "x = 0" "y = z"
  using two_digit_eq [of y P z x 0] assms by (simp_all add: mult.commute)

lemma borrow_arith:
  fixes U V P a t1 s s1 qh :: nat
  assumes V: "0 < V" "V < P" and U: "U = a * P + s" and sub: "s1 + qh * V = s + t1 * P" and s1: "s1 < P"
    and qh: "U div V \<le> qh" "qh \<le> U div V + 1"
  shows no_borrow: "t1 \<le> a \<Longrightarrow> qh = U div V \<and> a = t1 \<and> s1 = U mod V"
    and with_borrow: "a < t1 \<Longrightarrow> s3 + t3 * P = s1 + V \<Longrightarrow> s3 < P \<Longrightarrow>
      qh = U div V + 1 \<and> a + t3 = t1 \<and> s3 = U mod V"
proof -
  have eq: "(int a - int t1) * int P + int s1 = int U - int qh * int V"
    using arg_cong [OF sub, of int] unfolding U by (simp add: algebra_simps)
  have R: "int U = int (U div V) * int V + int (U mod V)"
    by (metis div_mult_mod_eq of_nat_add of_nat_mult)
  have RP: "int (U mod V) < int P" using V by (simp add: order_less_trans [OF mod_less_divisor])
  show "qh = U div V \<and> a = t1 \<and> s1 = U mod V" if "t1 \<le> a"
  proof -
    have "qh * V \<le> s + t1 * P" using sub by linarith
    also have "\<dots> \<le> U" using that unfolding U by (simp add: mult_le_mono1)
    finally have "qh \<le> U div V" using V by (simp add: less_eq_div_iff_mult_less_eq)
    then have "qh = U div V" using qh by simp
    then show ?thesis
      using partial_remainder [OF eq] R RP s1 by simp
  qed
  show "qh = U div V + 1 \<and> a + t3 = t1 \<and> s3 = U mod V"
    if "a < t1" "s3 + t3 * P = s1 + V" "s3 < P"
  proof -
    have "(a + 1) * P \<le> t1 * P" using that(1) by (intro mult_le_mono1) simp
    then have "U < qh * V" using s1 sub unfolding U by simp
    then have "U div V < qh" using V by (simp add: div_less_iff_less_mult)
    then have q1: "qh = U div V + 1" using qh by simp
    have "(int a - int t1 + int t3) * int P + int s3 = int (U mod V)"
      using eq R arg_cong [OF that(2), of int] unfolding q1 by (simp add: algebra_simps)
    then show ?thesis
      using partial_remainder [of "int a - int t1 + int t3" "int P" "int s3" "int (U mod V)"] RP that(3) q1
      by simp
  qed
qed

text \<open>One round of Program D: the digit of the quotient and the new partial remainder.\<close>

lemma div_step_spec:
  assumes n: "2 \<le> n" and len: "uj + n < length us"
    and v1: "0 < unat (vs ! (v + 1))"
    and small: "seg us uj (Suc n) < 2 ^ 16 * seg vs (v + 1) n"
    and step: "div_step us vs uj v n = (us', qhat)"
  shows "unat qhat = seg us uj (Suc n) div seg vs (v + 1) n \<and> us' ! uj = 0
    \<and> seg us' (uj + 1) n = seg us uj (Suc n) mod seg vs (v + 1) n
    \<and> length us' = length us \<and> (\<forall>k. k < uj \<or> uj + n < k \<longrightarrow> us' ! k = us ! k)"
proof -
  define B U V where "B = (2 ^ 16 :: nat)" and "U = seg us uj (Suc n)" and "V = seg vs (v + 1) n"
  define qh where "qh = qhat_D3 (vs ! (v + 1)) (vs ! (v + 2)) (us ! uj) (us ! (uj + 1)) (us ! (uj + 2))"
  have D3: "U div V \<le> unat qh" "unat qh \<le> U div V + 1" "unat qh < B"
    using D3_estimate [OF n v1 small] by (simp_all add: U_def V_def qh_def B_def del: seg.simps(2))
  obtain us1 t1 where sub: "mulsub_D4 us vs uj v qh n 0 = (us1, t1)" by fastforce
  have s1: "seg us1 (uj + 1) n + unat qh * V = seg us (uj + 1) n + unat t1 * B ^ n"
      "unat t1 < B" "length us1 = length us" "\<forall>k. k \<le> uj \<or> uj + n < k \<longrightarrow> us1 ! k = us ! k"
    using mulsub_D4_spec [OF _ len _ sub] D3 by (simp_all add: B_def V_def)
  define t where "t = ucast (us ! uj) - t1"
  note top = top_digit [OF s1(2) [unfolded B_def], of "us ! uj", folded t_def B_def]
  define us2 where "us2 = us1[uj := ucast (LHALF t)]"
  have seg2: "seg us2 (uj + 1) n = seg us1 (uj + 1) n" unfolding us2_def by (rule seg_cong) simp
  have U: "U = unat (us ! uj) * B ^ n + seg us (uj + 1) n"
    unfolding U_def B_def using seg_Suc_front [of us uj n] by (simp only: Suc_eq_plus1)
  have sl: "seg x y n < B ^ n" for x y unfolding B_def by (rule seg_less)
  have V: "0 < V" "V < B ^ n" using small sl by (auto simp: V_def intro: gr0I)
  note arith = no_borrow [OF V U s1(1) sl D3(1,2)] with_borrow [OF V U s1(1) sl D3(1,2)]
  have u1: "us1 ! uj = us ! uj" using s1(4) by simp
  note step' = step [unfolded div_step_def qh_def [symmetric] Let_def sub prod.case u1, folded t_def us2_def]
  show ?thesis
  proof (cases "unat t1 \<le> unat (us ! uj)")
    case True
    have "us' = us2" "qhat = qh"
      using step' True top(1) by simp_all
    then show ?thesis
      using arith(1) [OF True] top(2) [OF True] s1(3,4) len seg2
      by (simp add: us2_def U_def V_def unat_eq_0 del: seg.simps(2))
  next
    case False
    obtain us3 t3 where add: "addback_D6 us2 vs uj v n 0 = (us3, t3)" by fastforce
    have s3: "seg us3 (uj + 1) n + unat t3 * B ^ n = seg us1 (uj + 1) n + V" "unat t3 \<le> 1"
        "length us3 = length us" "\<forall>k. k \<le> uj \<or> uj + n < k \<longrightarrow> us3 ! k = us2 ! k"
      using addback_D6_spec [OF _ _ add] len s1(3) seg2 by (simp_all add: us2_def V_def B_def)
    note ar = arith(2) [OF _ s3(1) sl]
    have d: "us3 ! uj = ucast (LHALF t)" using s3(4) len s1(3) by (simp add: us2_def)
    have "unat t3 = 1" "unat t1 = unat (us ! uj) + 1" using ar False s3(2) by auto
    then have "unat (ucast (LHALF (ucast (us3 ! uj) + t3)) :: digit) = 0"
      using top(3) unfolding d unat_ucast_LHALF
      by (simp add: unat_word_ariths unat_ucast_u_long unat_ucast_LHALF B_def)
    moreover have "us' = us3[uj := ucast (LHALF (ucast (us3 ! uj) + t3))]" "qhat = qh - 1"
      using step' False top(1) by (simp_all add: add)
    moreover have "unat (qh - 1) = U div V" using ar False by (subst unat_minus_one) auto
    moreover have "seg (us3[uj := x]) (uj + 1) n = seg us3 (uj + 1) n" for x by (rule seg_cong) simp
    ultimately show ?thesis
      using ar False s3(3,4) s1(4) len by (simp add: us2_def U_def V_def unat_eq_0 del: seg.simps(2))
  qed
qed

lemma div_loop_spec:
  assumes n: "2 \<le> n" and v1: "0 < unat (vs ! (v + 1))"
  shows "u + j + n + k \<le> length us \<Longrightarrow> q + j + k \<le> length qs \<Longrightarrow>
    seg us (u + j) n < seg vs (v + 1) n \<Longrightarrow>
    div_loop us vs qs u v q n j k = (us', qs') \<Longrightarrow>
    seg qs' (q + j) k = seg us (u + j) (n + k) div seg vs (v + 1) n
    \<and> seg us' (u + j + k) n = seg us (u + j) (n + k) mod seg vs (v + 1) n
    \<and> length us' = length us \<and> length qs' = length qs
    \<and> (\<forall>i. u + j \<le> i \<and> i < u + j + k \<longrightarrow> us' ! i = 0)
    \<and> (\<forall>i. i < u + j \<or> u + j + n + k \<le> i \<longrightarrow> us' ! i = us ! i)
    \<and> (\<forall>i. i < q + j \<or> q + j + k \<le> i \<longrightarrow> qs' ! i = qs ! i)"
proof (induction k arbitrary: us qs j)
  case 0
  then show ?case by auto
next
  case (Suc k)
  define B V where "B = (2 ^ 16 :: nat)" and "V = seg vs (v + 1) n"
  define U where "U = seg us (u + j) (Suc n)"
  have V0: "0 < V" using Suc.prems(3) by (simp add: V_def)
  have "U < (seg us (u + j) n + 1) * B" using unat_digit_lt [of "us ! (u + j + n)"] by (simp add: U_def B_def)
  also have "\<dots> \<le> V * B" using Suc.prems(3) by (intro mult_le_mono1) (simp add: V_def)
  finally have UV: "U < B * V" by (simp add: mult.commute)
  obtain us1 qhat where step: "div_step us vs (u + j) v n = (us1, qhat)" by fastforce
  have len: "u + j + n < length us" using Suc.prems(1) by simp
  have s1: "unat qhat = U div V" "us1 ! (u + j) = 0" "seg us1 (u + j + 1) n = U mod V"
      "length us1 = length us" "\<forall>i. i < u + j \<or> u + j + n < i \<longrightarrow> us1 ! i = us ! i"
    using div_step_spec [OF n len v1 UV [unfolded U_def V_def B_def] step]
    unfolding U_def V_def by blast+
  define qs1 where "qs1 = qs[q + j := ucast qhat]"
  have "U div V < B" using UV V0 by (simp add: div_less_iff_less_mult)
  then have digit: "unat (ucast qhat :: digit) = U div V" using s1(1) by (simp add: unat_ucast_digit B_def)
  have rec: "div_loop us1 vs qs1 u v q n (j + 1) k = (us', qs')"
    using Suc.prems(4) by (simp add: step qs1_def)
  have lt: "seg us1 (u + (j + 1)) n < seg vs (v + 1) n"
    using s1(3) V0 by (simp add: V_def)
  note IH = Suc.IH [OF _ _ lt rec]
  define N N' where "N = seg us (u + j) (n + Suc k)" and "N' = seg us1 (u + (j + 1)) (n + k)"
  have NU: "N = U * B ^ k + seg us (u + j + Suc n) k"
    using seg_add [of us "u + j" "Suc n" k] by (simp add: N_def U_def B_def)
  have N'U: "N' = U mod V * B ^ k + seg us (u + j + Suc n) k"
    using seg_add [of us1 "u + j + 1" n k] s1(3,5) seg_cong [of k us1 "u + j + Suc n" us "u + j + Suc n"]
    by (simp add: N'_def B_def)
  have dist: "U = d * V + m \<Longrightarrow> U * P + x = d * P * V + (m * P + x)" for d m P x
    by (simp add: algebra_simps)
  have "N = U div V * B ^ k * V + N'"
    unfolding NU N'U by (rule dist) simp
  then have NV: "N div V = U div V * B ^ k + N' div V" "N mod V = N' mod V"
    using V0 by simp_all
  have l: "u + (j + 1) + n + k \<le> length us1" "q + (j + 1) + k \<le> length qs1"
    using Suc.prems(1,2) s1(4) by (simp_all add: qs1_def)
  have "qs' ! (q + j) = ucast qhat" using IH [OF l] Suc.prems(2) by (simp add: qs1_def)
  then have "seg qs' (q + j) (Suc k) = N div V"
    using IH [OF l] digit NV(1) seg_Suc_front [of qs' "q + j" k]
    by (simp add: N'_def B_def V_def del: seg.simps(2))
  moreover have "seg us' (u + j + Suc k) n = N mod V"
    using IH [OF l] NV(2) by (simp add: N'_def V_def)
  moreover have "us' ! i = 0" if "u + j \<le> i" "i < u + j + Suc k" for i
    using IH [OF l] that s1(2) by (cases "i = u + j") auto
  moreover have "us' ! i = us ! i" if "i < u + j \<or> u + j + n + Suc k \<le> i" for i
    using IH [OF l] that s1(5) by auto
  moreover have "qs' ! i = qs ! i" if "i < q + j \<or> q + j + Suc k \<le> i" for i
    using IH [OF l] that by (auto simp: qs1_def)
  ultimately show ?case
    using IH [OF l] s1(4) by (simp add: N_def V_def qs1_def)
qed

section \<open>Normalisation\<close>

lemma digit_shift_in:
  fixes x y :: digit
  assumes "0 < sh" "sh < 16"
  shows "unat (ucast (LHALF (push_bit sh (ucast x)) OR drop_bit (16 - sh) (ucast y)) :: digit)
      = unat x * 2 ^ sh mod 2 ^ 16 + unat y div 2 ^ (16 - sh)"
proof -
  have "ucast (LHALF (push_bit sh (ucast x)) OR drop_bit (16 - sh) (ucast y)) = push_bit sh x OR drop_bit (16 - sh) y"
    using assms by (intro bit_word_eqI) (auto simp: bit_simps LHALF_mask dest: bit_imp_le_length)
  moreover have "push_bit sh x AND drop_bit (16 - sh) y = 0"
    using assms by (intro bit_word_eqI) (auto simp: bit_simps dest: bit_imp_le_length)
  ultimately have "ucast (LHALF (push_bit sh (ucast x)) OR drop_bit (16 - sh) (ucast y)) = push_bit sh x + drop_bit (16 - sh) y"
    by (simp add: disjunctive_add_eq_or)
  moreover have "unat (push_bit sh x) = unat x * 2 ^ sh mod 2 ^ 16"
    by (simp add: unat_push_bit)
  moreover have "unat (drop_bit (16 - sh) y) = unat y div 2 ^ (16 - sh)"
    by (rule unat_drop_bit)
  moreover have "unat x * 2 ^ sh mod 2 ^ 16 + unat y div 2 ^ (16 - sh) < 2 ^ 16"
  proof -
    have e: "(2::nat) ^ 16 = 2 ^ (16 - sh) * 2 ^ sh" using assms by (simp flip: power_add)
    have "unat x * 2 ^ sh mod 2 ^ 16 = (unat x mod 2 ^ (16 - sh)) * 2 ^ sh"
      unfolding e by (rule mult_mod_left [symmetric])
    moreover have "unat x mod 2 ^ (16 - sh) + 1 \<le> 2 ^ (16 - sh)" by (simp add: Suc_leI)
    then have "(unat x mod 2 ^ (16 - sh) + 1) * 2 ^ sh \<le> 2 ^ 16" unfolding e by (rule mult_le_mono1)
    moreover have "unat y div 2 ^ (16 - sh) < 2 ^ sh"
      using unat_digit_lt [of y] unfolding e by (simp add: div_less_iff_less_mult mult.commute)
    ultimately show ?thesis by simp
  qed
  ultimately show ?thesis by (simp add: unat_word_ariths)
qed

lemma shl_nth:
  assumes "p + len < length s"
  shows "i \<le> len \<Longrightarrow> length (shl s p i len sh) = length s \<and>
    (\<forall>k. shl s p i len sh ! k =
      (if p + i \<le> k \<and> k < p + len then ucast (LHALF (push_bit sh (ucast (s ! k))) OR drop_bit (16 - sh) (ucast (s ! (k + 1))))
       else if k = p + len then ucast (LHALF (push_bit sh (ucast (s ! k)))) else s ! k))"
  using assms
proof (induction s p i len sh rule: shl.induct)
  case (1 s p i len sh)
  show ?case
  proof (cases "i < len")
    case True
    with 1 show ?thesis by (subst (1 2) shl.simps) (auto simp: nth_list_update)
  next
    case False
    with 1 show ?thesis by (subst (1 2) shl.simps) (auto simp: nth_list_update)
  qed
qed

text \<open>Shifting a digit string left multiplies its value; the bits that leave the top digit are lost.\<close>

lemma seg_shl:
  assumes sh: "0 < sh" "sh < 16" and len: "p + len < length s"
  shows "seg (shl s p 0 len sh) p (Suc len) + unat (s ! p) div 2 ^ (16 - sh) * (2 ^ 16) ^ Suc len
    = seg s p (Suc len) * 2 ^ sh"
proof -
  let ?c = "\<lambda>i. unat (s ! (p + i)) div 2 ^ (16 - sh)" and ?s' = "shl s p 0 len sh"
  have e: "(2::nat) ^ 16 = 2 ^ (16 - sh) * 2 ^ sh" using sh by (simp flip: power_add)
  have split: "unat x * 2 ^ sh = unat x * 2 ^ sh mod 2 ^ 16 + unat x div 2 ^ (16 - sh) * 2 ^ 16" for x :: digit
    using div_mult_mod_eq [of "unat x * 2 ^ sh" "2 ^ 16"] unfolding e by (simp add: add.commute)
  note nth = shl_nth [OF len, of 0 sh]
  have "k \<le> len \<Longrightarrow> seg ?s' p k + ?c 0 * (2 ^ 16) ^ k = seg s p k * 2 ^ sh + ?c k" for k
  proof (induction k)
    case (Suc k)
    have "unat (?s' ! (p + k)) = unat (s ! (p + k)) * 2 ^ sh mod 2 ^ 16 + ?c (Suc k)"
      using nth Suc.prems digit_shift_in [OF sh] by simp
    then show ?case using Suc split [of "s ! (p + k)"] by (simp add: algebra_simps)
  qed simp
  from this [of len] have "seg ?s' p len + ?c 0 * (2 ^ 16) ^ len = seg s p len * 2 ^ sh + ?c len" by simp
  moreover have "unat (?s' ! (p + len)) = unat (s ! (p + len)) * 2 ^ sh mod 2 ^ 16"
    using nth by (simp add: unat_ucast_LHALF unat_push_bit unat_ucast_u_long mod_mod_cancel)
  ultimately show ?thesis
    using split [of "s ! (p + len)"] by (simp add: algebra_simps)
qed

lemma norm_d_spec:
  assumes "0 < unat t" "unat t < 2 ^ 16"
  shows "\<exists>d'. norm_d t d = Some (d + d') \<and> 2 ^ 15 \<le> unat t * 2 ^ d' \<and> unat t * 2 ^ d' < 2 ^ 16 \<and> d' < 16"
  using assms
proof (induction "2 ^ 16 - unat t" arbitrary: t d rule: less_induct)
  case less
  have half: "unat (digit_B div 2) = 2 ^ 15" by (simp add: digit_B_def)
  show ?case
  proof (cases "t < digit_B div 2")
    case True
    then have lt: "unat t < 2 ^ 15" unfolding word_less_nat_alt half .
    then have t2: "unat (push_bit 1 t) = 2 * unat t"
      by (simp add: unat_word_ariths)
    have "2 ^ 16 - unat (push_bit 1 t) < 2 ^ 16 - unat t" "0 < unat (push_bit 1 t)" "unat (push_bit 1 t) < 2 ^ 16"
      unfolding t2 using less.prems lt by auto
    then obtain d' where d': "norm_d (push_bit 1 t) (d + 1) = Some (d + 1 + d')"
        "2 ^ 15 \<le> unat (push_bit 1 t) * 2 ^ d'" "unat (push_bit 1 t) * 2 ^ d' < 2 ^ 16"
      using less.hyps [of "push_bit 1 t" "d + 1"] by blast
    have "2 * 2 ^ d' \<le> unat (push_bit 1 t) * 2 ^ d'" unfolding t2 using less.prems(1) by (intro mult_le_mono1) simp
    then have "2 ^ Suc d' < (2::nat) ^ 16" using d'(3) unfolding power_Suc by linarith
    then have "Suc d' < 16" by (simp only: power_strict_increasing_iff one_less_numeral_iff semiring_norm)
    then show ?thesis
      using d' True t2 by (intro exI [of _ "Suc d'"]) (simp add: norm_d.simps [of t d] mult.assoc)
  next
    case False
    then have "2 ^ 15 \<le> unat t" unfolding not_less word_le_nat_alt half .
    then show ?thesis using False less.prems by (intro exI [of _ 0]) (simp add: norm_d.simps [of t d])
  qed
qed

lemma shr_rem_nth:
  assumes "u + m + n < length us"
  shows "k \<le> n \<Longrightarrow> length (shr_rem us u m d k) = length us \<and>
    (\<forall>i. shr_rem us u m d k ! i =
      (if i = u + m then 0
       else if u + m < i \<and> i \<le> u + m + k
       then ucast (drop_bit d (ucast (us ! i)) OR LHALF (push_bit (16 - d) (ucast (us ! (i - 1)))))
       else us ! i))"
  using assms
proof (induction k arbitrary: us)
  case (Suc k)
  then show ?case by (auto simp: nth_list_update le_Suc_eq)
qed auto

lemma seg_shr_rem:
  assumes d: "0 < d" "d < 16" and len: "u + m + n < length us" and top: "us ! (u + m) = 0"
  shows "seg (shr_rem us u m d n) (u + m + 1) n = seg us (u + m + 1) n div 2 ^ d"
proof -
  let ?c = "\<lambda>i. unat (us ! (u + m + i)) mod 2 ^ d" and ?s' = "shr_rem us u m d n"
  have e: "(2::nat) ^ 16 = 2 ^ d * 2 ^ (16 - d)" using d by (simp flip: power_add)
  note nth = shr_rem_nth [OF len, of n d]
  have "k \<le> n \<Longrightarrow> seg ?s' (u + m + 1) k * 2 ^ d + ?c k = seg us (u + m + 1) k" for k
  proof (induction k)
    case 0
    then show ?case using top by simp
  next
    case (Suc k)
    have "unat (?s' ! (u + m + Suc k)) = unat (us ! (u + m + k)) * 2 ^ (16 - d) mod 2 ^ 16 + unat (us ! (u + m + Suc k)) div 2 ^ d"
      using nth Suc.prems digit_shift_in [of "16 - d" "us ! (u + m + k)" "us ! (u + m + Suc k)"] d
      by (simp add: or.commute)
    moreover have "unat (us ! (u + m + k)) * 2 ^ (16 - d) mod 2 ^ 16 = ?c k * 2 ^ (16 - d)"
      unfolding e by (rule mult_mod_left [symmetric])
    moreover have "unat (us ! (u + m + Suc k)) = unat (us ! (u + m + Suc k)) div 2 ^ d * 2 ^ d + ?c (Suc k)"
      by (rule div_mult_mod_eq [symmetric])
    moreover have "(a * 2 ^ 16 + (c * 2 ^ (16 - d) + y)) * 2 ^ d + z = (a * 2 ^ d + c) * 2 ^ 16 + (y * 2 ^ d + z)" for a c y z :: nat
      unfolding e by (simp add: algebra_simps)
    ultimately show ?case
      using Suc by simp
  qed
  from this [of n] have "seg us (u + m + 1) n = seg ?s' (u + m + 1) n * 2 ^ d + ?c n" by simp
  then show ?thesis by simp
qed

section \<open>Breaking quads into digits and back\<close>

lemma unat_q_split: "unat a = 2 ^ 32 * unat (uu_H (uu_of_q a)) + unat (uu_L (uu_of_q a))" for a :: u_quad
proof -
  have "int (unat a) = int (2 ^ 32 * unat (uu_H (uu_of_q a)) + unat (uu_L (uu_of_q a)))"
    using uint_q_split [of a] by simp
  then show ?thesis by (simp only: of_nat_eq_iff)
qed

lemma unat_uu_q: "unat (uu_q \<lparr>uu_H = h, uu_L = l\<rparr>) = 2 ^ 32 * unat h + unat l"
proof -
  have "int (unat (uu_q \<lparr>uu_H = h, uu_L = l\<rparr>)) = int (2 ^ 32 * unat h + unat l)"
    using uint_hl [of h l] by (simp add: uu_q_hl)
  then show ?thesis by (simp only: of_nat_eq_iff)
qed

lemma seg_numeral: "seg s a (numeral k) = seg s a (pred_numeral k) * 2 ^ 16 + unat (s ! (a + pred_numeral k))"
  by (simp only: numeral_eq_Suc seg.simps)

lemma seg_1_4:
  "seg s 1 4 = ((unat (s ! 1) * 2 ^ 16 + unat (s ! 2)) * 2 ^ 16 + unat (s ! 3)) * 2 ^ 16 + unat (s ! 4)"
  by (simp add: seg_numeral, simp add: numeral_2_eq_2 numeral_3_eq_3)

lemma unat_halves: "unat (ucast (HHALF x) :: digit) * 2 ^ 16 + unat (ucast (LHALF x) :: digit) = unat x"
  using unat_u_long_lt [of x] by (simp add: unat_ucast_digit unat_HHALF unat_LHALF)

lemma length_break_digits [simp]: "length (break_digits d0 x) = 5"
  by (simp add: break_digits_def Let_def)

lemma break_digits_0 [simp]: "break_digits d0 x ! 0 = d0"
  by (simp add: break_digits_def Let_def)

lemma seg_break_digits: "seg (break_digits d0 x) 1 4 = unat x"
  using unat_halves [of "uu_H (uu_of_q x)"] unat_halves [of "uu_L (uu_of_q x)"] unat_q_split [of x]
  unfolding seg_1_4 by (simp add: break_digits_def Let_def)

lemma unat_COMBINE_digits: "unat (COMBINE (ucast a) (ucast b)) = unat a * 2 ^ 16 + unat b" for a b :: digit
  by (subst unat_COMBINE) (simp_all add: unat_ucast_u_long unat_digit_lt [simplified])

lemma unat_combine4: "unat (combine4 s) = seg s 1 4"
  unfolding seg_1_4 by (simp add: combine4_def unat_uu_q unat_COMBINE_digits)

lemma seg_zero: "(\<And>i. i < k \<Longrightarrow> s ! (a + i) = 0) \<Longrightarrow> seg s a k = 0"
  by (induction k) simp_all

lemma seg_leading_zeros: "(\<And>i. i < k \<Longrightarrow> s ! (a + i) = 0) \<Longrightarrow> seg s a (k + l) = seg s (a + k) l"
  by (simp add: seg_add seg_zero)

lemma skip_u_Some:
  "skip_u us u m = Some (u', m') \<Longrightarrow>
   u' + m' = u + m \<and> u \<le> u' \<and> (\<forall>i. u < i \<and> i \<le> u' \<longrightarrow> us ! i = 0) \<and> us ! (u' + 1) \<noteq> 0"
proof (induction us u m rule: skip_u.induct)
  case (2 us u m)
  then show ?case by (auto split: if_splits simp: Suc_le_eq le_less) (metis Suc_lessI)
qed (auto split: if_splits)

lemma skip_u_None: "skip_u us u m = None \<Longrightarrow> u < i \<Longrightarrow> i \<le> u + m + 1 \<Longrightarrow> us ! i = 0"
proof (induction us u m rule: skip_u.induct)
  case (2 us u m)
  then show ?case by (cases "i = Suc u") (auto split: if_splits)
qed (auto split: if_splits simp: le_Suc_eq)

lemma skip_v_4:
  "skip_v vs 0 4 =
     (if vs ! 1 \<noteq> 0 then Inr (0, 4)
      else if vs ! 2 \<noteq> 0 then Inr (1, 3)
      else if vs ! 3 \<noteq> 0 then Inr (2, 2) else Inl 2)"
  by (simp add: eval_nat_numeral)

lemma zero_q_nth:
  "k \<le> length qs \<Longrightarrow> length (zero_q qs k) = length qs \<and> (\<forall>i. zero_q qs k ! i = (if i < k then 0 else qs ! i))"
proof (induction k arbitrary: qs)
  case (Suc k)
  then show ?case by (auto simp: less_Suc_eq)
qed simp

text \<open>The one-digit divisor: long division digit by digit.\<close>

lemma short_div_digit:
  fixes t :: u_long and d :: digit and r :: u_long
  assumes "0 < unat t" "unat t < 2 ^ 16" "unat r < unat t"
  defines "rbj \<equiv> COMBINE r (ucast d)"
  shows "unat (ucast (rbj div t) :: digit) * unat t + unat (rbj mod t) = unat r * 2 ^ 16 + unat d"
    and "unat (rbj mod t) < unat t"
proof -
  have r: "unat rbj = unat r * 2 ^ 16 + unat d"
    unfolding rbj_def using assms unat_digit_lt [of d] by (subst unat_COMBINE) (simp_all add: unat_ucast_u_long)
  have "unat rbj < (unat r + 1) * 2 ^ 16" using unat_digit_lt [of d] unfolding r by simp
  also have "\<dots> \<le> unat t * 2 ^ 16" using assms by (intro mult_le_mono1) simp
  finally have "unat rbj div unat t < 2 ^ 16" using assms by (simp add: div_less_iff_less_mult mult.commute)
  then show "unat (ucast (rbj div t) :: digit) * unat t + unat (rbj mod t) = unat r * 2 ^ 16 + unat d"
    unfolding r [symmetric] by (simp add: unat_ucast_digit unat_div_distrib unat_mod_distrib)
  show "unat (rbj mod t) < unat t" using assms by (simp add: unat_mod_distrib)
qed

lemma short_div_spec:
  assumes t: "0 < unat t" "unat t < 2 ^ 16" and sd: "short_div us t = (q, r)"
  shows "unat q = seg us 1 4 div unat t \<and> unat r = seg us 1 4 mod unat t"
proof -
  define r1 where "r1 = ucast (us ! 1) mod t"
  define r2 where "r2 = COMBINE r1 (ucast (us ! 2)) mod t"
  define r3 where "r3 = COMBINE r2 (ucast (us ! 3)) mod t"
  define r4 where "r4 = COMBINE r3 (ucast (us ! 4)) mod t"
  have l1: "unat r1 < unat t" using t by (simp add: r1_def unat_mod_distrib)
  have l2: "unat r2 < unat t" using short_div_digit(2) [OF t l1, of "us ! 2"] by (simp add: r2_def)
  have l3: "unat r3 < unat t" using short_div_digit(2) [OF t l2, of "us ! 3"] by (simp add: r3_def)
  have l4: "unat r4 < unat t" using short_div_digit(2) [OF t l3, of "us ! 4"] by (simp add: r4_def)
  have e1: "unat (ucast (ucast (us ! 1) div t) :: digit) * unat t + unat r1 = unat (us ! 1)"
    using unat_digit_lt [of "us ! 1"]
    by (simp add: r1_def unat_ucast_digit unat_div_distrib unat_mod_distrib unat_ucast_u_long
        div_le_dividend [THEN order_le_less_trans])
  note e2 = short_div_digit(1) [OF t l1, of "us ! 2", folded r2_def]
  note e3 = short_div_digit(1) [OF t l2, of "us ! 3", folded r3_def]
  note e4 = short_div_digit(1) [OF t l3, of "us ! 4", folded r4_def]
  have qr: "q = uu_q \<lparr>uu_H = COMBINE (ucast (ucast (ucast (us ! 1) div t) :: digit)) (ucast (ucast (COMBINE r1 (ucast (us ! 2)) div t) :: digit)),
       uu_L = COMBINE (ucast (ucast (COMBINE r2 (ucast (us ! 3)) div t) :: digit)) (ucast (ucast (COMBINE r3 (ucast (us ! 4)) div t) :: digit))\<rparr>"
      "r = ucast r4"
    using sd by (simp_all add: short_div_def Let_def r1_def r2_def r3_def r4_def)
  have "seg us 1 4 = unat q * unat t + unat r4"
    unfolding qr(1) unat_uu_q unat_COMBINE_digits seg_1_4 e1 [symmetric]
    using e2 e3 e4 by (simp add: algebra_simps)
  then show ?thesis using l4 t by (simp add: qr(2) unat_ucast_up)
qed

text \<open>Normalising by \<open>d\<close> bits multiplies the digit strings of dividend and divisor by \<open>2 ^ d\<close>.\<close>

lemma norm_shl_spec:
  assumes "d < 16" "p + len < length s" "unat (s ! p) * 2 ^ d < 2 ^ 16"
  shows "seg (norm_shl s p len d) p (Suc len) = seg s p (Suc len) * 2 ^ d"
    and "length (norm_shl s p len d) = length s"
    and "\<And>i. i < p \<Longrightarrow> norm_shl s p len d ! i = s ! i"
proof -
  have e: "d \<le> 16 \<Longrightarrow> (2::nat) ^ 16 = 2 ^ (16 - d) * 2 ^ d" by (simp flip: power_add)
  then have "unat (s ! p) * 2 ^ d < 2 ^ (16 - d) * 2 ^ d" using assms by simp
  then have "unat (s ! p) div 2 ^ (16 - d) = 0" by simp
  then show "seg (norm_shl s p len d) p (Suc len) = seg s p (Suc len) * 2 ^ d"
    using seg_shl [of d p len s] assms by (auto simp: norm_shl_def simp del: seg.simps(2))
  show "length (norm_shl s p len d) = length s" "\<And>i. i < p \<Longrightarrow> norm_shl s p len d ! i = s ! i"
    using shl_nth [OF assms(2), of 0 d] by (auto simp: norm_shl_def)
qed

lemma unat_leading_digit: "(2 ^ 16) ^ k \<le> seg s a (Suc k) \<longleftrightarrow> 0 < unat (s ! a)"
proof
  assume "0 < unat (s ! a)"
  then have "1 * (2 ^ 16) ^ k \<le> unat (s ! a) * (2 ^ 16) ^ k" by (intro mult_le_mono1) simp
  then show "(2 ^ 16) ^ k \<le> seg s a (Suc k)" unfolding seg_Suc_front by linarith
next
  assume "(2 ^ 16) ^ k \<le> seg s a (Suc k)"
  then show "0 < unat (s ! a)"
    using seg_less [of s "Suc a" k] by (auto simp: seg_Suc_front simp del: seg.simps(2) intro: gr0I)
qed

text \<open>The quotient and the remainder are assembled from the last digits of their arrays.\<close>

lemma combine4_low:
  assumes "1 \<le> k" "k + l = 5" "\<And>i. i < k \<Longrightarrow> s ! i = 0"
  shows "unat (combine4 s) = seg s k l"
  using seg_leading_zeros [of "k - 1" s 1 l] assms by (simp add: unat_combine4)

lemma combine4_remainder:
  assumes "d < 16" "length us = 5" "u + (m + 1) + n = 5" "\<And>i. i \<le> u + m \<Longrightarrow> us ! i = 0"
  shows "unat (combine4 (if d > 0 then shr_rem us u m d n else us)) = seg us (u + (m + 1)) n div 2 ^ d"
proof (cases "d > 0")
  case True
  have len: "u + m + n < length us" using assms by simp
  have "unat (combine4 (shr_rem us u m d n)) = seg (shr_rem us u m d n) (u + (m + 1)) n"
    by (rule combine4_low) (use assms shr_rem_nth [OF len, of n d] in auto)
  then show ?thesis using seg_shr_rem [OF True _ len] assms True by simp
next
  case False
  then show ?thesis using combine4_low [of "u + (m + 1)" n us] assms by simp
qed

text \<open>Program D as a whole, on a divisor of at least two digits.\<close>

lemma program_D:
  fixes us vs :: "digit list"
  assumes len: "length us = 5" "length vs = 5" "length qs = 5"
    and vn: "v + n = 4" "2 \<le> n" "vs ! (v + 1) \<noteq> 0" and vz: "\<And>i. 1 \<le> i \<Longrightarrow> i \<le> v \<Longrightarrow> vs ! i = 0"
    and un: "u + m + n = 4" and uz: "\<And>i. i \<le> u \<Longrightarrow> us ! i = 0"
    and qz: "\<And>i. i < 4 - m \<Longrightarrow> qs ! i = 0"
    and d: "norm_d (ucast (vs ! (v + 1))) 0 = Some d"
    and loop: "div_loop (norm_shl us u (m + n) d) (norm_shl vs (v + 1) (n - 1) d) qs u v (4 - m) n 0 (m + 1) = (us2, qs2)"
  shows "unat (combine4 qs2) = seg us 1 4 div seg vs 1 4
    \<and> unat (combine4 (if d > 0 then shr_rem us2 u m d n else us2)) = seg us 1 4 mod seg vs 1 4"
proof -
  define us1 vs1 where "us1 = norm_shl us u (m + n) d" and "vs1 = norm_shl vs (v + 1) (n - 1) d"
  have v1: "0 < unat (vs ! (v + 1))" using vn(3) by (simp add: unat_gt_0)
  have d16: "d < 16" and vd: "unat (vs ! (v + 1)) * 2 ^ d < 2 ^ 16"
    using norm_d_spec [of "ucast (vs ! (v + 1))" 0] d v1 unat_digit_lt [of "vs ! (v + 1)"]
    by (auto simp: unat_ucast_u_long)
  have un': "u + (m + n) = 4" using un by simp
  have U: "seg us u (Suc (m + n)) = seg us 1 4" "seg us 1 4 = seg us (Suc u) (m + n)"
    using seg_leading_zeros [of u us 1 "m + n"] un' uz by (simp_all add: seg_Suc_front del: seg.simps(2))
  have V: "seg vs (v + 1) n = seg vs 1 4"
    using seg_leading_zeros [of v vs 1 n] vn(1) vz by simp
  have U1: "seg us1 u (n + (m + 1)) = seg us 1 4 * 2 ^ d" "length us1 = 5"
      "\<And>i. i < u \<Longrightarrow> us1 ! i = 0"
    using norm_shl_spec [OF d16, of u "m + n" us] un len uz U
    by (simp_all add: us1_def add.commute del: seg.simps(2))
  have V1: "seg vs1 (v + 1) n = seg vs 1 4 * 2 ^ d"
    using norm_shl_spec(1) [OF d16 _ vd, of "n - 1"] vn len V by (simp add: vs1_def del: seg.simps(2))
  have Vge: "(2 ^ 16) ^ (n - 1) \<le> seg vs 1 4"
    using unat_leading_digit [of "n - 1" vs "v + 1"] v1 vn(2) V by (simp del: seg.simps(2))
  then have "(2 ^ 16) ^ (n - 1) * 1 \<le> seg vs1 (v + 1) n" unfolding V1 by (intro mult_le_mono) simp_all
  then have v1': "0 < unat (vs1 ! (v + 1))"
    using unat_leading_digit [of "n - 1" vs1 "v + 1"] vn(2) by (simp del: seg.simps(2))
  have lt: "seg us1 u n < seg vs1 (v + 1) n"
  proof -
    have "seg us1 u n * (2 ^ 16) ^ (m + 1) \<le> seg us 1 4 * 2 ^ d"
      unfolding U1(1) [symmetric] seg_add by simp
    also have "\<dots> < (2 ^ 16) ^ (m + n) * 2 ^ d" using seg_less [of us "Suc u" "m + n"] U(2) by simp
    also have "\<dots> = (2 ^ 16) ^ (n - 1) * 2 ^ d * (2 ^ 16) ^ (m + 1)"
      using vn(2) by (cases n) (simp_all add: power_add)
    also have "\<dots> \<le> seg vs1 (v + 1) n * (2 ^ 16) ^ (m + 1)"
      unfolding V1 using Vge by (intro mult_le_mono1)
    finally show ?thesis by (rule mult_less_cancel2 [THEN iffD1, THEN conjunct2])
  qed
  have bounds: "u + 0 + n + (m + 1) \<le> length us1" "4 - m + 0 + (m + 1) \<le> length qs"
    using un vn len U1(2) by auto
  note spec = div_loop_spec [OF vn(2) v1' bounds, unfolded add_0_right, OF lt loop [folded us1_def vs1_def], unfolded U1(1) V1]
  have "unat (combine4 qs2) = seg qs2 (4 - m) (m + 1)"
    by (rule combine4_low) (use spec qz un vn in auto)
  moreover have "unat (combine4 (if d > 0 then shr_rem us2 u m d n else us2)) = seg us2 (u + (m + 1)) n div 2 ^ d"
  proof (rule combine4_remainder)
    show "us2 ! i = 0" if "i \<le> u + m" for i using spec U1(3) that by (cases "i < u") auto
  qed (use spec U1(2) un d16 in auto)
  ultimately show ?thesis using spec by simp
qed

lemma qdivrem_long:
  fixes uq vq :: u_quad and stk :: "nat \<Rightarrow> digit"
  defines "us \<equiv> break_digits 0 uq" and "vs \<equiv> break_digits (stk 5) vq"
  assumes uv: "vq \<le> uq" and sv: "skip_v vs 0 4 = Inr (v, n)"
  shows "qdivrem stk uq vq arq = Some (uq div vq, if arq then Some (uq mod vq) else None)"
proof -
  have vn: "v + n = 4" "2 \<le> n" "vs ! (v + 1) \<noteq> 0" and vz: "\<And>i. 1 \<le> i \<Longrightarrow> i \<le> v \<Longrightarrow> vs ! i = 0"
    using sv by (auto simp: skip_v_4 split: if_splits) (auto simp: le_Suc_eq numeral_2_eq_2)
  have V: "seg vs 1 4 = unat vq" and U: "seg us 1 4 = unat uq"
    unfolding vs_def us_def by (rule seg_break_digits)+
  have Vge: "(2 ^ 16) ^ (n - 1) \<le> unat vq"
    using unat_leading_digit [of "n - 1" "vs" "v + 1"] seg_leading_zeros [of v "vs" 1 n] vn vz V
    by (simp add: unat_gt_0 del: seg.simps(2))
  have v0: "vq \<noteq> 0" using Vge by auto
  obtain u m where su: "skip_u us 0 (4 - n) = Some (u, m)"
  proof (cases "skip_u us 0 (4 - n)")
    case None
    then have "us ! (1 + i) = 0" if "i < 4 - n + 1" for i
      using skip_u_None [OF None, of "1 + i"] that by simp
    then have "seg us 1 (4 - n + 1 + (n - 1)) = seg us (1 + (4 - n + 1)) (n - 1)"
      by (rule seg_leading_zeros)
    then have "unat uq < (2 ^ 16) ^ (n - 1)"
      using seg_less [of us "1 + (4 - n + 1)" "n - 1"] vn U by simp
    then show ?thesis using Vge uv by (simp add: word_le_nat_alt)
  qed auto
  have um: "u + m + n = 4" "\<And>i. i \<le> u \<Longrightarrow> us ! i = 0"
    using skip_u_Some [OF su] vn by (auto simp: us_def) (metis break_digits_0 gr0I)
  obtain d where d: "norm_d (ucast (vs ! (v + 1))) 0 = Some d"
    using norm_d_spec [of "ucast (vs ! (v + 1))" 0] vn(3) unat_digit_lt [of "vs ! (v + 1)"]
    by (auto simp: unat_ucast_u_long unat_gt_0)
  define qs where "qs = zero_q (map stk [0..<5]) (4 - m)"
  have qs: "length qs = 5" "\<And>i. i < 4 - m \<Longrightarrow> qs ! i = 0"
    using zero_q_nth [of "4 - m" "map stk [0..<5]"] by (auto simp: qs_def)
  obtain us2 qs2 where loop: "div_loop (norm_shl us u (m + n) d) (norm_shl vs (v + 1) (n - 1) d) qs u v (4 - m) n 0 (m + 1) = (us2, qs2)"
    by fastforce
  have "length us = 5" "length vs = 5" by (simp_all add: us_def vs_def)
  from program_D [OF this qs(1) vn vz um qs(2) d loop]
  have "combine4 qs2 = uq div vq" "combine4 (if d > 0 then shr_rem us2 u m d n else us2) = uq mod vq"
    unfolding U V by (simp_all add: word_unat_eq_iff unat_div_distrib unat_mod_distrib)
  then show ?thesis
    using v0 uv sv su d loop
    unfolding qdivrem_def us_def [symmetric] vs_def [symmetric] Let_def
    by (auto simp: not_less qs_def)
qed

lemma qdivrem_eq:
  assumes "vq \<noteq> 0"
  shows "qdivrem stk uq vq arq = Some (uq div vq, if arq then Some (uq mod vq) else None)"
proof (cases "uq < vq")
  case True
  then have "uq div vq = 0" "uq mod vq = uq"
    by (simp_all add: word_unat_eq_iff unat_div_distrib unat_mod_distrib word_less_nat_alt)
  then show ?thesis using assms True by (simp add: qdivrem_def)
next
  case False
  show ?thesis
  proof (cases "skip_v (break_digits (stk 5) vq) 0 4")
    case (Inr vn)
    then show ?thesis using qdivrem_long [of vq uq stk] False by (cases vn) (simp add: not_less)
  next
    case (Inl v)
    let ?vs = "break_digits (stk 5) vq" and ?us = "break_digits 0 uq"
    have v: "v = 2" "?vs ! 1 = 0" "?vs ! 2 = 0" "?vs ! 3 = 0"
      using Inl by (auto simp: skip_v_4 split: if_splits)
    have vq: "unat (ucast (?vs ! 4) :: u_long) = unat vq"
      using seg_break_digits [of "stk 5" vq] v unfolding seg_1_4 by (simp add: unat_ucast_u_long)
    then have t: "0 < unat (ucast (?vs ! 4) :: u_long)" "unat (ucast (?vs ! 4) :: u_long) < 2 ^ 16"
      using assms unat_digit_lt [of "?vs ! 4"] by (simp_all add: unat_ucast_u_long unat_gt_0)
    obtain q r where sd: "short_div ?us (ucast (?vs ! 4)) = (q, r)" by fastforce
    have "q = uq div vq" "r = uq mod vq"
      using short_div_spec [OF t sd] unfolding vq seg_break_digits
      by (simp_all add: word_unat_eq_iff unat_div_distrib unat_mod_distrib)
    then show ?thesis
      using assms False Inl sd v(1) by (simp add: qdivrem_def Let_def)
  qed
qed

section \<open>Signed division\<close>

lemma uint_abs_q: "uint (if sint a < 0 then - a else a) = \<bar>sint a\<bar>" for a :: u_quad
  using uint_lt2p [of a] uint_ge_0 [of a]
  by (auto simp: sint_conv_uint uint_word_ariths zmod_zminus1_eq_if split: if_splits)

lemma eq_of_int_uint: "uint x = k \<Longrightarrow> x = of_int k"
  by (drule sym) (simp only: word_of_int_uint)

lemma qdivrem_abs:
  fixes a b :: u_quad
  assumes "b \<noteq> 0"
  defines "ua \<equiv> if sint a < 0 then - a else a" and "ub \<equiv> if sint b < 0 then - b else b"
  shows "ub \<noteq> 0" "ua div ub = of_int (\<bar>sint a\<bar> div \<bar>sint b\<bar>)" "ua mod ub = of_int (\<bar>sint a\<bar> mod \<bar>sint b\<bar>)"
proof -
  show "ub \<noteq> 0" using assms(1) by (simp add: ub_def)
  have "uint (ua div ub) = \<bar>sint a\<bar> div \<bar>sint b\<bar>" "uint (ua mod ub) = \<bar>sint a\<bar> mod \<bar>sint b\<bar>"
    unfolding uint_div_distrib uint_mod_distrib ua_def ub_def uint_abs_q by (rule refl)+
  then show "ua div ub = of_int (\<bar>sint a\<bar> div \<bar>sint b\<bar>)" "ua mod ub = of_int (\<bar>sint a\<bar> mod \<bar>sint b\<bar>)"
    by (blast intro: eq_of_int_uint)+
qed

section \<open>Properties\<close>


text \<open>
  C2: \<open>__divdi3\<close>, \<open>__udivdi3\<close> and \<open>__umoddi3\<close>: signed division truncates towards zero and wraps
  only for the quotient \<open>2 ^ 63\<close>; the unsigned routines give quotient and remainder. All three trap
  on a zero divisor.
\<close>

theorem quad_division_correct:
  "divdi3 stk a b = (if b = 0 then None else Some (of_int (sint a sdiv sint b)))
   \<and> udivdi3 stk a b = (if b = 0 then None else Some (a div b))
   \<and> umoddi3 stk a b = (if b = 0 then None else Some (a mod b))"
proof (cases "b = 0")
  case True
  then show ?thesis by (simp add: divdi3_def udivdi3_def umoddi3_def qdivrem_def)
next
  case False
  have "divdi3 stk a b = Some (of_int (sint a sdiv sint b))"
    using qdivrem_eq [OF qdivrem_abs(1) [OF False, of], of stk "if sint a < 0 then - a else a" False]
      qdivrem_abs(2) [OF False, of a]
    by (auto simp: divdi3_def signed_divide_int_def sgn_if split: if_splits)
  then show ?thesis using False by (simp add: udivdi3_def umoddi3_def qdivrem_eq)
qed

text \<open>
  C12: the exact result of \<open>__moddi3\<close>. For a positive divisor it is the remainder of the truncating
  division, which has the sign of the dividend. For a negative divisor the sign is the opposite one,
  so that \<open>(a / b) * b + a % b = a\<close> fails there whenever the remainder is not zero.
\<close>

theorem moddi3_exact:
  "moddi3 stk a b =
     (if b = 0 then None
      else Some (of_int (if sint b < 0 then - (sint a smod sint b) else sint a smod sint b)))"
proof (cases "b = 0")
  case True
  then show ?thesis by (simp add: moddi3_def qdivrem_def)
next
  case False
  then show ?thesis
    using qdivrem_eq [OF qdivrem_abs(1) [OF False], of stk "if sint a < 0 then - a else a" True]
      qdivrem_abs(3) [OF False, of a]
    by (auto simp: moddi3_def signed_modulo_int_def sgn_if split: if_splits)
qed

end
