(* ===== verification/CMem.thy ===== *)
theory CMem
  imports Prelude "HOL-Library.Monad_Syntax"
begin

unbundle bit_operations_syntax

text \<open>
  The memory of the process as the string and conversion routines see it: an array of bytes, with
  addresses as indices. A C pointer is an address; where the code can return a null pointer the model
  returns an \<open>option\<close>. The outer \<open>option\<close> of every routine is the run itself: \<open>None\<close> is an access
  outside the memory.
\<close>

type_synonym mem = "byte list"
type_synonym ptr = nat

definition load :: "mem \<Rightarrow> ptr \<Rightarrow> byte option" where
  "load m p = (if p < length m then Some (m ! p) else None)"

definition store :: "mem \<Rightarrow> ptr \<Rightarrow> byte \<Rightarrow> mem option" where
  "store m p b = (if p < length m then Some (m[p := b]) else None)"

text \<open>A 32-bit access, low-order byte first.\<close>

definition load32 :: "mem \<Rightarrow> ptr \<Rightarrow> u_int option" where
  "load32 m p = do {
     b0 \<leftarrow> load m p; b1 \<leftarrow> load m (p + 1); b2 \<leftarrow> load m (p + 2); b3 \<leftarrow> load m (p + 3);
     Some (ucast b0 OR push_bit 8 (ucast b1) OR push_bit 16 (ucast b2) OR push_bit 24 (ucast b3)) }"

definition store32 :: "mem \<Rightarrow> ptr \<Rightarrow> u_int \<Rightarrow> mem option" where
  "store32 m p w = do {
     m \<leftarrow> store m p (ucast w); m \<leftarrow> store m (p + 1) (ucast (drop_bit 8 w));
     m \<leftarrow> store m (p + 2) (ucast (drop_bit 16 w)); store m (p + 3) (ucast (drop_bit 24 w)) }"

text \<open>A block of bytes written at an address, and a string that ends with a zero byte.\<close>

definition put :: "mem \<Rightarrow> ptr \<Rightarrow> byte list \<Rightarrow> mem" where
  "put m p bs = take p m @ bs @ drop (p + length bs) m"

definition slice :: "mem \<Rightarrow> ptr \<Rightarrow> nat \<Rightarrow> byte list" where
  "slice m p n = take n (drop p m)"

definition cstr :: "mem \<Rightarrow> ptr \<Rightarrow> byte list \<Rightarrow> bool" where
  "cstr m p s \<longleftrightarrow> p + length s < length m \<and> slice m p (length s) = s
     \<and> m ! (p + length s) = 0 \<and> 0 \<notin> set s"

lemma option_bind_weak_cong: "x = y \<Longrightarrow> Option.bind x f = Option.bind y f"
  by simp

lemma load_Some [simp]: "p < length m \<Longrightarrow> load m p = Some (m ! p)"
  by (simp add: load_def)

lemma store_Some [simp]: "p < length m \<Longrightarrow> store m p b = Some (m[p := b])"
  by (simp add: store_def)

lemma load_eq_Some: "load m p = Some b \<longleftrightarrow> p < length m \<and> b = m ! p"
  by (auto simp: load_def)

lemma store_eq_Some: "store m p b = Some m' \<longleftrightarrow> p < length m \<and> m' = m[p := b]"
  by (auto simp: store_def)

lemma load_dest [dest]: "load m p = Some b \<Longrightarrow> p < length m"
  by (simp add: load_eq_Some)

subsection \<open>Blocks\<close>

lemma length_put [simp]: "p + length bs \<le> length m \<Longrightarrow> length (put m p bs) = length m"
  by (simp add: put_def)

lemma put_Nil [simp]: "put m p [] = m"
  by (simp add: put_def)

lemma nth_put:
  assumes "p + length bs \<le> length m"
  shows "put m p bs ! i = (if p \<le> i \<and> i < p + length bs then bs ! (i - p) else m ! i)"
proof -
  consider "i < p" | "p \<le> i" "i < p + length bs" | "p + length bs \<le> i" by linarith
  then show ?thesis
    using assms by cases (auto simp: put_def nth_append less_diff_conv2)
qed

lemma put_Cons: "p + length bs < length m \<Longrightarrow> put m p (b # bs) = put (m[p := b]) (p + 1) bs"
  by (rule nth_equalityI) (auto simp: nth_put nth_list_update nth_Cons')

lemma put_snoc: "p + length bs < length m \<Longrightarrow> put m p (bs @ [b]) = (put m p bs)[p + length bs := b]"
  by (rule nth_equalityI) (auto simp: nth_put nth_list_update nth_append)

lemma length_slice [simp]: "p + n \<le> length m \<Longrightarrow> length (slice m p n) = n"
  by (simp add: slice_def)

lemma nth_slice: "p + n \<le> length m \<Longrightarrow> i < n \<Longrightarrow> slice m p n ! i = m ! (p + i)"
  by (simp add: slice_def)

lemma slice_0 [simp]: "slice m p 0 = []"
  by (simp add: slice_def)

lemma slice_Suc: "p < length m \<Longrightarrow> slice m p (Suc n) = m ! p # slice m (p + 1) n"
  by (simp add: slice_def) (metis Cons_nth_drop_Suc take_Suc_Cons)

lemma put_append:
  "p + length as + length bs \<le> length m \<Longrightarrow> put m p (as @ bs) = put (put m p as) (p + length as) bs"
  by (rule nth_equalityI) (auto simp: nth_put nth_append)

lemma put_append_left:
  "p + length as + length bs \<le> length m \<Longrightarrow> put m p (as @ bs) = put (put m (p + length as) bs) p as"
  by (rule nth_equalityI) (auto simp: nth_put nth_append)

lemma slice_add: "slice m p (a + b) = slice m p a @ slice m (p + a) b"
  by (simp add: slice_def take_add add.commute)

lemma slice_put_disjoint:
  assumes "p + length bs \<le> length m" "q + n \<le> length m" "q + n \<le> p \<or> p + length bs \<le> q"
  shows "slice (put m p bs) q n = slice m q n"
  by (rule nth_equalityI) (use assms in \<open>auto simp: nth_slice nth_put\<close>)

lemma put_same: "p + n \<le> length m \<Longrightarrow> put m p (slice m p n) = m"
  by (rule nth_equalityI) (auto simp: nth_put nth_slice)

lemma slice_put_same: "p + length bs \<le> length m \<Longrightarrow> slice (put m p bs) p (length bs) = bs"
  by (rule nth_equalityI) (auto simp: nth_put nth_slice)

lemma slice_append: "slice m s (length (as @ bs)) = as @ bs \<Longrightarrow> s + length (as @ bs) \<le> length m \<Longrightarrow>
    slice m s (length as) = as \<and> slice m (s + length as) (length bs) = bs"
  by (simp add: slice_add)

subsection \<open>Words\<close>

lemma bytes_of_word:
  fixes b0 b1 b2 b3 :: byte
  defines "w \<equiv> ucast b0 OR push_bit 8 (ucast b1) OR push_bit 16 (ucast b2) OR push_bit 24 (ucast b3) :: u_int"
  shows "ucast w = b0" "ucast (drop_bit 8 w) = b1" "ucast (drop_bit 16 w) = b2" "ucast (drop_bit 24 w) = b3"
  unfolding w_def by (rule bit_word_eqI, auto simp: bit_simps dest: bit_imp_le_length)+

lemma load32_store32:
  assumes "p + 4 \<le> length m" "q + 4 \<le> length m"
  shows "Option.bind (load32 m p) (store32 m q) = Some (put m q (slice m p 4))"
proof -
  have "slice m p 4 = [m ! p, m ! (p + 1), m ! (p + 2), m ! (p + 3)]"
    using assms by (simp add: numeral_eq_Suc slice_Suc)
  moreover have "q + 1 + 1 = q + 2" "q + 2 + 1 = q + 3" by simp_all
  ultimately show ?thesis
    using assms
    by (simp only: load32_def bind.bind_lunit store32_def bytes_of_word put_Cons put_Nil load_Some store_Some
      length_list_update list.size)
qed

subsection \<open>Strings\<close>

lemma cstr_Nil: "cstr m p [] \<longleftrightarrow> p < length m \<and> m ! p = 0"
  by (auto simp: cstr_def)

lemma cstr_Cons: "cstr m p (c # s) \<longleftrightarrow> p < length m \<and> m ! p = c \<and> c \<noteq> 0 \<and> cstr m (p + 1) s"
  by (auto simp: cstr_def slice_Suc)

lemma cstr_unique: "cstr m p s \<Longrightarrow> cstr m p t \<Longrightarrow> s = t"
proof (induction s arbitrary: p t)
  case Nil
  then show ?case by (cases t) (auto simp: cstr_Nil cstr_Cons)
next
  case (Cons c s)
  then show ?case by (cases t) (auto simp: cstr_Nil cstr_Cons)
qed


subsection \<open>The order of byte strings\<close>

text \<open>The difference of the first two bytes that differ: what the comparison routines return.\<close>

fun diff_first :: "byte list \<Rightarrow> byte list \<Rightarrow> int" where
  "diff_first (a # as) (b # bs) = (if a = b then diff_first as bs else uint a - uint b)"
| "diff_first as bs = 0"

lemma diff_first_eq_0: "length as = length bs \<Longrightarrow> diff_first as bs = 0 \<longleftrightarrow> as = bs"
  by (induction as bs rule: list_induct2) (auto simp: word_uint_eq_iff)

lemma diff_first_swap: "diff_first bs as = - diff_first as bs"
  by (induction as bs rule: diff_first.induct) (auto elim: diff_first.elims)

lemma diff_first_less: "length as = length bs \<Longrightarrow> diff_first as bs < 0 \<longleftrightarrow> (as, bs) \<in> lexord {(a, b). a < b}"
  by (induction as bs rule: list_induct2) (auto simp: word_less_def)

lemma diff_first_trans:
  "length as = length bs \<Longrightarrow> length bs = length cs \<Longrightarrow> diff_first as bs \<le> 0 \<Longrightarrow> diff_first bs cs \<le> 0 \<Longrightarrow>
   diff_first as cs \<le> 0"
  by (induction as bs cs rule: list_induct3) (auto simp: word_uint_eq_iff split: if_splits)

subsection \<open>Strings as lists\<close>

text \<open>A string that is only read, as the list of its bytes from a pointer on: \<open>*p\<close> is zero at the end.\<close>

definition deref :: "byte list \<Rightarrow> byte" where
  "deref p = (case p of [] \<Rightarrow> 0 | c # p \<Rightarrow> c)"

lemma deref_Cons [simp]: "deref (c # p) = c"
  by (simp add: deref_def)

lemma deref_Nil [simp]: "deref [] = 0"
  by (simp add: deref_def)

lemma deref_eq_0: "0 \<notin> set p \<Longrightarrow> deref p = 0 \<longleftrightarrow> p = []"
  by (cases p) auto

end
