(* ===== verification/MemBlk.thy ===== *)
theory MemBlk
  imports CMem
begin

unbundle bit_operations_syntax

text \<open>
  The block routines of \<open>lib/libc/string\<close>: \<open>bcopy.c\<close> (which is also compiled as \<open>memcpy\<close> and
  \<open>memmove\<close>), \<open>memset.c\<close> (also \<open>bzero\<close>), \<open>memchr.c\<close>, \<open>memcmp.c\<close>, \<open>memccpy.c\<close>, \<open>bcmp.c\<close>,
  \<open>swab.c\<close> and \<open>ffs.c\<close>. Addresses are natural numbers, \<open>size_t\<close> counters keep their 32 bits.
\<close>

section \<open>Definitions\<close>

definition wsize :: u_int where
  "wsize = 4"

definition wmask :: u_int where
  "wmask = wsize - 1"

function TLOOP1 :: "('s \<Rightarrow> 's option) \<Rightarrow> u_int \<Rightarrow> 's \<Rightarrow> 's option" where
  "TLOOP1 body t s = do {
     s \<leftarrow> body s;
     (if t - 1 \<noteq> 0 then TLOOP1 body (t - 1) s else Some s) }"
  by pat_completeness auto
termination
proof (relation "measure (\<lambda>(body, t, s). unat (t - 1))", goal_cases)
  case (2 body t s s')
  then show ?case using measure_unat [of "t - 1"] by simp
qed simp

definition TLOOP :: "('s \<Rightarrow> 's option) \<Rightarrow> u_int \<Rightarrow> 's \<Rightarrow> 's option" where
  "TLOOP body t s = (if t \<noteq> 0 then TLOOP1 body t s else Some s)"

text \<open>The loop bodies of \<open>bcopy\<close>; the loop state is the memory, \<open>src\<close> and \<open>dst\<close>.\<close>

definition copy_byte_fwd :: "mem \<times> ptr \<times> ptr \<Rightarrow> (mem \<times> ptr \<times> ptr) option" where
  "copy_byte_fwd = (\<lambda>(m, src, dst). do {
     b \<leftarrow> load m src; m \<leftarrow> store m dst b; Some (m, src + 1, dst + 1) })"

definition copy_word_fwd :: "mem \<times> ptr \<times> ptr \<Rightarrow> (mem \<times> ptr \<times> ptr) option" where
  "copy_word_fwd = (\<lambda>(m, src, dst). do {
     w \<leftarrow> load32 m src; m \<leftarrow> store32 m dst w; Some (m, src + unat wsize, dst + unat wsize) })"

definition copy_byte_bwd :: "mem \<times> ptr \<times> ptr \<Rightarrow> (mem \<times> ptr \<times> ptr) option" where
  "copy_byte_bwd = (\<lambda>(m, src, dst). do {
     b \<leftarrow> load m (src - 1); m \<leftarrow> store m (dst - 1) b; Some (m, src - 1, dst - 1) })"

definition copy_word_bwd :: "mem \<times> ptr \<times> ptr \<Rightarrow> (mem \<times> ptr \<times> ptr) option" where
  "copy_word_bwd = (\<lambda>(m, src, dst). do {
     w \<leftarrow> load32 m (src - unat wsize); m \<leftarrow> store32 m (dst - unat wsize) w;
     Some (m, src - unat wsize, dst - unat wsize) })"

text \<open>The number of bytes moved to align both pointers, or all of them when that cannot be done.\<close>

definition align_fwd :: "ptr \<Rightarrow> ptr \<Rightarrow> u_int \<Rightarrow> u_int" where
  "align_fwd src dst len =
     (if (word_of_nat src XOR word_of_nat dst) AND wmask \<noteq> 0 \<or> len < wsize then len
      else wsize - (word_of_nat src AND wmask))"

definition align_bwd :: "ptr \<Rightarrow> ptr \<Rightarrow> u_int \<Rightarrow> u_int" where
  "align_bwd src dst len =
     (if (word_of_nat src XOR word_of_nat dst) AND wmask \<noteq> 0 \<or> len \<le> wsize then len
      else word_of_nat src AND wmask)"

definition bcopy :: "mem \<Rightarrow> ptr \<Rightarrow> ptr \<Rightarrow> u_int \<Rightarrow> mem option" where
  "bcopy m src0 dst0 len =
     (if len = 0 \<or> dst0 = src0 then Some m
      else if dst0 < src0 then do {
        (len, st) \<leftarrow>
          (if (word_of_nat src0 OR word_of_nat dst0) AND wmask \<noteq> 0
           then do {
             st \<leftarrow> TLOOP1 copy_byte_fwd (align_fwd src0 dst0 len) (m, src0, dst0);
             Some (len - align_fwd src0 dst0 len, st) }
           else Some (len, (m, src0, dst0)));
        st \<leftarrow> TLOOP copy_word_fwd (len div wsize) st;
        (m, src, dst) \<leftarrow> TLOOP copy_byte_fwd (len AND wmask) st;
        Some m
      } else do {
        let src = src0 + unat len;
        let dst = dst0 + unat len;
        (len, st) \<leftarrow>
          (if (word_of_nat src OR word_of_nat dst) AND wmask \<noteq> 0
           then do {
             st \<leftarrow> TLOOP1 copy_byte_bwd (align_bwd src dst len) (m, src, dst);
             Some (len - align_bwd src dst len, st) }
           else Some (len, (m, src, dst)));
        st \<leftarrow> TLOOP copy_word_bwd (len div wsize) st;
        (m, src, dst) \<leftarrow> TLOOP copy_byte_bwd (len AND wmask) st;
        Some m
      })"

definition memmove :: "mem \<Rightarrow> ptr \<Rightarrow> ptr \<Rightarrow> u_int \<Rightarrow> (mem \<times> ptr) option" where
  "memmove m dst0 src0 len = do { m \<leftarrow> bcopy m src0 dst0 len; Some (m, dst0) }"

definition memcpy :: "mem \<Rightarrow> ptr \<Rightarrow> ptr \<Rightarrow> u_int \<Rightarrow> (mem \<times> ptr) option" where
  "memcpy m dst0 src0 len = do { m \<leftarrow> bcopy m src0 dst0 len; Some (m, dst0) }"

text \<open>The loop bodies of \<open>memset\<close>; the loop state is the memory and \<open>dst\<close>.\<close>

definition fill_byte :: "byte \<Rightarrow> mem \<times> ptr \<Rightarrow> (mem \<times> ptr) option" where
  "fill_byte c = (\<lambda>(m, dst). do { m \<leftarrow> store m dst c; Some (m, dst + 1) })"

definition fill_word :: "u_int \<Rightarrow> mem \<times> ptr \<Rightarrow> (mem \<times> ptr) option" where
  "fill_word c = (\<lambda>(m, dst). do { m \<leftarrow> store32 m dst c; Some (m, dst + unat wsize) })"

definition wideval :: "byte \<Rightarrow> u_int" where
  "wideval c0 = (let c = ucast c0 :: u_int in
     if c \<noteq> 0 then let c = push_bit 8 c OR c in push_bit 16 c OR c else c)"

definition memset_fill :: "byte \<Rightarrow> u_int \<Rightarrow> mem \<Rightarrow> ptr \<Rightarrow> u_int \<Rightarrow> mem option" where
  "memset_fill val c m dst len =
     (if len < 3 * wsize then do { (m, dst) \<leftarrow> TLOOP (fill_byte val) len (m, dst); Some m }
      else do {
        let t = word_of_nat dst AND wmask;
        (len, st) \<leftarrow>
          (if t \<noteq> 0
           then do { st \<leftarrow> TLOOP1 (fill_byte val) (wsize - t) (m, dst); Some (len - (wsize - t), st) }
           else Some (len, (m, dst)));
        st \<leftarrow> TLOOP1 (fill_word c) (len div wsize) st;
        (m, dst) \<leftarrow> TLOOP (fill_byte val) (len AND wmask) st;
        Some m
      })"

definition memset :: "mem \<Rightarrow> ptr \<Rightarrow> u_int \<Rightarrow> u_int \<Rightarrow> (mem \<times> ptr) option" where
  "memset m dst0 c0 len = do {
     m \<leftarrow> memset_fill (ucast c0) (wideval (ucast c0)) m dst0 len; Some (m, dst0) }"

definition bzero :: "mem \<Rightarrow> ptr \<Rightarrow> u_int \<Rightarrow> mem option" where
  "bzero m dst0 len = memset_fill 0 0 m dst0 len"

fun memchr_loop :: "mem \<Rightarrow> ptr \<Rightarrow> byte \<Rightarrow> nat \<Rightarrow> ptr option option" where
  "memchr_loop m p c 0 = Some None"
| "memchr_loop m p c (Suc n) = do {
     b \<leftarrow> load m p;
     (if b = c then Some (Some p) else memchr_loop m (p + 1) c n) }"

definition memchr :: "mem \<Rightarrow> ptr \<Rightarrow> u_int \<Rightarrow> u_int \<Rightarrow> ptr option option" where
  "memchr m s c n = memchr_loop m s (ucast c) (unat n)"

fun memcmp_loop :: "mem \<Rightarrow> ptr \<Rightarrow> ptr \<Rightarrow> nat \<Rightarrow> int option" where
  "memcmp_loop m p1 p2 0 = Some 0"
| "memcmp_loop m p1 p2 (Suc n) = do {
     a \<leftarrow> load m p1; b \<leftarrow> load m p2;
     (if a \<noteq> b then Some (uint a - uint b) else memcmp_loop m (p1 + 1) (p2 + 1) n) }"

definition memcmp :: "mem \<Rightarrow> ptr \<Rightarrow> ptr \<Rightarrow> u_int \<Rightarrow> int option" where
  "memcmp m s1 s2 n = memcmp_loop m s1 s2 (unat n)"

definition memccpy :: "mem \<Rightarrow> ptr \<Rightarrow> ptr \<Rightarrow> u_int \<Rightarrow> u_int \<Rightarrow> (mem \<times> ptr option) option" where
  "memccpy m t f c n = do {
     p \<leftarrow> memchr m f c n;
     (case p of
        Some p \<Rightarrow> do {
          let n = (word_of_nat (p + 1 - f) :: u_int);
          (m, d) \<leftarrow> memmove m t f n;
          Some (m, Some (t + unat n)) }
      | None \<Rightarrow> do {
          (m, d) \<leftarrow> memmove m t f n;
          Some (m, None) }) }"

fun bcmp_loop :: "mem \<Rightarrow> ptr \<Rightarrow> ptr \<Rightarrow> nat \<Rightarrow> nat option" where
  "bcmp_loop m p1 p2 0 = Some 0"
| "bcmp_loop m p1 p2 (Suc n) = do {
     a \<leftarrow> load m p1; b \<leftarrow> load m p2;
     (if a \<noteq> b then Some (Suc n) else bcmp_loop m (p1 + 1) (p2 + 1) n) }"

definition bcmp :: "mem \<Rightarrow> ptr \<Rightarrow> ptr \<Rightarrow> u_int \<Rightarrow> u_int option" where
  "bcmp m b1 b2 len = do { n \<leftarrow> bcmp_loop m b1 b2 (unat len); Some (word_of_nat n) }"

definition swab_STEP :: "mem \<times> ptr \<times> ptr \<Rightarrow> (mem \<times> ptr \<times> ptr) option" where
  "swab_STEP = (\<lambda>(m, fp, tp). do {
     temp \<leftarrow> load m fp;
     b \<leftarrow> load m (fp + 1);
     m \<leftarrow> store m tp b;
     m \<leftarrow> store m (tp + 1) temp;
     Some (m, fp + 2, tp + 2) })"

function swab_round :: "nat \<Rightarrow> mem \<times> ptr \<times> ptr \<Rightarrow> (nat \<times> mem \<times> ptr \<times> ptr) option" where
  "swab_round n st = (let n = n - 1 in
     if n mod 8 \<noteq> 0 then do { st \<leftarrow> swab_STEP st; swab_round n st } else Some (n, st))"
  by pat_completeness auto
termination
proof (relation "measure fst", goal_cases)
  case (2 n st n' st')
  then show ?case by (cases n) auto
qed simp

fun swab_eights :: "nat \<Rightarrow> mem \<times> ptr \<times> ptr \<Rightarrow> (mem \<times> ptr \<times> ptr) option" where
  "swab_eights 0 st = Some st"
| "swab_eights (Suc n) st = do {
     st \<leftarrow> swab_STEP st; st \<leftarrow> swab_STEP st; st \<leftarrow> swab_STEP st; st \<leftarrow> swab_STEP st;
     st \<leftarrow> swab_STEP st; st \<leftarrow> swab_STEP st; st \<leftarrow> swab_STEP st; st \<leftarrow> swab_STEP st;
     swab_eights n st }"

definition swab :: "mem \<Rightarrow> ptr \<Rightarrow> ptr \<Rightarrow> u_int \<Rightarrow> mem option" where
  "swab m from to len = do {
     (n, st) \<leftarrow> swab_round (unat len div 2 + 1) (m, from, to);
     (m, fp, tp) \<leftarrow> swab_eights (n div 8) st;
     Some m }"

text \<open>
  \<open>ffs\<close> shifts a signed \<open>int\<close>; the loop stops within 32 steps because the mask is not zero. The
  loop below is given the word and stops at the first set bit.
\<close>

partial_function (option) ffs_loop :: "u_int \<Rightarrow> nat \<Rightarrow> nat option" where
  "ffs_loop msk k = (if msk AND 1 = 0 then ffs_loop (signed_drop_bit 1 msk) (k + 1) else Some k)"

declare ffs_loop.simps [code]

definition ffs :: "u_int \<Rightarrow> nat option" where
  "ffs msk = (if msk = 0 then Some 0 else ffs_loop msk 1)"


section \<open>Counted loops\<close>

fun iter_opt :: "nat \<Rightarrow> ('s \<Rightarrow> 's option) \<Rightarrow> 's \<Rightarrow> 's option" where
  "iter_opt 0 f s = Some s"
| "iter_opt (Suc n) f s = Option.bind (f s) (iter_opt n f)"

declare TLOOP1.simps [simp del]

lemma iter_opt_add: "iter_opt (k + n) f s = Option.bind (iter_opt k f s) (iter_opt n f)"
  by (induction k arbitrary: s) (auto split: bind_splits)

lemma iter_opt_0 [simp]: "iter_opt 0 f = Some"
  by (rule ext) simp

lemma iter_opt_Suc: "iter_opt (Suc n) f = (\<lambda>s. Option.bind (f s) (iter_opt n f))"
  by (rule ext) simp

lemma TLOOP1_iter: "t \<noteq> 0 \<Longrightarrow> TLOOP1 f t s = iter_opt (unat t) f s"
proof (induction f t s rule: TLOOP1.induct)
  case (1 f t s)
  have u: "unat t = Suc (unat (t - 1))"
    using 1(2) by (simp add: unat_minus_one unat_gt_0 Suc_pred)
  show ?case
  proof (cases "t - 1 = 0")
    case True
    then show ?thesis by (subst TLOOP1.simps) (simp add: u True)
  next
    case False
    then have "Option.bind (f s) (TLOOP1 f (t - 1)) = Option.bind (f s) (iter_opt (unat (t - 1)) f)"
      using 1(1) by (auto split: bind_splits)
    then show ?thesis using False by (subst TLOOP1.simps) (simp add: u)
  qed
qed

lemma TLOOP_iter: "TLOOP f t s = iter_opt (unat t) f s"
  by (cases "t = 0") (simp_all add: TLOOP_def TLOOP1_iter)

section \<open>Copying\<close>

text \<open>
  A step that moves \<open>w\<close> bytes and advances both pointers, run \<open>n\<close> times, moves \<open>n * w\<close> bytes, when the
  destination is not above the source; the mirror image runs downwards.
\<close>

lemma iter_copy_fwd:
  assumes step: "\<And>m s d. s + w \<le> length m \<Longrightarrow> d + w \<le> length m \<Longrightarrow>
      f (m, s, d) = Some (put m d (slice m s w), s + w, d + w)"
    and "d \<le> s" "s + n * w \<le> length m"
  shows "iter_opt n f (m, s, d) = Some (put m d (slice m s (n * w)), s + n * w, d + n * w)"
  using assms(2,3)
proof (induction n arbitrary: m s d)
  case (Suc n)
  have "iter_opt n f (put m d (slice m s w), s + w, d + w)
      = Some (put (put m d (slice m s w)) (d + w) (slice m (s + w) (n * w)), s + w + n * w, d + w + n * w)"
    using Suc.prems by (subst Suc.IH) (auto simp: slice_put_disjoint)
  with Suc.prems show ?case
    by (simp add: step slice_add put_append)
qed simp

lemma iter_copy_bwd:
  assumes step: "\<And>m s d. w \<le> s \<Longrightarrow> w \<le> d \<Longrightarrow> s \<le> length m \<Longrightarrow> d \<le> length m \<Longrightarrow>
      f (m, s, d) = Some (put m (d - w) (slice m (s - w) w), s - w, d - w)"
    and "s \<le> d" "d \<le> length m" "n * w \<le> s"
  shows "iter_opt n f (m, s, d) = Some (put m (d - n * w) (slice m (s - n * w) (n * w)), s - n * w, d - n * w)"
  using assms(2-4)
proof (induction n arbitrary: m s d)
  case (Suc n)
  have le: "w \<le> s" "w \<le> d" "n * w \<le> s - w" "n * w \<le> d - w" "s \<le> length m" "s - w \<le> d - w" "d - w \<le> length m"
    using Suc.prems by auto
  let ?m = "put m (d - w) (slice m (s - w) w)"
  have "iter_opt n f (?m, s - w, d - w)
      = Some (put ?m (d - w - n * w) (slice m (s - w - n * w) (n * w)), s - w - n * w, d - w - n * w)"
    using le Suc.prems by (subst Suc.IH) (auto simp: slice_put_disjoint)
  moreover have "slice m (s - w - n * w) (n * w + w) = slice m (s - w - n * w) (n * w) @ slice m (s - w) w"
    using le by (simp add: slice_add)
  ultimately show ?case
    using le Suc.prems by (simp add: step put_append_left add.commute)
qed simp

lemma unat_wsize [simp]: "unat wsize = 4"
  by (simp add: wsize_def)

lemma unat_and_wmask: "unat (x AND wmask) = unat x mod 4"
proof -
  have "x AND wmask = take_bit 2 x"
    by (simp add: wmask_def wsize_def take_bit_eq_mask mask_numeral)
  then show ?thesis by (simp add: unat_mod_distrib take_bit_eq_mod)
qed

lemma unat_div_wsize: "unat (x div wsize) = unat x div 4"
  by (simp add: unat_div_distrib)

lemma copy_byte_fwd_step:
  "s + 1 \<le> length m \<Longrightarrow> d + 1 \<le> length m \<Longrightarrow> copy_byte_fwd (m, s, d) = Some (put m d (slice m s 1), s + 1, d + 1)"
  by (simp add: copy_byte_fwd_def slice_Suc put_Cons)

lemma copy_byte_bwd_step:
  "1 \<le> s \<Longrightarrow> 1 \<le> d \<Longrightarrow> s \<le> length m \<Longrightarrow> d \<le> length m \<Longrightarrow>
   copy_byte_bwd (m, s, d) = Some (put m (d - 1) (slice m (s - 1) 1), s - 1, d - 1)"
  by (simp add: copy_byte_bwd_def slice_Suc put_Cons)

lemma copy_word_fwd_step:
  "s + 4 \<le> length m \<Longrightarrow> d + 4 \<le> length m \<Longrightarrow> copy_word_fwd (m, s, d) = Some (put m d (slice m s 4), s + 4, d + 4)"
  using load32_store32 [of s m d] by (auto simp: copy_word_fwd_def split: bind_splits)

lemma copy_word_bwd_step:
  "4 \<le> s \<Longrightarrow> 4 \<le> d \<Longrightarrow> s \<le> length m \<Longrightarrow> d \<le> length m \<Longrightarrow>
   copy_word_bwd (m, s, d) = Some (put m (d - 4) (slice m (s - 4) 4), s - 4, d - 4)"
  using load32_store32 [of "s - 4" m "d - 4"] by (auto simp: copy_word_bwd_def split: bind_splits)

lemmas copy_bytes_fwd = iter_copy_fwd [of 1 copy_byte_fwd, OF copy_byte_fwd_step, simplified]
lemmas copy_words_fwd = iter_copy_fwd [of 4 copy_word_fwd, OF copy_word_fwd_step]
lemmas copy_bytes_bwd = iter_copy_bwd [of 1 copy_byte_bwd, OF copy_byte_bwd_step, simplified]
lemmas copy_words_bwd = iter_copy_bwd [of 4 copy_word_bwd, OF copy_word_bwd_step]


lemma word_of_nat_and_wmask: "unat (word_of_nat p AND wmask) = p mod 4"
  by (simp add: unat_and_wmask unat_of_nat take_bit_eq_mod mod_mod_cancel)

text \<open>
  One direction of \<open>bcopy\<close> with the alignment prefix cut at any length: the bytes before the words,
  the words, and the bytes after them.
\<close>

lemma bcopy_fwd_phases:
  assumes "d \<le> s" "s + k + j * 4 + b \<le> length m"
  shows "do { st \<leftarrow> iter_opt k copy_byte_fwd (m, s, d);
              st \<leftarrow> iter_opt j copy_word_fwd st;
              (m, src, dst) \<leftarrow> iter_opt b copy_byte_fwd st;
              Some m } = Some (put m d (slice m s (k + j * 4 + b)))"
proof -
  define a where "a = j * 4"
  let ?m1 = "put m d (slice m s k)" and ?m2 = "put (put m d (slice m s k)) (d + k) (slice m (s + k) a)"
  have le: "s + k + a + b \<le> length m" using assms a_def by simp
  have "put m d (slice m s (k + a + b)) = put ?m2 (d + k + a) (slice m (s + k + a) b)"
    using assms(1) le by (simp add: slice_add put_append add.assoc)
  moreover have "slice ?m1 (s + k) a = slice m (s + k) a"
      "slice ?m2 (s + k + a) b = slice m (s + k + a) b"
    using assms(1) le by (auto simp: slice_put_disjoint)
  ultimately show ?thesis
    using assms(1) le by (simp add: copy_bytes_fwd copy_words_fwd a_def [symmetric])
qed

lemma bcopy_bwd_phases:
  assumes "s \<le> d" "d + k + j * 4 + b \<le> length m"
  shows "do { st \<leftarrow> iter_opt k copy_byte_bwd (m, s + (k + j * 4 + b), d + (k + j * 4 + b));
              st \<leftarrow> iter_opt j copy_word_bwd st;
              (m, src, dst) \<leftarrow> iter_opt b copy_byte_bwd st;
              Some m } = Some (put m d (slice m s (k + j * 4 + b)))"
proof -
  define a where "a = j * 4"
  have le: "d + b + a + k \<le> length m" using assms a_def by simp
  let ?m1 = "put m (d + b + a) (slice m (s + b + a) k)"
  let ?m2 = "put ?m1 (d + b) (slice m (s + b) a)"
  have "put m d (slice m s (b + a + k)) = put ?m2 d (slice m s b)"
    using assms(1) le by (simp add: slice_add put_append_left add.assoc)
  moreover have "slice ?m1 (s + b) a = slice m (s + b) a" "slice ?m2 s b = slice m s b"
    using assms(1) le by (auto simp: slice_put_disjoint)
  ultimately show ?thesis
    using assms(1) le
    by (simp add: copy_bytes_bwd copy_words_bwd a_def [symmetric] ac_simps)
qed

lemma unat_minus: "(x::u_int) \<le> y \<Longrightarrow> unat (y - x) = unat y - unat x"
  by (rule unat_sub)

lemma block_split: "n div 4 * 4 + n mod 4 = (n :: nat)" "k + n div 4 * 4 + n mod 4 = (k + n :: nat)"
  by simp_all

lemma align_fwd_bounds:
  assumes "len \<noteq> 0"
  shows "align_fwd src dst len \<noteq> 0" "align_fwd src dst len \<le> len"
proof -
  have "unat (word_of_nat src AND wmask :: u_int) < 4" by (simp add: word_of_nat_and_wmask)
  then have "word_of_nat src AND wmask < wsize" by (simp add: word_less_nat_alt)
  then show "align_fwd src dst len \<noteq> 0" "align_fwd src dst len \<le> len"
    using assms by (auto simp: align_fwd_def word_le_nat_alt word_less_nat_alt unat_minus)
qed

lemma align_bwd_bounds:
  assumes "len \<noteq> 0" "(word_of_nat src OR word_of_nat dst) AND wmask \<noteq> 0"
  shows "align_bwd src dst len \<noteq> 0" "align_bwd src dst len \<le> len"
proof -
  have m: "unat (word_of_nat src AND wmask :: u_int) < 4" by (simp add: word_of_nat_and_wmask)
  have "word_of_nat src AND wmask \<noteq> (0::u_int)" if "(word_of_nat src XOR word_of_nat dst) AND wmask = (0::u_int)"
    using assms(2) that by (auto simp: bit_eq_iff bit_simps)
  then show "align_bwd src dst len \<noteq> 0"
    using assms by (auto simp: align_bwd_def)
  show "align_bwd src dst len \<le> len"
    using m by (auto simp: align_bwd_def word_le_nat_alt)
qed

lemma bcopy_fwd:
  assumes "dst < src" "src + unat len \<le> length m" "len \<noteq> 0"
  shows "bcopy m src dst len = Some (put m dst (slice m src (unat len)))"
proof (cases "(word_of_nat src OR word_of_nat dst :: u_int) AND wmask = 0")
  case True
  then show ?thesis
    using assms bcopy_fwd_phases [of dst src 0 "unat len div 4" "unat len mod 4" m]
    by (simp add: bcopy_def TLOOP_iter unat_div_wsize unat_and_wmask split_def block_split)
next
  case False
  let ?t = "align_fwd src dst len"
  have "unat ?t + unat (len - ?t) = unat len"
    using align_fwd_bounds(2) [OF assms(3)] by (simp add: unat_minus word_le_nat_alt)
  then show ?thesis
    using False assms align_fwd_bounds(1) [OF assms(3)]
      bcopy_fwd_phases [of dst src "unat ?t" "unat (len - ?t) div 4" "unat (len - ?t) mod 4" m]
    by (simp add: bcopy_def TLOOP_iter TLOOP1_iter unat_div_wsize unat_and_wmask split_def block_split)
qed

lemma bcopy_bwd:
  assumes "src < dst" "dst + unat len \<le> length m" "len \<noteq> 0"
  shows "bcopy m src dst len = Some (put m dst (slice m src (unat len)))"
proof (cases "(word_of_nat (src + unat len) OR word_of_nat (dst + unat len) :: u_int) AND wmask = 0")
  case True
  then show ?thesis
    using assms bcopy_bwd_phases [of src dst 0 "unat len div 4" "unat len mod 4" m]
    by (simp add: bcopy_def TLOOP_iter unat_div_wsize unat_and_wmask split_def block_split del: of_nat_add)
next
  case False
  let ?t = "align_bwd (src + unat len) (dst + unat len) len"
  have "unat ?t + unat (len - ?t) = unat len"
    using align_bwd_bounds(2) [OF assms(3) False] by (simp add: unat_minus word_le_nat_alt)
  then show ?thesis
    using False assms align_bwd_bounds(1) [OF assms(3) False]
      bcopy_bwd_phases [of src dst "unat ?t" "unat (len - ?t) div 4" "unat (len - ?t) mod 4" m]
    by (simp add: bcopy_def TLOOP_iter TLOOP1_iter unat_div_wsize unat_and_wmask split_def block_split
        del: of_nat_add)
qed

lemma bcopy_put:
  assumes "src + unat len \<le> length m" "dst + unat len \<le> length m"
  shows "bcopy m src dst len = Some (put m dst (slice m src (unat len)))"
proof -
  consider "len = 0" | "dst = src" | "len \<noteq> 0" "dst < src" | "len \<noteq> 0" "src < dst" by linarith
  then show ?thesis
    using assms by cases (auto simp: bcopy_fwd bcopy_bwd put_same, simp_all add: bcopy_def put_same)
qed

section \<open>Filling\<close>

lemma iter_fill:
  assumes step: "\<And>m d. d + w \<le> length m \<Longrightarrow> f (m, d) = Some (put m d (replicate w c), d + w)"
    and "d + n * w \<le> length m"
  shows "iter_opt n f (m, d) = Some (put m d (replicate (n * w) c), d + n * w)"
  using assms(2)
proof (induction n arbitrary: m d)
  case (Suc n)
  then show ?case by (simp add: step replicate_add put_append)
qed simp

lemma fill_byte_step: "d + 1 \<le> length m \<Longrightarrow> fill_byte c (m, d) = Some (put m d (replicate 1 c), d + 1)"
  by (simp add: fill_byte_def put_Cons)

lemma wideval_bytes:
  "ucast (wideval c) = c" "ucast (drop_bit 8 (wideval c)) = c"
  "ucast (drop_bit 16 (wideval c)) = c" "ucast (drop_bit 24 (wideval c)) = c"
proof -
  have "wideval c = ucast c OR push_bit 8 (ucast c) OR push_bit 16 (ucast c) OR push_bit 24 (ucast c)"
    by (auto simp: wideval_def Let_def bit_eq_iff bit_simps)
  then show "ucast (wideval c) = c" "ucast (drop_bit 8 (wideval c)) = c"
      "ucast (drop_bit 16 (wideval c)) = c" "ucast (drop_bit 24 (wideval c)) = c"
    by (simp_all only: bytes_of_word)
qed

lemma replicate_four: "replicate 4 c = [c, c, c, c]"
  by (simp add: numeral_eq_Suc)

lemma fill_word_step:
  "d + 4 \<le> length m \<Longrightarrow> fill_word (wideval c) (m, d) = Some (put m d (replicate 4 c), d + 4)"
  by (simp add: fill_word_def store32_def wideval_bytes replicate_four put_Cons numeral_2_eq_2 numeral_3_eq_3)

lemmas fill_bytes = iter_fill [of 1 "fill_byte c" c for c, OF fill_byte_step, simplified]
lemmas fill_words = iter_fill [of 4 "fill_word (wideval c)" c for c, OF fill_word_step]

lemma memset_fill_phases:
  assumes "d + k + j * 4 + b \<le> length m"
  shows "do { st \<leftarrow> iter_opt k (fill_byte c) (m, d);
              st \<leftarrow> iter_opt j (fill_word (wideval c)) st;
              (m, dst) \<leftarrow> iter_opt b (fill_byte c) st;
              Some m } = Some (put m d (replicate (k + j * 4 + b) c))"
  using assms by (simp add: fill_bytes fill_words replicate_add put_append)

lemma memset_fill_put:
  assumes "d + unat len \<le> length m"
  shows "memset_fill c (wideval c) m d len = Some (put m d (replicate (unat len) c))"
proof (cases "len < 3 * wsize")
  case True
  then show ?thesis
    using assms by (simp add: memset_fill_def TLOOP_iter fill_bytes)
next
  case False
  let ?t = "word_of_nat d AND wmask :: u_int"
  have len: "12 \<le> unat len" using False by (simp add: word_less_nat_alt wsize_def)
  have t: "unat ?t < 4" by (simp add: word_of_nat_and_wmask)
  show ?thesis
  proof (cases "?t = 0")
    case True
    have "len div wsize \<noteq> 0" using len by (simp add: word_unat_eq_iff unat_div_wsize)
    then show ?thesis
      using True False assms memset_fill_phases [of d 0 "unat len div 4" "unat len mod 4" m c]
      by (simp add: memset_fill_def Let_def TLOOP_iter TLOOP1_iter unat_div_wsize unat_and_wmask split_def block_split)
  next
    case t0: False
    let ?k = "wsize - ?t"
    have k: "unat ?k = 4 - unat ?t" using t by (simp add: unat_minus word_le_nat_alt)
    have "unat (len - ?k) = unat len - unat ?k" using len k by (simp add: unat_minus word_le_nat_alt)
    then have un: "unat ?k + unat (len - ?k) = unat len" "?k \<noteq> 0" "(len - ?k) div wsize \<noteq> 0"
      using len k t by (auto simp: word_unat_eq_iff unat_div_wsize)
    then show ?thesis
      using t0 False assms memset_fill_phases [of d "unat ?k" "unat (len - ?k) div 4" "unat (len - ?k) mod 4" m c]
      by (simp add: memset_fill_def Let_def TLOOP_iter TLOOP1_iter unat_div_wsize unat_and_wmask split_def block_split)
  qed
qed

section \<open>Searching and comparing\<close>

lemma memchr_loop_spec:
  "p + n \<le> length m \<Longrightarrow> memchr_loop m p c n =
     Some (if c \<in> set (slice m p n) then Some (p + length (takeWhile (\<lambda>b. b \<noteq> c) (slice m p n))) else None)"
  by (induction n arbitrary: p) (auto simp: slice_Suc)

lemma memcmp_loop_spec:
  "p + n \<le> length m \<Longrightarrow> q + n \<le> length m \<Longrightarrow>
   memcmp_loop m p q n = Some (diff_first (slice m p n) (slice m q n))"
  by (induction n arbitrary: p q) (auto simp: slice_Suc)

lemma bcmp_loop_spec:
  "p + n \<le> length m \<Longrightarrow> q + n \<le> length m \<Longrightarrow>
   \<exists>r \<le> n. bcmp_loop m p q n = Some r \<and> (r = 0 \<longleftrightarrow> slice m p n = slice m q n)"
proof (induction n arbitrary: p q)
  case (Suc n)
  from Suc.IH [of "p + 1" "q + 1"] Suc.prems show ?case
    by (auto simp: slice_Suc intro: le_SucI)
qed simp

section \<open>Swapping bytes\<close>

fun swap_pairs :: "'a list \<Rightarrow> 'a list" where
  "swap_pairs (a # b # xs) = b # a # swap_pairs xs"
| "swap_pairs xs = xs"

lemma length_swap_pairs [simp]: "length (swap_pairs xs) = length xs"
  by (induction xs rule: swap_pairs.induct) auto

lemma swap_pairs_swap_pairs: "swap_pairs (swap_pairs xs) = xs"
  by (induction xs rule: swap_pairs.induct) auto

declare swab_round.simps [simp del]

lemma swab_round_iter:
  "swab_round (Suc n) st = Option.bind (iter_opt (n mod 8) swab_STEP st) (\<lambda>st. Some (n - n mod 8, st))"
proof (induction n arbitrary: st)
  case (Suc n)
  show ?case
  proof (cases "Suc n mod 8 = 0")
    case True
    then show ?thesis by (subst swab_round.simps) simp
  next
    case False
    then have "Suc n mod 8 = Suc (n mod 8)" by (simp add: mod_Suc split: if_splits)
    then show ?thesis using False
      by (subst swab_round.simps) (simp add: Let_def Suc [abs_def])
  qed
qed (simp add: swab_round.simps)

lemma swab_eights_iter: "swab_eights k st = iter_opt (8 * k) swab_STEP st"
proof (induction k arbitrary: st)
  case (Suc k)
  have "8 * Suc k = Suc (Suc (Suc (Suc (Suc (Suc (Suc (Suc (8 * k))))))))" by simp
  then show ?case by (simp only: swab_eights.simps iter_opt_Suc Suc [abs_def])
qed simp

lemma swab_iter: "swab m f t len = map_option fst (iter_opt (unat len div 2) swab_STEP (m, f, t))"
proof -
  let ?n = "unat len div 2"
  have "swab m f t len = Option.bind (Option.bind (iter_opt (?n mod 8) swab_STEP (m, f, t)) 
      (iter_opt (8 * ((?n - ?n mod 8) div 8)) swab_STEP)) (\<lambda>st. Some (fst st))"
    by (simp add: swab_def swab_round_iter swab_eights_iter split_def)
  also have "8 * ((?n - ?n mod 8) div 8) = ?n - ?n mod 8"
    by (simp add: minus_mod_eq_mult_div)
  finally show ?thesis
    by (simp add: iter_opt_add [symmetric] map_conv_bind_option comp_def)
qed

lemma swab_STEP_put:
  "f + 2 \<le> length m \<Longrightarrow> t + 2 \<le> length m \<Longrightarrow>
   swab_STEP (m, f, t) = Some (put m t [m ! (f + 1), m ! f], f + 2, t + 2)"
  by (simp add: swab_STEP_def put_Cons numeral_2_eq_2)

lemma iter_swab:
  assumes "f + 2 * n \<le> length m" "t + 2 * n \<le> length m" "t \<le> f \<or> f + 2 * n \<le> t"
  shows "iter_opt n swab_STEP (m, f, t) = Some (put m t (swap_pairs (slice m f (2 * n))), f + 2 * n, t + 2 * n)"
  using assms
proof (induction n arbitrary: m f t)
  case (Suc n)
  let ?m = "put m t [m ! (f + 1), m ! f]"
  have sl: "slice m f (2 * Suc n) = m ! f # m ! (f + 1) # slice m (f + 2) (2 * n)"
    using Suc.prems by (simp add: slice_Suc numeral_2_eq_2)
  have "slice ?m (f + 2) (2 * n) = slice m (f + 2) (2 * n)"
    using Suc.prems by (intro slice_put_disjoint) auto
  then have "iter_opt n swab_STEP (?m, f + 2, t + 2)
      = Some (put ?m (t + 2) (swap_pairs (slice m (f + 2) (2 * n))), f + 2 + 2 * n, t + 2 + 2 * n)"
    using Suc.prems by (subst Suc.IH) auto
  then show ?case
    unfolding sl using Suc.prems
      put_append [of t "[m ! (f + 1), m ! f]" "swap_pairs (slice m (f + 2) (2 * n))" m]
    by (simp add: swab_STEP_put)
qed simp

lemma ffs_loop_least:
  "bit w i \<Longrightarrow> (\<And>j. j < i \<Longrightarrow> \<not> bit w j) \<Longrightarrow> ffs_loop w b = Some (b + i)"
proof (induction i arbitrary: w b)
  case 0
  then show ?case by (subst ffs_loop.simps) (simp add: and_one_eq bit_0 odd_iff_mod_2_eq_one)
next
  case (Suc i)
  have "bit (signed_drop_bit 1 w) i" "\<And>j. j < i \<Longrightarrow> \<not> bit (signed_drop_bit 1 w) j" "\<not> bit w 0"
    using Suc.prems bit_imp_le_length [OF Suc.prems(1)] by (auto simp: bit_signed_drop_bit_iff)
  then show ?case
    using Suc.IH by (subst ffs_loop.simps) (simp add: and_one_eq bit_0 even_iff_mod_2_eq_zero)
qed

lemma bzero_put: "dst + unat len \<le> length m \<Longrightarrow> bzero m dst len = Some (put m dst (replicate (unat len) 0))"
  using memset_fill_put [of dst len m 0] by (simp add: bzero_def wideval_def)

section \<open>Properties\<close>



text \<open>\<open>memset\<close> and \<open>bzero\<close> store the low byte of their argument (or zero) in exactly \<open>length\<close> bytes,
  whether they run byte by byte or in aligned words.\<close>

theorem memset_correct:
  assumes "dst + unat len \<le> length m"
  shows "memset m dst c len = Some (put m dst (replicate (unat len) (ucast c)), dst)
    \<and> bzero m dst len = Some (put m dst (replicate (unat len) 0))"
  using memset_fill_put [OF assms, of "ucast c"] bzero_put [OF assms] by (simp add: memset_def)

theorem memset_correct_witness:
  "memset [9, 9, 9, 9, 9, 9, 9, 9, 9, 9, 9, 9, 9, 9, 9, 9] 1 0x141 14
   = Some ([9, 65, 65, 65, 65, 65, 65, 65, 65, 65, 65, 65, 65, 65, 65, 9], 1)"
proof -
  have "replicate 14 c = [c, c, c, c, c, c, c, c, c, c, c, c, c, c]" for c :: byte
    by (simp add: numeral_eq_Suc)
  then show ?thesis
    using memset_correct [of 1 14 "[9, 9, 9, 9, 9, 9, 9, 9, 9, 9, 9, 9, 9, 9, 9, 9]" "0x141"]
    by (simp add: put_def)
qed

text \<open>\<open>memchr\<close> finds the first byte equal to the argument, \<open>memcmp\<close> returns the difference of
  the first bytes that differ and \<open>bcmp\<close> is zero exactly on equal blocks.\<close>

theorem mem_search_correct:
  assumes "p + unat n \<le> length m" "q + unat n \<le> length m"
  shows "memchr m p c n = Some (if ucast c \<in> set (slice m p (unat n))
        then Some (p + length (takeWhile (\<lambda>b. b \<noteq> ucast c) (slice m p (unat n)))) else None)
    \<and> (\<exists>r. memcmp m p q n = Some r
        \<and> (r = 0 \<longleftrightarrow> slice m p (unat n) = slice m q (unat n))
        \<and> (r < 0 \<longleftrightarrow> (slice m p (unat n), slice m q (unat n)) \<in> lexord {(a, b). a < b}))
    \<and> (\<exists>r. bcmp m p q n = Some r \<and> (r = 0 \<longleftrightarrow> slice m p (unat n) = slice m q (unat n)))"
proof -
  obtain k where k: "k \<le> unat n" "bcmp_loop m p q (unat n) = Some k" "k = 0 \<longleftrightarrow> slice m p (unat n) = slice m q (unat n)"
    using bcmp_loop_spec [OF assms] by blast
  have "k < 2 ^ 32" using k(1) unsigned_less [of n, where ?'a = nat] by simp
  then have "word_of_nat k = (0 :: u_int) \<longleftrightarrow> k = 0"
    by (auto simp: word_of_nat_eq_0_iff dest: nat_dvd_not_less)
  then show ?thesis
    using assms k by (simp add: memchr_def memchr_loop_spec memcmp_def memcmp_loop_spec bcmp_def
        diff_first_eq_0 diff_first_less)
qed

theorem mem_search_correct_witness:
  "memchr [1, 2, 3, 2, 5, 1, 2, 4] 0 3 3 = Some (Some 2)"
  using mem_search_correct [of 0 3 "[1, 2, 3, 2, 5, 1, 2, 4]" 5 3] by (simp add: slice_def)

text \<open>\<open>memccpy\<close> copies up to and including the first byte equal to \<open>c\<close> and returns the address after
  it, or copies \<open>n\<close> bytes and returns the null pointer when there is none.\<close>

theorem memccpy_correct:
  assumes "f + unat n \<le> length m" "t + unat n \<le> length m"
  shows "memccpy m t f c n = Some (let bs = slice m f (unat n); pre = takeWhile (\<lambda>b. b \<noteq> ucast c) bs in
      if ucast c \<in> set bs then (put m t (pre @ [ucast c]), Some (t + length pre + 1)) else (put m t bs, None))"
proof -
  let ?bs = "slice m f (unat n)" and ?c = "ucast c :: byte"
  let ?k = "length (takeWhile (\<lambda>b. b \<noteq> ?c) ?bs)"
  show ?thesis
  proof (cases "?c \<in> set ?bs")
    case True
    then have k: "?k < length ?bs"
      using takeWhile_eq_all_conv [of "\<lambda>b. b \<noteq> ?c" ?bs] length_takeWhile_le [of "\<lambda>b. b \<noteq> ?c" ?bs]
      by (metis le_neq_implies_less takeWhile_eq_take take_all_iff order_refl)
    then have un: "unat (word_of_nat (Suc ?k) :: u_int) = Suc ?k"
      using assms unsigned_less [of n, where ?'a = nat] by (simp add: unat_of_nat take_bit_nat_eq_self del: of_nat_Suc)
    have "?bs ! ?k = ?c" using True nth_length_takeWhile [of "\<lambda>b. b \<noteq> ?c" ?bs] k by simp
    then have "slice m f (Suc ?k) = takeWhile (\<lambda>b. b \<noteq> ?c) ?bs @ [?c]"
      using k assms take_Suc_conv_app_nth [OF k] takeWhile_eq_take [of "\<lambda>b. b \<noteq> ?c" ?bs]
      by (simp add: slice_def min_def split: if_splits)
    then show ?thesis
      using True k assms un
      by (simp add: memccpy_def memchr_def memchr_loop_spec Let_def memmove_def bcopy_put del: of_nat_Suc)
  next
    case False
    then show ?thesis
      using assms by (simp add: memccpy_def memchr_def memchr_loop_spec Let_def memmove_def bcopy_put)
  qed
qed

theorem memccpy_correct_witness:
  "memccpy [1, 2, 3, 4, 0, 0, 0, 0] 4 0 3 4 = Some ([1, 2, 3, 4, 1, 2, 3, 0], Some 7)"
  using memccpy_correct [of 0 4 "[1, 2, 3, 4, 0, 0, 0, 0]" 4 3] by (simp add: slice_def put_def)

text \<open>\<open>swab\<close> swaps the two bytes of each pair, also when source and destination are the same block, and
  running it twice in place restores the memory.\<close>

theorem swab_correct:
  assumes "f + 2 * (unat len div 2) \<le> length m" "t + 2 * (unat len div 2) \<le> length m"
    "t \<le> f \<or> f + 2 * (unat len div 2) \<le> t"
  shows "swab m f t len = Some (put m t (swap_pairs (slice m f (2 * (unat len div 2)))))
    \<and> Option.bind (swab m f f len) (\<lambda>m. swab m f f len) = Some m"
proof -
  let ?n = "2 * (unat len div 2)"
  have s: "swab m' f t' len = Some (put m' t' (swap_pairs (slice m' f ?n)))"
    if "length m' = length m" "t' \<le> f \<or> f + ?n \<le> t'" "t' + ?n \<le> length m" for m' t'
    using that assms(1) by (simp add: swab_iter iter_swab)
  let ?m = "put m f (swap_pairs (slice m f ?n))"
  have "slice ?m f ?n = swap_pairs (slice m f ?n)"
    using slice_put_same [of f "swap_pairs (slice m f ?n)" m] assms(1) by simp
  moreover have "put ?m f (slice m f ?n) = m"
    using assms(1) by (intro nth_equalityI) (auto simp: nth_put nth_slice)
  ultimately have "Option.bind (swab m f f len) (\<lambda>m. swab m f f len) = Some m"
    using assms(1) s [of m f] s [of ?m f] by (simp add: swap_pairs_swap_pairs)
  then show ?thesis using s assms by simp
qed

theorem swab_correct_witness:
  "swab [1, 2, 3, 4, 5, 0, 0, 0, 0] 0 4 5 = Some [1, 2, 3, 4, 2, 1, 4, 3, 0]"
  using swab_correct [of 0 5 "[1, 2, 3, 4, 5, 0, 0, 0, 0]" 4] by (simp add: slice_def put_def)

text \<open>\<open>ffs\<close> returns for every mask: zero for zero, and otherwise one more than the number of the lowest bit
  that is set.\<close>

theorem ffs_correct: "ffs w = Some (if w = 0 then 0 else Suc (LEAST i. bit w i))"
proof (cases "w = 0")
  case False
  then obtain i where "bit w i" by (auto simp: bit_eq_iff)
  then have "bit w (LEAST i. bit w i)" by (rule LeastI)
  then have "ffs_loop w 1 = Some (1 + (LEAST i. bit w i))"
    by (rule ffs_loop_least) (rule not_less_Least)
  then show ?thesis using False by (simp add: ffs_def)
qed (simp add: ffs_def)

end
