(* ===== verification/Strings.thy ===== *)
theory Strings
  imports MemBlk "HOL-Library.Sublist"
begin

unbundle bit_operations_syntax

text \<open>
  The string routines of \<open>lib/libc/string\<close> over the byte memory. Each loop is the C loop on the
  pointers it moves; it ends because every turn reads a byte inside the memory. An \<open>int\<close> argument is a
  32-bit word, a result that is an address may be the null pointer, \<open>None\<close>.
\<close>

section \<open>Definitions\<close>

function strlen_loop :: "mem \<Rightarrow> ptr \<Rightarrow> ptr option" where
  "strlen_loop m s = do { c \<leftarrow> load m s; (if c \<noteq> 0 then strlen_loop m (s + 1) else Some s) }"
  by pat_completeness auto
termination by (relation "measure (\<lambda>(m, s). length m - s)") auto

definition strlen :: "mem \<Rightarrow> ptr \<Rightarrow> nat option" where
  "strlen m str = do { s \<leftarrow> strlen_loop m str; Some (s - str) }"

function strcpy_loop :: "mem \<Rightarrow> ptr \<Rightarrow> ptr \<Rightarrow> mem option" where
  "strcpy_loop m to from = do {
     c \<leftarrow> load m from; m \<leftarrow> store m to c;
     (if c \<noteq> 0 then strcpy_loop m (to + 1) (from + 1) else Some m) }"
  by pat_completeness auto
termination by (relation "measure (\<lambda>(m, to, from). length m - from)") (auto simp: load_eq_Some store_eq_Some)

definition strcpy :: "mem \<Rightarrow> ptr \<Rightarrow> ptr \<Rightarrow> (mem \<times> ptr) option" where
  "strcpy m to from = do { m \<leftarrow> strcpy_loop m to from; Some (m, to) }"

definition strcat :: "mem \<Rightarrow> ptr \<Rightarrow> ptr \<Rightarrow> (mem \<times> ptr) option" where
  "strcat m s app = do {
     p \<leftarrow> strlen_loop m s;
     m \<leftarrow> strcpy_loop m p app;
     Some (m, s) }"

function strcmp :: "mem \<Rightarrow> ptr \<Rightarrow> ptr \<Rightarrow> int option" where
  "strcmp m s1 s2 = do {
     a \<leftarrow> load m s1; b \<leftarrow> load m s2;
     (if a = b then (if a = 0 then Some 0 else strcmp m (s1 + 1) (s2 + 1))
      else Some (uint a - uint b)) }"
  by pat_completeness auto
termination by (relation "measure (\<lambda>(m, s1, s2). length m - s1)") auto

fun strncmp :: "mem \<Rightarrow> ptr \<Rightarrow> ptr \<Rightarrow> nat \<Rightarrow> int option" where
  "strncmp m s1 s2 0 = Some 0"
| "strncmp m s1 s2 (Suc n) = do {
     a \<leftarrow> load m s1; b \<leftarrow> load m s2;
     (if a \<noteq> b then Some (uint a - uint b)
      else if a = 0 then Some 0 else strncmp m (s1 + 1) (s2 + 1) n) }"

fun pad_loop :: "mem \<Rightarrow> ptr \<Rightarrow> nat \<Rightarrow> mem option" where
  "pad_loop m d 0 = Some m"
| "pad_loop m d (Suc n) = do { m \<leftarrow> store m d 0; pad_loop m (d + 1) n }"

fun strncpy_loop :: "mem \<Rightarrow> ptr \<Rightarrow> ptr \<Rightarrow> nat \<Rightarrow> mem option" where
  "strncpy_loop m d s 0 = Some m"
| "strncpy_loop m d s (Suc n) = do {
     c \<leftarrow> load m s; m \<leftarrow> store m d c;
     (if c = 0 then pad_loop m (d + 1) n else strncpy_loop m (d + 1) (s + 1) n) }"

definition strncpy :: "mem \<Rightarrow> ptr \<Rightarrow> ptr \<Rightarrow> nat \<Rightarrow> (mem \<times> ptr) option" where
  "strncpy m dst src n = do { m \<leftarrow> strncpy_loop m dst src n; Some (m, dst) }"

text \<open>The loop of \<open>strncat\<close> returns where it stopped; it is called with a count that is not zero.\<close>

fun strncat_loop :: "mem \<Rightarrow> ptr \<Rightarrow> ptr \<Rightarrow> nat \<Rightarrow> (mem \<times> ptr) option" where
  "strncat_loop m d s 0 = Some (m, d)"
| "strncat_loop m d s (Suc n) = do {
     c \<leftarrow> load m s; m \<leftarrow> store m d c;
     (if c = 0 then Some (m, d) else strncat_loop m (d + 1) (s + 1) n) }"

definition strncat :: "mem \<Rightarrow> ptr \<Rightarrow> ptr \<Rightarrow> nat \<Rightarrow> (mem \<times> ptr) option" where
  "strncat m dst src n =
     (if n \<noteq> 0 then do {
        d \<leftarrow> strlen_loop m dst;
        (m, d) \<leftarrow> strncat_loop m d src n;
        m \<leftarrow> store m d 0;
        Some (m, dst) }
      else Some (m, dst))"

function index_loop :: "mem \<Rightarrow> ptr \<Rightarrow> byte \<Rightarrow> ptr option option" where
  "index_loop m p ch = do {
     c \<leftarrow> load m p;
     (if c = ch then Some (Some p) else if c = 0 then Some None else index_loop m (p + 1) ch) }"
  by pat_completeness auto
termination by (relation "measure (\<lambda>(m, p, ch). length m - p)") auto

definition index :: "mem \<Rightarrow> ptr \<Rightarrow> u_int \<Rightarrow> ptr option option" where
  "index m p ch = index_loop m p (ucast ch)"

text \<open>\<open>rindex\<close> compares a sign-extended \<open>char\<close> with the whole \<open>int\<close>.\<close>

function rindex_loop :: "mem \<Rightarrow> ptr option \<Rightarrow> ptr \<Rightarrow> u_int \<Rightarrow> ptr option option" where
  "rindex_loop m save p ch = do {
     c \<leftarrow> load m p;
     let save = (if scast c = ch then Some p else save);
     (if c = 0 then Some save else rindex_loop m save (p + 1) ch) }"
  by pat_completeness auto
termination by (relation "measure (\<lambda>(m, save, p, ch). length m - p)") auto

definition rindex :: "mem \<Rightarrow> ptr \<Rightarrow> u_int \<Rightarrow> ptr option option" where
  "rindex m p ch = rindex_loop m None p ch"

subsection \<open>Case folding\<close>

definition charmap :: "byte list" where
  "charmap =
  [0, 1, 2, 3, 4, 5, 6, 7, 8, 9, 10, 11, 12, 13, 14, 15,
   16, 17, 18, 19, 20, 21, 22, 23, 24, 25, 26, 27, 28, 29, 30, 31,
   32, 33, 34, 35, 36, 37, 38, 39, 40, 41, 42, 43, 44, 45, 46, 47,
   48, 49, 50, 51, 52, 53, 54, 55, 56, 57, 58, 59, 60, 61, 62, 63,
   64, 97, 98, 99, 100, 101, 102, 103, 104, 105, 106, 107, 108, 109, 110, 111,
   112, 113, 114, 115, 116, 117, 118, 119, 120, 121, 122, 91, 92, 93, 94, 95,
   96, 97, 98, 99, 100, 101, 102, 103, 104, 105, 106, 107, 108, 109, 110, 111,
   112, 113, 114, 115, 116, 117, 118, 119, 120, 121, 122, 123, 124, 125, 126, 127,
   128, 129, 130, 131, 132, 133, 134, 135, 136, 137, 138, 139, 140, 141, 142, 143,
   144, 145, 146, 147, 148, 149, 150, 151, 152, 153, 154, 155, 156, 157, 158, 159,
   160, 161, 162, 163, 164, 165, 166, 167, 168, 169, 170, 171, 172, 173, 174, 175,
   176, 177, 178, 179, 180, 181, 182, 183, 184, 185, 186, 187, 188, 189, 190, 191,
   192, 193, 194, 195, 196, 197, 198, 199, 200, 201, 202, 203, 204, 205, 206, 207,
   208, 209, 210, 211, 212, 213, 214, 215, 216, 217, 218, 219, 220, 221, 222, 223,
   224, 225, 226, 227, 228, 229, 230, 231, 232, 233, 234, 235, 236, 237, 238, 239,
   240, 241, 242, 243, 244, 245, 246, 247, 248, 249, 250, 251, 252, 253, 254, 255]"

function strcasecmp :: "mem \<Rightarrow> ptr \<Rightarrow> ptr \<Rightarrow> int option" where
  "strcasecmp m us1 us2 = do {
     a \<leftarrow> load m us1; b \<leftarrow> load m us2;
     (if charmap ! unat a = charmap ! unat b
      then (if a = 0 then Some 0 else strcasecmp m (us1 + 1) (us2 + 1))
      else Some (uint (charmap ! unat a) - uint (charmap ! unat b))) }"
  by pat_completeness auto
termination by (relation "measure (\<lambda>(m, us1, us2). length m - us1)") auto

fun strncasecmp :: "mem \<Rightarrow> ptr \<Rightarrow> ptr \<Rightarrow> nat \<Rightarrow> int option" where
  "strncasecmp m us1 us2 0 = Some 0"
| "strncasecmp m us1 us2 (Suc n) = do {
     a \<leftarrow> load m us1; b \<leftarrow> load m us2;
     (if charmap ! unat a \<noteq> charmap ! unat b then Some (uint (charmap ! unat a) - uint (charmap ! unat b))
      else if a = 0 then Some 0 else strncasecmp m (us1 + 1) (us2 + 1) n) }"

subsection \<open>Collation in the C locale\<close>

definition strcoll :: "mem \<Rightarrow> ptr \<Rightarrow> ptr \<Rightarrow> int option" where
  "strcoll m s1 s2 = strcmp m s1 s2"

definition strxfrm :: "mem \<Rightarrow> ptr \<Rightarrow> ptr \<Rightarrow> u_int \<Rightarrow> (mem \<times> nat) option" where
  "strxfrm m dst src n = do {
     srclen \<leftarrow> strlen m src;
     (if n \<noteq> 0 then do {
        let copysize = (if srclen < unat n then word_of_nat srclen else n - 1);
        (m, d) \<leftarrow> memcpy m dst src copysize;
        m \<leftarrow> store m (dst + unat copysize) 0;
        Some (m, srclen) }
      else Some (m, srclen)) }"

subsection \<open>Searching\<close>

function strstr_char :: "mem \<Rightarrow> ptr \<Rightarrow> byte \<Rightarrow> ptr option option" where
  "strstr_char m s c = do {
     sc \<leftarrow> load m s;
     (if sc = 0 then Some None else if sc \<noteq> c then strstr_char m (s + 1) c else Some (Some (s + 1))) }"
  by pat_completeness auto
termination by (relation "measure (\<lambda>(m, s, c). length m - s)") auto

declare strstr_char.simps [simp del]

lemma strstr_char_advances: "strstr_char m s c = Some (Some p) \<Longrightarrow> s < p \<and> p \<le> length m"
  by (induction m s c rule: strstr_char.induct)
    (subst (asm) (2) strstr_char.simps, force split: bind_splits if_splits)

function strstr_loop :: "mem \<Rightarrow> ptr \<Rightarrow> byte \<Rightarrow> ptr \<Rightarrow> nat \<Rightarrow> ptr option option" where
  "strstr_loop m s c fnd len = do {
     r \<leftarrow> strstr_char m s c;
     (case r of
        None \<Rightarrow> Some None
      | Some s \<Rightarrow> do {
          x \<leftarrow> strncmp m s fnd len;
          (if x \<noteq> 0 then strstr_loop m s c fnd len else Some (Some (s - 1))) }) }"
  by pat_completeness auto
termination
  by (relation "measure (\<lambda>(m, s, c, fnd, len). length m - s)") (auto dest: strstr_char_advances)

definition strstr :: "mem \<Rightarrow> ptr \<Rightarrow> ptr \<Rightarrow> ptr option option" where
  "strstr m s fnd = do {
     c \<leftarrow> load m fnd;
     (if c \<noteq> 0 then do {
        len \<leftarrow> strlen m (fnd + 1);
        strstr_loop m s c (fnd + 1) len }
      else Some (Some s)) }"

section \<open>Strings in memory\<close>

declare strlen_loop.simps [simp del] strcpy_loop.simps [simp del] strcmp.simps [simp del]
  index_loop.simps [simp del] rindex_loop.simps [simp del] strcasecmp.simps [simp del]
  strstr_loop.simps [simp del]

lemma cstr_update: "cstr m p s \<Longrightarrow> q < p \<or> p + length s < q \<Longrightarrow> cstr (m[q := b]) p s"
  by (induction s arbitrary: p) (auto simp: cstr_Nil cstr_Cons)

lemma cstr_bound: "cstr m p s \<Longrightarrow> p + length s < length m"
  by (simp add: cstr_def)

lemma cstr_append: "cstr m p (s @ t) \<Longrightarrow> cstr m (p + length s) t"
proof (induction s arbitrary: p)
  case (Cons c s)
  from Cons.IH [of "p + 1"] Cons.prems show ?case by (simp add: cstr_Cons)
qed simp

lemma strlen_loop_spec: "cstr m p s \<Longrightarrow> strlen_loop m p = Some (p + length s)"
  by (induction s arbitrary: p; subst strlen_loop.simps) (auto simp: cstr_Nil cstr_Cons)

lemma strlen_spec: "cstr m p s \<Longrightarrow> strlen m p = Some (length s)"
  by (simp add: strlen_def strlen_loop_spec)

text \<open>Where a copy towards lower addresses, or to a block outside the source, is safe.\<close>

lemma strcpy_loop_spec:
  "cstr m f s \<Longrightarrow> t + length s < length m \<Longrightarrow> t \<le> f \<or> f + length s < t \<Longrightarrow>
   strcpy_loop m t f = Some (put m t (s @ [0]))"
proof (induction s arbitrary: m t f)
  case Nil
  then show ?case by (subst strcpy_loop.simps) (simp add: cstr_Nil put_Cons)
next
  case (Cons c s)
  have "strcpy_loop (m[t := c]) (t + 1) (f + 1) = Some (put (m[t := c]) (t + 1) (s @ [0]))"
    using Cons.prems by (intro Cons.IH cstr_update) (auto simp: cstr_Cons)
  with Cons.prems show ?case
    by (subst strcpy_loop.simps) (simp add: cstr_Cons put_Cons)
qed

lemma strcat_spec:
  assumes "cstr m d s" "cstr m a t" "d + length s + length t < length m"
    "d + length s \<le> a \<or> a + length t < d + length s"
  shows "strcat m d a = Some (put m (d + length s) (t @ [0]), d)"
  using assms by (simp add: strcat_def strlen_loop_spec strcpy_loop_spec)

lemma pad_loop_spec: "d + n \<le> length m \<Longrightarrow> pad_loop m d n = Some (put m d (replicate n 0))"
  by (induction n arbitrary: m d) (auto simp: put_Cons)

lemma strncpy_loop_spec:
  "cstr m f s \<Longrightarrow> t + n \<le> length m \<Longrightarrow> t \<le> f \<or> f + length s < t \<Longrightarrow>
   strncpy_loop m t f n = Some (put m t (take n s @ replicate (n - length s) 0))"
proof (induction n arbitrary: m t f s)
  case (Suc n)
  show ?case
  proof (cases s)
    case Nil
    then show ?thesis
      using Suc.prems by (simp add: cstr_Nil pad_loop_spec put_Cons)
  next
    case (Cons c s')
    have "strncpy_loop (m[t := c]) (t + 1) (f + 1) n = Some (put (m[t := c]) (t + 1) (take n s' @ replicate (n - length s') 0))"
      using Suc.prems Cons by (intro Suc.IH cstr_update) (auto simp: cstr_Cons)
    then show ?thesis
      using Suc.prems Cons by (simp add: cstr_Cons put_Cons)
  qed
qed simp

lemma strncat_loop_spec:
  "cstr m f t \<Longrightarrow> d + min n (length t) < length m \<Longrightarrow> d \<le> f \<or> f + length t < d \<Longrightarrow>
   \<exists>m' d'. strncat_loop m d f n = Some (m', d') \<and> store m' d' 0 = Some (put m d (take n t @ [0]))"
proof (induction n arbitrary: m d f t)
  case 0
  then show ?case by (simp add: put_Cons)
next
  case (Suc n)
  show ?case
  proof (cases t)
    case Nil
    then show ?thesis
      using Suc.prems by (simp add: cstr_Nil put_Cons)
  next
    case (Cons c t')
    have "cstr (m[d := c]) (f + 1) t'"
      using Suc.prems Cons by (intro cstr_update) (auto simp: cstr_Cons)
    then have "\<exists>m' d'. strncat_loop (m[d := c]) (d + 1) (f + 1) n = Some (m', d')
        \<and> store m' d' 0 = Some (put (m[d := c]) (d + 1) (take n t' @ [0]))"
      using Suc.prems Cons by (intro Suc.IH) (auto simp: cstr_Cons)
    then show ?thesis
      using Suc.prems Cons by (simp add: cstr_Cons put_Cons)
  qed
qed

lemma strncat_spec:
  assumes "cstr m d s" "cstr m a t" "d + length s + min n (length t) < length m"
    "d + length s \<le> a \<or> a + length t < d + length s"
  shows "strncat m d a n = Some (if n = 0 then m else put m (d + length s) (take n t @ [0]), d)"
  using assms strncat_loop_spec [of m a t "d + length s" n]
  by (auto simp: strncat_def strlen_loop_spec)

section \<open>Comparison\<close>

text \<open>The result of \<open>strcmp\<close> on two strings, each with the zero that ends it.\<close>

definition str_order :: "byte list \<Rightarrow> byte list \<Rightarrow> int" where
  "str_order s t = diff_first (s @ [0]) (t @ [0])"

lemma str_order_simps [simp]:
  "str_order [] [] = 0" "str_order [] (b # t) = (if b = 0 then 0 else - uint b)"
  "str_order (a # s) [] = uint a"
  "str_order (a # s) (b # t) = (if a = b then str_order s t else uint a - uint b)"
  by (cases s; cases t; auto simp: str_order_def)+

lemma str_order_swap: "str_order t s = - str_order s t"
  unfolding str_order_def by (rule diff_first_swap)

lemma str_order_eq_0: "0 \<notin> set s \<Longrightarrow> 0 \<notin> set t \<Longrightarrow> str_order s t = 0 \<longleftrightarrow> s = t"
proof (induction s arbitrary: t)
  case Nil
  then show ?case by (cases t) (auto simp: uint_0_iff)
next
  case (Cons a s)
  then show ?case by (cases t) (auto simp: word_uint_eq_iff)
qed

lemma str_order_less:
  "0 \<notin> set s \<Longrightarrow> 0 \<notin> set t \<Longrightarrow> str_order s t < 0 \<longleftrightarrow> (s, t) \<in> lexord {(a, b). a < b}"
proof (induction s arbitrary: t)
  case Nil
  then show ?case by (cases t) (auto simp: word_neq_0_conv word_less_def)
next
  case (Cons a s)
  then show ?case by (cases t) (auto simp: word_less_def)
qed

lemma str_order_trans:
  assumes "0 \<notin> set s" "0 \<notin> set t" "0 \<notin> set u" "str_order s t \<le> 0" "str_order t u \<le> 0"
  shows "str_order s u \<le> 0"
proof -
  have le: "str_order x y \<le> 0 \<longleftrightarrow> x = y \<or> (x, y) \<in> lexord {(a, b). a < b}" if "0 \<notin> set x" "0 \<notin> set y" for x y
    using str_order_eq_0 [OF that] str_order_less [OF that] by linarith
  have "trans {(a :: byte, b). a < b}" by (auto intro: transI)
  then show ?thesis
    using assms(4,5) lexord_trans unfolding le [OF assms(1,2)] le [OF assms(2,3)] le [OF assms(1,3)] by blast
qed

lemma strcmp_spec: "cstr m p s \<Longrightarrow> cstr m q t \<Longrightarrow> strcmp m p q = Some (str_order s t)"
proof (induction s arbitrary: p q t)
  case Nil
  then show ?case by (subst strcmp.simps, cases t) (auto simp: cstr_Nil cstr_Cons)
next
  case (Cons a s)
  then show ?case by (subst strcmp.simps, cases t) (auto simp: cstr_Nil cstr_Cons)
qed

lemma strncmp_spec: "cstr m p s \<Longrightarrow> cstr m q t \<Longrightarrow> strncmp m p q n = Some (str_order (take n s) (take n t))"
proof (induction n arbitrary: p q s t)
  case (Suc n)
  then show ?case by (cases s; cases t) (auto simp: cstr_Nil cstr_Cons)
qed simp

section \<open>Case folding\<close>

definition fold_case :: "byte \<Rightarrow> byte" where
  "fold_case c = (if 65 \<le> c \<and> c \<le> 90 then c + 32 else c)"

lemma charmap_table: "charmap = map (\<lambda>i. fold_case (word_of_nat i)) [0..<256]"
  by code_simp

lemma charmap_fold_case: "charmap ! unat c = fold_case c"
  using unsigned_less [of c, where ?'a = nat] by (simp add: charmap_table)

lemma charmap_0 [simp]: "charmap ! 0 = 0"
  by (simp add: charmap_def)

lemma fold_case_0 [simp]: "fold_case 0 = 0"
  by (simp add: fold_case_def)

lemma fold_case_eq_0 [simp]: "fold_case c = 0 \<longleftrightarrow> c = 0" "0 = fold_case c \<longleftrightarrow> c = 0"
proof -
  have "unat (c + 32) = unat c + 32" if "c \<le> 90"
    using that by (simp add: word_le_nat_alt unat_add_lem [THEN iffD1])
  then have "c + 32 \<noteq> 0" if "c \<le> 90" using that by (auto simp: word_unat_eq_iff simp del: unat_plus_simple)
  then show "fold_case c = 0 \<longleftrightarrow> c = 0" "0 = fold_case c \<longleftrightarrow> c = 0"
    by (auto simp: fold_case_def)
qed

lemma strcasecmp_spec:
  "cstr m p s \<Longrightarrow> cstr m q t \<Longrightarrow> strcasecmp m p q = Some (str_order (map fold_case s) (map fold_case t))"
proof (induction s arbitrary: p q t)
  case Nil
  then show ?case by (subst strcasecmp.simps, cases t) (auto simp: cstr_Nil cstr_Cons charmap_fold_case)
next
  case (Cons a s)
  then show ?case by (subst strcasecmp.simps, cases t) (auto simp: cstr_Nil cstr_Cons charmap_fold_case)
qed

lemma strncasecmp_spec:
  "cstr m p s \<Longrightarrow> cstr m q t \<Longrightarrow>
   strncasecmp m p q n = Some (str_order (map fold_case (take n s)) (map fold_case (take n t)))"
proof (induction n arbitrary: p q s t)
  case (Suc n)
  then show ?case by (cases s; cases t) (auto simp: cstr_Nil cstr_Cons charmap_fold_case)
qed simp

section \<open>Searching\<close>

lemma index_loop_spec:
  "cstr m p s \<Longrightarrow> index_loop m p c =
     Some (if c \<in> set (s @ [0]) then Some (p + length (takeWhile (\<lambda>b. b \<noteq> c) (s @ [0]))) else None)"
  by (induction s arbitrary: p; subst index_loop.simps) (auto simp: cstr_Nil cstr_Cons)

fun last_idx :: "('a \<Rightarrow> bool) \<Rightarrow> 'a list \<Rightarrow> nat option" where
  "last_idx P [] = None"
| "last_idx P (x # xs) = (case last_idx P xs of
     Some i \<Rightarrow> Some (Suc i) | None \<Rightarrow> if P x then Some 0 else None)"

lemma last_idx_Some:
  "last_idx P xs = Some i \<Longrightarrow> i < length xs \<and> P (xs ! i) \<and> (\<forall>j. i < j \<and> j < length xs \<longrightarrow> \<not> P (xs ! j))"
proof (induction xs arbitrary: i)
  case (Cons x xs)
  have none: "last_idx P ys = None \<Longrightarrow> y \<in> set ys \<Longrightarrow> \<not> P y" for ys y
    by (induction ys) (auto split: option.splits if_splits)
  show ?case
    using Cons none [of xs] by (auto split: option.splits if_splits simp: nth_Cons' less_Suc_eq_0_disj)
qed simp

lemma last_idx_None: "last_idx P xs = None \<longleftrightarrow> (\<forall>x \<in> set xs. \<not> P x)"
  by (induction xs) (auto split: option.splits)

lemma rindex_loop_spec:
  "cstr m p s \<Longrightarrow> rindex_loop m save p ch =
     Some (case last_idx (\<lambda>c. scast c = ch) (s @ [0]) of Some i \<Rightarrow> Some (p + i) | None \<Rightarrow> save)"
proof (induction s arbitrary: p save)
  case Nil
  then show ?case by (subst rindex_loop.simps) (auto simp: cstr_Nil)
next
  case (Cons c s)
  then show ?case
    by (subst rindex_loop.simps) (auto simp: cstr_Cons Let_def split: option.splits)
qed

fun first_occ :: "byte list \<Rightarrow> byte list \<Rightarrow> nat option" where
  "first_occ t s = (if prefix t s then Some 0 else
     case s of [] \<Rightarrow> None | _ # s' \<Rightarrow> map_option Suc (first_occ t s'))"

declare first_occ.simps [simp del]

lemma strncmp_prefix:
  assumes "cstr m p s" "cstr m q t"
  shows "\<exists>x. strncmp m p q (length t) = Some x \<and> (x = 0 \<longleftrightarrow> prefix t s)"
proof -
  have "0 \<notin> set (take (length t) s)" "0 \<notin> set t"
    using assms by (auto simp: cstr_def dest: in_set_takeD)
  moreover have "prefix t s \<longleftrightarrow> take (length t) s = t"
    by (metis append_eq_conv_conj append_take_drop_id prefix_def)
  ultimately show ?thesis
    by (simp add: strncmp_spec [OF assms] str_order_eq_0)
qed

lemma strstr_loop_spec:
  "cstr m p s \<Longrightarrow> cstr m q t \<Longrightarrow> c \<noteq> 0 \<Longrightarrow>
   strstr_loop m p c q (length t) = Some (map_option ((+) p) (first_occ (c # t) s))"
proof (induction s arbitrary: p)
  case Nil
  then show ?case
    by (subst strstr_loop.simps, subst strstr_char.simps) (simp add: cstr_Nil first_occ.simps)
next
  case (Cons a s)
  have IH: "strstr_loop m (p + 1) c q (length t) = Some (map_option ((+) (p + 1)) (first_occ (c # t) s))"
    using Cons by (simp add: cstr_Cons)
  have shift: "map_option ((+) (Suc p)) r = map_option ((+) p) (map_option Suc r)" for r
    by (cases r) auto
  show ?case
  proof (cases "a = c")
    case True
    have "cstr m (p + 1) s" using Cons.prems by (simp add: cstr_Cons)
    then obtain x where "strncmp m (p + 1) q (length t) = Some x" "x = 0 \<longleftrightarrow> prefix t s"
      using strncmp_prefix Cons.prems(2) by blast
    then show ?thesis
      using True Cons.prems IH
      by (subst strstr_loop.simps, subst strstr_char.simps) (simp add: cstr_Cons first_occ.simps [of _ "c # s"] shift)
  next
    case False
    then have "strstr_char m p c = strstr_char m (p + 1) c"
      using Cons.prems by (subst strstr_char.simps) (simp add: cstr_Cons)
    then have "strstr_loop m p c q (length t) = strstr_loop m (p + 1) c q (length t)"
      by (simp add: strstr_loop.simps)
    then show ?thesis
      using False IH by (simp add: first_occ.simps [of _ "a # s"] shift)
  qed
qed

lemma first_occ_Some: "first_occ t s = Some i \<Longrightarrow> prefix t (drop i s) \<and> (\<forall>j < i. \<not> prefix t (drop j s))"
proof (induction s arbitrary: i)
  case Nil
  then show ?case by (simp add: first_occ.simps split: if_splits)
next
  case (Cons a s)
  then show ?case
    by (subst (asm) first_occ.simps) (auto split: if_splits simp: less_Suc_eq_0_disj)
qed

lemma first_occ_None: "first_occ t s = None \<Longrightarrow> \<not> sublist t s"
proof (induction s)
  case Nil
  then show ?case by (simp add: first_occ.simps split: if_splits)
next
  case (Cons a s)
  then show ?case
    by (subst (asm) first_occ.simps) (auto split: if_splits simp: sublist_Cons_right)
qed

lemma strstr_spec:
  assumes "cstr m p s" "cstr m q t"
  shows "strstr m p q = Some (map_option ((+) p) (first_occ t s))"
proof (cases t)
  case Nil
  then show ?thesis using assms by (simp add: strstr_def cstr_Nil first_occ.simps)
next
  case (Cons c t')
  then show ?thesis
    using assms strstr_loop_spec [of m p s "q + 1" t' c]
    by (simp add: strstr_def cstr_Cons strlen_spec [of m "Suc q" t'])
qed

lemma strxfrm_spec:
  assumes "cstr m src s" "length s < 2 ^ 32" "dst + unat n \<le> length m"
  shows "strxfrm m dst src n =
    Some (if n = 0 then m else put m dst (take (unat n - 1) s @ [0]), length s)"
proof (cases "n = 0")
  case False
  define k where "k = (if length s < unat n then word_of_nat (length s) else n - 1)"
  have n: "unat (n - 1) = unat n - 1" "0 < unat n" using False by (simp_all add: unat_minus_one unat_gt_0)
  have k: "unat k = min (length s) (unat n - 1)"
    using assms(2) n by (auto simp: k_def unat_of_nat take_bit_nat_eq_self)
  have "slice m src (unat k) = take (unat n - 1) s"
    using assms(1) k by (auto simp: cstr_def slice_def min_def take_all_iff dest: arg_cong [of _ _ "take (unat n - 1)"])
  moreover have "src + unat k \<le> length m" using assms(1) k by (simp add: cstr_def min_def)
  ultimately have "memcpy m dst src k = Some (put m dst (take (unat n - 1) s), dst)"
    using assms(3) k n by (simp add: memcpy_def bcopy_put)
  moreover have "store (put m dst (take (unat n - 1) s)) (dst + unat k) 0 = Some (put m dst (take (unat n - 1) s @ [0]))"
    using assms(3) k n put_snoc [of dst "take (unat n - 1) s" m 0] by (simp add: min.commute)
  ultimately show ?thesis
    using False by (simp add: strxfrm_def strlen_spec [OF assms(1)] k_def [symmetric])
qed (simp add: strxfrm_def strlen_spec [OF assms(1)])

lemma cstr_put: "p + length s < length m \<Longrightarrow> 0 \<notin> set s \<Longrightarrow> cstr (put m p (s @ [0])) p s"
  using slice_put_same [of p "s @ [0]" m] slice_add [of "put m p (s @ [0])" p "length s" 1]
  by (simp add: cstr_def nth_put nth_append slice_Suc)

section \<open>Properties\<close>

text \<open>C23: \<open>strcpy\<close>, \<open>strcat\<close>, \<open>strncpy\<close> and \<open>strncat\<close> write exactly the bytes of the string and its
  terminator (\<open>strncpy\<close> pads with zeros or leaves the terminator out, \<open>strncat\<close> always adds one unless
  the count is zero), return the destination and change no other byte, when the destination lies
  below the source or outside it.\<close>

theorem string_copy_correct:
  assumes "cstr m f s" "t + length s < length m" "t + n \<le> length m" "t \<le> f \<or> f + length s < t"
    and "cstr m d u" "d + length u + length s < length m" "d + length u \<le> f \<or> f + length s < d + length u"
  shows "strcpy m t f = Some (put m t (s @ [0]), t)
    \<and> strncpy m t f n = Some (put m t (take n s @ replicate (n - length s) 0), t)
    \<and> strcat m d f = Some (put m (d + length u) (s @ [0]), d)
    \<and> strncat m d f n = Some (if n = 0 then m else put m (d + length u) (take n s @ [0]), d)"
  using assms by (simp add: strcpy_def strcpy_loop_spec strncpy_def strncpy_loop_spec strcat_spec strncat_spec)

theorem string_copy_correct_witness:
  "strcpy [97, 98, 0, 120, 121, 0, 1, 2, 3, 4] 6 3 = Some ([97, 98, 0, 120, 121, 0, 120, 121, 0, 4], 6)"
  using string_copy_correct [of "[97, 98, 0, 120, 121, 0, 1, 2, 3, 4]" 3 "[120, 121]" 6 3 6 "[]" ]
    string_copy_correct [of "[97, 98, 0, 120, 121, 0, 1, 2, 3, 4]" 3 "[120, 121]" 6 3 0 "[97, 98]"]
  by (simp add: cstr_def slice_def put_def)

text \<open>\<open>strcmp\<close> (and \<open>strcoll\<close>, which is \<open>strcmp\<close> in the C locale) is zero exactly on equal strings, negative exactly when the first is
  before the second in the lexicographic order of unsigned bytes, and changes sign when the
  arguments are swapped; \<open>strncmp\<close> compares the first \<open>n\<close> bytes the same way.\<close>

theorem strcmp_correct:
  assumes "cstr m p s" "cstr m q t"
  shows "(\<exists>r. strcmp m p q = Some r \<and> strcoll m p q = Some r \<and> strcmp m q p = Some (- r)
      \<and> (r = 0 \<longleftrightarrow> s = t) \<and> (r < 0 \<longleftrightarrow> (s, t) \<in> lexord {(a, b). a < b}))
    \<and> (\<exists>r. strncmp m p q n = Some r \<and> (r = 0 \<longleftrightarrow> take n s = take n t)
      \<and> (r < 0 \<longleftrightarrow> (take n s, take n t) \<in> lexord {(a, b). a < b}))"
proof -
  have 0: "0 \<notin> set s" "0 \<notin> set t" using assms by (simp_all add: cstr_def)
  then have "0 \<notin> set (take n s)" "0 \<notin> set (take n t)" by (auto dest: in_set_takeD)
  then show ?thesis
    using 0 str_order_swap [of t s]
    by (simp add: strcoll_def strcmp_spec [OF assms] strcmp_spec [OF assms(2,1)] strncmp_spec [OF assms]
        str_order_eq_0 str_order_less)
qed

theorem strcmp_correct_witness:
  "\<exists>r < 0. strcmp [97, 0, 97, 200, 0] 0 2 = Some r"
  using strcmp_correct [of "[97, 0, 97, 200, 0]" 0 "[97]" 2 "[97, 200]"]
  by (auto simp: cstr_def slice_def)

text \<open>\<open>strcasecmp\<close> and \<open>strncasecmp\<close>, which go through the \<open>charmap\<close> table, compare the strings with
  the upper case ASCII letters mapped to lower case and every other byte left as it is.\<close>

theorem strcasecmp_correct:
  assumes "cstr m p s" "cstr m q t"
  shows "strcasecmp m p q = Some (str_order (map fold_case s) (map fold_case t))
    \<and> strncasecmp m p q n = Some (str_order (map fold_case (take n s)) (map fold_case (take n t)))
    \<and> (strcasecmp m p q = Some 0 \<longleftrightarrow> map fold_case s = map fold_case t)"
proof -
  have "0 \<notin> set (map fold_case s)" "0 \<notin> set (map fold_case t)"
    using assms by (auto simp: cstr_def image_iff)
  then show ?thesis
    by (simp add: strcasecmp_spec [OF assms] strncasecmp_spec [OF assms] str_order_eq_0)
qed

theorem strcasecmp_correct_witness:
  "strcasecmp [97, 66, 0, 65, 98, 0] 0 3 = Some 0"
  using strcasecmp_correct [of "[97, 66, 0, 65, 98, 0]" 0 "[97, 66]" 3 "[65, 98]"]
  by (simp add: cstr_def slice_def fold_case_def)

text \<open>\<open>strstr\<close> returns the first occurrence of the second string in the first, and the null pointer
  exactly when there is none.\<close>

theorem strstr_correct:
  assumes "cstr m p s" "cstr m q t"
  shows "case strstr m p q of
      Some (Some r) \<Rightarrow> \<exists>i. r = p + i \<and> prefix t (drop i s) \<and> (\<forall>j < i. \<not> prefix t (drop j s))
    | Some None \<Rightarrow> \<not> sublist t s
    | None \<Rightarrow> False"
  using first_occ_Some [of t s] first_occ_None [of t s]
  by (auto simp: strstr_spec [OF assms] split: option.splits)

theorem strstr_correct_witness:
  "case strstr [97, 97, 98, 0, 97, 98, 0] 0 4 of
      Some (Some r) \<Rightarrow> \<exists>i. r = 0 + i \<and> prefix [97, 98] (drop i [97, 97, 98 :: byte]) \<and> (\<forall>j < i. \<not> prefix [97, 98] (drop j [97, 97, 98 :: byte]))
    | Some None \<Rightarrow> \<not> sublist [97, 98] [97, 97, 98 :: byte]
    | None \<Rightarrow> False"
  by (rule strstr_correct) (simp_all add: cstr_def slice_def)

text \<open>\<open>index\<close> returns the first byte equal to \<open>ch\<close>, the terminator included; \<open>rindex\<close> returns the last byte whose sign-extended
  value is \<open>ch\<close>, so that for \<open>ch\<close> from 128 to 255, where \<open>index\<close> can find the byte, it always returns the null pointer.\<close>

theorem index_rindex_correct:
  assumes "cstr m p s"
  shows "index m p ch = Some (if ucast ch \<in> set (s @ [0])
        then Some (p + length (takeWhile (\<lambda>b. b \<noteq> ucast ch) (s @ [0]))) else None)
    \<and> rindex m p ch = Some (map_option ((+) p) (last_idx (\<lambda>c. scast c = ch) (s @ [0])))
    \<and> (128 \<le> ch \<and> ch < 256 \<longrightarrow> rindex m p ch = Some None)"
proof -
  have r: "rindex m p ch = Some (map_option ((+) p) (last_idx (\<lambda>c. scast c = ch) (s @ [0])))"
    by (auto simp: rindex_def rindex_loop_spec [OF assms] split: option.splits)
  have "scast c \<noteq> ch" if "128 \<le> ch" "ch < 256" for c :: byte
  proof
    assume "scast c = ch"
    moreover have "sint (scast c :: u_int) = sint c" by (simp add: sint_up_scast is_up)
    moreover have "sint ch = uint ch" using that by (simp add: sint_conv_uint word_less_def word_le_def)
    ultimately show False
      using that sint_lt [of c] by (auto simp: word_le_def word_less_def)
  qed
  then have "128 \<le> ch \<and> ch < 256 \<longrightarrow> last_idx (\<lambda>c. scast c = ch) (s @ [0 :: byte]) = None"
    by (auto simp: last_idx_None)
  with r show ?thesis
    by (auto simp: index_def index_loop_spec [OF assms])
qed

theorem index_rindex_correct_witness:
  "index [97, 233, 98, 0] 0 233 = Some (Some 1) \<and> rindex [97, 233, 98, 0] 0 233 = Some None"
  using index_rindex_correct [of "[97, 233, 98, 0]" 0 "[97, 233, 98]" 233] by (simp add: cstr_def slice_def)

text \<open>\<open>strxfrm\<close> returns the length of the source and stores at most \<open>n\<close> bytes with the terminator; with room
  for it all, comparing the results of two transformations with \<open>strcmp\<close> is comparing the sources with
  \<open>strcoll\<close>.\<close>

theorem strxfrm_correct:
  assumes "cstr m src s" "length s < 2 ^ 32" "dst + unat n \<le> length m"
  shows "strxfrm m dst src n = Some (if n = 0 then m else put m dst (take (unat n - 1) s @ [0]), length s)
    \<and> (length s < unat n \<and> cstr m q t \<and> (q + length t < dst \<or> dst + unat n \<le> q) \<longrightarrow>
        Option.bind (strxfrm m dst src n) (\<lambda>(m', k). strcmp m' dst q) = strcoll m src q)"
proof -
  have 1: "strxfrm m dst src n = Some (if n = 0 then m else put m dst (take (unat n - 1) s @ [0]), length s)"
    by (rule strxfrm_spec [OF assms])
  have "Option.bind (strxfrm m dst src n) (\<lambda>(m', k). strcmp m' dst q) = strcoll m src q"
    if 2: "length s < unat n" "cstr m q t" "q + length t < dst \<or> dst + unat n \<le> q"
  proof -
    let ?m = "put m dst (s @ [0])"
    have "cstr ?m dst s" using assms 2 by (intro cstr_put) (auto simp: cstr_def)
    moreover have "cstr ?m q t"
      using 2 assms(3) by (auto simp: cstr_def slice_put_disjoint nth_put)
    ultimately show ?thesis
      using 1 2 by (auto simp: strcoll_def strcmp_spec [OF assms(1) 2(2)] strcmp_spec)
  qed
  with 1 show ?thesis by blast
qed

theorem strxfrm_correct_witness:
  "strxfrm [97, 98, 0, 5, 5, 5, 99, 0] 3 0 3 = Some ([97, 98, 0, 97, 98, 0, 99, 0], 2)"
  using strxfrm_correct [of "[97, 98, 0, 5, 5, 5, 99, 0]" 0 "[97, 98]" 3 3 6 "[99]"]
  by (simp add: cstr_def slice_def put_def)

end
