(* ===== verification/StrTok.thy ===== *)
theory StrTok
  imports Strings
begin

text \<open>
  The span and token routines of \<open>lib/libc/string\<close>: \<open>strspn.c\<close>, \<open>strcspn.c\<close>, \<open>strpbrk.c\<close>,
  \<open>strsep.c\<close> and \<open>strtok.c\<close>. The state of \<open>strsep\<close> is the caller's \<open>*stringp\<close>, the state of \<open>strtok\<close> is its static
  variable \<open>last\<close>; both write zero bytes into the string they cut. A locale states what a caller that
  asks for token after token relies on; both routines are instances of it.
\<close>

section \<open>Definitions\<close>

text \<open>The two inner loops over the set string: one stops before the terminator, one after it.\<close>

function span_excl :: "mem \<Rightarrow> ptr \<Rightarrow> byte \<Rightarrow> bool option" where
  "span_excl m spanp c = do {
     sc \<leftarrow> load m spanp;
     (if sc = 0 then Some False else if sc = c then Some True else span_excl m (spanp + 1) c) }"
  by pat_completeness auto
termination by (relation "measure (\<lambda>(m, spanp, c). length m - spanp)") auto

function span_incl :: "mem \<Rightarrow> ptr \<Rightarrow> byte \<Rightarrow> bool option" where
  "span_incl m spanp c = do {
     sc \<leftarrow> load m spanp;
     (if sc = c then Some True else if sc \<noteq> 0 then span_incl m (spanp + 1) c else Some False) }"
  by pat_completeness auto
termination by (relation "measure (\<lambda>(m, spanp, c). length m - spanp)") auto

text \<open>Skip the bytes in the set; scan up to a byte in the set or the terminator. Both return the
  address of the byte that stopped them.\<close>

function skip_span :: "mem \<Rightarrow> ptr \<Rightarrow> ptr \<Rightarrow> ptr option" where
  "skip_span m p s2 = do {
     c \<leftarrow> load m p;
     found \<leftarrow> span_excl m s2 c;
     (if found then skip_span m (p + 1) s2 else Some p) }"
  by pat_completeness auto
termination by (relation "measure (\<lambda>(m, p, s2). length m - p)") auto

function scan_span :: "mem \<Rightarrow> ptr \<Rightarrow> ptr \<Rightarrow> ptr option" where
  "scan_span m p s2 = do {
     c \<leftarrow> load m p;
     found \<leftarrow> span_incl m s2 c;
     (if found then Some p else scan_span m (p + 1) s2) }"
  by pat_completeness auto
termination by (relation "measure (\<lambda>(m, p, s2). length m - p)") auto

definition strspn :: "mem \<Rightarrow> ptr \<Rightarrow> ptr \<Rightarrow> nat option" where
  "strspn m s1 s2 = do { p \<leftarrow> skip_span m s1 s2; Some (p - s1) }"

definition strcspn :: "mem \<Rightarrow> ptr \<Rightarrow> ptr \<Rightarrow> nat option" where
  "strcspn m s1 s2 = do { p \<leftarrow> scan_span m s1 s2; Some (p - s1) }"

function strpbrk :: "mem \<Rightarrow> ptr \<Rightarrow> ptr \<Rightarrow> ptr option option" where
  "strpbrk m s1 s2 = do {
     c \<leftarrow> load m s1;
     (if c = 0 then Some None
      else do {
        found \<leftarrow> span_excl m s2 c;
        (if found then Some (Some s1) else strpbrk m (s1 + 1) s2) }) }"
  by pat_completeness auto
termination by (relation "measure (\<lambda>(m, s1, s2). length m - s1)") auto

text \<open>The end of a token at \<open>s\<close>: the terminator ends the string, a delimiter is overwritten.\<close>

definition cut_token :: "mem \<Rightarrow> ptr \<Rightarrow> (mem \<times> ptr option) option" where
  "cut_token m s = do {
     c \<leftarrow> load m s;
     (if c = 0 then Some (m, None) else do { m \<leftarrow> store m s 0; Some (m, Some (s + 1)) }) }"

definition strsep :: "mem \<Rightarrow> ptr option \<Rightarrow> ptr \<Rightarrow> (mem \<times> ptr option \<times> ptr option) option" where
  "strsep m stringp delim = (case stringp of
     None \<Rightarrow> Some (m, None, None)
   | Some tok \<Rightarrow> do {
       s \<leftarrow> scan_span m tok delim;
       (m, stringp) \<leftarrow> cut_token m s;
       Some (m, stringp, Some tok) })"

definition strtok :: "mem \<Rightarrow> ptr option \<Rightarrow> ptr option \<Rightarrow> ptr \<Rightarrow> (mem \<times> ptr option \<times> ptr option) option" where
  "strtok m lst s delim = (case (case s of None \<Rightarrow> lst | Some s \<Rightarrow> Some s) of
     None \<Rightarrow> Some (m, lst, None)
   | Some s \<Rightarrow> do {
       tok \<leftarrow> skip_span m s delim;
       c \<leftarrow> load m tok;
       (if c = 0 then Some (m, None, None)
        else do {
          s \<leftarrow> scan_span m (tok + 1) delim;
          (m, lst) \<leftarrow> cut_token m s;
          Some (m, lst, Some tok) }) })"

text \<open>A caller that asks for tokens until there is none: the addresses it gets, and the memory.\<close>

fun call_all :: "nat \<Rightarrow> (mem \<Rightarrow> ptr option \<Rightarrow> (mem \<times> ptr option \<times> ptr option) option) \<Rightarrow>
    mem \<Rightarrow> ptr option \<Rightarrow> (mem \<times> ptr list) option" where
  "call_all 0 step m st = None"
| "call_all (Suc n) step m st = do {
     (m, st, r) \<leftarrow> step m st;
     (case r of
        None \<Rightarrow> Some (m, [])
      | Some p \<Rightarrow> do { (m, ps) \<leftarrow> call_all n step m st; Some (m, p # ps) }) }"

section \<open>Spans\<close>

declare span_excl.simps [simp del] span_incl.simps [simp del] skip_span.simps [simp del]
  scan_span.simps [simp del] strpbrk.simps [simp del]

lemma span_excl_spec: "cstr m q t \<Longrightarrow> span_excl m q c = Some (c \<in> set t)"
  by (induction t arbitrary: q; subst span_excl.simps) (auto simp: cstr_Nil cstr_Cons)

lemma span_incl_spec: "cstr m q t \<Longrightarrow> span_incl m q c = Some (c \<in> set t \<or> c = 0)"
  by (induction t arbitrary: q; subst span_incl.simps) (auto simp: cstr_Nil cstr_Cons)

lemma cstr_0: "cstr m q t \<Longrightarrow> 0 \<notin> set t"
  by (simp add: cstr_def)

lemma skip_span_spec:
  "cstr m p s \<Longrightarrow> cstr m q t \<Longrightarrow> skip_span m p q = Some (p + length (takeWhile (\<lambda>c. c \<in> set t) s))"
  by (induction s arbitrary: p; subst skip_span.simps) (auto simp: cstr_Nil cstr_Cons span_excl_spec dest: cstr_0)

lemma scan_span_spec:
  "cstr m p s \<Longrightarrow> cstr m q t \<Longrightarrow> scan_span m p q = Some (p + length (takeWhile (\<lambda>c. c \<notin> set t) s))"
  by (induction s arbitrary: p; subst scan_span.simps) (auto simp: cstr_Nil cstr_Cons span_incl_spec)

lemma strpbrk_spec:
  "cstr m p s \<Longrightarrow> cstr m q t \<Longrightarrow> strpbrk m p q = Some (if set s \<inter> set t = {} then None
     else Some (p + length (takeWhile (\<lambda>c. c \<notin> set t) s)))"
  by (induction s arbitrary: p; subst strpbrk.simps) (auto simp: cstr_Nil cstr_Cons span_excl_spec)

section \<open>Tokens\<close>

text \<open>
  What one call does to the rest of the string, as a function on lists: the number of bytes skipped,
  the token, and the rest behind the delimiter that ended the token, if one did.
\<close>

type_synonym cut = "nat \<times> byte list \<times> byte list option"

definition behind :: "byte set \<Rightarrow> byte list \<Rightarrow> byte list option" where
  "behind D s = (case dropWhile (\<lambda>c. c \<notin> D) s of [] \<Rightarrow> None | c # r \<Rightarrow> Some r)"

definition next_field :: "byte set \<Rightarrow> byte list \<Rightarrow> cut option" where
  "next_field D s = Some (0, takeWhile (\<lambda>c. c \<notin> D) s, behind D s)"

definition next_word :: "byte set \<Rightarrow> byte list \<Rightarrow> cut option" where
  "next_word D s = (case dropWhile (\<lambda>c. c \<in> D) s of
     [] \<Rightarrow> None
   | c # r \<Rightarrow> Some (length (takeWhile (\<lambda>c. c \<in> D) s), c # takeWhile (\<lambda>c. c \<notin> D) r, behind D r))"

lemma length_behind: "behind D s = Some r \<Longrightarrow> length s = length (takeWhile (\<lambda>c. c \<notin> D) s) + Suc (length r)"
proof -
  have "length s = length (takeWhile (\<lambda>c. c \<notin> D) s) + length (dropWhile (\<lambda>c. c \<notin> D) s)"
    by (metis length_append takeWhile_dropWhile_id)
  then show "behind D s = Some r \<Longrightarrow> ?thesis" by (simp add: behind_def split: list.splits)
qed

function fields :: "byte set \<Rightarrow> byte list \<Rightarrow> byte list list" where
  "fields D s = takeWhile (\<lambda>c. c \<notin> D) s # (case behind D s of None \<Rightarrow> [] | Some r \<Rightarrow> fields D r)"
  by pat_completeness auto
termination by (relation "measure (\<lambda>(D, s). length s)") (auto dest: length_behind)

function words_of :: "byte set \<Rightarrow> byte list \<Rightarrow> byte list list" where
  "words_of D s = (case dropWhile (\<lambda>c. c \<in> D) s of
     [] \<Rightarrow> []
   | c # r \<Rightarrow> (c # takeWhile (\<lambda>c. c \<notin> D) r) # (case behind D r of None \<Rightarrow> [] | Some r \<Rightarrow> words_of D r))"
  by pat_completeness auto
termination
proof (relation "measure (\<lambda>(D, s). length s)", goal_cases)
  case (2 D s c r r')
  then show ?case
    using length_behind [of D r r'] length_dropWhile_le [of "\<lambda>c. c \<in> D" s] by simp
qed simp

declare fields.simps [simp del] words_of.simps [simp del]

text \<open>
  The contract of a token routine \<open>step\<close> with respect to the function \<open>nxt\<close> on lists and the list of
  all tokens \<open>toks\<close>: a call on a string disjoint from the delimiters returns the address of the token,
  overwrites at most the delimiter behind it and leaves the state at the rest.
\<close>

definition apart :: "mem \<Rightarrow> ptr \<Rightarrow> byte list \<Rightarrow> ptr \<Rightarrow> byte list \<Rightarrow> bool" where
  "apart m p s d ds \<longleftrightarrow> cstr m p s \<and> cstr m d ds \<and> (p + length s < d \<or> d + length ds < p)"

definition after_cut :: "mem \<Rightarrow> ptr \<Rightarrow> cut \<Rightarrow> mem \<times> ptr option \<times> ptr option" where
  "after_cut m p = (\<lambda>(k, t, r). let e = p + k + length t in
     (if r = None then m else m[e := 0], map_option (\<lambda>_. e + 1) r, Some (p + k)))"

lemma cstr_cong:
  "cstr m p t \<Longrightarrow> length m' = length m \<Longrightarrow> (\<And>i. p \<le> i \<Longrightarrow> i \<le> p + length t \<Longrightarrow> m' ! i = m ! i) \<Longrightarrow> cstr m' p t"
  by (induction t arbitrary: p) (auto simp: cstr_Nil cstr_Cons)

lemma cstr_cut: "cstr m p (t @ c # r) \<Longrightarrow> cstr (m[p + length t := 0]) p t"
proof (induction t arbitrary: p)
  case Nil
  then show ?case by (simp add: cstr_Nil cstr_Cons)
next
  case (Cons a t)
  from Cons.IH [of "p + 1"] Cons.prems show ?case by (simp add: cstr_Cons)
qed

locale tokenizer =
  fixes step :: "ptr \<Rightarrow> mem \<Rightarrow> ptr option \<Rightarrow> (mem \<times> ptr option \<times> ptr option) option"
    and nxt :: "byte set \<Rightarrow> byte list \<Rightarrow> cut option"
    and toks :: "byte set \<Rightarrow> byte list \<Rightarrow> byte list list"
  assumes step_NULL: "step d m None = Some (m, None, None)"
    and step_end: "apart m p s d ds \<Longrightarrow> nxt (set ds) s = None \<Longrightarrow> step d m (Some p) = Some (m, None, None)"
    and step_token: "apart m p s d ds \<Longrightarrow> nxt (set ds) s = Some x \<Longrightarrow> step d m (Some p) = Some (after_cut m p x)"
    and nxt_last: "nxt D s = Some (k, t, None) \<Longrightarrow> \<exists>u. s = u @ t \<and> length u = k"
    and nxt_more: "nxt D s = Some (k, t, Some r) \<Longrightarrow> \<exists>u c. s = u @ t @ c # r \<and> length u = k"
    and toks_unfold: "toks D s = (case nxt D s of
        None \<Rightarrow> [] | Some (k, t, None) \<Rightarrow> [t] | Some (k, t, Some r) \<Rightarrow> t # toks D r)"
begin

lemma call_all_spec:
  assumes "apart m p s d ds" "length s + 2 \<le> n"
  shows "\<exists>m' ps. call_all n (step d) m (Some p) = Some (m', ps)
    \<and> list_all2 (cstr m') ps (toks (set ds) s)
    \<and> length m' = length m \<and> (\<forall>i. i < p \<or> p + length s \<le> i \<longrightarrow> m' ! i = m ! i)"
  using assms
proof (induction n arbitrary: m p s)
  case (Suc n)
  show ?case
  proof (cases "nxt (set ds) s")
    case None
    then show ?thesis
      using step_end [OF Suc.prems(1)] by (simp add: toks_unfold [of _ s])
  next
    case (Some x)
    obtain k t r where x: "x = (k, t, r)" by (cases x)
    note call = step_token [OF Suc.prems(1) Some]
    show ?thesis
    proof (cases r)
      case None
      then obtain u where u: "s = u @ t" "length u = k" using nxt_last Some x by blast
      have "cstr m (p + k) t" using Suc.prems u cstr_append by (auto simp: apart_def)
      moreover obtain n' where "n = Suc n'" using Suc.prems by (cases n) auto
      ultimately show ?thesis
        using call None Some x by (simp add: after_cut_def Let_def step_NULL toks_unfold [of _ s])
    next
      case r: (Some rest)
      then obtain u c where u: "s = u @ t @ c # rest" "length u = k" using nxt_more Some x by blast
      let ?e = "p + k + length t"
      let ?m = "m[?e := 0]"
      have cs: "cstr m (p + k) (t @ c # rest)" using Suc.prems u cstr_append by (auto simp: apart_def)
      then have rest: "cstr m (?e + 1) rest" using cstr_append [of m "p + k" t "c # rest"] by (simp add: cstr_Cons)
      have tok: "cstr ?m (p + k) t" using cs by (rule cstr_cut)
      have "apart ?m (?e + 1) rest d ds"
        using Suc.prems rest u by (auto simp: apart_def intro!: cstr_update)
      from Suc.IH [OF this] obtain m' ps where IH:
        "call_all n (step d) ?m (Some (?e + 1)) = Some (m', ps)" "list_all2 (cstr m') ps (toks (set ds) rest)"
        "length m' = length m" "\<forall>i. i < ?e + 1 \<or> ?e + 1 + length rest \<le> i \<longrightarrow> m' ! i = ?m ! i"
        using Suc.prems u by auto
      have "cstr m' (p + k) t"
        using tok IH(3,4) by (intro cstr_cong [OF tok]) auto
      moreover have "\<forall>i. i < p \<or> p + length s \<le> i \<longrightarrow> m' ! i = m ! i"
        using IH(4) u by (auto simp: nth_list_update)
      ultimately show ?thesis
        using call r Some x IH by (simp add: after_cut_def Let_def toks_unfold [of _ s])
    qed
  qed
qed simp

end

section \<open>The two routines are tokenizers\<close>

lemma behind_None: "behind D s = None \<Longrightarrow> takeWhile (\<lambda>c. c \<notin> D) s = s"
  by (auto simp: behind_def dropWhile_eq_Nil_conv takeWhile_eq_all_conv split: list.splits)

lemma behind_Some:
  assumes "behind D s = Some r"
  obtains c where "s = takeWhile (\<lambda>c. c \<notin> D) s @ c # r"
proof -
  obtain c where "dropWhile (\<lambda>c. c \<notin> D) s = c # r"
    using assms by (auto simp: behind_def split: list.splits)
  then have "s = takeWhile (\<lambda>c. c \<notin> D) s @ c # r"
    using takeWhile_dropWhile_id [of "\<lambda>c. c \<notin> D" s] by simp
  then show ?thesis by (rule that)
qed

lemma cut_token_spec:
  assumes "cstr m p s" "e = p + length (takeWhile (\<lambda>c. c \<notin> D) s)"
  shows "cut_token m e = Some (if behind D s = None then m else m[e := 0], map_option (\<lambda>_. e + 1) (behind D s))"
proof (cases "behind D s")
  case None
  then have "e = p + length s" using assms(2) behind_None [of D s] by (simp del: takeWhile_eq_all_conv)
  then show ?thesis using assms(1) None by (simp add: cut_token_def cstr_def)
next
  case (Some r)
  then obtain c where s: "s = takeWhile (\<lambda>c. c \<notin> D) s @ c # r" by (rule behind_Some)
  have "cstr m e (c # r)"
    using assms cstr_append [of m p "takeWhile (\<lambda>c. c \<notin> D) s" "c # r"] s by simp
  then show ?thesis using Some by (simp add: cut_token_def cstr_Cons)
qed

interpretation sep: tokenizer "\<lambda>d m st. strsep m st d" next_field fields
proof
  fix m p s d ds x
  assume "apart m p s d ds" "next_field (set ds) s = Some x"
  then show "strsep m (Some p) d = Some (after_cut m p x)"
    using cut_token_spec [of m p s _ "set ds"]
    by (auto simp: strsep_def apart_def scan_span_spec next_field_def after_cut_def Let_def)
next
  fix D s k t
  assume "next_field D s = Some (k, t, None)"
  then show "\<exists>u. s = u @ t \<and> length u = k" by (auto simp: next_field_def behind_None)
next
  fix D s k t r
  assume "next_field D s = Some (k, t, Some r)"
  then show "\<exists>u c. s = u @ t @ c # r \<and> length u = k" by (auto simp: next_field_def elim: behind_Some)
qed (auto simp: strsep_def next_field_def fields.simps split: option.splits)

lemma next_word_split:
  assumes "next_word D s = Some (k, t, r)"
  obtains u c v where "s = u @ c # v" "length u = k" "takeWhile (\<lambda>c. c \<in> D) s = u" "c \<notin> D"
    "t = c # takeWhile (\<lambda>c. c \<notin> D) v" "r = behind D v"
proof -
  obtain c v where cv: "dropWhile (\<lambda>c. c \<in> D) s = c # v" "k = length (takeWhile (\<lambda>c. c \<in> D) s)"
      "t = c # takeWhile (\<lambda>c. c \<notin> D) v" "r = behind D v"
    using assms by (auto simp: next_word_def split: list.splits)
  moreover have "c \<notin> D" using cv(1) by (simp add: dropWhile_eq_Cons_conv)
  moreover have "s = takeWhile (\<lambda>c. c \<in> D) s @ c # v"
    using takeWhile_dropWhile_id [of "\<lambda>c. c \<in> D" s] cv(1) by simp
  ultimately show ?thesis using that by blast
qed

interpretation tok: tokenizer "\<lambda>d m st. strtok m st None d" next_word words_of
proof
  fix m p s d ds
  assume "apart m p s d ds" "next_word (set ds) s = None"
  then have "cstr m p s" "cstr m d ds" "length (takeWhile (\<lambda>c. c \<in> set ds) s) = length s"
    by (auto simp: apart_def next_word_def dropWhile_eq_Nil_conv takeWhile_eq_all_conv [THEN iffD2]
        simp del: takeWhile_eq_all_conv split: list.splits)
  then show "strtok m (Some p) None d = Some (m, None, None)"
    using skip_span_spec [of m p s d ds] by (auto simp: strtok_def cstr_def)
next
  fix m p s d ds x
  assume a: "apart m p s d ds" and "next_word (set ds) s = Some x"
  moreover obtain k t r where x: "x = (k, t, r)" by (cases x)
  ultimately obtain u c v where s: "s = u @ c # v" "length u = k" "takeWhile (\<lambda>c. c \<in> set ds) s = u"
      "t = c # takeWhile (\<lambda>c. c \<notin> set ds) v" "r = behind (set ds) v"
    by (auto elim: next_word_split)
  have "cstr m (p + k) (c # v)" using a s cstr_append by (auto simp: apart_def)
  then have c: "p + k < length m" "m ! (p + k) = c" "c \<noteq> 0" "cstr m (p + k + 1) v" by (simp_all add: cstr_Cons)
  have "scan_span m (p + k + 1) d = Some (p + k + 1 + length (takeWhile (\<lambda>c. c \<notin> set ds) v))"
    using a c(4) by (intro scan_span_spec) (auto simp: apart_def)
  then show "strtok m (Some p) None d = Some (after_cut m p x)"
    using a c s x skip_span_spec [of m p s d ds] cut_token_spec [OF c(4), of _ "set ds"]
    by (simp add: strtok_def apart_def after_cut_def Let_def)
next
  fix D s k t
  assume "next_word D s = Some (k, t, None)"
  then show "\<exists>u. s = u @ t \<and> length u = k" by (rule next_word_split) (auto simp: behind_None)
next
  fix D s k t r
  assume "next_word D s = Some (k, t, Some r)"
  then obtain u c v where "s = u @ c # v" "length u = k" "t = c # takeWhile (\<lambda>c. c \<notin> D) v" "behind D v = Some r"
    by (rule next_word_split) auto
  then show "\<exists>u c. s = u @ t @ c # r \<and> length u = k"
    by (metis append_Cons behind_Some)
next
  fix D s
  show "words_of D s = (case next_word D s of None \<Rightarrow> [] | Some (k, t, None) \<Rightarrow> [t] | Some (k, t, Some r) \<Rightarrow> t # words_of D r)"
    by (cases "dropWhile (\<lambda>c. c \<in> D) s")
      (simp_all add: words_of.simps [of D s] next_word_def del: dropWhile_eq_Nil_conv split: option.split)
qed (simp add: strtok_def)

section \<open>Properties\<close>

text \<open>\<open>strspn\<close> and \<open>strcspn\<close> return the length of the longest prefix made of bytes in, and not in,
  the set, and \<open>strpbrk\<close> the address of the first byte in it, or the null pointer when there is none.\<close>

theorem span_correct:
  assumes "cstr m p s" "cstr m q t"
  shows "strspn m p q = Some (length (takeWhile (\<lambda>c. c \<in> set t) s))
    \<and> strcspn m p q = Some (length (takeWhile (\<lambda>c. c \<notin> set t) s))
    \<and> strpbrk m p q = Some (if set s \<inter> set t = {} then None
         else Some (p + length (takeWhile (\<lambda>c. c \<notin> set t) s)))"
  using assms
  by (simp add: strspn_def strcspn_def skip_span_spec [OF assms] scan_span_spec [OF assms] strpbrk_spec [OF assms])

theorem span_correct_witness:
  "strspn [97, 98, 99, 0, 98, 97, 0] 0 4 = Some 2 \<and> strcspn [97, 98, 99, 0, 98, 97, 0] 0 4 = Some 0"
  using span_correct [of "[97, 98, 99, 0, 98, 97, 0]" 0 "[97, 98, 99]" 4 "[98, 97]"]
  by (simp add: cstr_def slice_def)

text \<open>A caller that calls \<open>strsep\<close> until it returns the null pointer gets, within as many calls as the string has
  bytes and two more, the addresses of all the fields of the string (also the empty ones); at the end each of them still holds
  its field, and no byte outside the string has changed.\<close>

theorem strsep_tokens:
  assumes "apart m p s d ds" "length s + 2 \<le> n"
  shows "\<exists>m' ps. call_all n (\<lambda>m st. strsep m st d) m (Some p) = Some (m', ps)
    \<and> list_all2 (cstr m') ps (fields (set ds) s)
    \<and> length m' = length m \<and> (\<forall>i. i < p \<or> p + length s \<le> i \<longrightarrow> m' ! i = m ! i)"
  by (rule sep.call_all_spec [OF assms])

theorem strsep_tokens_witness:
  "\<exists>m' ps. call_all 6 (\<lambda>m st. strsep m st 5) [97, 58, 58, 98, 0, 58, 0] (Some 0) = Some (m', ps)
    \<and> list_all2 (cstr m') ps [[97], [], [98]]"
proof -
  have "fields (set [58]) [97, 58, 58, 98] = [[97], [], [98 :: byte]]"
    by (simp add: fields.simps behind_def)
  moreover have "apart [97, 58, 58, 98, 0, 58, 0] 0 [97, 58, 58, 98] 5 [58]"
    by (simp add: apart_def cstr_def slice_def)
  ultimately show ?thesis
    using strsep_tokens [of "[97, 58, 58, 98, 0, 58, 0]" 0 "[97, 58, 58, 98]" 5 "[58]" 6] by auto
qed

text \<open>C31: a caller that calls \<open>strtok\<close> on a string and then with the null pointer until there is no token
  gets the addresses of the maximal runs of bytes that are not delimiters, in their order, each of
  them ended by a zero byte, and no byte outside the string has changed.\<close>

theorem strtok_tokens:
  assumes "apart m p s d ds" "length s + 2 \<le> n"
  shows "strtok m lst (Some p) d = strtok m (Some p) None d
    \<and> (\<exists>m' ps. call_all n (\<lambda>m st. strtok m st None d) m (Some p) = Some (m', ps)
        \<and> list_all2 (cstr m') ps (words_of (set ds) s)
        \<and> length m' = length m \<and> (\<forall>i. i < p \<or> p + length s \<le> i \<longrightarrow> m' ! i = m ! i))"
proof
  show "strtok m lst (Some p) d = strtok m (Some p) None d" by (simp add: strtok_def)
qed (rule tok.call_all_spec [OF assms])

theorem strtok_tokens_witness:
  "\<exists>m' ps. call_all 6 (\<lambda>m st. strtok m st None 5) [58, 97, 58, 98, 0, 58, 0] (Some 0) = Some (m', ps)
    \<and> list_all2 (cstr m') ps [[97], [98]]"
proof -
  have "words_of (set [58]) [58, 97, 58, 98] = [[97], [98 :: byte]]"
    by (simp add: words_of.simps behind_def)
  moreover have "apart [58, 97, 58, 98, 0, 58, 0] 0 [58, 97, 58, 98] 5 [58]"
    by (simp add: apart_def cstr_def slice_def)
  ultimately show ?thesis
    using strtok_tokens [of "[58, 97, 58, 98, 0, 58, 0]" 0 "[58, 97, 58, 98]" 5 "[58]" 6 None] by auto
qed

end
