(* ===== verification/Ctype.thy ===== *)
theory Ctype
  imports Prelude
begin

unbundle bit_operations_syntax

text \<open>
  Character classification: \<open>include/ctype.h\<close>, \<open>include/runetype.h\<close>, the table of the C locale in
  \<open>lib/libc/locale/runetable.c\<close>, the lookups in \<open>lib/libc/locale/rune.c\<close> and the functions of
  \<open>lib/libc/locale/isctype.c\<close>. A rune is an \<open>int\<close>; the classification routines take the current locale
  \<open>_CurrentRuneLocale\<close> as their first argument.
\<close>

section \<open>Definitions\<close>

type_synonym rune = int

definition ctA :: u_long where "ctA = 0x00000100"
definition ctC :: u_long where "ctC = 0x00000200"
definition ctD :: u_long where "ctD = 0x00000400"
definition ctG :: u_long where "ctG = 0x00000800"
definition ctL :: u_long where "ctL = 0x00001000"
definition ctP :: u_long where "ctP = 0x00002000"
definition ctS :: u_long where "ctS = 0x00004000"
definition ctU :: u_long where "ctU = 0x00008000"
definition ctX :: u_long where "ctX = 0x00010000"
definition ctB :: u_long where "ctB = 0x00020000"
definition ctR :: u_long where "ctR = 0x00040000"
definition ctI :: u_long where "ctI = 0x00080000"
definition ctT :: u_long where "ctT = 0x00100000"
definition ctQ :: u_long where "ctQ = 0x00200000"
definition ctSW1 :: u_long where "ctSW1 = 0x10000000"

definition CACHED_RUNES :: rune where
  "CACHED_RUNES = push_bit 8 1"

definition CRMASK :: rune where
  "CRMASK = NOT (CACHED_RUNES - 1)"

record RuneEntry =
  re_min :: rune
  re_max :: rune
  re_map :: rune
  re_types :: "u_long list option"

text \<open>The two function pointers of the C structure are the codec; its \<open>variable\<close> part is used by EUC only.\<close>

record EucInfo =
  euc_count :: "int list"
  euc_bits :: "rune list"
  euc_mask :: rune

datatype codec = codec_none | codec_UTF2 | codec_EUC EucInfo

record RuneLocale =
  rl_codec :: codec
  invalid_rune :: rune
  runetype :: "u_long list"
  maplower :: "rune list"
  mapupper :: "rune list"
  runetype_ext :: "RuneEntry list"
  maplower_ext :: "RuneEntry list"
  mapupper_ext :: "RuneEntry list"

definition default_runetype :: "u_long list" where
  "default_runetype =
  [ctC, ctC, ctC, ctC,
   ctC, ctC, ctC, ctC,
   ctC, ctC OR ctS OR ctB, ctC OR ctS, ctC OR ctS,
   ctC OR ctS, ctC OR ctS, ctC, ctC,
   ctC, ctC, ctC, ctC,
   ctC, ctC, ctC, ctC,
   ctC, ctC, ctC, ctC,
   ctC, ctC, ctC, ctC,
   ctS OR ctB OR ctSW1 OR ctR, ctP OR ctSW1 OR ctR OR ctG, ctP OR ctSW1 OR ctR OR ctG, ctP OR ctSW1 OR ctR OR ctG,
   ctP OR ctSW1 OR ctR OR ctG, ctP OR ctSW1 OR ctR OR ctG, ctP OR ctSW1 OR ctR OR ctG, ctP OR ctSW1 OR ctR OR ctG,
   ctP OR ctSW1 OR ctR OR ctG, ctP OR ctSW1 OR ctR OR ctG, ctP OR ctSW1 OR ctR OR ctG, ctP OR ctSW1 OR ctR OR ctG,
   ctP OR ctSW1 OR ctR OR ctG, ctP OR ctSW1 OR ctR OR ctG, ctP OR ctSW1 OR ctR OR ctG, ctP OR ctSW1 OR ctR OR ctG,
   ctD OR ctSW1 OR ctR OR ctG OR ctX OR 0, ctD OR ctSW1 OR ctR OR ctG OR ctX OR 1, ctD OR ctSW1 OR ctR OR ctG OR ctX OR 2, ctD OR ctSW1 OR ctR OR ctG OR ctX OR 3,
   ctD OR ctSW1 OR ctR OR ctG OR ctX OR 4, ctD OR ctSW1 OR ctR OR ctG OR ctX OR 5, ctD OR ctSW1 OR ctR OR ctG OR ctX OR 6, ctD OR ctSW1 OR ctR OR ctG OR ctX OR 7,
   ctD OR ctSW1 OR ctR OR ctG OR ctX OR 8, ctD OR ctSW1 OR ctR OR ctG OR ctX OR 9, ctP OR ctSW1 OR ctR OR ctG, ctP OR ctSW1 OR ctR OR ctG,
   ctP OR ctSW1 OR ctR OR ctG, ctP OR ctSW1 OR ctR OR ctG, ctP OR ctSW1 OR ctR OR ctG, ctP OR ctSW1 OR ctR OR ctG,
   ctP OR ctSW1 OR ctR OR ctG, ctU OR ctX OR ctSW1 OR ctR OR ctG OR ctA OR 10, ctU OR ctX OR ctSW1 OR ctR OR ctG OR ctA OR 11, ctU OR ctX OR ctSW1 OR ctR OR ctG OR ctA OR 12,
   ctU OR ctX OR ctSW1 OR ctR OR ctG OR ctA OR 13, ctU OR ctX OR ctSW1 OR ctR OR ctG OR ctA OR 14, ctU OR ctX OR ctSW1 OR ctR OR ctG OR ctA OR 15, ctU OR ctSW1 OR ctR OR ctG OR ctA,
   ctU OR ctSW1 OR ctR OR ctG OR ctA, ctU OR ctSW1 OR ctR OR ctG OR ctA, ctU OR ctSW1 OR ctR OR ctG OR ctA, ctU OR ctSW1 OR ctR OR ctG OR ctA,
   ctU OR ctSW1 OR ctR OR ctG OR ctA, ctU OR ctSW1 OR ctR OR ctG OR ctA, ctU OR ctSW1 OR ctR OR ctG OR ctA, ctU OR ctSW1 OR ctR OR ctG OR ctA,
   ctU OR ctSW1 OR ctR OR ctG OR ctA, ctU OR ctSW1 OR ctR OR ctG OR ctA, ctU OR ctSW1 OR ctR OR ctG OR ctA, ctU OR ctSW1 OR ctR OR ctG OR ctA,
   ctU OR ctSW1 OR ctR OR ctG OR ctA, ctU OR ctSW1 OR ctR OR ctG OR ctA, ctU OR ctSW1 OR ctR OR ctG OR ctA, ctU OR ctSW1 OR ctR OR ctG OR ctA,
   ctU OR ctSW1 OR ctR OR ctG OR ctA, ctU OR ctSW1 OR ctR OR ctG OR ctA, ctU OR ctSW1 OR ctR OR ctG OR ctA, ctP OR ctSW1 OR ctR OR ctG,
   ctP OR ctSW1 OR ctR OR ctG, ctP OR ctSW1 OR ctR OR ctG, ctP OR ctSW1 OR ctR OR ctG, ctP OR ctSW1 OR ctR OR ctG,
   ctP OR ctSW1 OR ctR OR ctG, ctL OR ctX OR ctSW1 OR ctR OR ctG OR ctA OR 10, ctL OR ctX OR ctSW1 OR ctR OR ctG OR ctA OR 11, ctL OR ctX OR ctSW1 OR ctR OR ctG OR ctA OR 12,
   ctL OR ctX OR ctSW1 OR ctR OR ctG OR ctA OR 13, ctL OR ctX OR ctSW1 OR ctR OR ctG OR ctA OR 14, ctL OR ctX OR ctSW1 OR ctR OR ctG OR ctA OR 15, ctL OR ctSW1 OR ctR OR ctG OR ctA,
   ctL OR ctSW1 OR ctR OR ctG OR ctA, ctL OR ctSW1 OR ctR OR ctG OR ctA, ctL OR ctSW1 OR ctR OR ctG OR ctA, ctL OR ctSW1 OR ctR OR ctG OR ctA,
   ctL OR ctSW1 OR ctR OR ctG OR ctA, ctL OR ctSW1 OR ctR OR ctG OR ctA, ctL OR ctSW1 OR ctR OR ctG OR ctA, ctL OR ctSW1 OR ctR OR ctG OR ctA,
   ctL OR ctSW1 OR ctR OR ctG OR ctA, ctL OR ctSW1 OR ctR OR ctG OR ctA, ctL OR ctSW1 OR ctR OR ctG OR ctA, ctL OR ctSW1 OR ctR OR ctG OR ctA,
   ctL OR ctSW1 OR ctR OR ctG OR ctA, ctL OR ctSW1 OR ctR OR ctG OR ctA, ctL OR ctSW1 OR ctR OR ctG OR ctA, ctL OR ctSW1 OR ctR OR ctG OR ctA,
   ctL OR ctSW1 OR ctR OR ctG OR ctA, ctL OR ctSW1 OR ctR OR ctG OR ctA, ctL OR ctSW1 OR ctR OR ctG OR ctA, ctP OR ctSW1 OR ctR OR ctG,
   ctP OR ctSW1 OR ctR OR ctG, ctP OR ctSW1 OR ctR OR ctG, ctP OR ctSW1 OR ctR OR ctG, ctC]
   @ replicate 128 0"

definition default_maplower :: "rune list" where
  "default_maplower =
  [0, 1, 2, 3, 4, 5, 6, 7, 8, 9, 10, 11, 12, 13, 14, 15,
   16, 17, 18, 19, 20, 21, 22, 23, 24, 25, 26, 27, 28, 29, 30, 31,
   32, 33, 34, 35, 36, 37, 38, 39, 40, 41, 42, 43, 44, 45, 46, 47,
   48, 49, 50, 51, 52, 53, 54, 55, 56, 57, 58, 59, 60, 61, 62, 63,
   64, 97, 98, 99, 100, 101, 102, 103, 104, 105, 106, 107, 108, 109, 110, 111,
   112, 113, 114, 115, 116, 117, 118, 119, 120, 121, 122, 91, 92, 93, 94, 95,
   96, 97, 98, 99, 100, 101, 102, 103, 104, 105, 106, 107, 108, 109, 110, 111,
   112, 113, 114, 115, 116, 117, 118, 119, 120, 121, 122, 123, 124, 125, 126, 127,
   128, 129, 130, 131, 132, 133, 134, 135, 136, 137, 138, 139, 140, 141, 142, 143,
   144, 145, 146, 147, 148, 149, 150, 151, 152, 153, 154, 155, 156, 157, 158, 159,
   160, 161, 162, 163, 164, 165, 166, 167, 168, 169, 170, 171, 172, 173, 174, 175,
   176, 177, 178, 179, 180, 181, 182, 183, 184, 185, 186, 187, 188, 189, 190, 191,
   192, 193, 194, 195, 196, 197, 198, 199, 200, 201, 202, 203, 204, 205, 206, 207,
   208, 209, 210, 211, 212, 213, 214, 215, 216, 217, 218, 219, 220, 221, 222, 223,
   224, 225, 226, 227, 228, 229, 230, 231, 232, 233, 234, 235, 236, 237, 238, 239,
   240, 241, 242, 243, 244, 245, 246, 247, 248, 249, 250, 251, 252, 253, 254, 255]"

definition default_mapupper :: "rune list" where
  "default_mapupper =
  [0, 1, 2, 3, 4, 5, 6, 7, 8, 9, 10, 11, 12, 13, 14, 15,
   16, 17, 18, 19, 20, 21, 22, 23, 24, 25, 26, 27, 28, 29, 30, 31,
   32, 33, 34, 35, 36, 37, 38, 39, 40, 41, 42, 43, 44, 45, 46, 47,
   48, 49, 50, 51, 52, 53, 54, 55, 56, 57, 58, 59, 60, 61, 62, 63,
   64, 65, 66, 67, 68, 69, 70, 71, 72, 73, 74, 75, 76, 77, 78, 79,
   80, 81, 82, 83, 84, 85, 86, 87, 88, 89, 90, 91, 92, 93, 94, 95,
   96, 65, 66, 67, 68, 69, 70, 71, 72, 73, 74, 75, 76, 77, 78, 79,
   80, 81, 82, 83, 84, 85, 86, 87, 88, 89, 90, 123, 124, 125, 126, 127,
   128, 129, 130, 131, 132, 133, 134, 135, 136, 137, 138, 139, 140, 141, 142, 143,
   144, 145, 146, 147, 148, 149, 150, 151, 152, 153, 154, 155, 156, 157, 158, 159,
   160, 161, 162, 163, 164, 165, 166, 167, 168, 169, 170, 171, 172, 173, 174, 175,
   176, 177, 178, 179, 180, 181, 182, 183, 184, 185, 186, 187, 188, 189, 190, 191,
   192, 193, 194, 195, 196, 197, 198, 199, 200, 201, 202, 203, 204, 205, 206, 207,
   208, 209, 210, 211, 212, 213, 214, 215, 216, 217, 218, 219, 220, 221, 222, 223,
   224, 225, 226, 227, 228, 229, 230, 231, 232, 233, 234, 235, 236, 237, 238, 239,
   240, 241, 242, 243, 244, 245, 246, 247, 248, 249, 250, 251, 252, 253, 254, 255]"

definition DefaultRuneLocale :: RuneLocale where
  "DefaultRuneLocale = \<lparr> rl_codec = codec_none, invalid_rune = 0xFFFD,
     runetype = default_runetype, maplower = default_maplower, mapupper = default_mapupper,
     runetype_ext = [], maplower_ext = [], mapupper_ext = [] \<rparr>"

text \<open>The searches of the sorted ranges behind the first 256 runes. \<open>EOF\<close> is \<open>-1\<close>.\<close>

fun runetype_search :: "rune \<Rightarrow> RuneEntry list \<Rightarrow> u_long" where
  "runetype_search c [] = 0"
| "runetype_search c (re # res) =
     (if c < re_min re then 0
      else if c \<le> re_max re then
        (case re_types re of Some ts \<Rightarrow> ts ! nat (c - re_min re) | None \<Rightarrow> word_of_int (re_map re))
      else runetype_search c res)"

definition runetype_big :: "RuneLocale \<Rightarrow> rune \<Rightarrow> u_long" where
  "runetype_big rl c = (if c = - 1 then 0 else runetype_search c (runetype_ext rl))"

fun map_search :: "rune \<Rightarrow> RuneEntry list \<Rightarrow> rune" where
  "map_search c [] = c"
| "map_search c (re # res) =
     (if c < re_min re then c
      else if c \<le> re_max re then re_map re + c - re_min re
      else map_search c res)"

definition toupper_big :: "RuneLocale \<Rightarrow> rune \<Rightarrow> rune" where
  "toupper_big rl c = (if c = - 1 then - 1 else map_search c (mapupper_ext rl))"

definition tolower_big :: "RuneLocale \<Rightarrow> rune \<Rightarrow> rune" where
  "tolower_big rl c = (if c = - 1 then - 1 else map_search c (maplower_ext rl))"

definition istype :: "RuneLocale \<Rightarrow> rune \<Rightarrow> u_long \<Rightarrow> bool" where
  "istype rl c f \<longleftrightarrow>
     (if c AND CRMASK \<noteq> 0 then runetype_big rl c else runetype rl ! nat c) AND f \<noteq> 0"

definition isctype :: "rune \<Rightarrow> u_long \<Rightarrow> bool" where
  "isctype c f \<longleftrightarrow>
     (if c AND CRMASK \<noteq> 0 then 0 else runetype DefaultRuneLocale ! nat c) AND f \<noteq> 0"

definition isalnum :: "RuneLocale \<Rightarrow> rune \<Rightarrow> bool" where "isalnum rl c = istype rl c (ctA OR ctD)"
definition isalpha :: "RuneLocale \<Rightarrow> rune \<Rightarrow> bool" where "isalpha rl c = istype rl c ctA"
definition isascii :: "rune \<Rightarrow> bool" where "isascii c \<longleftrightarrow> c AND NOT 0x7F = 0"
definition isblank :: "RuneLocale \<Rightarrow> rune \<Rightarrow> bool" where "isblank rl c = istype rl c ctB"
definition iscntrl :: "RuneLocale \<Rightarrow> rune \<Rightarrow> bool" where "iscntrl rl c = istype rl c ctC"
definition isdigit :: "rune \<Rightarrow> bool" where "isdigit c = isctype c ctD"
definition isgraph :: "RuneLocale \<Rightarrow> rune \<Rightarrow> bool" where "isgraph rl c = istype rl c ctG"
definition islower :: "RuneLocale \<Rightarrow> rune \<Rightarrow> bool" where "islower rl c = istype rl c ctL"
definition isprint :: "RuneLocale \<Rightarrow> rune \<Rightarrow> bool" where "isprint rl c = istype rl c ctR"
definition ispunct :: "RuneLocale \<Rightarrow> rune \<Rightarrow> bool" where "ispunct rl c = istype rl c ctP"
definition isspace :: "RuneLocale \<Rightarrow> rune \<Rightarrow> bool" where "isspace rl c = istype rl c ctS"
definition isupper :: "RuneLocale \<Rightarrow> rune \<Rightarrow> bool" where "isupper rl c = istype rl c ctU"
definition isxdigit :: "rune \<Rightarrow> bool" where "isxdigit c = isctype c ctX"
definition toascii :: "rune \<Rightarrow> rune" where "toascii c = c AND 0x7F"

definition tolower :: "RuneLocale \<Rightarrow> rune \<Rightarrow> rune" where
  "tolower rl c = (if c AND CRMASK \<noteq> 0 then tolower_big rl c else maplower rl ! nat c)"

definition toupper :: "RuneLocale \<Rightarrow> rune \<Rightarrow> rune" where
  "toupper rl c = (if c AND CRMASK \<noteq> 0 then toupper_big rl c else mapupper rl ! nat c)"

section \<open>The C locale\<close>

text \<open>The types of the ASCII characters, as ranges.\<close>

definition digit_value :: "rune \<Rightarrow> u_long" where
  "digit_value i = (if 48 \<le> i \<and> i \<le> 57 then word_of_int (i - 48)
     else if 65 \<le> i \<and> i \<le> 70 then word_of_int (i - 55)
     else if 97 \<le> i \<and> i \<le> 102 then word_of_int (i - 87) else 0)"

definition ascii_type :: "rune \<Rightarrow> u_long" where
  "ascii_type i =
     (let upper = 65 \<le> i \<and> i \<le> 90; lower = 97 \<le> i \<and> i \<le> 122; digit = 48 \<le> i \<and> i \<le> 57;
          hex = 65 \<le> i \<and> i \<le> 70 \<or> 97 \<le> i \<and> i \<le> 102; graph = 33 \<le> i \<and> i \<le> 126 in
      (if 0 \<le> i \<and> i < 32 \<or> i = 127 then ctC else 0)
      OR (if 9 \<le> i \<and> i \<le> 13 \<or> i = 32 then ctS else 0)
      OR (if i = 9 \<or> i = 32 then ctB else 0)
      OR (if 32 \<le> i \<and> i \<le> 126 then ctR OR ctSW1 else 0)
      OR (if graph then ctG else 0)
      OR (if upper then ctU OR ctA else 0)
      OR (if lower then ctL OR ctA else 0)
      OR (if digit then ctD OR ctX else 0)
      OR (if hex then ctX else 0)
      OR digit_value i
      OR (if graph \<and> \<not> upper \<and> \<not> lower \<and> \<not> digit then ctP else 0))"

lemma default_runetype_ascii:
  "default_runetype = map (\<lambda>i. if i < 128 then ascii_type i else 0) [0..255]"
  by code_simp

lemma default_maplower_ascii:
  "default_maplower = map (\<lambda>i. if 65 \<le> i \<and> i \<le> 90 then i + 32 else i) [0..255]"
  by code_simp

lemma default_mapupper_ascii:
  "default_mapupper = map (\<lambda>i. if 97 \<le> i \<and> i \<le> 122 then i - 32 else i) [0..255]"
  by code_simp

lemma and_not_mask_zero: "c AND NOT (mask n) = 0 \<longleftrightarrow> 0 \<le> c \<and> c < 2 ^ n" for c :: int
proof -
  have "c AND NOT (mask n) = push_bit n (drop_bit n c)"
    by (auto simp: bit_eq_iff bit_simps)
  also have "\<dots> = 0 \<longleftrightarrow> c div 2 ^ n = 0"
    by (simp add: push_bit_eq_mult drop_bit_eq_div)
  also have "\<dots> \<longleftrightarrow> 0 \<le> c \<and> c < 2 ^ n \<or> 2 ^ n < c \<and> c \<le> 0"
    by (auto simp: zdiv_eq_0_iff)
  finally show ?thesis using zero_less_power [of "2 :: int" n] by linarith
qed

lemma CRMASK_zero: "c AND CRMASK = 0 \<longleftrightarrow> 0 \<le> c \<and> c < 256"
proof -
  have "CRMASK = NOT (mask 8)" by (simp add: CRMASK_def CACHED_RUNES_def mask_eq_exp_minus_1)
  then show ?thesis using and_not_mask_zero [of c 8] by simp
qed

lemma default_runetype_nth:
  "0 \<le> c \<Longrightarrow> c < 256 \<Longrightarrow> default_runetype ! nat c = (if c < 128 then ascii_type c else 0)"
  by (simp add: default_runetype_ascii nth_upto)

lemma istype_default: "istype DefaultRuneLocale c f \<longleftrightarrow> 0 \<le> c \<and> c < 128 \<and> ascii_type c AND f \<noteq> 0"
  by (auto simp: istype_def CRMASK_zero runetype_big_def DefaultRuneLocale_def default_runetype_nth)

lemma isctype_default: "isctype c f \<longleftrightarrow> 0 \<le> c \<and> c < 128 \<and> ascii_type c AND f \<noteq> 0"
  by (auto simp: isctype_def CRMASK_zero DefaultRuneLocale_def default_runetype_nth)

text \<open>Each class bit of the table.\<close>

lemma digit_value_and: "f AND 0xFF = 0 \<Longrightarrow> digit_value i AND f = 0"
proof -
  have "word_of_int k AND (f :: u_long) = 0" if "0 \<le> k" "k < 16" "f AND 0xFF = 0" for k
  proof -
    have "(word_of_int k :: u_long) AND 0xFF = take_bit 8 (word_of_int k)"
      by (simp add: take_bit_eq_mask mask_numeral)
    also have "\<dots> = word_of_int (take_bit 8 k)"
      by (rule bit_word_eqI) (auto simp: bit_simps)
    also have "take_bit 8 k = k"
      using that by (simp add: take_bit_int_eq_self_iff)
    finally have "(word_of_int k :: u_long) AND 0xFF = word_of_int k" .
    then have "word_of_int k AND f = word_of_int k AND (f AND 0xFF)"
      by (metis and.commute and.assoc)
    then show ?thesis by (simp only: that(3)) simp
  qed
  then show "f AND 0xFF = 0 \<Longrightarrow> digit_value i AND f = 0"
    by (auto simp: digit_value_def simp del: of_int_add of_int_diff)
qed

lemmas ct_defs = ctA_def ctC_def ctD_def ctG_def ctL_def ctP_def ctS_def ctU_def ctX_def ctB_def ctR_def ctSW1_def

lemma ascii_classes:
  "0 \<le> i \<Longrightarrow> i < 128 \<Longrightarrow> (ascii_type i AND ctU \<noteq> 0) = (65 \<le> i \<and> i \<le> 90)"
  "0 \<le> i \<Longrightarrow> i < 128 \<Longrightarrow> (ascii_type i AND ctL \<noteq> 0) = (97 \<le> i \<and> i \<le> 122)"
  "0 \<le> i \<Longrightarrow> i < 128 \<Longrightarrow> (ascii_type i AND ctA \<noteq> 0) = (65 \<le> i \<and> i \<le> 90 \<or> 97 \<le> i \<and> i \<le> 122)"
  "0 \<le> i \<Longrightarrow> i < 128 \<Longrightarrow> (ascii_type i AND ctD \<noteq> 0) = (48 \<le> i \<and> i \<le> 57)"
  "0 \<le> i \<Longrightarrow> i < 128 \<Longrightarrow> (ascii_type i AND ctS \<noteq> 0) = (9 \<le> i \<and> i \<le> 13 \<or> i = 32)"
  "0 \<le> i \<Longrightarrow> i < 128 \<Longrightarrow> (ascii_type i AND ctB \<noteq> 0) = (i = 9 \<or> i = 32)"
  "0 \<le> i \<Longrightarrow> i < 128 \<Longrightarrow> (ascii_type i AND ctC \<noteq> 0) = (i < 32 \<or> i = 127)"
  "0 \<le> i \<Longrightarrow> i < 128 \<Longrightarrow> (ascii_type i AND ctG \<noteq> 0) = (33 \<le> i \<and> i \<le> 126)"
  "0 \<le> i \<Longrightarrow> i < 128 \<Longrightarrow> (ascii_type i AND ctR \<noteq> 0) = (32 \<le> i \<and> i \<le> 126)"
  "0 \<le> i \<Longrightarrow> i < 128 \<Longrightarrow> (ascii_type i AND ctX \<noteq> 0) = (48 \<le> i \<and> i \<le> 57 \<or> 65 \<le> i \<and> i \<le> 70 \<or> 97 \<le> i \<and> i \<le> 102)"
  "0 \<le> i \<Longrightarrow> i < 128 \<Longrightarrow> (ascii_type i AND (ctA OR ctD) \<noteq> 0) = (48 \<le> i \<and> i \<le> 57 \<or> 65 \<le> i \<and> i \<le> 90 \<or> 97 \<le> i \<and> i \<le> 122)"
  "0 \<le> i \<Longrightarrow> i < 128 \<Longrightarrow> (ascii_type i AND ctP \<noteq> 0) = (33 \<le> i \<and> i \<le> 47 \<or> 58 \<le> i \<and> i \<le> 64 \<or> 91 \<le> i \<and> i \<le> 96 \<or> 123 \<le> i \<and> i \<le> 126)"
  by (auto simp: ascii_type_def Let_def bit.conj_disj_distrib2 digit_value_and ct_defs)

lemma isupper_C: "isupper DefaultRuneLocale c \<longleftrightarrow> 65 \<le> c \<and> c \<le> 90"
  using ascii_classes(1) [of c] by (auto simp: isupper_def istype_default isctype_default)

lemma islower_C: "islower DefaultRuneLocale c \<longleftrightarrow> 97 \<le> c \<and> c \<le> 122"
  using ascii_classes(2) [of c] by (auto simp: islower_def istype_default isctype_default)

lemma isalpha_C: "isalpha DefaultRuneLocale c \<longleftrightarrow> 65 \<le> c \<and> c \<le> 90 \<or> 97 \<le> c \<and> c \<le> 122"
  using ascii_classes(3) [of c] by (auto simp: isalpha_def istype_default isctype_default)

lemma isdigit_C: "isdigit c \<longleftrightarrow> 48 \<le> c \<and> c \<le> 57"
  using ascii_classes(4) [of c] by (auto simp: isdigit_def istype_default isctype_default)

lemma isspace_C: "isspace DefaultRuneLocale c \<longleftrightarrow> 9 \<le> c \<and> c \<le> 13 \<or> c = 32"
  using ascii_classes(5) [of c] by (auto simp: isspace_def istype_default isctype_default)

lemma isgraph_C: "isgraph DefaultRuneLocale c \<longleftrightarrow> 33 \<le> c \<and> c \<le> 126"
  using ascii_classes(8) [of c] by (auto simp: isgraph_def istype_default isctype_default)

lemma isxdigit_C: "isxdigit c \<longleftrightarrow> 48 \<le> c \<and> c \<le> 57 \<or> 65 \<le> c \<and> c \<le> 70 \<or> 97 \<le> c \<and> c \<le> 102"
  using ascii_classes(10) [of c] by (auto simp: isxdigit_def istype_default isctype_default)

lemma isalnum_C:
  "isalnum DefaultRuneLocale c \<longleftrightarrow> 48 \<le> c \<and> c \<le> 57 \<or> 65 \<le> c \<and> c \<le> 90 \<or> 97 \<le> c \<and> c \<le> 122"
  using ascii_classes(11) [of c] by (auto simp: isalnum_def istype_default isctype_default)

lemma tolower_C: "tolower DefaultRuneLocale c = (if 65 \<le> c \<and> c \<le> 90 then c + 32 else c)"
proof -
  have "default_maplower ! nat c = (if 65 \<le> c \<and> c \<le> 90 then c + 32 else c)" if "0 \<le> c" "c < 256"
    using that by (simp add: default_maplower_ascii nth_upto)
  then show ?thesis
    by (auto simp: tolower_def CRMASK_zero tolower_big_def DefaultRuneLocale_def)
qed

lemma toupper_C: "toupper DefaultRuneLocale c = (if 97 \<le> c \<and> c \<le> 122 then c - 32 else c)"
proof -
  have "default_mapupper ! nat c = (if 97 \<le> c \<and> c \<le> 122 then c - 32 else c)" if "0 \<le> c" "c < 256"
    using that by (simp add: default_mapupper_ascii nth_upto)
  then show ?thesis
    by (auto simp: toupper_def CRMASK_zero toupper_big_def DefaultRuneLocale_def)
qed

lemmas ctype_C = isupper_C islower_C isalpha_C isdigit_C isspace_C isgraph_C isxdigit_C isalnum_C tolower_C toupper_C

section \<open>Properties\<close>

text \<open>In the C locale the classification functions decide the ASCII classes for every \<open>int\<close>, also for negative
  values and values above the table: letters, digits, white space, punctuation, control and printing characters.\<close>

theorem ctype_C_locale:
  "isupper DefaultRuneLocale c = (65 \<le> c \<and> c \<le> 90)
   \<and> islower DefaultRuneLocale c = (97 \<le> c \<and> c \<le> 122)
   \<and> isalpha DefaultRuneLocale c = (isupper DefaultRuneLocale c \<or> islower DefaultRuneLocale c)
   \<and> isalnum DefaultRuneLocale c = (isalpha DefaultRuneLocale c \<or> isdigit c)
   \<and> isdigit c = (48 \<le> c \<and> c \<le> 57)
   \<and> isxdigit c = (isdigit c \<or> 65 \<le> c \<and> c \<le> 70 \<or> 97 \<le> c \<and> c \<le> 102)
   \<and> isspace DefaultRuneLocale c = (9 \<le> c \<and> c \<le> 13 \<or> c = 32)
   \<and> isblank DefaultRuneLocale c = (c = 9 \<or> c = 32)
   \<and> iscntrl DefaultRuneLocale c = (0 \<le> c \<and> c < 32 \<or> c = 127)
   \<and> isprint DefaultRuneLocale c = (isgraph DefaultRuneLocale c \<or> c = 32)
   \<and> isgraph DefaultRuneLocale c = (isalnum DefaultRuneLocale c \<or> ispunct DefaultRuneLocale c)
   \<and> isascii c = (0 \<le> c \<and> c < 128)"
proof -
  have "isblank DefaultRuneLocale c = (c = 9 \<or> c = 32)"
    using ascii_classes(6) [of c] by (auto simp: isblank_def istype_default isctype_default)
  moreover have "iscntrl DefaultRuneLocale c = (0 \<le> c \<and> c < 32 \<or> c = 127)"
    using ascii_classes(7) [of c] by (auto simp: iscntrl_def istype_default isctype_default)
  moreover have "isprint DefaultRuneLocale c = (32 \<le> c \<and> c \<le> 126)"
    using ascii_classes(9) [of c] by (auto simp: isprint_def istype_default isctype_default)
  moreover have "ispunct DefaultRuneLocale c =
      (33 \<le> c \<and> c \<le> 47 \<or> 58 \<le> c \<and> c \<le> 64 \<or> 91 \<le> c \<and> c \<le> 96 \<or> 123 \<le> c \<and> c \<le> 126)"
    using ascii_classes(12) [of c] by (auto simp: ispunct_def istype_default isctype_default)
  moreover have "isascii c = (0 \<le> c \<and> c < 128)"
  proof -
    have "(127::int) = mask 7" by (simp add: mask_eq_exp_minus_1)
    then show ?thesis using and_not_mask_zero [of c 7] by (simp add: isascii_def)
  qed
  ultimately show ?thesis
    by (intro conjI; simp only: ctype_C; presburger)
qed

text \<open>In the C locale \<open>tolower\<close> and \<open>toupper\<close> map exactly the letters of the other case, undo each other on letters
  and leave every other value, \<open>EOF\<close> included, as it is.\<close>

theorem case_conversion_C_locale:
  "tolower DefaultRuneLocale c = (if isupper DefaultRuneLocale c then c + 32 else c)
   \<and> toupper DefaultRuneLocale c = (if islower DefaultRuneLocale c then c - 32 else c)
   \<and> (isupper DefaultRuneLocale c \<longrightarrow> toupper DefaultRuneLocale (tolower DefaultRuneLocale c) = c)
   \<and> (islower DefaultRuneLocale c \<longrightarrow> tolower DefaultRuneLocale (toupper DefaultRuneLocale c) = c)"
  by (auto simp: tolower_C toupper_C isupper_C islower_C)

theorem case_conversion_C_locale_witness:
  "isupper DefaultRuneLocale 65 \<and> toupper DefaultRuneLocale (tolower DefaultRuneLocale 65) = 65"
  using case_conversion_C_locale [of 65] isupper_C [of 65] by linarith

end
