(* ===== verification/Strto.thy ===== *)
theory Strto
  imports Strings Ctype
begin

unbundle bit_operations_syntax

text \<open>
  Conversion of strings to integers: \<open>strtol.c\<close>, \<open>strtoul.c\<close>, \<open>strtoq.c\<close> and \<open>strtouq.c\<close> of
  \<open>lib/libc/stdlib\<close>. The four sources share their text up to the types and the limits, so the phases
  are defined once, over words of any width. A result is the value, the address stored in \<open>*endptr\<close>
  and whether \<open>errno\<close> is set to \<open>ERANGE\<close>.
\<close>

section \<open>Definitions\<close>

text \<open>\<open>c = *s++\<close> reads a signed \<open>char\<close> into an \<open>int\<close>.\<close>

definition getc_at :: "mem \<Rightarrow> ptr \<Rightarrow> (int \<times> ptr) option" where
  "getc_at m s = do { b \<leftarrow> load m s; Some (sint b, s + 1) }"

function skip_space :: "RuneLocale \<Rightarrow> mem \<Rightarrow> ptr \<Rightarrow> (int \<times> ptr) option" where
  "skip_space rl m s = do {
     b \<leftarrow> load m s;
     (if isspace rl (sint b) then skip_space rl m (s + 1) else Some (sint b, s + 1)) }"
  by pat_completeness auto
termination by (relation "measure (\<lambda>(rl, m, s). length m - s)") auto

definition take_sign :: "mem \<Rightarrow> int \<Rightarrow> ptr \<Rightarrow> (bool \<times> int \<times> ptr) option" where
  "take_sign m c s =
     (if c = 45 then do { (c, s) \<leftarrow> getc_at m s; Some (True, c, s) }
      else if c = 43 then do { (c, s) \<leftarrow> getc_at m s; Some (False, c, s) }
      else Some (False, c, s))"

definition take_base :: "mem \<Rightarrow> int \<Rightarrow> int \<Rightarrow> ptr \<Rightarrow> (int \<times> int \<times> ptr) option" where
  "take_base m base c s = do {
     (base, c, s) \<leftarrow>
       (if (base = 0 \<or> base = 16) \<and> c = 48
        then do {
          x \<leftarrow> load m s;
          (if x = 120 \<or> x = 88 then do { b \<leftarrow> load m (s + 1); Some (16, sint b, s + 2) }
           else Some (base, c, s)) }
        else Some (base, c, s));
     Some (if base = 0 then (if c = 48 then 8 else 10) else base, c, s) }"

definition digit_of :: "RuneLocale \<Rightarrow> int \<Rightarrow> int option" where
  "digit_of rl c =
     (if isdigit c then Some (c - 48)
      else if isalpha rl c then Some (c - (if isupper rl c then 65 - 10 else 97 - 10))
      else None)"

text \<open>
  The accumulation loop. \<open>any\<close> is 0 before the first digit, 1 after one and -1 after an overflow; the
  result is \<open>acc\<close>, \<open>any\<close> and \<open>s\<close>, which has gone one past the character that ended the loop.
\<close>

function acc_loop :: "RuneLocale \<Rightarrow> mem \<Rightarrow> int \<Rightarrow> 'a::len word \<Rightarrow> 'a word \<Rightarrow> int \<Rightarrow>
    'a word \<Rightarrow> int \<Rightarrow> int \<Rightarrow> ptr \<Rightarrow> ('a word \<times> int \<times> ptr) option" where
  "acc_loop rl m base qbase cutoff cutlim acc any c s =
     (case digit_of rl c of
        None \<Rightarrow> Some (acc, any, s)
      | Some c \<Rightarrow>
          if c \<ge> base then Some (acc, any, s)
          else do {
            let over = (any < 0 \<or> acc > cutoff \<or> acc = cutoff \<and> c > cutlim);
            b \<leftarrow> load m s;
            acc_loop rl m base qbase cutoff cutlim
              (if over then acc else acc * qbase + word_of_int c) (if over then - 1 else 1) (sint b) (s + 1) })"
  by pat_completeness auto
termination
  by (relation "measure (\<lambda>(rl, m, base, qbase, cutoff, cutlim, acc, any, c, s). length m - s)") auto

text \<open>
  The part the four functions share: the limit is the largest magnitude for each sign, \<open>clamp\<close> the
  value stored after an overflow.
\<close>

definition strto :: "RuneLocale \<Rightarrow> (bool \<Rightarrow> 'a::len word) \<Rightarrow> (bool \<Rightarrow> 'a word) \<Rightarrow>
    mem \<Rightarrow> ptr \<Rightarrow> int \<Rightarrow> ('a word \<times> ptr \<times> bool) option" where
  "strto rl limit clamp m nptr base = do {
     (c, s) \<leftarrow> skip_space rl m nptr;
     (neg, c, s) \<leftarrow> take_sign m c s;
     (base, c, s) \<leftarrow> take_base m base c s;
     let qbase = ucast (word_of_int base :: u_int);
     let cutlim = sint (ucast (limit neg mod qbase) :: u_int);
     let cutoff = limit neg div qbase;
     (acc, any, s) \<leftarrow> acc_loop rl m base qbase cutoff cutlim 0 0 c s;
     Some (if any < 0 then clamp neg else if neg then - acc else acc,
           if any \<noteq> 0 then s - 1 else nptr, any < 0) }"

definition LONG_MAX :: u_long where "LONG_MAX = 0x7fffffff"
definition LONG_MIN :: u_long where "LONG_MIN = 0x80000000"
definition ULONG_MAX :: u_long where "ULONG_MAX = 0xffffffff"
definition QUAD_MAX :: u_quad where "QUAD_MAX = 0x7fffffffffffffff"
definition QUAD_MIN :: u_quad where "QUAD_MIN = 0x8000000000000000"
definition UQUAD_MAX :: u_quad where "UQUAD_MAX = 0xffffffffffffffff"

definition strtol :: "RuneLocale \<Rightarrow> mem \<Rightarrow> ptr \<Rightarrow> int \<Rightarrow> (u_long \<times> ptr \<times> bool) option" where
  "strtol rl = strto rl (\<lambda>neg. if neg then - LONG_MIN else LONG_MAX) (\<lambda>neg. if neg then LONG_MIN else LONG_MAX)"

definition strtoul :: "RuneLocale \<Rightarrow> mem \<Rightarrow> ptr \<Rightarrow> int \<Rightarrow> (u_long \<times> ptr \<times> bool) option" where
  "strtoul rl = strto rl (\<lambda>neg. ULONG_MAX) (\<lambda>neg. ULONG_MAX)"

definition strtoq :: "RuneLocale \<Rightarrow> mem \<Rightarrow> ptr \<Rightarrow> int \<Rightarrow> (u_quad \<times> ptr \<times> bool) option" where
  "strtoq rl = strto rl (\<lambda>neg. if neg then - QUAD_MIN else QUAD_MAX) (\<lambda>neg. if neg then QUAD_MIN else QUAD_MAX)"

definition strtouq :: "RuneLocale \<Rightarrow> mem \<Rightarrow> ptr \<Rightarrow> int \<Rightarrow> (u_quad \<times> ptr \<times> bool) option" where
  "strtouq rl = strto rl (\<lambda>neg. UQUAD_MAX) (\<lambda>neg. UQUAD_MAX)"

section \<open>The number a string starts with\<close>

text \<open>
  The reading of a string in the C locale as a list of bytes: white space, a sign, the prefix that
  chooses the base, and the digits of that base.
\<close>

definition space_byte :: "byte \<Rightarrow> bool" where
  "space_byte b \<longleftrightarrow> 9 \<le> b \<and> b \<le> 13 \<or> b = 32"

definition digit_val :: "byte \<Rightarrow> int option" where
  "digit_val b =
     (if 48 \<le> b \<and> b \<le> 57 then Some (uint b - 48)
      else if 65 \<le> b \<and> b \<le> 90 then Some (uint b - 55)
      else if 97 \<le> b \<and> b \<le> 122 then Some (uint b - 87) else None)"

definition is_dig :: "int \<Rightarrow> byte \<Rightarrow> bool" where
  "is_dig base b \<longleftrightarrow> (case digit_val b of None \<Rightarrow> False | Some d \<Rightarrow> d < base)"

definition split_sign :: "byte list \<Rightarrow> bool \<times> byte list" where
  "split_sign s = (case s of
     [] \<Rightarrow> (False, []) | b # r \<Rightarrow> if b = 45 then (True, r) else if b = 43 then (False, r) else (False, s))"

definition split_base :: "int \<Rightarrow> byte list \<Rightarrow> int \<times> byte list" where
  "split_base base s =
     (case s of
        b # x # r \<Rightarrow>
          if (base = 0 \<or> base = 16) \<and> b = 48 \<and> (x = 120 \<or> x = 88) then (16, r)
          else (if base = 0 then (if b = 48 then 8 else 10) else base, s)
      | [b] \<Rightarrow> (if base = 0 then (if b = 48 then 8 else 10) else base, s)
      | [] \<Rightarrow> (if base = 0 then 10 else base, s))"

definition number_digits :: "int \<Rightarrow> byte list \<Rightarrow> bool \<times> int \<times> byte list \<times> byte list" where
  "number_digits base s =
     (let (neg, s) = split_sign (dropWhile space_byte s); (base, s) = split_base base s in
      (neg, base, takeWhile (is_dig base) s, dropWhile (is_dig base) s))"

definition digits_value :: "int \<Rightarrow> byte list \<Rightarrow> int" where
  "digits_value base ds = foldl (\<lambda>v b. v * base + the (digit_val b)) 0 ds"

section \<open>The phases\<close>

declare skip_space.simps [simp del] acc_loop.simps [simp del]

lemma sint_byte: "sint b = (if b < 128 then uint b else uint b - 256)" for b :: byte
  using unsigned_less [of b, where ?'a = int] by (simp add: sint_conv_uint word_less_def)

lemma isspace_byte: "isspace DefaultRuneLocale (sint b) = space_byte b" for b :: byte
  using unsigned_less [of b, where ?'a = int] by (auto simp: isspace_C space_byte_def sint_byte word_le_def word_less_def word_uint_eq_iff)

lemma digit_of_byte: "digit_of DefaultRuneLocale (sint b) = digit_val b" for b :: byte
  using unsigned_less [of b, where ?'a = int] by (auto simp: digit_of_def ctype_C digit_val_def sint_byte word_le_def word_less_def)

lemma sint_byte_eq:
  fixes b :: byte
  shows "sint b = 45 \<longleftrightarrow> b = 45" "sint b = 43 \<longleftrightarrow> b = 43" "sint b = 48 \<longleftrightarrow> b = 48"
  using unsigned_less [of b, where ?'a = int] by (auto simp: sint_byte word_less_def word_uint_eq_iff)

text \<open>The character read last and the pointer behind it, at a string that ends at \<open>e\<close>.\<close>

definition at_str :: "mem \<Rightarrow> ptr \<Rightarrow> int \<Rightarrow> ptr \<Rightarrow> byte list \<Rightarrow> bool" where
  "at_str m e c s t \<longleftrightarrow> 0 < s \<and> cstr m (s - 1) t \<and> c = sint (m ! (s - 1)) \<and> s - 1 + length t = e"

lemma at_strI: "cstr m p t \<Longrightarrow> p + length t = e \<Longrightarrow> at_str m e (sint (m ! p)) (p + 1) t"
  by (simp add: at_str_def)

lemma at_strE:
  assumes "at_str m e c s t"
  obtains p where "s = p + 1" "cstr m p t" "c = sint (m ! p)" "p + length t = e"
  using assms by (cases s) (auto simp: at_str_def)

lemma skip_space_spec:
  "cstr m p s \<Longrightarrow> \<exists>c q. skip_space DefaultRuneLocale m p = Some (c, q)
     \<and> at_str m (p + length s) c q (dropWhile space_byte s)"
proof (induction s arbitrary: p)
  case Nil
  then show ?case
    by (subst skip_space.simps) (auto simp: cstr_Nil isspace_byte space_byte_def at_str_def)
next
  case (Cons b s)
  then have "\<exists>c q. skip_space DefaultRuneLocale m (p + 1) = Some (c, q)
     \<and> at_str m (p + 1 + length s) c q (dropWhile space_byte s)" by (intro Cons.IH) (simp add: cstr_Cons)
  with Cons.prems show ?case
    by (subst skip_space.simps) (auto simp: cstr_Cons isspace_byte at_str_def)
qed

lemma take_sign_spec:
  assumes "at_str m e c s t"
  shows "\<exists>c' s'. take_sign m c s = Some (fst (split_sign t), c', s') \<and> at_str m e c' s' (snd (split_sign t))"
proof -
  from assms obtain p where p: "s = p + 1" "cstr m p t" "c = sint (m ! p)" "p + length t = e" by (rule at_strE)
  show ?thesis
  proof (cases t)
    case Nil
    then show ?thesis
      using p assms by (simp add: take_sign_def split_sign_def cstr_Nil)
  next
    case (Cons b r)
    then have "cstr m (p + 1) r" "m ! p = b" "p + 1 < length m"
      using p cstr_bound [of m "p + 1" r] by (auto simp: cstr_Cons)
    then show ?thesis
      using p assms Cons
      by (auto simp: take_sign_def split_sign_def getc_at_def sint_byte_eq at_str_def)
  qed
qed

lemma take_base_spec:
  assumes "at_str m e c s t"
  shows "\<exists>c' s'. take_base m base c s = Some (fst (split_base base t), c', s')
    \<and> at_str m e c' s' (snd (split_base base t))"
proof -
  from assms obtain p where p: "s = p + 1" "cstr m p t" "c = sint (m ! p)" "p + length t = e" by (rule at_strE)
  consider "t = []" | b where "t = [b]" | b x r where "t = b # x # r" by (metis list.exhaust)
  then show ?thesis
  proof cases
    case 1
    then show ?thesis
      using p assms by (simp add: take_base_def split_base_def cstr_Nil)
  next
    case 2
    then show ?thesis
      using p assms by (auto simp: take_base_def split_base_def sint_byte_eq cstr_Nil cstr_Cons)
  next
    case 3
    then have "cstr m (p + 2) r" "m ! p = b" "m ! (p + 1) = x" "p + 2 < length m"
      using p cstr_bound [of m "p + 2" r] by (auto simp: cstr_Cons)
    then show ?thesis
      using p assms 3
      by (auto simp: take_base_def split_base_def sint_byte_eq at_str_def)
  qed
qed

text \<open>The accumulator, or the overflow flag, says what the value so far is.\<close>

definition acc_inv :: "int \<Rightarrow> int \<Rightarrow> 'a::len word \<Rightarrow> int \<Rightarrow> bool" where
  "acc_inv L any acc v \<longleftrightarrow> (if any < 0 then L < v else uint acc = v \<and> v \<le> L)"

lemma acc_step:
  fixes acc qbase cutoff :: "'a::len word"
  assumes "acc_inv L any acc v" "0 \<le> v" "0 \<le> d" "d < base" "0 \<le> L" "L < 2 ^ LENGTH('a)"
    and "uint qbase = base" "uint cutoff = L div base"
    and over: "over \<longleftrightarrow> any < 0 \<or> acc > cutoff \<or> acc = cutoff \<and> d > L mod base"
  shows "acc_inv L (if over then - 1 else 1) (if over then acc else acc * qbase + word_of_int d) (v * base + d)"
proof (cases "any < 0")
  case True
  have "v \<le> v * base" using assms(2,3,4) by (simp add: mult_le_cancel_left1)
  then have "L < v * base + d" using True assms(1,3) by (simp add: acc_inv_def)
  then show ?thesis using True over by (simp add: acc_inv_def)
next
  case False
  then have v: "uint acc = v" "v \<le> L" using assms(1) by (auto simp: acc_inv_def)
  have L: "L = L div base * base + L mod base" "0 \<le> L mod base" "L mod base < base" using assms by auto
  have iff: "over \<longleftrightarrow> L < v * base + d"
  proof (cases v "L div base" rule: linorder_cases)
    case less
    then have "v * base + base \<le> L div base * base"
      using mult_right_mono [of "v + 1" "L div base" base] assms by (simp add: distrib_right)
    then have "v * base + d < L" using L assms by linarith
    then show ?thesis using less False v assms by (auto simp: word_less_def word_uint_eq_iff)
  next
    case equal
    then have "over \<longleftrightarrow> L mod base < d" "v * base = L div base * base"
      using False v assms by (auto simp: word_less_def word_uint_eq_iff)
    then show ?thesis using L(1) by linarith
  next
    case greater
    then have "L div base * base + base \<le> v * base"
      using mult_right_mono [of "L div base + 1" v base] assms by (simp add: distrib_right)
    then have "L < v * base + d" using L assms by linarith
    then show ?thesis using greater v assms by (auto simp: word_less_def word_uint_eq_iff)
  qed
  have "uint (acc * qbase + word_of_int d) = v * base + d" if "v * base + d \<le> L"
  proof -
    have "acc * qbase + word_of_int d = word_of_int (v * base + d)"
      using v assms(7) by (metis of_int_add of_int_mult word_of_int_uint)
    moreover have "0 \<le> v * base + d" "v * base + d < 2 ^ LENGTH('a)"
      using that assms by auto
    ultimately show ?thesis by (simp add: uint_word_of_int take_bit_int_eq_self del: of_int_add of_int_mult)
  qed
  then show ?thesis using iff by (auto simp: acc_inv_def)
qed

lemma digit_val_bounds: "digit_val b = Some d \<Longrightarrow> 0 \<le> d \<and> d < 36"
  by (auto simp: digit_val_def word_le_def split: if_splits)

lemma acc_loop_spec:
  fixes acc qbase cutoff :: "'a::len word"
  assumes "0 \<le> L" "L < 2 ^ LENGTH('a)" "uint qbase = base" "uint cutoff = L div base" "cutlim = L mod base"
  shows "at_str m e c s t \<Longrightarrow> acc_inv L any acc v \<Longrightarrow> 0 \<le> v \<Longrightarrow>
    \<exists>acc' any'. acc_loop DefaultRuneLocale m base qbase cutoff cutlim acc any c s
        = Some (acc', any', e - length (dropWhile (is_dig base) t) + 1)
      \<and> acc_inv L any' acc' (foldl (\<lambda>v b. v * base + the (digit_val b)) v (takeWhile (is_dig base) t))
      \<and> (any' = 0 \<longleftrightarrow> any = 0 \<and> takeWhile (is_dig base) t = [])"
proof (induction t arbitrary: c s acc any v)
  case Nil
  then obtain p where p: "s = p + 1" "cstr m p []" "c = sint (m ! p)" "p = e" by (auto elim: at_strE)
  have "digit_of DefaultRuneLocale c = None"
    using p by (simp add: digit_of_def ctype_C cstr_Nil)
  then show ?case using p Nil.prems by (subst acc_loop.simps) simp
next
  case (Cons b t)
  from Cons.prems(1) obtain p where p: "s = p + 1" "cstr m p (b # t)" "c = sint b" "p + 1 + length t = e"
    by (auto elim!: at_strE simp: cstr_Cons)
  have t: "cstr m (p + 1) t" "p + 1 < length m" using p cstr_bound [of m "p + 1" t] by (auto simp: cstr_Cons)
  show ?case
  proof (cases "is_dig base b")
    case False
    then show ?thesis
      using p Cons.prems by (subst acc_loop.simps) (auto simp: digit_of_byte is_dig_def split: option.splits)
  next
    case True
    then obtain d where d: "digit_val b = Some d" "d < base" by (auto simp: is_dig_def split: option.splits)
    define over where "over \<longleftrightarrow> any < 0 \<or> acc > cutoff \<or> acc = cutoff \<and> d > L mod base"
    define any1 where "any1 = (if over then - 1 else 1 :: int)"
    define acc1 where "acc1 = (if over then acc else acc * qbase + word_of_int d)"
    have d0: "0 \<le> d" using digit_val_bounds [OF d(1)] by simp
    have inv: "acc_inv L any1 acc1 (v * base + d)"
      unfolding any1_def acc1_def using acc_step [OF Cons.prems(2,3) d0 d(2) assms(1-4) over_def] .
    have pos: "0 \<le> v * base + d" using Cons.prems(3) d0 d(2) by simp
    have "any1 \<noteq> 0" by (simp add: any1_def)
    moreover have "acc_loop DefaultRuneLocale m base qbase cutoff cutlim acc any c s
        = acc_loop DefaultRuneLocale m base qbase cutoff cutlim acc1 any1 (sint (m ! (p + 1))) (p + 1 + 1)"
      using p t d assms(5)
      by (subst acc_loop.simps)
        (simp add: digit_of_byte Let_def over_def [symmetric] any1_def [symmetric] acc1_def [symmetric])
    moreover have "at_str m e (sint (m ! (p + 1))) (p + 1 + 1) t" using t p by (intro at_strI) auto
    ultimately show ?thesis
      using Cons.IH [OF _ inv pos] d True by simp
  qed
qed

text \<open>All phases together, for any width and any limits.\<close>

lemma strto_spec:
  fixes limit clamp :: "bool \<Rightarrow> 'a::len word"
  assumes str: "cstr m p str" and base: "base = 0 \<or> 2 \<le> base \<and> base \<le> 36" and width: "31 < LENGTH('a)"
    and nd: "number_digits base str = (neg, b, ds, rest)"
  shows "strto DefaultRuneLocale limit clamp m p base =
    Some (if uint (limit neg) < digits_value b ds then clamp neg
          else if neg then - word_of_int (digits_value b ds) else word_of_int (digits_value b ds),
          if ds = [] then p else p + length str - length rest,
          uint (limit neg) < digits_value b ds)"
proof -
  let ?e = "p + length str"
  obtain s1 where s1: "split_sign (dropWhile space_byte str) = (neg, s1)"
      "b = fst (split_base base s1)" "ds = takeWhile (is_dig b) (snd (split_base base s1))"
      "rest = dropWhile (is_dig b) (snd (split_base base s1))"
    using nd by (auto simp: number_digits_def Let_def split: prod.splits)
  obtain c1 q1 where 1: "skip_space DefaultRuneLocale m p = Some (c1, q1)"
      "at_str m ?e c1 q1 (dropWhile space_byte str)"
    using skip_space_spec [OF str] by blast
  obtain c2 q2 where 2: "take_sign m c1 q1 = Some (neg, c2, q2)" "at_str m ?e c2 q2 s1"
    using take_sign_spec [OF 1(2)] s1(1) by auto
  obtain c3 q3 where 3: "take_base m base c2 q2 = Some (b, c3, q3)" "at_str m ?e c3 q3 (snd (split_base base s1))"
    using take_base_spec [OF 2(2), of base] s1(2) by auto
  have b: "2 \<le> b" "b \<le> 36" using base s1(2) by (auto simp: split_base_def split: list.splits if_splits)
  define qbase where "qbase = (ucast (word_of_int b :: u_int) :: 'a word)"
  have "(36::int) < 2 ^ LENGTH('a)"
    using power_strict_increasing [of 6 "LENGTH('a)" "2::int"] width by simp
  then have qb: "uint qbase = b"
    using b by (simp add: qbase_def unsigned_ucast_eq uint_word_of_int take_bit_int_eq_self)
  let ?L = "uint (limit neg)"
  have L: "0 \<le> ?L" "?L < 2 ^ LENGTH('a)" by simp_all
  have cutoff: "uint (limit neg div qbase) = ?L div b" by (simp add: uint_div_distrib qb)
  have "?L mod b < 36" using b pos_mod_bound [of b ?L] by linarith
  moreover have "uint (limit neg mod qbase) = ?L mod b" "0 \<le> ?L mod b"
    using b by (auto simp: uint_mod_distrib qb)
  ultimately have cutlim: "sint (ucast (limit neg mod qbase) :: u_int) = ?L mod b"
    by (simp add: sint_conv_uint unsigned_ucast_eq take_bit_int_eq_self)
  have "acc_inv ?L 0 (0 :: 'a word) 0" using L by (simp add: acc_inv_def)
  from acc_loop_spec [OF L qb cutoff cutlim 3(2) this] obtain acc any where
    4: "acc_loop DefaultRuneLocale m b qbase (limit neg div qbase) (sint (ucast (limit neg mod qbase) :: u_int)) 0 0 c3 q3
        = Some (acc, any, ?e - length rest + 1)"
      "acc_inv ?L any acc (digits_value b ds)" "any = 0 \<longleftrightarrow> ds = []"
    using s1 by (auto simp: digits_value_def)
  have over: "any < 0 \<longleftrightarrow> ?L < digits_value b ds" "\<not> any < 0 \<Longrightarrow> acc = word_of_int (digits_value b ds)"
    using 4(2) word_of_int_uint [of acc] by (auto simp: acc_inv_def split: if_splits)
  then show ?thesis
    using 1(1) 2(1) 3(1) 4(1,3) by (auto simp: strto_def Let_def qbase_def [symmetric])
qed

lemma digits_value_nonneg:
  assumes "0 \<le> base" "0 \<le> v" "list_all (is_dig base) ds"
  shows "0 \<le> foldl (\<lambda>v b. v * base + the (digit_val b)) v ds"
  using assms(2,3)
proof (induction ds arbitrary: v)
  case (Cons d ds)
  then obtain k where "digit_val d = Some k" "0 \<le> k"
    using digit_val_bounds by (auto simp: is_dig_def split: option.splits)
  with Cons assms(1) show ?case by simp
qed simp

lemma number_digits_nonneg:
  assumes "number_digits base str = (neg, b, ds, rest)" "0 \<le> base"
  shows "0 \<le> digits_value b ds"
proof -
  have "0 \<le> b" using assms
    by (auto simp: number_digits_def split_base_def Let_def split: prod.splits list.splits if_splits)
  moreover have "list_all (is_dig b) ds"
    using assms(1) by (auto simp: number_digits_def Let_def list_all_iff dest: set_takeWhileD split: prod.splits)
  ultimately show ?thesis unfolding digits_value_def by (intro digits_value_nonneg) auto
qed

text \<open>The result of a signed conversion as a clamped integer.\<close>

definition clamp_int :: "nat \<Rightarrow> int \<Rightarrow> int" where
  "clamp_int w v = max (- (2 ^ (w - 1))) (min (2 ^ (w - 1) - 1) v)"

section \<open>Properties\<close>

text \<open>C4: \<open>strtol\<close> in the C locale, for base 0 and the bases 2 to 36, reads the longest numeral after white space, a sign and a prefix:
  the value is the numeral clamped to the range of \<open>long\<close>, \<open>errno\<close> is set to \<open>ERANGE\<close> exactly when the numeral is
  outside it, and \<open>*endptr\<close> is the first character not read, or the start of the string when there are no digits.\<close>

theorem strtol_correct:
  assumes "cstr m p str" "base = 0 \<or> 2 \<le> base \<and> base \<le> 36" "number_digits base str = (neg, b, ds, rest)"
  shows "let v = (if neg then - digits_value b ds else digits_value b ds) in
    \<exists>r. strtol DefaultRuneLocale m p base
        = Some (r, if ds = [] then p else p + length str - length rest, v < - (2 ^ 31) \<or> 2 ^ 31 \<le> v)
      \<and> sint r = clamp_int 32 v"
proof -
  have v: "0 \<le> digits_value b ds" using number_digits_nonneg [OF assms(3)] assms(2) by auto
  let ?v = "digits_value b ds"
  have w: "sint (word_of_int k :: u_long) = k" if "- (2 ^ 31) \<le> k" "k < 2 ^ 31" for k
    using that by (simp add: sint_sbintrunc' signed_take_bit_int_eq_self)
  show ?thesis
  proof (cases neg)
    case True
    then show ?thesis
      using strto_spec [OF assms(1,2) _ assms(3), of "\<lambda>neg. if neg then - LONG_MIN else LONG_MAX" "\<lambda>neg. if neg then LONG_MIN else LONG_MAX"]
        v w [of "- ?v"] by (auto simp: strtol_def LONG_MIN_def Let_def clamp_int_def max_def min_def)
  next
    case False
    then show ?thesis
      using strto_spec [OF assms(1,2) _ assms(3), of "\<lambda>neg. if neg then - LONG_MIN else LONG_MAX" "\<lambda>neg. if neg then LONG_MIN else LONG_MAX"]
        v w [of ?v] by (auto simp: strtol_def LONG_MAX_def Let_def clamp_int_def max_def min_def)
  qed
qed

theorem strtol_correct_witness:
  "\<exists>r. strtol DefaultRuneLocale [32, 45, 48, 120, 70, 102, 122, 0] 0 0 = Some (r, Suc (Suc (Suc (Suc (Suc (Suc 0))))), False) \<and> sint r = - 255"
proof -
  have "number_digits 0 [32, 45, 48, 120, 70, 102, 122] = (True, 16, [70, 102], [122])"
    by (simp add: number_digits_def space_byte_def split_sign_def split_base_def is_dig_def digit_val_def)
  then show ?thesis
    using strtol_correct [of "[32, 45, 48, 120, 70, 102, 122, 0]" 0 "[32, 45, 48, 120, 70, 102, 122]" 0 True 16 "[70, 102]" "[122]"]
    by (simp add: cstr_def slice_def digits_value_def digit_val_def clamp_int_def)
qed

text \<open>\<open>strtoq\<close> does the same for 64-bit integers.\<close>

theorem strtoq_correct:
  assumes "cstr m p str" "base = 0 \<or> 2 \<le> base \<and> base \<le> 36" "number_digits base str = (neg, b, ds, rest)"
  shows "let v = (if neg then - digits_value b ds else digits_value b ds) in
    \<exists>r. strtoq DefaultRuneLocale m p base
        = Some (r, if ds = [] then p else p + length str - length rest, v < - (2 ^ 63) \<or> 2 ^ 63 \<le> v)
      \<and> sint r = clamp_int 64 v"
proof -
  have v: "0 \<le> digits_value b ds" using number_digits_nonneg [OF assms(3)] assms(2) by auto
  let ?v = "digits_value b ds"
  have w: "sint (word_of_int k :: u_quad) = k" if "- (2 ^ 63) \<le> k" "k < 2 ^ 63" for k
    using that by (simp add: sint_sbintrunc' signed_take_bit_int_eq_self)
  show ?thesis
  proof (cases neg)
    case True
    then show ?thesis
      using strto_spec [OF assms(1,2) _ assms(3), of "\<lambda>neg. if neg then - QUAD_MIN else QUAD_MAX" "\<lambda>neg. if neg then QUAD_MIN else QUAD_MAX"]
        v w [of "- ?v"] by (auto simp: strtoq_def QUAD_MIN_def Let_def clamp_int_def max_def min_def)
  next
    case False
    then show ?thesis
      using strto_spec [OF assms(1,2) _ assms(3), of "\<lambda>neg. if neg then - QUAD_MIN else QUAD_MAX" "\<lambda>neg. if neg then QUAD_MIN else QUAD_MAX"]
        v w [of ?v] by (auto simp: strtoq_def QUAD_MAX_def Let_def clamp_int_def max_def min_def)
  qed
qed

theorem strtoq_correct_witness:
  "\<exists>r. strtoq DefaultRuneLocale [45, 55, 0] 0 10 = Some (r, Suc (Suc 0), False) \<and> sint r = - 7"
proof -
  have "number_digits 10 [45, 55] = (True, 10, [55], [])"
    by (simp add: number_digits_def space_byte_def split_sign_def split_base_def is_dig_def digit_val_def)
  then show ?thesis
    using strtoq_correct [of "[45, 55, 0]" 0 "[45, 55]" 10 True 10 "[55]" "[]"]
    by (simp add: cstr_def slice_def digits_value_def digit_val_def clamp_int_def)
qed

text \<open>\<open>strtoul\<close> and \<open>strtouq\<close> return the numeral, negated modulo the word size after a minus sign, or the
  largest value with \<open>ERANGE\<close> when the numeral does not fit.\<close>

theorem strtoul_correct:
  assumes "cstr m p str" "base = 0 \<or> 2 \<le> base \<and> base \<le> 36" "number_digits base str = (neg, b, ds, rest)"
  shows "let v = digits_value b ds; endp = (if ds = [] then p else p + length str - length rest) in
    strtoul DefaultRuneLocale m p base = Some (if 2 ^ 32 \<le> v then ULONG_MAX
        else word_of_int (if neg then - v else v), endp, 2 ^ 32 \<le> v)
    \<and> strtouq DefaultRuneLocale m p base = Some (if 2 ^ 64 \<le> v then UQUAD_MAX
        else word_of_int (if neg then - v else v), endp, 2 ^ 64 \<le> v)"
  using strto_spec [OF assms(1,2) _ assms(3), of "\<lambda>neg. ULONG_MAX" "\<lambda>neg. ULONG_MAX"]
    strto_spec [OF assms(1,2) _ assms(3), of "\<lambda>neg. UQUAD_MAX" "\<lambda>neg. UQUAD_MAX"]
  by (auto simp: strtoul_def strtouq_def Let_def ULONG_MAX_def UQUAD_MAX_def)

theorem strtoul_correct_witness:
  "strtoul DefaultRuneLocale [52, 50, 57, 52, 57, 54, 55, 50, 57, 54, 0] 0 10 = Some (ULONG_MAX, 10, True)"
proof -
  have "number_digits 10 [52, 50, 57, 52, 57, 54, 55, 50, 57, 54]
      = (False, 10, [52, 50, 57, 52, 57, 54, 55, 50, 57, 54], [])"
    by (simp add: number_digits_def space_byte_def split_sign_def split_base_def is_dig_def digit_val_def)
  then show ?thesis
    using strtoul_correct [of "[52, 50, 57, 52, 57, 54, 55, 50, 57, 54, 0]" 0
        "[52, 50, 57, 52, 57, 54, 55, 50, 57, 54]" 10 False 10 "[52, 50, 57, 52, 57, 54, 55, 50, 57, 54]" "[]"]
    by (simp add: cstr_def slice_def digits_value_def digit_val_def)
qed

end
