(* ===== verification/Rune.thy ===== *)
theory Rune
  imports Strings Ctype
begin

unbundle bit_operations_syntax

text \<open>
  Multibyte characters of \<open>lib/libc/locale\<close>: the codecs \<open>runenone.c\<close>, \<open>utf2.c\<close> and \<open>euc.c\<close>, the
  ANSI functions of \<open>multibyte.c\<close> and the searches of \<open>mbrune.c\<close>. A \<open>wchar_t\<close> array is a list of runes.
  \<open>MB_LEN_MAX\<close> comes from a header that is not part of the library and is an argument.
\<close>

section \<open>Definitions\<close>

subsection \<open>Codecs\<close>

text \<open>
  \<open>sgetrune\<close> returns the rune and \<open>*result\<close>; \<open>sputrune\<close> returns its value, the memory and \<open>*result\<close>.
  A null \<open>string\<close> makes \<open>sputrune\<close> only measure; no function below passes one.
\<close>

definition none_sgetrune :: "rune \<Rightarrow> mem \<Rightarrow> ptr \<Rightarrow> nat \<Rightarrow> (rune \<times> ptr) option" where
  "none_sgetrune invalid m string n =
     (if n < 1 then Some (invalid, string)
      else do { b \<leftarrow> load m string; Some (uint b, string + 1) })"

definition store_if :: "mem \<Rightarrow> ptr option \<Rightarrow> nat \<Rightarrow> byte \<Rightarrow> mem option" where
  "store_if m string i b = (case string of None \<Rightarrow> Some m | Some p \<Rightarrow> store m (p + i) b)"

definition addr :: "ptr option \<Rightarrow> ptr" where
  "addr string = (case string of None \<Rightarrow> 0 | Some p \<Rightarrow> p)"

definition none_sputrune :: "rune \<Rightarrow> mem \<Rightarrow> ptr option \<Rightarrow> nat \<Rightarrow> (int \<times> mem \<times> ptr option) option" where
  "none_sputrune c m string n =
     (if 1 \<le> n then do { m \<leftarrow> store_if m string 0 (word_of_int c); Some (1, m, Some (addr string + 1)) }
      else Some (1, m, None))"

definition utf_count :: "nat list" where
  "utf_count = [1, 1, 1, 1, 1, 1, 1, 1,
                0, 0, 0, 0, 2, 2, 3, 0]"

definition UTF2_sgetrune :: "rune \<Rightarrow> mem \<Rightarrow> ptr \<Rightarrow> nat \<Rightarrow> (rune \<times> ptr) option" where
  "UTF2_sgetrune invalid m string n =
     (if n < 1 then Some (invalid, string)
      else do {
        b0 \<leftarrow> load m string;
        let c = utf_count ! unat (drop_bit 4 b0 AND 0xf);
        (if c > n then Some (invalid, string)
         else if c = 1 then Some (uint b0, string + 1)
         else if c = 2 then do {
           b1 \<leftarrow> load m (string + 1);
           (if b1 AND 0xC0 \<noteq> 0x80 then Some (invalid, string + 1)
            else Some (push_bit 6 (uint (b0 AND 0x1F)) OR uint (b1 AND 0x3F), string + 2)) }
         else if c = 3 then do {
           b1 \<leftarrow> load m (string + 1);
           (if b1 AND 0xC0 \<noteq> 0x80 then Some (invalid, string + 1)
            else do {
              b2 \<leftarrow> load m (string + 2);
              (if b2 AND 0xC0 \<noteq> 0x80 then Some (invalid, string + 1)
               else Some (push_bit 12 (uint (b0 AND 0x1F)) OR push_bit 6 (uint (b1 AND 0x3F))
                          OR uint (b2 AND 0x3F), string + 3)) }) }
         else Some (invalid, string + 1)) })"

definition UTF2_sputrune :: "rune \<Rightarrow> mem \<Rightarrow> ptr option \<Rightarrow> nat \<Rightarrow> (int \<times> mem \<times> ptr option) option" where
  "UTF2_sputrune c m string n =
     (if c AND 0xF800 \<noteq> 0 then
        (if n \<ge> 3 then do {
           m \<leftarrow> store_if m string 0 (word_of_int (0xE0 OR (drop_bit 12 c AND 0x0F)));
           m \<leftarrow> store_if m string 1 (word_of_int (0x80 OR (drop_bit 6 c AND 0x3F)));
           m \<leftarrow> store_if m string 2 (word_of_int (0x80 OR (c AND 0x3F)));
           Some (3, m, Some (addr string + 3)) }
         else Some (3, m, None))
      else if c AND 0x0780 \<noteq> 0 then
        (if n \<ge> 2 then do {
           m \<leftarrow> store_if m string 0 (word_of_int (0xC0 OR (drop_bit 6 c AND 0x1F)));
           m \<leftarrow> store_if m string 1 (word_of_int (0x80 OR (c AND 0x3F)));
           Some (2, m, Some (addr string + 2)) }
         else Some (2, m, None))
      else
        (if n \<ge> 1 then do {
           m \<leftarrow> store_if m string 0 (word_of_int c);
           Some (1, m, Some (addr string + 1)) }
         else Some (1, m, None)))"

definition euc_set :: "byte \<Rightarrow> nat" where
  "euc_set c = (if c AND 0x80 \<noteq> 0 then (if c = 0x8f then 3 else if c = 0x8e then 2 else 1) else 0)"

fun euc_get_loop :: "nat \<Rightarrow> mem \<Rightarrow> ptr \<Rightarrow> rune \<Rightarrow> (rune \<times> ptr) option" where
  "euc_get_loop 0 m string rune = Some (rune, string)"
| "euc_get_loop (Suc len) m string rune = do {
     b \<leftarrow> load m string;
     euc_get_loop len m (string + 1) (push_bit 8 rune OR uint b) }"

text \<open>A count that is negative is larger than any \<open>size_t\<close> in the comparison with \<open>n\<close>.\<close>

definition EUC_sgetrune :: "EucInfo \<Rightarrow> rune \<Rightarrow> mem \<Rightarrow> ptr \<Rightarrow> nat \<Rightarrow> (rune \<times> ptr) option" where
  "EUC_sgetrune ei invalid m string n =
     (if n < 1 then Some (invalid, string)
      else do {
        b0 \<leftarrow> load m string;
        let st = euc_set b0;
        let len = euc_count ei ! st;
        (if len < 0 \<or> nat len > n then Some (invalid, string)
         else do {
           (rune, e) \<leftarrow>
             (if st = 3 \<or> st = 2 then euc_get_loop (nat (len - 1)) m (string + 1) 0
              else euc_get_loop (nat len) m string 0);
           Some ((rune AND NOT (euc_mask ei)) OR euc_bits ei ! st, e) }) })"

fun euc_put_loop :: "nat \<Rightarrow> rune \<Rightarrow> rune \<Rightarrow> mem \<Rightarrow> ptr \<Rightarrow> (mem \<times> ptr) option" where
  "euc_put_loop 0 bits nm m string = Some (m, string)"
| "euc_put_loop (Suc i) bits nm m string = do {
     m \<leftarrow> store m string (word_of_int (drop_bit (i * 8) nm OR bits));
     euc_put_loop i bits nm m (string + 1) }"

definition EUC_sputrune :: "EucInfo \<Rightarrow> rune \<Rightarrow> mem \<Rightarrow> ptr \<Rightarrow> nat \<Rightarrow> (int \<times> mem \<times> ptr option) option" where
  "EUC_sputrune ei c m string n =
     (let mk = c AND euc_mask ei; nm = c AND NOT mk;
          short = (\<lambda>len. len < 0 \<or> nat len > n);
          shifted = (\<lambda>k ss. let len = euc_count ei ! k in
            if short len then Some (len, m, None)
            else do {
              m \<leftarrow> store m string ss;
              (m, e) \<leftarrow> euc_put_loop (nat (len - 1)) 0 nm m (string + 1);
              Some (len, m, Some e) }) in
      if mk \<noteq> euc_bits ei ! 1 \<and> mk = euc_bits ei ! 0 then
        (let len = euc_count ei ! 0 in
         if short len then Some (len, m, None)
         else do { (m, e) \<leftarrow> euc_put_loop (nat len) 0 nm m string; Some (len, m, Some e) })
      else if mk \<noteq> euc_bits ei ! 1 \<and> mk = euc_bits ei ! 2 then shifted 2 0x8e
      else if mk \<noteq> euc_bits ei ! 1 \<and> mk = euc_bits ei ! 3 then shifted 3 0x8f
      else
        (let len = euc_count ei ! 1 in
         if short len then Some (len, m, None)
         else do { (m, e) \<leftarrow> euc_put_loop (nat len) 0x80 nm m string; Some (len, m, Some (string + nat len)) }))"

text \<open>
  The initialisers of a locale: the locale with its codec set becomes the current one, and the second
  value is \<open>__mb_cur_max\<close>.
\<close>

definition none_init :: "RuneLocale \<Rightarrow> RuneLocale \<times> nat" where
  "none_init rl = (rl\<lparr>rl_codec := codec_none\<rparr>, 1)"

definition UTF2_init :: "RuneLocale \<Rightarrow> RuneLocale \<times> nat" where
  "UTF2_init rl = (rl\<lparr>rl_codec := codec_UTF2\<rparr>, 3)"

text \<open>The function pointers of the current locale.\<close>

definition sgetrune :: "RuneLocale \<Rightarrow> mem \<Rightarrow> ptr \<Rightarrow> nat \<Rightarrow> (rune \<times> ptr) option" where
  "sgetrune rl m string n = (case rl_codec rl of
     codec_none \<Rightarrow> none_sgetrune (invalid_rune rl) m string n
   | codec_UTF2 \<Rightarrow> UTF2_sgetrune (invalid_rune rl) m string n
   | codec_EUC ei \<Rightarrow> EUC_sgetrune ei (invalid_rune rl) m string n)"

definition sputrune :: "RuneLocale \<Rightarrow> rune \<Rightarrow> mem \<Rightarrow> ptr \<Rightarrow> nat \<Rightarrow> (int \<times> mem \<times> ptr option) option" where
  "sputrune rl c m string n = (case rl_codec rl of
     codec_none \<Rightarrow> none_sputrune c m (Some string) n
   | codec_UTF2 \<Rightarrow> UTF2_sputrune c m (Some string) n
   | codec_EUC ei \<Rightarrow> EUC_sputrune ei c m string n)"

subsection \<open>Conversions\<close>

definition mblen :: "RuneLocale \<Rightarrow> mem \<Rightarrow> ptr option \<Rightarrow> nat \<Rightarrow> int option" where
  "mblen rl m s n = (case s of
     None \<Rightarrow> Some 0
   | Some s \<Rightarrow> do {
       b \<leftarrow> load m s;
       (if b = 0 then Some 0
        else do {
          (r, e) \<leftarrow> sgetrune rl m s n;
          (if r = invalid_rune rl then Some (int s - int e) else Some (int e - int s)) }) })"

text \<open>\<open>mbtowc\<close> returns its value and what it stores in \<open>*pwc\<close>, if anything.\<close>

definition mbtowc :: "RuneLocale \<Rightarrow> mem \<Rightarrow> ptr option \<Rightarrow> nat \<Rightarrow> (int \<times> rune option) option" where
  "mbtowc rl m s n = (case s of
     None \<Rightarrow> Some (0, None)
   | Some s \<Rightarrow> do {
       b \<leftarrow> load m s;
       (if b = 0 then Some (0, None)
        else do {
          (r, e) \<leftarrow> sgetrune rl m s n;
          (if r = invalid_rune rl then Some (int s - int e, None) else Some (int e - int s, Some r)) }) })"

definition wctomb :: "RuneLocale \<Rightarrow> nat \<Rightarrow> mem \<Rightarrow> ptr option \<Rightarrow> rune \<Rightarrow> (int \<times> mem) option" where
  "wctomb rl mb_cur_max m s wchar = (case s of
     None \<Rightarrow> Some (0, m)
   | Some s \<Rightarrow>
       if wchar = 0 then do { m \<leftarrow> store m s 0; Some (1, m) }
       else do {
         (k, m, e) \<leftarrow> sputrune rl wchar m s mb_cur_max;
         Some (case e of Some e \<Rightarrow> int e - int s | None \<Rightarrow> - 1, m) })"

definition wstore :: "rune list \<Rightarrow> nat \<Rightarrow> rune \<Rightarrow> rune list option" where
  "wstore ws i r = (if i < length ws then Some (ws[i := r]) else None)"

fun mbstowcs_loop :: "RuneLocale \<Rightarrow> nat \<Rightarrow> mem \<Rightarrow> nat \<Rightarrow> rune list \<Rightarrow> nat \<Rightarrow> ptr \<Rightarrow> int \<Rightarrow> (int \<times> rune list) option" where
  "mbstowcs_loop rl mb_len_max m 0 ws pwcs s cnt = Some (cnt, ws)"
| "mbstowcs_loop rl mb_len_max m (Suc n) ws pwcs s cnt = do {
     (r, e) \<leftarrow> sgetrune rl m s mb_len_max;
     ws \<leftarrow> wstore ws pwcs r;
     (if r = invalid_rune rl then Some (- 1, ws)
      else if r = 0 then Some (cnt, ws)
      else mbstowcs_loop rl mb_len_max m n ws (pwcs + 1) e (cnt + 1)) }"

definition mbstowcs :: "RuneLocale \<Rightarrow> nat \<Rightarrow> mem \<Rightarrow> rune list \<Rightarrow> nat option \<Rightarrow> ptr option \<Rightarrow> nat \<Rightarrow> (int \<times> rune list) option" where
  "mbstowcs rl mb_len_max m ws pwcs s n = (case (pwcs, s) of
     (Some pwcs, Some s) \<Rightarrow> mbstowcs_loop rl mb_len_max m n ws pwcs s 0
   | _ \<Rightarrow> Some (- 1, ws))"

text \<open>The loop of \<open>wcstombs\<close> does not change \<open>n\<close>; it ends at the null rune or at the end of the array.\<close>

function wcstombs_loop :: "RuneLocale \<Rightarrow> rune list \<Rightarrow> nat \<Rightarrow> mem \<Rightarrow> ptr \<Rightarrow> nat \<Rightarrow> int \<Rightarrow> (int \<times> mem) option" where
  "wcstombs_loop rl ws n m s pwcs cnt =
     (if n = 0 then Some (cnt, m)
      else if pwcs < length ws then
        (if ws ! pwcs = 0 then do { m \<leftarrow> store m s 0; Some (cnt, m) }
         else do {
           (k, m, e) \<leftarrow> sputrune rl (ws ! pwcs) m s n;
           (if k = 0 then Some (- 1, m)
            else (case e of
              None \<Rightarrow> Some (cnt, m)
            | Some e \<Rightarrow> wcstombs_loop rl ws n m e (pwcs + 1) (cnt + (int e - int s)))) })
      else None)"
  by pat_completeness auto
termination by (relation "measure (\<lambda>(rl, ws, n, m, s, pwcs, cnt). length ws - pwcs)") auto

definition wcstombs :: "RuneLocale \<Rightarrow> mem \<Rightarrow> ptr option \<Rightarrow> rune list \<Rightarrow> nat option \<Rightarrow> nat \<Rightarrow> (int \<times> mem) option" where
  "wcstombs rl m s ws pwcs n = (case (pwcs, s) of
     (Some pwcs, Some s) \<Rightarrow> wcstombs_loop rl ws n m s pwcs 0
   | _ \<Rightarrow> Some (- 1, m))"

subsection \<open>Searches\<close>

lemma euc_get_loop_advances: "euc_get_loop len m s r = Some (r', e) \<Longrightarrow> s \<le> e"
  by (induction len m s r rule: euc_get_loop.induct) (auto split: bind_splits)

lemma sgetrune_advances: "sgetrune rl m s n = Some (r, e) \<Longrightarrow> s \<le> e \<and> (0 < n \<longrightarrow> s < length m) \<and> (n = 0 \<longrightarrow> e = s)"
  by (auto simp: sgetrune_def none_sgetrune_def UTF2_sgetrune_def EUC_sgetrune_def Let_def
      split: codec.splits if_splits bind_splits dest: euc_get_loop_advances)

text \<open>
  The searches pass \<open>MB_LEN_MAX\<close>, which is positive; the definitions take its predecessor. A rune that
  does not move the pointer is skipped by one byte.
\<close>

function mbrune :: "RuneLocale \<Rightarrow> nat \<Rightarrow> mem \<Rightarrow> ptr \<Rightarrow> rune \<Rightarrow> ptr option option" where
  "mbrune rl k m string c = do {
     (r, result) \<leftarrow> sgetrune rl m string (Suc k);
     (if r \<noteq> 0 then
        (if r = c then Some (Some string)
         else mbrune rl k m (if result = string then string + 1 else result) c)
      else do { b \<leftarrow> load m string; Some (if c = sint b then Some string else None) }) }"
  by pat_completeness auto
termination
proof (relation "measure (\<lambda>(rl, k, m, string, c). length m - string)", goal_cases)
  case (2 rl k m string c x r result)
  then show ?case using sgetrune_advances [of rl m string "Suc k" r result] by auto
qed simp

function mbrrune_loop :: "RuneLocale \<Rightarrow> nat \<Rightarrow> mem \<Rightarrow> ptr option \<Rightarrow> ptr \<Rightarrow> rune \<Rightarrow> ptr option option" where
  "mbrrune_loop rl k m lst string c = do {
     (r, result) \<leftarrow> sgetrune rl m string (Suc k);
     (if r \<noteq> 0 then
        mbrrune_loop rl k m (if r = c then Some string else lst) (if result = string then string + 1 else result) c
      else do { b \<leftarrow> load m string; Some (if c = sint b then Some string else lst) }) }"
  by pat_completeness auto
termination
proof (relation "measure (\<lambda>(rl, k, m, lst, string, c). length m - string)", goal_cases)
  case (2 rl k m lst string c x r result)
  then show ?case using sgetrune_advances [of rl m string "Suc k" r result] by auto
qed simp

definition mbrrune :: "RuneLocale \<Rightarrow> nat \<Rightarrow> mem \<Rightarrow> ptr \<Rightarrow> rune \<Rightarrow> ptr option option" where
  "mbrrune rl k m string c = mbrrune_loop rl k m None string c"

text \<open>The counters of \<open>mbmb\<close> are \<open>size_t\<close>; \<open>slen\<close> never exceeds the length of the string.\<close>

function mbmb_loop :: "RuneLocale \<Rightarrow> mem \<Rightarrow> rune \<Rightarrow> ptr \<Rightarrow> nat \<Rightarrow> ptr \<Rightarrow> nat \<Rightarrow> ptr option option" where
  "mbmb_loop rl m first pattern plen string slen =
     (if slen \<ge> plen then do {
        (r, result) \<leftarrow> sgetrune rl m string slen;
        (if r \<noteq> 0 then do {
           x \<leftarrow> (if r = first then strncmp m string pattern slen else Some 1);
           (if x = 0 then Some (Some string)
            else if result = string then
              (if string < length m then mbmb_loop rl m first pattern plen (string + 1) (slen - 1) else None)
            else mbmb_loop rl m first pattern plen result (slen - (result - string))) }
         else Some None) }
      else Some None)"
  by pat_completeness auto
termination
proof (relation "measure (\<lambda>(rl, m, first, pattern, plen, string, slen). length m + slen - string)", goal_cases)
  case (3 rl m first pattern plen string slen x r result x')
  then show ?case using sgetrune_advances [of rl m string slen r result] by (cases slen) auto
qed auto

definition mbmb :: "RuneLocale \<Rightarrow> mem \<Rightarrow> ptr \<Rightarrow> ptr \<Rightarrow> ptr option option" where
  "mbmb rl m string pattern = do {
     plen \<leftarrow> strlen m pattern;
     slen \<leftarrow> strlen m string;
     (if plen > slen then Some None
      else do {
        (first, result) \<leftarrow> sgetrune rl m pattern plen;
        (if result = string then Some None
         else mbmb_loop rl m first pattern plen string slen) }) }"

declare wcstombs_loop.simps [simp del] mbrune.simps [simp del] mbrrune_loop.simps [simp del] mbmb_loop.simps [simp del]

section \<open>What a codec promises\<close>

text \<open>
  A codec for the runes that satisfy \<open>ok\<close>: \<open>enc\<close> is the encoding, \<open>put\<close> writes it when there is room, \<open>get\<close>
  reads it back, and only the null rune is encoded with a zero byte.
\<close>

locale rune_codec =
  fixes rl :: RuneLocale and ok :: "rune \<Rightarrow> bool" and enc :: "rune \<Rightarrow> byte list"
  assumes enc_nonempty: "ok c \<Longrightarrow> enc c \<noteq> []"
    and put_room: "ok c \<Longrightarrow> length (enc c) \<le> n \<Longrightarrow> s + length (enc c) \<le> length m \<Longrightarrow>
      sputrune rl c m s n = Some (int (length (enc c)), put m s (enc c), Some (s + length (enc c)))"
    and put_short: "ok c \<Longrightarrow> n < length (enc c) \<Longrightarrow> sputrune rl c m s n = Some (int (length (enc c)), m, None)"
    and get_enc: "ok c \<Longrightarrow> length (enc c) \<le> n \<Longrightarrow> s + length (enc c) \<le> length m \<Longrightarrow>
      slice m s (length (enc c)) = enc c \<Longrightarrow> sgetrune rl m s n = Some (c, s + length (enc c))"
    and enc_no_zero: "ok c \<Longrightarrow> c \<noteq> 0 \<Longrightarrow> 0 \<notin> set (enc c)"
    and enc_zero: "ok 0 \<Longrightarrow> enc 0 = [0]"
    and ok_invalid: "ok c \<Longrightarrow> c \<noteq> invalid_rune rl"
begin

lemma roundtrip:
  assumes "ok c" "length (enc c) \<le> n" "s + length (enc c) \<le> length m"
  shows "\<exists>m'. sputrune rl c m s n = Some (int (length (enc c)), m', Some (s + length (enc c)))
    \<and> sgetrune rl m' s n = Some (c, s + length (enc c))"
  using assms put_room [OF assms] get_enc [of c n s "put m s (enc c)"] by (simp add: slice_put_same)

lemma mbstowcs_loop_enc:
  assumes ok_zero: "ok 0"
    and "list_all (\<lambda>c. ok c \<and> c \<noteq> 0 \<and> length (enc c) \<le> k) cs" "1 \<le> k"
    and "slice m s (length (concat (map enc cs) @ [0])) = concat (map enc cs) @ [0]"
    and "s + length (concat (map enc cs)) < length m" "p + length cs < length ws" "length cs < n"
  shows "mbstowcs_loop rl k m n ws p s cnt
    = Some (cnt + int (length cs), take p ws @ cs @ [0] @ drop (p + length cs + 1) ws)"
  using assms(2-)
proof (induction cs arbitrary: n ws p s cnt)
  case Nil
  then obtain n' where "n = Suc n'" by (cases n) auto
  moreover have "sgetrune rl m s k = Some (0, s + 1)"
    using get_enc [OF ok_zero, of k s m] Nil by (simp add: enc_zero [OF ok_zero])
  ultimately show ?case
    using Nil ok_invalid [OF ok_zero]
    by (simp add: wstore_def upd_conv_take_nth_drop)
next
  case (Cons c cs)
  then obtain n' where n: "n = Suc n'" by (cases n) auto
  let ?rest = "concat (map enc cs) @ [0]"
  have sl: "slice m s (length (enc c)) = enc c" "slice m (s + length (enc c)) (length ?rest) = ?rest"
    using slice_append [of m s "enc c" ?rest] Cons.prems by auto
  have "sgetrune rl m s k = Some (c, s + length (enc c))"
    using Cons.prems sl(1) by (intro get_enc) auto
  moreover have "mbstowcs_loop rl k m n' (ws[p := c]) (p + 1) (s + length (enc c)) (cnt + 1)
      = Some (cnt + 1 + int (length cs), take (p + 1) (ws[p := c]) @ cs @ [0] @ drop (p + 1 + length cs + 1) (ws[p := c]))"
    using Cons.prems n sl(2) by (intro Cons.IH) auto
  ultimately show ?case
    using Cons.prems n ok_invalid [of c] by (simp add: wstore_def take_Suc_conv_app_nth)
qed

lemma wcstombs_loop_enc:
  assumes "list_all (\<lambda>c. ok c \<and> c \<noteq> 0 \<and> length (enc c) \<le> n) cs" "1 \<le> n"
    and "p + length cs < length ws" "take (length cs) (drop p ws) = cs" "ws ! (p + length cs) = 0"
    and "s + length (concat (map enc cs)) < length m"
  shows "wcstombs_loop rl ws n m s p cnt
    = Some (cnt + int (length (concat (map enc cs))), put m s (concat (map enc cs) @ [0]))"
  using assms
proof (induction cs arbitrary: p s m cnt)
  case Nil
  then show ?case by (subst wcstombs_loop.simps) (simp add: put_Cons)
next
  case (Cons c cs)
  have ws: "ws ! p = c" "take (length cs) (drop (p + 1) ws) = cs"
    using Cons.prems Cons_nth_drop_Suc [of p ws, symmetric] by auto
  have "sputrune rl c m s n = Some (int (length (enc c)), put m s (enc c), Some (s + length (enc c)))"
    using Cons.prems by (intro put_room) auto
  moreover have "wcstombs_loop rl ws n (put m s (enc c)) (s + length (enc c)) (p + 1) (cnt + int (length (enc c)))
      = Some (cnt + int (length (enc c)) + int (length (concat (map enc cs))),
          put (put m s (enc c)) (s + length (enc c)) (concat (map enc cs) @ [0]))"
    using Cons.prems ws by (intro Cons.IH) auto
  ultimately show ?case
    using Cons.prems ws enc_nonempty [of c]
    by (subst wcstombs_loop.simps) (simp add: put_append [of s "enc c" "concat (map enc cs) @ [0]"])
qed

end

section \<open>The codecs keep the promise\<close>

definition byte_ok :: "RuneLocale \<Rightarrow> rune \<Rightarrow> bool" where
  "byte_ok rl c \<longleftrightarrow> 0 \<le> c \<and> c < 256 \<and> c \<noteq> invalid_rune rl"

interpretation none: rune_codec "fst (none_init rl)" "byte_ok rl" "\<lambda>c. [word_of_int c]" for rl
proof
  fix c n s and m :: mem
  assume "byte_ok rl c" "length [word_of_int c :: byte] \<le> n" "s + length [word_of_int c :: byte] \<le> length m"
  then show "sputrune (fst (none_init rl)) c m s n = Some (int (length [word_of_int c :: byte]), put m s [word_of_int c],
      Some (s + length [word_of_int c :: byte]))"
    by (simp add: sputrune_def none_init_def none_sputrune_def store_if_def addr_def put_Cons)
next
  fix c n s and m :: mem
  assume "byte_ok rl c" "length [word_of_int c :: byte] \<le> n" "s + length [word_of_int c :: byte] \<le> length m"
    "slice m s (length [word_of_int c :: byte]) = [word_of_int c]"
  then show "sgetrune (fst (none_init rl)) m s n = Some (c, s + length [word_of_int c :: byte])"
    by (simp add: sgetrune_def none_init_def none_sgetrune_def byte_ok_def slice_Suc uint_word_of_int take_bit_int_eq_self)
next
  fix c
  assume "byte_ok rl c" "c \<noteq> 0"
  then show "0 \<notin> set [word_of_int c :: byte]"
    using uint_word_of_int [of c, where ?'a = 8] by (auto simp: byte_ok_def take_bit_int_eq_self)
qed (simp_all add: byte_ok_def sputrune_def none_init_def none_sputrune_def)

definition utf2_ok :: "RuneLocale \<Rightarrow> rune \<Rightarrow> bool" where
  "utf2_ok rl c \<longleftrightarrow> 0 \<le> c \<and> c < 0x10000 \<and> c \<noteq> invalid_rune rl"

definition utf2_enc :: "rune \<Rightarrow> byte list" where
  "utf2_enc c =
     (if c < 0x80 then [word_of_int c]
      else if c < 0x800 then
        [0xC0 OR (word_of_int (drop_bit 6 c) AND 0x1F), 0x80 OR (word_of_int c AND 0x3F)]
      else
        [0xE0 OR (word_of_int (drop_bit 12 c) AND 0x0F), 0x80 OR (word_of_int (drop_bit 6 c) AND 0x3F),
         0x80 OR (word_of_int c AND 0x3F)])"

lemma rune_bits:
  fixes c :: rune
  assumes "0 \<le> c" "c < 0x10000"
  shows "c AND 0xF800 = 0 \<longleftrightarrow> c < 0x800" and "c < 0x800 \<Longrightarrow> c AND 0x0780 = 0 \<longleftrightarrow> c < 0x80"
proof -
  have lt: "c < 2 ^ k \<longleftrightarrow> (\<forall>i. bit c i \<longrightarrow> i < k)" for k
  proof -
    have "c < 2 ^ k \<longleftrightarrow> take_bit k c = c" using assms(1) by (simp add: take_bit_int_eq_self_iff)
    also have "\<dots> \<longleftrightarrow> (\<forall>i. bit c i \<longrightarrow> i < k)" by (auto simp: bit_eq_iff bit_simps)
    finally show ?thesis .
  qed
  have 16: "bit c i \<Longrightarrow> i < 16" for i using lt [of 16] assms(2) by simp
  have "bit (0xF800 :: int) i \<longleftrightarrow> 11 \<le> i \<and> i < 16" for i
  proof -
    have "(0xF800 :: int) = push_bit 11 (mask 5)" by (simp add: mask_numeral push_bit_eq_mult)
    then show ?thesis by (auto simp only: bit_push_bit_iff bit_mask_iff possible_bit_int)
  qed
  then have "c AND 0xF800 = 0 \<longleftrightarrow> c < 2 ^ 11" unfolding lt using 16 by (auto simp: bit_eq_iff bit_simps not_le)
  then show "c AND 0xF800 = 0 \<longleftrightarrow> c < 0x800" by simp
  have "bit (0x0780 :: int) i \<longleftrightarrow> 7 \<le> i \<and> i < 11" for i
  proof -
    have "(0x0780 :: int) = push_bit 7 (mask 4)" by (simp add: mask_numeral push_bit_eq_mult)
    then show ?thesis by (auto simp only: bit_push_bit_iff bit_mask_iff possible_bit_int)
  qed
  moreover have "c < 2 ^ 11 \<Longrightarrow> bit c i \<Longrightarrow> i < 11" for i using lt [of 11] by blast
  ultimately have "c < 2 ^ 11 \<Longrightarrow> c AND 0x0780 = 0 \<longleftrightarrow> c < 2 ^ 7" unfolding lt [of 7]
    by (auto simp: bit_eq_iff bit_simps not_le)
  then show "c < 0x800 \<Longrightarrow> c AND 0x0780 = 0 \<longleftrightarrow> c < 0x80" by simp
qed

lemma utf2_lead: fixes y :: byte
  shows "drop_bit 4 (0xC0 OR (y AND 0x1F)) AND 0xF = (0xC OR (drop_bit 4 y AND 1) :: byte)"
    "drop_bit 4 (0xE0 OR (y AND 0x0F)) AND 0xF = (0xE :: byte)"
    "(0xC0 OR (y AND 0x1F)) AND 0x1F = y AND 0x1F" "(0xE0 OR (y AND 0x0F)) AND 0x1F = y AND 0x0F"
    "(0x80 OR (y AND 0x3F)) AND 0xC0 = (0x80 :: byte)" "(0x80 OR (y AND 0x3F)) AND 0x3F = y AND 0x3F"
  by (simp_all add: bit.conj_disj_distrib2 and.assoc)

lemma uint_and_rune: "uint (word_of_int z AND w :: byte) = take_bit 8 z AND uint w"
  by (simp add: unsigned_and_eq uint_word_of_int take_bit_eq_mod)

lemma utf2_decode:
  fixes c :: rune
  assumes "0 \<le> c"
  shows "c < 0x800 \<Longrightarrow> push_bit 6 (uint (word_of_int (drop_bit 6 c) AND 0x1F :: byte)) OR uint (word_of_int c AND 0x3F :: byte) = c"
    and "c < 0x10000 \<Longrightarrow> push_bit 12 (uint (word_of_int (drop_bit 12 c) AND 0x0F :: byte))
      OR push_bit 6 (uint (word_of_int (drop_bit 6 c) AND 0x3F :: byte)) OR uint (word_of_int c AND 0x3F :: byte) = c"
proof -
  have m: "(0x1F :: int) = mask 5" "(0x3F :: int) = mask 6" "(0x0F :: int) = mask 4" by (simp_all add: mask_numeral)
  have b: "bit c i \<Longrightarrow> i < k" if "c < 2 ^ k" for i k
    using that assms by (metis bit_take_bit_iff take_bit_int_eq_self)
  show "push_bit 6 (uint (word_of_int (drop_bit 6 c) AND 0x1F :: byte)) OR uint (word_of_int c AND 0x3F :: byte) = c"
    if "c < 0x800"
    using that unfolding uint_and_rune by (intro bit_eqI) (auto simp: bit_simps m dest: b [of 11, rotated])
  show "push_bit 12 (uint (word_of_int (drop_bit 12 c) AND 0x0F :: byte))
      OR push_bit 6 (uint (word_of_int (drop_bit 6 c) AND 0x3F :: byte)) OR uint (word_of_int c AND 0x3F :: byte) = c"
    if "c < 0x10000"
  proof (rule bit_eqI)
    fix n
    show "bit (push_bit 12 (uint (word_of_int (drop_bit 12 c) AND 0x0F :: byte))
      OR push_bit 6 (uint (word_of_int (drop_bit 6 c) AND 0x3F :: byte)) OR uint (word_of_int c AND 0x3F :: byte)) n = bit c n"
      unfolding uint_and_rune using that
      by (cases "12 \<le> n") (auto simp: bit_simps m dest: b [of 16, rotated])
  qed
qed

lemma length_utf2_enc: "length (utf2_enc c) = (if c < 0x80 then 1 else if c < 0x800 then 2 else 3)"
  by (simp add: utf2_enc_def)

lemma utf2_put:
  assumes "utf2_ok rl c" "length (utf2_enc c) \<le> n" "s + length (utf2_enc c) \<le> length m"
  shows "UTF2_sputrune c m (Some s) n
    = Some (int (length (utf2_enc c)), put m s (utf2_enc c), Some (s + length (utf2_enc c)))"
proof -
  have c: "0 \<le> c" "c < 0x10000" using assms(1) by (auto simp: utf2_ok_def)
  show ?thesis
    using assms(2,3) c rune_bits [OF c]
    by (auto simp: UTF2_sputrune_def utf2_enc_def store_if_def addr_def put_Cons of_int_or_eq of_int_and_eq
        numeral_2_eq_2 numeral_3_eq_3)
qed

lemma utf_count_ascii: "i < 8 \<Longrightarrow> utf_count ! i = 1"
  by (auto simp: utf_count_def nth_Cons')

lemma utf2_get:
  assumes "utf2_ok rl c" "length (utf2_enc c) \<le> n" "s + length (utf2_enc c) \<le> length m"
    "slice m s (length (utf2_enc c)) = utf2_enc c"
  shows "UTF2_sgetrune i m s n = Some (c, s + length (utf2_enc c))"
proof -
  have c: "0 \<le> c" "c < 0x10000" using assms(1) by (auto simp: utf2_ok_def)
  consider "c < 0x80" | "0x80 \<le> c" "c < 0x800" | "0x800 \<le> c" by linarith
  then show ?thesis
  proof cases
    case 1
    have "uint (word_of_int c :: byte) = c" using 1 c by (simp add: uint_word_of_int take_bit_int_eq_self)
    then have "unat (drop_bit 4 (word_of_int c :: byte)) < 8"
      using 1 c unat_eq_nat_uint [of "word_of_int c :: byte"] by (simp add: unat_drop_bit)
    then have "unat (drop_bit 4 (word_of_int c :: byte) AND 0xF) < 8"
      using word_and_le2 [of "drop_bit 4 (word_of_int c :: byte)" "0xF"] unfolding word_le_nat_alt by linarith
    then have "utf_count ! unat (drop_bit 4 (word_of_int c :: byte) AND 0xF) = 1" by (rule utf_count_ascii)
    then show ?thesis
      using 1 c assms by (simp add: UTF2_sgetrune_def utf2_enc_def slice_Suc uint_word_of_int take_bit_int_eq_self)
  next
    case 2
    then have m: "m ! s = 0xC0 OR (word_of_int (drop_bit 6 c) AND 0x1F)" "m ! (s + 1) = 0x80 OR (word_of_int c AND 0x3F)"
        "s + 1 < length m" "2 \<le> n"
      using assms by (simp_all add: utf2_enc_def slice_Suc numeral_2_eq_2)
    have "utf_count ! unat (0xC OR (drop_bit 4 y AND 1) :: byte) = 2" for y :: byte
      by (cases "even (drop_bit 4 y)") (simp_all add: and_one_eq mod_2_eq_odd utf_count_def)
    then have "utf_count ! unat (drop_bit 4 (m ! s) AND 0xF) = 2"
      unfolding m(1) utf2_lead .
    moreover have "m ! s AND 0x1F = word_of_int (drop_bit 6 c) AND 0x1F" "m ! (s + 1) AND 0x3F = word_of_int c AND 0x3F"
        "m ! (s + 1) AND 0xC0 = 0x80"
      unfolding m(1,2) by (rule utf2_lead)+
    ultimately show ?thesis
      using 2 m(3,4) utf2_decode(1) [OF c(1) 2(2)]
      by (simp add: UTF2_sgetrune_def Let_def length_utf2_enc)
  next
    case 3
    then have m: "m ! s = 0xE0 OR (word_of_int (drop_bit 12 c) AND 0x0F)"
        "m ! (s + 1) = 0x80 OR (word_of_int (drop_bit 6 c) AND 0x3F)" "m ! (s + 2) = 0x80 OR (word_of_int c AND 0x3F)"
        "s + 2 < length m" "3 \<le> n"
      using assms by (simp_all add: utf2_enc_def slice_Suc numeral_3_eq_3 numeral_2_eq_2)
    then show ?thesis
      using 3 utf2_decode(2) [OF c]
      by (simp add: UTF2_sgetrune_def Let_def utf2_lead length_utf2_enc utf_count_def)
  qed
qed

lemma utf2_no_zero:
  assumes "utf2_ok rl c" "c \<noteq> 0"
  shows "0 \<notin> set (utf2_enc c)"
proof -
  have c: "0 \<le> c" "c < 0x10000" using assms(1) by (auto simp: utf2_ok_def)
  have nz: "0x80 OR y \<noteq> (0 :: byte)" "0xC0 OR y \<noteq> (0 :: byte)" "0xE0 OR y \<noteq> (0 :: byte)" for y :: byte
    by (simp_all add: or_eq_0_iff)
  have "word_of_int c \<noteq> (0 :: byte)" if "c < 0x80"
    using that c assms(2) uint_word_of_int [of c, where ?'a = 8] by (auto simp: take_bit_int_eq_self)
  then show ?thesis
    using nz by (auto simp: utf2_enc_def dest: sym)
qed

interpretation utf2: rune_codec "fst (UTF2_init rl)" "utf2_ok rl" utf2_enc for rl
proof
  fix c n s and m :: mem
  assume "utf2_ok rl c" "length (utf2_enc c) \<le> n" "s + length (utf2_enc c) \<le> length m"
  then show "sputrune (fst (UTF2_init rl)) c m s n =
      Some (int (length (utf2_enc c)), put m s (utf2_enc c), Some (s + length (utf2_enc c)))"
    by (simp add: sputrune_def UTF2_init_def utf2_put)
next
  fix c n s and m :: mem
  assume "utf2_ok rl c" "length (utf2_enc c) \<le> n" "s + length (utf2_enc c) \<le> length m"
    "slice m s (length (utf2_enc c)) = utf2_enc c"
  then show "sgetrune (fst (UTF2_init rl)) m s n = Some (c, s + length (utf2_enc c))"
    by (simp add: sgetrune_def UTF2_init_def utf2_get)
next
  fix c n s and m :: mem
  assume c: "utf2_ok rl c" and "n < length (utf2_enc c)"
  then show "sputrune (fst (UTF2_init rl)) c m s n = Some (int (length (utf2_enc c)), m, None)"
    using rune_bits [of c]
    by (auto simp: sputrune_def UTF2_init_def UTF2_sputrune_def utf2_ok_def length_utf2_enc split: if_splits)
qed (auto simp: utf2_no_zero, auto simp: utf2_enc_def utf2_ok_def UTF2_init_def split: if_splits)

section \<open>The search for a string\<close>

lemma sgetrune_C:
  "sgetrune DefaultRuneLocale m p 0 = Some (0xFFFD, p)"
  "p < length m \<Longrightarrow> sgetrune DefaultRuneLocale m p (Suc n) = Some (uint (m ! p), p + 1)"
  by (simp_all add: sgetrune_def DefaultRuneLocale_def none_sgetrune_def)

definition first_rune :: "byte list \<Rightarrow> rune" where
  "first_rune t = (case t of [] \<Rightarrow> 0xFFFD | b # _ \<Rightarrow> uint b)"

lemma first_rune_eq: "uint (b :: byte) = first_rune t \<longleftrightarrow> (\<exists>t'. t = b # t')"
  using unsigned_less [of b, where ?'a = int] by (auto simp: first_rune_def word_uint_eq_iff split: list.splits)

lemma mbmb_loop_C:
  assumes t: "cstr m q t"
  shows "cstr m p s \<Longrightarrow> mbmb_loop DefaultRuneLocale m (first_rune t) q (length t) p (length s)
    = Some (if suffix t s then Some (p + length s - length t) else None)"
proof (induction s arbitrary: p)
  case Nil
  then show ?case
    by (subst mbmb_loop.simps) (auto simp: sgetrune_C first_rune_def)
next
  case (Cons b s)
  have b: "p < length m" "m ! p = b" "b \<noteq> 0" "cstr m (p + 1) s" using Cons.prems by (auto simp: cstr_Cons)
  have b0: "uint b \<noteq> 0" using b(3) by (simp add: uint_0_iff)
  have IH: "mbmb_loop DefaultRuneLocale m (first_rune t) q (length t) (p + 1) (length s)
      = Some (if suffix t s then Some (p + 1 + length s - length t) else None)"
    using Cons.IH b(4) by blast
  show ?case
  proof (cases "length t \<le> Suc (length s)")
    case False
    then show ?thesis by (subst mbmb_loop.simps) (auto dest: suffix_length_le)
  next
    case True
    have cmp: "\<exists>x. strncmp m p q (Suc (length s)) = Some x \<and> (x = 0 \<longleftrightarrow> b # s = t)"
      using strncmp_spec [OF Cons.prems t, of "Suc (length s)"] True
        str_order_eq_0 [of "b # s" t] Cons.prems t by (simp add: cstr_def)
    show ?thesis
    proof (cases "b # s = t")
      case eq: True
      then show ?thesis
        using b b0 cmp first_rune_eq [of b t] by (subst mbmb_loop.simps) (auto simp: sgetrune_C simp del: strncmp.simps)
    next
      case neq: False
      then have "mbmb_loop DefaultRuneLocale m (first_rune t) q (length t) p (length (b # s))
          = mbmb_loop DefaultRuneLocale m (first_rune t) q (length t) (p + 1) (length s)"
        using b b0 cmp True by (subst mbmb_loop.simps) (auto simp: sgetrune_C simp del: strncmp.simps)
      then show ?thesis using IH neq by (auto simp: suffix_Cons)
    qed
  qed
qed

section \<open>Properties\<close>

text \<open>UTF2 encodes and decodes every rune below \<open>0x10000\<close>: with room for the one, two or three bytes of its encoding, what
  \<open>_UTF2_sputrune\<close> writes is read back by \<open>_UTF2_sgetrune\<close>, the pointers agree, and without room nothing is written.\<close>

theorem utf2_roundtrip:
  assumes "0 \<le> c" "c < 0x10000" "c \<noteq> invalid_rune rl" "s + 3 \<le> length m"
  shows "let rl' = fst (UTF2_init rl); k = length (utf2_enc c) in
    (k \<le> n \<longrightarrow> (\<exists>m'. sputrune rl' c m s n = Some (int k, m', Some (s + k)) \<and> sgetrune rl' m' s n = Some (c, s + k)))
    \<and> (n < k \<longrightarrow> sputrune rl' c m s n = Some (int k, m, None))"
proof -
  have "utf2_ok rl c" using assms by (simp add: utf2_ok_def)
  then show ?thesis
    using assms(4) utf2.roundtrip [of rl c n s m] utf2.put_short [of rl c n m s]
    by (auto simp: Let_def length_utf2_enc)
qed

theorem utf2_roundtrip_witness:
  "\<exists>m'. sputrune (fst (UTF2_init DefaultRuneLocale)) 0x20AC [0, 0, 0, 0] 0 3 = Some (3, m', Some 3)
    \<and> sgetrune (fst (UTF2_init DefaultRuneLocale)) m' 0 3 = Some (0x20AC, 3)"
  using utf2_roundtrip [of "0x20AC" DefaultRuneLocale 0 "[0, 0, 0, 0]" 3]
  by (simp add: Let_def length_utf2_enc DefaultRuneLocale_def)



text \<open>\<open>wcstombs\<close> does not count down \<open>n\<close>: with \<open>n\<close> of 3 it writes the whole encoding, here five bytes.\<close>

theorem wcstombs_overruns:
  "wcstombs (fst (UTF2_init DefaultRuneLocale)) [9, 9, 9, 9, 9, 9] (Some 0) [97, 98, 99, 100, 0] (Some 0) 3
   = Some (4, [97, 98, 99, 100, 0, 9])"
proof -
  have "list_all (\<lambda>c. utf2_ok DefaultRuneLocale c \<and> c \<noteq> 0 \<and> length (utf2_enc c) \<le> 3) [97, 98, 99, 100]"
    by (simp add: utf2_ok_def DefaultRuneLocale_def length_utf2_enc)
  from utf2.wcstombs_loop_enc [OF this, of 0 "[97, 98, 99, 100, 0]" 0 "[9, 9, 9, 9, 9, 9]" 0] show ?thesis
    by (simp add: wcstombs_def utf2_enc_def put_def)
qed

text \<open>In the C locale \<open>mbmb\<close> finds the pattern only where the string ends with it, because it compares as many bytes as the rest of
  the string has instead of as many as the pattern has.\<close>

theorem mbmb_finds_suffix_only:
  assumes "cstr m p s" "cstr m q t" "q + 1 \<noteq> p" "q \<noteq> p"
  shows "mbmb DefaultRuneLocale m p q = Some (if suffix t s then Some (p + length s - length t) else None)"
proof (cases "length s < length t")
  case True
  then show ?thesis
    using assms by (auto simp: mbmb_def strlen_spec [OF assms(1)] strlen_spec [OF assms(2)] dest: suffix_length_le)
next
  case False
  have "\<exists>e. sgetrune DefaultRuneLocale m q (length t) = Some (first_rune t, e) \<and> e \<noteq> p"
    using assms by (cases t) (auto simp: sgetrune_C first_rune_def cstr_Cons)
  then show ?thesis
    using False assms mbmb_loop_C [OF assms(2,1)]
    by (auto simp: mbmb_def strlen_spec [OF assms(1)] strlen_spec [OF assms(2)])
qed

theorem mbmb_finds_suffix_only_witness:
  "mbmb DefaultRuneLocale [97, 98, 99, 0, 97, 98, 0] 0 4 = Some None"
  using mbmb_finds_suffix_only [of "[97, 98, 99, 0, 97, 98, 0]" 0 "[97, 98, 99]" 4 "[97, 98]"]
  by (simp add: cstr_def slice_def suffix_Cons)

end
