(* ===== verification/Xchg.thy ===== *)
theory Xchg
  imports CMem
begin

text \<open>
  The loops that exchange and copy the elements of an array, byte by byte or word by word, in
  \<open>lib/libc/stdlib/qsort.c\<close> and \<open>lib/libc/stdlib/heapsort.c\<close>, on the byte memory. Each is shown to be one
  update of the memory, and seen on the array of elements it is an exchange or an assignment of two
  elements. The sorting routines are modelled on the array of elements.
\<close>

section \<open>Definitions\<close>

subsection \<open>Exchanging elements\<close>

text \<open>\<open>swapcode\<close> for words and for bytes: a loop that runs at least once.\<close>

function swapcode_long :: "mem \<Rightarrow> ptr \<Rightarrow> ptr \<Rightarrow> int \<Rightarrow> mem option" where
  "swapcode_long m pi pj i = do {
     t \<leftarrow> load32 m pi; u \<leftarrow> load32 m pj;
     m \<leftarrow> store32 m pi u; m \<leftarrow> store32 m pj t;
     (if i - 1 > 0 then swapcode_long m (pi + 4) (pj + 4) (i - 1) else Some m) }"
  by pat_completeness auto
termination by (relation "measure (\<lambda>(m, pi, pj, i). nat i)") auto

function swapcode_char :: "mem \<Rightarrow> ptr \<Rightarrow> ptr \<Rightarrow> int \<Rightarrow> mem option" where
  "swapcode_char m pi pj i = do {
     t \<leftarrow> load m pi; u \<leftarrow> load m pj;
     m \<leftarrow> store m pi u; m \<leftarrow> store m pj t;
     (if i - 1 > 0 then swapcode_char m (pi + 1) (pj + 1) (i - 1) else Some m) }"
  by pat_completeness auto
termination by (relation "measure (\<lambda>(m, pi, pj, i). nat i)") auto

definition SWAPINIT :: "ptr \<Rightarrow> nat \<Rightarrow> int" where
  "SWAPINIT a es = (if a mod 4 \<noteq> 0 \<or> es mod 4 \<noteq> 0 then 2 else if es = 4 then 0 else 1)"

definition swapfunc :: "mem \<Rightarrow> ptr \<Rightarrow> ptr \<Rightarrow> nat \<Rightarrow> int \<Rightarrow> mem option" where
  "swapfunc m a b n swaptype =
     (if swaptype \<le> 1 then swapcode_long m a b (int n div 4) else swapcode_char m a b (int n))"

definition swap_bytes :: "mem \<Rightarrow> ptr \<Rightarrow> ptr \<Rightarrow> nat \<Rightarrow> int \<Rightarrow> mem option" where
  "swap_bytes m a b es swaptype =
     (if swaptype = 0 then do {
        t \<leftarrow> load32 m a; u \<leftarrow> load32 m b; m \<leftarrow> store32 m a u; store32 m b t }
      else swapfunc m a b es swaptype)"

definition vecswap_bytes :: "mem \<Rightarrow> ptr \<Rightarrow> ptr \<Rightarrow> nat \<Rightarrow> int \<Rightarrow> mem option" where
  "vecswap_bytes m a b n swaptype = (if n > 0 then swapfunc m a b n swaptype else Some m)"

subsection \<open>The macros of heapsort\<close>

text \<open>The counters run down to zero: with a size of zero the loop would wrap around, so the callers reject it.\<close>

fun SWAP :: "mem \<Rightarrow> ptr \<Rightarrow> ptr \<Rightarrow> nat \<Rightarrow> mem option" where
  "SWAP m a b 0 = None"
| "SWAP m a b (Suc count) = do {
     tmp \<leftarrow> load m a; u \<leftarrow> load m b; m \<leftarrow> store m a u; m \<leftarrow> store m b tmp;
     (if count = 0 then Some m else SWAP m (a + 1) (b + 1) count) }"

fun COPY :: "mem \<Rightarrow> ptr \<Rightarrow> ptr \<Rightarrow> nat \<Rightarrow> mem option" where
  "COPY m a b 0 = None"
| "COPY m a b (Suc count) = do {
     u \<leftarrow> load m b; m \<leftarrow> store m a u;
     (if count = 0 then Some m else COPY m (a + 1) (b + 1) count) }"

section \<open>One exchange\<close>

declare swapcode_long.simps [simp del] swapcode_char.simps [simp del]

definition xchg :: "mem \<Rightarrow> ptr \<Rightarrow> ptr \<Rightarrow> nat \<Rightarrow> mem" where
  "xchg m p q n = put (put m p (slice m q n)) q (slice m p n)"

definition apart :: "ptr \<Rightarrow> ptr \<Rightarrow> nat \<Rightarrow> bool" where
  "apart p q n \<longleftrightarrow> p + n \<le> q \<or> q + n \<le> p \<or> p = q"

lemma length_xchg [simp]: "p + n \<le> length m \<Longrightarrow> q + n \<le> length m \<Longrightarrow> length (xchg m p q n) = length m"
  by (simp add: xchg_def)

lemma nth_xchg:
  assumes "apart p q n" "p + n \<le> length m" "q + n \<le> length m"
  shows "xchg m p q n ! k =
    (if p \<le> k \<and> k < p + n then m ! (q + (k - p)) else if q \<le> k \<and> k < q + n then m ! (p + (k - q)) else m ! k)"
  using assms by (auto simp: xchg_def nth_put nth_slice apart_def)

lemma xchg_sym: "apart p q n \<Longrightarrow> p + n \<le> length m \<Longrightarrow> q + n \<le> length m \<Longrightarrow> xchg m q p n = xchg m p q n"
  by (rule nth_equalityI) (auto simp: nth_xchg apart_def)

lemma xchg_self [simp]: "p + n \<le> length m \<Longrightarrow> xchg m p p n = m"
  by (rule nth_equalityI) (auto simp: nth_xchg apart_def)

lemma xchg_add_before:
  assumes "p + (k + n) \<le> q" "q + (k + n) \<le> length m"
  shows "xchg (xchg m p q k) (p + k) (q + k) n = xchg m p q (k + n)"
proof (rule nth_equalityI)
  have a: "apart p q k" "apart (p + k) (q + k) n" "apart p q (k + n)" using assms(1) by (auto simp: apart_def)
  have l: "p + k \<le> length m" "q + k \<le> length m" "p + k + n \<le> length (xchg m p q k)" "q + k + n \<le> length (xchg m p q k)"
      "p + (k + n) \<le> length m" using assms by auto
  fix i
  consider "i < p" | "p \<le> i" "i < p + k" | "p + k \<le> i" "i < p + (k + n)" | "p + (k + n) \<le> i" "i < q"
    | "q \<le> i" "i < q + k" | "q + k \<le> i" "i < q + (k + n)" | "q + (k + n) \<le> i" by linarith
  then show "xchg (xchg m p q k) (p + k) (q + k) n ! i = xchg m p q (k + n) ! i"
    unfolding nth_xchg [OF a(2) l(3,4)] nth_xchg [OF a(1) l(1,2)] nth_xchg [OF a(3) l(5) assms(2)]
    using assms(1) by cases auto
qed (use assms in simp)

lemma xchg_add:
  assumes "apart p q (k + n)" "p + (k + n) \<le> length m" "q + (k + n) \<le> length m"
  shows "xchg (xchg m p q k) (p + k) (q + k) n = xchg m p q (k + n)"
proof -
  have a: "apart p q k" "apart (p + k) (q + k) n" using assms(1) by (auto simp: apart_def)
  consider "p + (k + n) \<le> q" | "q + (k + n) \<le> p" | "p = q" using assms(1) by (auto simp: apart_def)
  then show ?thesis
  proof cases
    case 2
    then have "xchg (xchg m q p k) (q + k) (p + k) n = xchg m q p (k + n)" using assms by (intro xchg_add_before)
    then show ?thesis using assms xchg_sym [OF a(1)] xchg_sym [OF a(2)] xchg_sym [OF assms(1)] by simp
  qed (use assms xchg_add_before in auto)
qed

lemma xchg_1:
  assumes "p < length m" "q < length m"
  shows "xchg m p q 1 = m[p := m ! q, q := m ! p]"
proof (rule nth_equalityI)
  have "apart p q 1" by (auto simp: apart_def)
  then show "xchg m p q 1 ! i = m[p := m ! q, q := m ! p] ! i" if "i < length (xchg m p q 1)" for i
    using assms that by (subst nth_xchg) (auto simp: nth_list_update)
qed (use assms in simp)

section \<open>The loops\<close>

lemma load32_Some:
  assumes "p + 4 \<le> length m"
  obtains w where "load32 m p = Some w"
    "\<And>m' q. q + 4 \<le> length m' \<Longrightarrow> store32 m' q w = Some (put m' q (slice m p 4))"
proof -
  let ?w = "ucast (m ! p) OR push_bit 8 (ucast (m ! (p + 1))) OR push_bit 16 (ucast (m ! (p + 2)))
    OR push_bit 24 (ucast (m ! (p + 3))) :: u_int"
  have "slice m p 4 = [m ! p, m ! (p + 1), m ! (p + 2), m ! (p + 3)]"
    using assms by (simp add: numeral_eq_Suc slice_Suc)
  then have "store32 m' q ?w = Some (put m' q (slice m p 4))" if "q + 4 \<le> length m'" for m' q
    using that by (simp only: store32_def bytes_of_word) (simp add: put_Cons numeral_eq_Suc)
  note st = this
  have "load32 m p = Some ?w" using assms by (simp add: load32_def)
  from that [OF this st] show ?thesis .
qed

lemma swap_word:
  assumes "p + 4 \<le> length m" "q + 4 \<le> length m"
  shows "do { t \<leftarrow> load32 m p; u \<leftarrow> load32 m q; m \<leftarrow> store32 m p u; store32 m q t } = Some (xchg m p q 4)"
proof -
  obtain t where t: "load32 m p = Some t"
    "\<And>m' q. q + 4 \<le> length m' \<Longrightarrow> store32 m' q t = Some (put m' q (slice m p 4))" using assms load32_Some by metis
  obtain u where u: "load32 m q = Some u"
    "\<And>m' p. p + 4 \<le> length m' \<Longrightarrow> store32 m' p u = Some (put m' p (slice m q 4))" using assms load32_Some by metis
  have "length (put m p (slice m q 4)) = length m" using assms by simp
  then show ?thesis using assms by (simp add: t u xchg_def)
qed

lemma swapcode_char_spec:
  "apart p q (Suc n) \<Longrightarrow> p + Suc n \<le> length m \<Longrightarrow> q + Suc n \<le> length m \<Longrightarrow>
   swapcode_char m p q (int (Suc n)) = Some (xchg m p q (Suc n))"
proof (induction n arbitrary: m p q)
  case 0
  then show ?case using xchg_1 [of p m q] by (subst swapcode_char.simps) simp
next
  case (Suc n)
  let ?m = "xchg m p q 1"
  have "swapcode_char m p q (int (Suc (Suc n))) = swapcode_char ?m (p + 1) (q + 1) (int (Suc n))"
    using Suc.prems xchg_1 [of p m q] by (subst swapcode_char.simps) simp
  also have "\<dots> = Some (xchg ?m (p + 1) (q + 1) (Suc n))"
    using Suc.prems by (intro Suc.IH) (auto simp: apart_def)
  also have "xchg ?m (p + 1) (q + 1) (Suc n) = xchg m p q (1 + Suc n)"
    using Suc.prems by (intro xchg_add) auto
  finally show ?case by simp
qed

lemma swapcode_long_spec:
  "apart p q (4 * Suc n) \<Longrightarrow> p + 4 * Suc n \<le> length m \<Longrightarrow> q + 4 * Suc n \<le> length m \<Longrightarrow>
   swapcode_long m p q (int (Suc n)) = Some (xchg m p q (4 * Suc n))"
proof (induction n arbitrary: m p q)
  case 0
  then show ?case using swap_word [of p m q] by (subst swapcode_long.simps) simp
next
  case (Suc n)
  let ?m = "xchg m p q 4"
  have "swapcode_long m p q (int (Suc (Suc n))) =
      Option.bind (do { t \<leftarrow> load32 m p; u \<leftarrow> load32 m q; m \<leftarrow> store32 m p u; store32 m q t })
        (\<lambda>m. swapcode_long m (p + 4) (q + 4) (int (Suc n)))"
    by (subst swapcode_long.simps) (simp add: Option.bind_assoc)
  also have "\<dots> = swapcode_long ?m (p + 4) (q + 4) (int (Suc n))"
    using Suc.prems by (subst swap_word) auto
  also have "\<dots> = Some (xchg ?m (p + 4) (q + 4) (4 * Suc n))"
    using Suc.prems by (intro Suc.IH) (auto simp: apart_def)
  also have "xchg ?m (p + 4) (q + 4) (4 * Suc n) = xchg m p q (4 + 4 * Suc n)"
    using Suc.prems by (intro xchg_add) auto
  finally show ?case by simp
qed

lemma swapfunc_spec:
  assumes "apart p q n" "p + n \<le> length m" "q + n \<le> length m" "0 < n" "swaptype \<le> 1 \<longrightarrow> 4 dvd n"
  shows "swapfunc m p q n swaptype = Some (xchg m p q n)"
proof (cases "swaptype \<le> 1")
  case True
  then obtain j where "n = 4 * j" using assms(5) by (auto elim!: dvdE)
  then obtain k where "n = 4 * Suc k" using assms(4) by (cases j) auto
  then show ?thesis using True assms swapcode_long_spec [of p q k m] by (simp add: swapfunc_def)
next
  case False
  then obtain k where "n = Suc k" using assms(4) by (cases n) auto
  then show ?thesis using False assms swapcode_char_spec [of p q k m] by (simp add: swapfunc_def)
qed

lemma SWAP_spec:
  "apart p q (Suc n) \<Longrightarrow> p + Suc n \<le> length m \<Longrightarrow> q + Suc n \<le> length m \<Longrightarrow>
   SWAP m p q (Suc n) = Some (xchg m p q (Suc n))"
proof (induction n arbitrary: m p q)
  case 0
  then show ?case using xchg_1 [of p m q] by simp
next
  case (Suc n)
  let ?m = "xchg m p q 1"
  have "SWAP m p q (Suc (Suc n)) = SWAP ?m (p + 1) (q + 1) (Suc n)"
    using Suc.prems xchg_1 [of p m q] by simp
  also have "\<dots> = Some (xchg ?m (p + 1) (q + 1) (Suc n))"
    using Suc.prems by (intro Suc.IH) (auto simp: apart_def)
  also have "xchg ?m (p + 1) (q + 1) (Suc n) = xchg m p q (1 + Suc n)"
    using Suc.prems by (intro xchg_add) auto
  finally show ?case by simp
qed

lemma COPY_spec:
  "apart p q (Suc n) \<Longrightarrow> p + Suc n \<le> length m \<Longrightarrow> q + Suc n \<le> length m \<Longrightarrow>
   COPY m p q (Suc n) = Some (put m p (slice m q (Suc n)))"
proof (induction n arbitrary: m p q)
  case 0
  then show ?case by (simp add: slice_Suc put_Cons)
next
  case (Suc n)
  have "slice (m[p := m ! q]) (q + 1) (Suc n) = slice m (q + 1) (Suc n)"
    using Suc.prems by (intro nth_equalityI) (auto simp: nth_slice apart_def nth_list_update)
  moreover have "COPY (m[p := m ! q]) (p + 1) (q + 1) (Suc n) =
      Some (put (m[p := m ! q]) (p + 1) (slice (m[p := m ! q]) (q + 1) (Suc n)))"
    using Suc.prems by (intro Suc.IH) (auto simp: apart_def)
  moreover have "put m p (slice m q (Suc (Suc n))) = put (m[p := m ! q]) (p + 1) (slice m (q + 1) (Suc n))"
    using Suc.prems by (subst slice_Suc) (simp, subst put_Cons, auto)
  ultimately show ?case using Suc.prems by (subst COPY.simps) (simp del: COPY.simps)
qed

section \<open>The array of elements\<close>

definition elem :: "mem \<Rightarrow> ptr \<Rightarrow> nat \<Rightarrow> nat \<Rightarrow> byte list" where
  "elem m base es i = slice m (base + i * es) es"

definition elems :: "mem \<Rightarrow> ptr \<Rightarrow> nat \<Rightarrow> nat \<Rightarrow> byte list list" where
  "elems m base es n = map (elem m base es) [0..<n]"

lemma elem_bound: "i < n \<Longrightarrow> base + n * es \<le> length m \<Longrightarrow> base + i * es + es \<le> length (m :: mem)"
  using mult_le_mono1 [of "Suc i" n es] by simp

lemma length_elem [simp]: "base + i * es + es \<le> length m \<Longrightarrow> length (elem m base es i) = es"
  by (simp add: elem_def)

lemma elem_apart: "apart (base + i * es) (base + j * es) es"
proof -
  have "i * es + es \<le> j * es" if "i < j" for i j using mult_le_mono1 [of "Suc i" j es] that by simp
  then show ?thesis unfolding apart_def by (cases i j rule: linorder_cases) auto
qed

lemma elem_put:
  assumes "base + i * es + es \<le> length m" "base + j * es + es \<le> length m" "length bs = es"
  shows "elem (put m (base + i * es) bs) base es j = (if j = i then bs else elem m base es j)"
proof (cases "j = i")
  case True
  then show ?thesis using assms unfolding elem_def by (intro nth_equalityI) (auto simp: nth_slice nth_put)
next
  case False
  show ?thesis
  proof (rule nth_equalityI)
    show "length (elem (put m (base + i * es) bs) base es j) = length (if j = i then bs else elem m base es j)"
      using assms False by (simp add: elem_def)
    fix k assume "k < length (elem (put m (base + i * es) bs) base es j)"
    then have k: "k < es" using assms by (simp add: elem_def)
    then have "\<not> (base + i * es \<le> base + j * es + k \<and> base + j * es + k < base + i * es + es)"
      using elem_apart [of base i es j] False unfolding apart_def by auto
    then show "elem (put m (base + i * es) bs) base es j ! k = (if j = i then bs else elem m base es j) ! k"
      using assms k False by (auto simp: elem_def nth_slice nth_put)
  qed
qed

lemma nth_elems [simp]: "i < n \<Longrightarrow> elems m base es n ! i = elem m base es i"
  by (simp add: elems_def)

lemma length_elems [simp]: "length (elems m base es n) = n"
  by (simp add: elems_def)

lemma elems_put:
  assumes "base + n * es \<le> length m" "i < n" "length bs = es"
  shows "elems (put m (base + i * es) bs) base es n = (elems m base es n)[i := bs]"
  using assms by (intro nth_equalityI) (auto simp: elem_put elem_bound nth_list_update)

lemma elems_xchg:
  assumes "base + n * es \<le> length m" "i < n" "j < n"
  shows "elems (xchg m (base + i * es) (base + j * es) es) base es n =
    (elems m base es n)[i := elem m base es j, j := elem m base es i]"
  using assms elem_bound [OF assms(2,1)] elem_bound [OF assms(3,1)]
  unfolding xchg_def by (simp add: elems_put elem_def [symmetric])

end
