(* ===== verification/Sort.thy ===== *)
theory Sort
  imports Strings Quad Xchg "HOL-Library.Multiset"
begin

text \<open>
  Sorting and searching of \<open>lib/libc/stdlib\<close>: \<open>qsort.c\<close> (the quicksort of Bentley and McIlroy) and
  \<open>bsearch.c\<close>. The array is a list of elements and a pointer is an index, in units of the element size
  \<open>es\<close>; the byte loops that exchange two elements are modelled on the byte memory and shown to be
  an exchange. The comparison function is an argument; a locale states what makes it an order.
\<close>

section \<open>Definitions\<close>

subsection \<open>Exchanging elements\<close>

text \<open>The exchanges on the array of elements; theory \<open>Xchg\<close> has the loops over bytes that perform them.\<close>

definition swap :: "'a list \<Rightarrow> nat \<Rightarrow> nat \<Rightarrow> 'a list" where
  "swap arr p q = (let t = arr ! p in (arr[p := arr ! q])[q := t])"

fun vecswap :: "'a list \<Rightarrow> nat \<Rightarrow> nat \<Rightarrow> nat \<Rightarrow> 'a list" where
  "vecswap xs i j 0 = xs"
| "vecswap xs i j (Suc n) = vecswap (swap xs i j) (i + 1) (j + 1) n"

subsection \<open>Quicksort\<close>

definition med3 :: "('a \<Rightarrow> 'a \<Rightarrow> int) \<Rightarrow> 'a list \<Rightarrow> nat \<Rightarrow> nat \<Rightarrow> nat \<Rightarrow> nat" where
  "med3 cmp xs a b c =
     (if cmp (xs ! a) (xs ! b) < 0
      then (if cmp (xs ! b) (xs ! c) < 0 then b else if cmp (xs ! a) (xs ! c) < 0 then c else a)
      else (if cmp (xs ! b) (xs ! c) > 0 then b else if cmp (xs ! a) (xs ! c) < 0 then a else c))"

fun isort_inner :: "('a \<Rightarrow> 'a \<Rightarrow> int) \<Rightarrow> nat \<Rightarrow> 'a list \<Rightarrow> nat \<Rightarrow> 'a list" where
  "isort_inner cmp a xs 0 = xs"
| "isort_inner cmp a xs (Suc k) =
     (if Suc k > a \<and> cmp (xs ! k) (xs ! Suc k) > 0 then isort_inner cmp a (swap xs (Suc k) k) k else xs)"

definition isort :: "('a \<Rightarrow> 'a \<Rightarrow> int) \<Rightarrow> 'a list \<Rightarrow> nat \<Rightarrow> nat \<Rightarrow> 'a list" where
  "isort cmp xs a n = foldl (isort_inner cmp a) xs [a + 1..<a + n]"

definition choose_pm :: "('a \<Rightarrow> 'a \<Rightarrow> int) \<Rightarrow> 'a list \<Rightarrow> nat \<Rightarrow> nat \<Rightarrow> nat" where
  "choose_pm cmp xs a n =
     (let pm = a + n div 2 in
      if n > 7 then
        (let pl = a; pn = a + (n - 1) in
         if n > 40 then
           (let d = n div 8;
                pl = med3 cmp xs pl (pl + d) (pl + 2 * d);
                pm = med3 cmp xs (pm - d) pm (pm + d);
                pn = med3 cmp xs (pn - 2 * d) (pn - d) pn in
            med3 cmp xs pl pm pn)
         else med3 cmp xs pl pm pn)
      else pm)"

text \<open>
  The partition. \<open>pe\<close> and \<open>pf\<close> are \<open>pc\<close> and \<open>pd\<close> moved up by one element: the two pointers at the
  upper end are kept one past the element they look at, so that \<open>pb <= pc\<close> is \<open>pb < pe\<close>.
\<close>

function part_left :: "('a \<Rightarrow> 'a \<Rightarrow> int) \<Rightarrow> nat \<Rightarrow> nat \<Rightarrow> 'a list \<Rightarrow> nat \<Rightarrow> nat \<Rightarrow> bool \<Rightarrow> 'a list \<times> nat \<times> nat \<times> bool" where
  "part_left cmp a pe xs pa pb sc =
     (if pb < pe \<and> cmp (xs ! pb) (xs ! a) \<le> 0 then
        (if cmp (xs ! pb) (xs ! a) = 0 then part_left cmp a pe (swap xs pa pb) (pa + 1) (pb + 1) True
         else part_left cmp a pe xs pa (pb + 1) sc)
      else (xs, pa, pb, sc))"
  by pat_completeness auto
termination by (relation "measure (\<lambda>(cmp, a, pe, xs, pa, pb, sc). pe - pb)") auto

function part_right :: "('a \<Rightarrow> 'a \<Rightarrow> int) \<Rightarrow> nat \<Rightarrow> nat \<Rightarrow> 'a list \<Rightarrow> nat \<Rightarrow> nat \<Rightarrow> bool \<Rightarrow> 'a list \<times> nat \<times> nat \<times> bool" where
  "part_right cmp a pb xs pe pf sc =
     (if pb < pe \<and> cmp (xs ! (pe - 1)) (xs ! a) \<ge> 0 then
        (if cmp (xs ! (pe - 1)) (xs ! a) = 0 then part_right cmp a pb (swap xs (pe - 1) (pf - 1)) (pe - 1) (pf - 1) True
         else part_right cmp a pb xs (pe - 1) pf sc)
      else (xs, pe, pf, sc))"
  by pat_completeness auto
termination by (relation "measure (\<lambda>(cmp, a, pb, xs, pe, pf, sc). pe - pb)") auto

declare part_left.simps [simp del] part_right.simps [simp del]

lemma part_left_bounds:
  "part_left cmp a pe xs pa pb sc = (xs', pa', pb', sc') \<Longrightarrow> pa \<le> pb \<Longrightarrow> pb \<le> pe \<Longrightarrow>
   pa \<le> pa' \<and> pa' \<le> pb' \<and> pb \<le> pb' \<and> pb' \<le> pe \<and> length xs' = length xs"
proof (induction cmp a pe xs pa pb sc rule: part_left.induct)
  case (1 cmp a pe xs pa pb sc)
  then show ?case
    by (subst (asm) (3) part_left.simps) (force simp: swap_def split: if_splits)
qed

lemma part_right_bounds:
  "part_right cmp a pb xs pe pf sc = (xs', pe', pf', sc') \<Longrightarrow> pb \<le> pe \<Longrightarrow> pe \<le> pf \<Longrightarrow>
   pb \<le> pe' \<and> pe' \<le> pf' \<and> pe' \<le> pe \<and> pf' \<le> pf \<and> length xs' = length xs"
proof (induction cmp a pb xs pe pf sc rule: part_right.induct)
  case (1 cmp a pb xs pe pf sc)
  then show ?case
    by (subst (asm) (3) part_right.simps) (force simp: swap_def split: if_splits)
qed

lemma part_left_mono: "part_left cmp a pe xs pa pb sc = (xs', pa', pb', sc') \<Longrightarrow> pb \<le> pb'"
proof (induction cmp a pe xs pa pb sc rule: part_left.induct)
  case (1 cmp a pe xs pa pb sc)
  then show ?case
    by (subst (asm) (3) part_left.simps) (force split: if_splits)
qed

lemma part_right_mono: "part_right cmp a pb xs pe pf sc = (xs', pe', pf', sc') \<Longrightarrow> pe' \<le> pe"
proof (induction cmp a pb xs pe pf sc rule: part_right.induct)
  case (1 cmp a pb xs pe pf sc)
  then show ?case
    by (subst (asm) (3) part_right.simps) (force split: if_splits)
qed

function part_loop :: "('a \<Rightarrow> 'a \<Rightarrow> int) \<Rightarrow> nat \<Rightarrow> 'a list \<Rightarrow> nat \<Rightarrow> nat \<Rightarrow> nat \<Rightarrow> nat \<Rightarrow> bool \<Rightarrow>
    'a list \<times> nat \<times> nat \<times> nat \<times> nat \<times> bool" where
  "part_loop cmp a xs pa pb pe pf sc =
     (case part_left cmp a pe xs pa pb sc of (xs, pa, pb, sc) \<Rightarrow>
      case part_right cmp a pb xs pe pf sc of (xs, pe, pf, sc) \<Rightarrow>
        if pb < pe then part_loop cmp a (swap xs pb (pe - 1)) pa (pb + 1) (pe - 1) pf True
        else (xs, pa, pb, pe, pf, sc))"
  by pat_completeness auto
termination
proof (relation "measure (\<lambda>(cmp, a, xs, pa, pb, pe, pf, sc). pe - pb)", goal_cases)
  case (2 cmp a xs pa pb pe pf sc xs1 r pa1 r' pb1 sc1 xs2 r'' pe2 r3 pf2 sc2)
  then show ?case
    using part_left_mono [of cmp a pe xs pa pb sc xs1 pa1 pb1 sc1]
      part_right_mono [of cmp a pb1 xs1 pe pf sc1 xs2 pe2 pf2 sc2] by auto
qed simp

declare part_loop.simps [simp del]

lemma part_left_stop:
  "part_left cmp a pe xs pa pb sc = (xs', pa', pb', sc') \<Longrightarrow> pb' < pe \<Longrightarrow> cmp (xs' ! pb') (xs' ! a) > 0"
proof (induction cmp a pe xs pa pb sc rule: part_left.induct)
  case (1 cmp a pe xs pa pb sc)
  then show ?case
    by (subst (asm) (3) part_left.simps) (auto split: if_splits)
qed

lemma part_right_stop:
  "part_right cmp a pb xs pe pf sc = (xs', pe', pf', sc') \<Longrightarrow> a < pb \<Longrightarrow> pb < pe' \<Longrightarrow> pe \<le> pf \<Longrightarrow>
   cmp (xs ! pb) (xs ! a) > 0 \<Longrightarrow> Suc pb < pe'"
proof (induction cmp a pb xs pe pf sc rule: part_right.induct)
  case (1 cmp a pb xs pe pf sc)
  have pe: "pb < pe" using part_right_mono [OF "1.prems"(1)] "1.prems" by simp
  show ?case
  proof (cases "pe = Suc pb")
    case True
    then have "part_right cmp a pb xs pb pf sc = (xs', pe', pf', sc')"
      using "1.prems" by (subst (asm) part_right.simps) simp
    then show ?thesis using part_right_mono "1.prems"(3) by fastforce
  next
    case False
    then have "swap xs (pe - 1) (pf - 1) ! pb = xs ! pb" "swap xs (pe - 1) (pf - 1) ! a = xs ! a"
      using pe "1.prems" by (auto simp: swap_def)
    then show ?thesis
      using 1 pe False by (subst (asm) (3) part_right.simps) (auto split: if_splits)
  qed
qed

lemma part_loop_bounds:
  "part_loop cmp a xs pa pb pe pf sc = (xs', pa', pb', pe', pf', sc') \<Longrightarrow> a < pa \<Longrightarrow> pa \<le> pb \<Longrightarrow> pb \<le> pe \<Longrightarrow> pe \<le> pf \<Longrightarrow>
   pa \<le> pa' \<and> pa' \<le> pb' \<and> pb' = pe' \<and> pe' \<le> pf' \<and> pf' \<le> pf \<and> length xs' = length xs"
proof (induction cmp a xs pa pb pe pf sc rule: part_loop.induct)
  case (1 cmp a xs pa pb pe pf sc)
  obtain xs1 pa1 pb1 sc1 where l: "part_left cmp a pe xs pa pb sc = (xs1, pa1, pb1, sc1)" by (metis prod_cases4)
  obtain xs2 pe2 pf2 sc2 where r: "part_right cmp a pb1 xs1 pe pf sc1 = (xs2, pe2, pf2, sc2)" by (metis prod_cases4)
  note bl = part_left_bounds [OF l "1.prems"(3,4)]
  have br: "pb1 \<le> pe2 \<and> pe2 \<le> pf2 \<and> pe2 \<le> pe \<and> pf2 \<le> pf \<and> length xs2 = length xs1"
    using part_right_bounds [OF r _ "1.prems"(5)] bl by simp
  show ?case
  proof (cases "pb1 < pe2")
    case True
    then have "Suc pb1 < pe2"
      using part_right_stop [OF r] part_left_stop [OF l] "1.prems" bl br by auto
    then have le: "a < pa1" "pa1 \<le> pb1 + 1" "pb1 + 1 \<le> pe2 - 1" "pe2 - 1 \<le> pf2"
      using "1.prems" bl br by auto
    have "part_loop cmp a (swap xs2 pb1 (pe2 - 1)) pa1 (pb1 + 1) (pe2 - 1) pf2 True = (xs', pa', pb', pe', pf', sc')"
      using "1.prems"(1) l r True by (subst (asm) part_loop.simps) simp
    from "1.IH" [OF l [symmetric] refl refl r [symmetric] refl refl True this le] show ?thesis
      using bl br by (auto simp: swap_def)
  next
    case False
    then show ?thesis
      using "1.prems" l r bl br by (subst (asm) part_loop.simps) auto
  qed
qed

function qsort :: "('a \<Rightarrow> 'a \<Rightarrow> int) \<Rightarrow> 'a list \<Rightarrow> nat \<Rightarrow> nat \<Rightarrow> 'a list" where
  "qsort cmp xs a n =
     (if n < 7 then isort cmp xs a n
      else case part_loop cmp a (swap xs a (choose_pm cmp xs a n)) (a + 1) (a + 1) (a + n) (a + n) False of
        (xs, pa, pb, pe, pf, sc) \<Rightarrow>
          if \<not> sc then isort cmp xs a n
          else
            let pn = a + n;
                r = min (pa - a) (pb - pa);
                xs = vecswap xs a (pb - r) r;
                r = min (pf - pe) (pn - pf);
                xs = vecswap xs pb (pn - r) r;
                r = pb - pa;
                xs = (if r > 1 then qsort cmp xs a r else xs);
                r = pf - pe in
            if r > 1 then qsort cmp xs (pn - r) r else xs)"
  by pat_completeness auto
termination
  by (relation "measure (\<lambda>(cmp, xs, a, n). n)") (auto dest!: sym [THEN part_loop_bounds])

declare qsort.simps [simp del]

subsection \<open>Binary search\<close>

function bsearch :: "('k \<Rightarrow> 'a \<Rightarrow> int) \<Rightarrow> 'k \<Rightarrow> 'a list \<Rightarrow> nat \<Rightarrow> nat \<Rightarrow> nat option" where
  "bsearch compar key xs base lim =
     (if lim \<noteq> 0 then
        let p = base + lim div 2; c = compar key (xs ! p) in
        if c = 0 then Some p
        else if c > 0 then bsearch compar key xs (p + 1) ((lim - 1) div 2)
        else bsearch compar key xs base (lim div 2)
      else None)"
  by pat_completeness auto
termination by (relation "measure (\<lambda>(compar, key, xs, base, lim). lim)") auto

declare bsearch.simps [simp del]

section \<open>Permutations of a range\<close>

text \<open>\<open>ys\<close> is a permutation of \<open>xs\<close> that leaves everything outside the \<open>n\<close> elements at \<open>a\<close> in place.\<close>

definition perm_in :: "nat \<Rightarrow> nat \<Rightarrow> 'a list \<Rightarrow> 'a list \<Rightarrow> bool" where
  "perm_in a n xs ys \<longleftrightarrow> mset ys = mset xs \<and> (\<forall>i. i < a \<or> a + n \<le> i \<longrightarrow> ys ! i = xs ! i)"

lemma perm_in_refl [simp]: "perm_in a n xs xs"
  by (simp add: perm_in_def)

lemma perm_in_trans: "perm_in a n xs ys \<Longrightarrow> perm_in a n ys zs \<Longrightarrow> perm_in a n xs zs"
  by (simp add: perm_in_def)

lemma perm_in_length: "perm_in a n xs ys \<Longrightarrow> length ys = length xs"
  unfolding perm_in_def using mset_eq_length by blast

lemma perm_in_set: "perm_in a n xs ys \<Longrightarrow> set ys = set xs"
  unfolding perm_in_def using mset_eq_setD by blast

lemma perm_in_widen: "perm_in b k xs ys \<Longrightarrow> a \<le> b \<Longrightarrow> b + k \<le> a + n \<Longrightarrow> perm_in a n xs ys"
  by (auto simp: perm_in_def)

lemma nth_swap:
  assumes "p < length arr" "q < length arr"
  shows "swap arr p q ! e = (if e = p then arr ! q else if e = q then arr ! p else arr ! e)"
  using assms by (simp add: swap_def nth_list_update)

lemma swap_length [simp]: "length (swap arr p q) = length arr"
  by (simp add: swap_def Let_def)

lemma perm_in_swap:
  "a \<le> i \<Longrightarrow> i < a + n \<Longrightarrow> a \<le> j \<Longrightarrow> j < a + n \<Longrightarrow> a + n \<le> length xs \<Longrightarrow> perm_in a n xs (swap xs i j)"
  by (auto simp: perm_in_def swap_def Let_def mset_swap)

lemma perm_in_element:
  assumes "perm_in a n xs ys" "a + n \<le> length xs" "a \<le> i" "i < a + n"
  obtains j where "a \<le> j" "j < a + n" "ys ! i = xs ! j"
proof -
  have len: "length ys = length xs" using assms(1) by (rule perm_in_length)
  have split: "zs = take a zs @ take n (drop a zs) @ drop (a + n) zs" for zs :: "'a list"
    by (metis append_take_drop_id drop_drop add.commute)
  have "take a ys = take a xs" "drop (a + n) ys = drop (a + n) xs"
    using assms(1,2) len by (auto simp: perm_in_def intro!: nth_equalityI)
  then have "mset (take n (drop a ys)) = mset (take n (drop a xs))"
    using assms(1) split [of xs] split [of ys] unfolding perm_in_def
    by (metis add_left_cancel add_right_cancel mset_append)
  then have "set (take n (drop a ys)) = set (take n (drop a xs))" by (rule mset_eq_setD)
  moreover have "ys ! i \<in> set (take n (drop a ys))"
    using assms len by (auto simp: in_set_conv_nth intro!: exI [of _ "i - a"])
  ultimately have "ys ! i \<in> set (take n (drop a xs))" by simp
  then obtain k where "k < n" "ys ! i = xs ! (a + k)"
    using assms(2) by (auto simp: in_set_conv_nth)
  then show ?thesis using that [of "a + k"] by simp
qed

lemma perm_in_vecswap:
  "a \<le> i \<Longrightarrow> i + r \<le> j \<Longrightarrow> j + r \<le> a + n \<Longrightarrow> a + n \<le> length xs \<Longrightarrow> perm_in a n xs (vecswap xs i j r)"
proof (induction r arbitrary: xs i j)
  case (Suc r)
  have "perm_in a n xs (swap xs i j)" using Suc.prems by (intro perm_in_swap) auto
  moreover have "perm_in a n (swap xs i j) (vecswap (swap xs i j) (i + 1) (j + 1) r)"
    using Suc.prems by (intro Suc.IH) auto
  ultimately show ?case by (auto intro: perm_in_trans)
qed simp

lemma nth_vecswap:
  "i + r \<le> j \<Longrightarrow> j + r \<le> length xs \<Longrightarrow> vecswap xs i j r ! k =
     (if i \<le> k \<and> k < i + r then xs ! (j + (k - i)) else if j \<le> k \<and> k < j + r then xs ! (i + (k - j)) else xs ! k)"
proof (induction r arbitrary: xs i j)
  case (Suc r)
  have "vecswap xs i j (Suc r) ! k = (if i + 1 \<le> k \<and> k < i + 1 + r then swap xs i j ! (j + 1 + (k - (i + 1)))
      else if j + 1 \<le> k \<and> k < j + 1 + r then swap xs i j ! (i + 1 + (k - (j + 1))) else swap xs i j ! k)"
    using Suc.prems by (simp add: Suc.IH)
  note step = this
  consider "k = i" | "i < k \<and> k < i + Suc r" | "k = j" | "j < k \<and> k < j + Suc r"
    | "\<not> (i \<le> k \<and> k < i + Suc r)" "\<not> (j \<le> k \<and> k < j + Suc r)" by linarith
  then show ?case
  proof cases
    case 2
    define d where "d = k - Suc i"
    have "k = Suc (i + d)" "d < r" using 2 unfolding d_def by linarith+
    then show ?thesis using step Suc.prems by (simp add: nth_swap)
  next
    case 4
    define d where "d = k - Suc j"
    have "k = Suc (j + d)" "d < r" using 4 unfolding d_def by linarith+
    then show ?thesis using step Suc.prems by (simp add: nth_swap)
  next
    case 5
    then have f: "\<not> (i + 1 \<le> k \<and> k < i + 1 + r)" "\<not> (j + 1 \<le> k \<and> k < j + 1 + r)" "k \<noteq> i" "k \<noteq> j"
      using Suc.prems by linarith+
    have "vecswap xs i j (Suc r) ! k = swap xs i j ! k" unfolding step by (simp only: f if_False)
    also have "\<dots> = xs ! k" using f Suc.prems by (simp add: nth_swap)
    finally show ?thesis by (simp only: 5 if_False)
  qed (use step Suc.prems in \<open>simp_all add: nth_swap\<close>)
qed auto

section \<open>Every operation permutes its range\<close>

text \<open>These hold for any comparison function, also for one that is not an order.\<close>

lemma perm_in_isort_inner:
  "a \<le> k \<Longrightarrow> k < a + n \<Longrightarrow> a + n \<le> length xs \<Longrightarrow> perm_in a n xs (isort_inner cmp a xs k)"
proof (induction k arbitrary: xs)
  case (Suc k)
  show ?case
  proof (cases "Suc k > a \<and> cmp (xs ! k) (xs ! Suc k) > 0")
    case True
    then have "perm_in a n xs (swap xs (Suc k) k)" using Suc.prems by (intro perm_in_swap) auto
    moreover have "perm_in a n (swap xs (Suc k) k) (isort_inner cmp a (swap xs (Suc k) k) k)"
      using Suc.prems True by (intro Suc.IH) auto
    ultimately show ?thesis using True by (auto intro: perm_in_trans)
  qed auto
qed simp

lemma perm_in_isort: "a + n \<le> length xs \<Longrightarrow> perm_in a n xs (isort cmp xs a n)"
proof -
  have "perm_in a n xs (foldl (isort_inner cmp a) xs ks)"
    if "a + n \<le> length xs" "\<forall>k \<in> set ks. a \<le> k \<and> k < a + n" for ks and xs :: "'a list"
    using that
  proof (induction ks arbitrary: xs)
    case (Cons k ks)
    then have "perm_in a n xs (isort_inner cmp a xs k)" by (intro perm_in_isort_inner) auto
    moreover from this have "perm_in a n (isort_inner cmp a xs k) (foldl (isort_inner cmp a) (isort_inner cmp a xs k) ks)"
      using Cons by (intro Cons.IH) (auto dest: perm_in_length)
    ultimately show ?case by (auto intro: perm_in_trans)
  qed simp
  then show "a + n \<le> length xs \<Longrightarrow> perm_in a n xs (isort cmp xs a n)" by (simp add: isort_def)
qed

lemma perm_in_part_left:
  "part_left cmp a0 pe xs pa pb sc = (xs', pa', pb', sc') \<Longrightarrow> a \<le> pa \<Longrightarrow> pa \<le> pb \<Longrightarrow> pe \<le> a + n \<Longrightarrow> a + n \<le> length xs \<Longrightarrow>
   perm_in a n xs xs'"
proof (induction cmp a0 pe xs pa pb sc rule: part_left.induct)
  case (1 cmp a0 pe xs pa pb sc)
  show ?case
  proof (cases "pb < pe \<and> cmp (xs ! pb) (xs ! a0) = 0")
    case True
    then have "perm_in a n xs (swap xs pa pb)" using "1.prems" by (intro perm_in_swap) auto
    moreover have "perm_in a n (swap xs pa pb) xs'"
      using 1 True by (subst (asm) (3) part_left.simps) auto
    ultimately show ?thesis by (rule perm_in_trans)
  next
    case False
    then show ?thesis using 1 by (subst (asm) (3) part_left.simps) (auto split: if_splits)
  qed
qed

lemma perm_in_part_right:
  "part_right cmp a0 pb xs pe pf sc = (xs', pe', pf', sc') \<Longrightarrow> a \<le> pb \<Longrightarrow> pe \<le> pf \<Longrightarrow> pf \<le> a + n \<Longrightarrow> a + n \<le> length xs \<Longrightarrow>
   perm_in a n xs xs'"
proof (induction cmp a0 pb xs pe pf sc rule: part_right.induct)
  case (1 cmp a0 pb xs pe pf sc)
  show ?case
  proof (cases "pb < pe \<and> cmp (xs ! (pe - 1)) (xs ! a0) = 0")
    case True
    then have "perm_in a n xs (swap xs (pe - 1) (pf - 1))" using "1.prems" by (intro perm_in_swap) auto
    moreover have "perm_in a n (swap xs (pe - 1) (pf - 1)) xs'"
      using 1 True by (subst (asm) (3) part_right.simps) auto
    ultimately show ?thesis by (rule perm_in_trans)
  next
    case False
    then show ?thesis using 1 by (subst (asm) (3) part_right.simps) (auto split: if_splits)
  qed
qed

lemma perm_in_part_loop:
  "part_loop cmp a0 xs pa pb pe pf sc = (xs', pa', pb', pe', pf', sc') \<Longrightarrow> a0 < pa \<Longrightarrow> a \<le> pa \<Longrightarrow> pa \<le> pb \<Longrightarrow> pb \<le> pe \<Longrightarrow>
   pe \<le> pf \<Longrightarrow> pf \<le> a + n \<Longrightarrow> a + n \<le> length xs \<Longrightarrow> perm_in a n xs xs'"
proof (induction cmp a0 xs pa pb pe pf sc rule: part_loop.induct)
  case (1 cmp a0 xs pa pb pe pf sc)
  obtain xs1 pa1 pb1 sc1 where l: "part_left cmp a0 pe xs pa pb sc = (xs1, pa1, pb1, sc1)" by (metis prod_cases4)
  obtain xs2 pe2 pf2 sc2 where r: "part_right cmp a0 pb1 xs1 pe pf sc1 = (xs2, pe2, pf2, sc2)" by (metis prod_cases4)
  note bl = part_left_bounds [OF l "1.prems"(4,5)]
  have br: "pb1 \<le> pe2 \<and> pe2 \<le> pf2 \<and> pe2 \<le> pe \<and> pf2 \<le> pf \<and> length xs2 = length xs1"
    using part_right_bounds [OF r _ "1.prems"(6)] bl by simp
  have "perm_in a n xs xs1" using "1.prems" by (intro perm_in_part_left [OF l]) auto
  moreover have "perm_in a n xs1 xs2" using "1.prems" bl by (intro perm_in_part_right [OF r]) auto
  ultimately have p: "perm_in a n xs xs2" by (rule perm_in_trans)
  show ?case
  proof (cases "pb1 < pe2")
    case True
    then have "Suc pb1 < pe2"
      using part_right_stop [OF r] part_left_stop [OF l] "1.prems" bl br by auto
    then have le: "a0 < pa1" "a \<le> pa1" "pa1 \<le> pb1 + 1" "pb1 + 1 \<le> pe2 - 1" "pe2 - 1 \<le> pf2" "pf2 \<le> a + n"
        "a + n \<le> length (swap xs2 pb1 (pe2 - 1))"
      using "1.prems" bl br by auto
    have "part_loop cmp a0 (swap xs2 pb1 (pe2 - 1)) pa1 (pb1 + 1) (pe2 - 1) pf2 True = (xs', pa', pb', pe', pf', sc')"
      using "1.prems"(1) l r True by (subst (asm) part_loop.simps) simp
    from "1.IH" [OF l [symmetric] refl refl r [symmetric] refl refl True this le]
    have "perm_in a n (swap xs2 pb1 (pe2 - 1)) xs'" .
    moreover have "perm_in a n xs2 (swap xs2 pb1 (pe2 - 1))"
      using le bl br "1.prems" by (intro perm_in_swap) auto
    ultimately show ?thesis using p perm_in_trans by blast
  next
    case False
    then show ?thesis
      using "1.prems"(1) l r p by (subst (asm) part_loop.simps) auto
  qed
qed

lemma med3_in: "P i \<Longrightarrow> P j \<Longrightarrow> P k \<Longrightarrow> P (med3 cmp xs i j k)"
  by (simp add: med3_def)

lemma choose_pm_bounds:
  assumes "7 \<le> n"
  shows "a \<le> choose_pm cmp xs a n \<and> choose_pm cmp xs a n < a + n"
proof -
  let ?P = "\<lambda>i. a \<le> i \<and> i < a + n" and ?d = "n div 8" and ?pm = "a + n div 2"
  have d: "8 * ?d \<le> n" by simp
  have pm: "?P ?pm" "?P a" "?P (a + (n - 1))" using assms by auto
  have big: "?P (med3 cmp xs a (a + ?d) (a + 2 * ?d))" "?P (med3 cmp xs (?pm - ?d) ?pm (?pm + ?d))"
      "?P (med3 cmp xs (a + (n - 1) - 2 * ?d) (a + (n - 1) - ?d) (a + (n - 1)))"
    using d assms by (intro med3_in [where P = ?P]; linarith)+
  consider "n = 7" | "7 < n" "n \<le> 40" | "40 < n" using assms by linarith
  then show ?thesis
  proof cases
    case 1
    then show ?thesis by (simp add: choose_pm_def)
  next
    case 2
    then show ?thesis using med3_in [where P = ?P, OF pm(2,1,3)] by (simp add: choose_pm_def Let_def)
  next
    case 3
    then show ?thesis using med3_in [where P = ?P, OF big] by (simp add: choose_pm_def Let_def)
  qed
qed

text \<open>The array after the partition and the exchanges that bring the equal elements to the middle.\<close>

definition part_done :: "('a \<Rightarrow> 'a \<Rightarrow> int) \<Rightarrow> 'a list \<Rightarrow> nat \<Rightarrow> nat \<Rightarrow> 'a list \<Rightarrow> nat \<Rightarrow> nat \<Rightarrow> nat \<Rightarrow> bool \<Rightarrow> bool" where
  "part_done cmp xs a n xs' pa pb pf sc \<longleftrightarrow>
     part_loop cmp a (swap xs a (choose_pm cmp xs a n)) (a + 1) (a + 1) (a + n) (a + n) False
     = (xs', pa, pb, pb, pf, sc) \<and> a < pa \<and> pa \<le> pb \<and> pb \<le> pf \<and> pf \<le> a + n \<and> perm_in a n xs xs'"

definition gather :: "'a list \<Rightarrow> nat \<Rightarrow> nat \<Rightarrow> nat \<Rightarrow> nat \<Rightarrow> nat \<Rightarrow> 'a list" where
  "gather xs a n pa pb pf =
     (let r = min (pa - a) (pb - pa); xs = vecswap xs a (pb - r) r; r = min (pf - pb) (a + n - pf) in
      vecswap xs pb (a + n - r) r)"

lemma part_done_ex:
  assumes "7 \<le> n" "a + n \<le> length xs"
  obtains xs' pa pb pf sc where "part_done cmp xs a n xs' pa pb pf sc"
proof -
  let ?s = "swap xs a (choose_pm cmp xs a n)"
  obtain xs' pa pb pe pf sc where
    p: "part_loop cmp a ?s (a + 1) (a + 1) (a + n) (a + n) False = (xs', pa, pb, pe, pf, sc)" by (metis prod_cases6)
  have "perm_in a n xs ?s" using choose_pm_bounds [OF assms(1), of a cmp xs] assms by (intro perm_in_swap) auto
  moreover have "perm_in a n ?s xs'" using assms by (intro perm_in_part_loop [OF p]) auto
  ultimately have "perm_in a n xs xs'" by (rule perm_in_trans)
  then have "part_done cmp xs a n xs' pa pb pf sc"
    using part_loop_bounds [OF p] p assms by (auto simp: part_done_def)
  then show ?thesis by (rule that)
qed

lemma perm_in_gather:
  assumes "a < pa" "pa \<le> pb" "pb \<le> pf" "pf \<le> a + n" "a + n \<le> length xs"
  shows "perm_in a n xs (gather xs a n pa pb pf)"
proof -
  let ?r = "min (pa - a) (pb - pa)" and ?r' = "min (pf - pb) (a + n - pf)"
  have "perm_in a n xs (vecswap xs a (pb - ?r) ?r)" using assms by (intro perm_in_vecswap) auto
  moreover from this have "perm_in a n (vecswap xs a (pb - ?r) ?r) (vecswap (vecswap xs a (pb - ?r) ?r) pb (a + n - ?r') ?r')"
    using assms by (intro perm_in_vecswap) (auto dest: perm_in_length)
  ultimately show ?thesis unfolding gather_def Let_def by (rule perm_in_trans)
qed

text \<open>One unfolding of \<open>qsort\<close> in terms of these.\<close>

lemma qsort_unfold:
  assumes "part_done cmp xs a n xs' pa pb pf sc" "7 \<le> n"
  shows "qsort cmp xs a n =
    (if \<not> sc then isort cmp xs' a n
     else let ys = gather xs' a n pa pb pf; zs = (if pb - pa > 1 then qsort cmp ys a (pb - pa) else ys) in
       if pf - pb > 1 then qsort cmp zs (a + n - (pf - pb)) (pf - pb) else zs)"
  using assms by (subst qsort.simps) (simp add: part_done_def gather_def Let_def)

lemma perm_in_qsort: "a + n \<le> length xs \<Longrightarrow> perm_in a n xs (qsort cmp xs a n)"
proof (induction n arbitrary: xs a rule: less_induct)
  case (less n)
  show ?case
  proof (cases "n < 7")
    case True
    then show ?thesis using less.prems by (subst qsort.simps) (simp add: perm_in_isort)
  next
    case False
    then have n: "7 \<le> n" by simp
    obtain xs' pa pb pf sc where p: "part_done cmp xs a n xs' pa pb pf sc"
      using part_done_ex [OF n less.prems] .
    then have b: "a < pa" "pa \<le> pb" "pb \<le> pf" "pf \<le> a + n" "perm_in a n xs xs'" by (auto simp: part_done_def)
    have len: "length xs' = length xs" using perm_in_length b(5) .
    define ys where "ys = gather xs' a n pa pb pf"
    define zs where "zs = (if pb - pa > 1 then qsort cmp ys a (pb - pa) else ys)"
    have y: "perm_in a n xs' ys" unfolding ys_def using b len less.prems by (intro perm_in_gather) auto
    have z: "perm_in a n ys zs"
    proof (cases "pb - pa > 1")
      case True
      have "perm_in a (pb - pa) ys (qsort cmp ys a (pb - pa))"
        using b less.prems perm_in_length [OF y] len by (intro less.IH) auto
      then show ?thesis using True b by (auto simp: zs_def intro: perm_in_widen)
    qed (simp add: zs_def)
    have "perm_in a n zs (if pf - pb > 1 then qsort cmp zs (a + n - (pf - pb)) (pf - pb) else zs)"
    proof (cases "pf - pb > 1")
      case True
      have "perm_in (a + n - (pf - pb)) (pf - pb) zs (qsort cmp zs (a + n - (pf - pb)) (pf - pb))"
        using b less.prems perm_in_length [OF y] perm_in_length [OF z] len by (intro less.IH) auto
      then show ?thesis using True b by (auto intro: perm_in_widen)
    qed simp
    then have "perm_in a n xs' (if pf - pb > 1 then qsort cmp zs (a + n - (pf - pb)) (pf - pb) else zs)"
      using y z perm_in_trans by blast
    moreover have "perm_in a n xs' (isort cmp xs' a n)" using less.prems len by (intro perm_in_isort) simp
    ultimately have "perm_in a n xs' (qsort cmp xs a n)"
      unfolding qsort_unfold [OF p n] ys_def [symmetric] zs_def [symmetric] Let_def by simp
    then show ?thesis using b(5) perm_in_trans by blast
  qed
qed

section \<open>The partition\<close>

text \<open>
  The picture of the two loops, with the pivot \<open>p\<close> at \<open>a\<close>: equal, less, not yet seen, greater, equal.
\<close>

definition part_inv :: "('a \<Rightarrow> 'a \<Rightarrow> int) \<Rightarrow> 'a \<Rightarrow> nat \<Rightarrow> nat \<Rightarrow> 'a list \<Rightarrow> nat \<Rightarrow> nat \<Rightarrow> nat \<Rightarrow> nat \<Rightarrow> bool" where
  "part_inv cmp p a e xs pa pb pe pf \<longleftrightarrow> xs ! a = p
     \<and> (\<forall>i. a \<le> i \<and> i < pa \<longrightarrow> cmp (xs ! i) p = 0) \<and> (\<forall>i. pa \<le> i \<and> i < pb \<longrightarrow> cmp (xs ! i) p < 0)
     \<and> (\<forall>i. pe \<le> i \<and> i < pf \<longrightarrow> cmp (xs ! i) p > 0) \<and> (\<forall>i. pf \<le> i \<and> i < e \<longrightarrow> cmp (xs ! i) p = 0)"

lemma part_left_inv:
  "part_left cmp a pe xs pa pb sc = (xs', pa', pb', sc') \<Longrightarrow> part_inv cmp p a e xs pa pb pe pf \<Longrightarrow>
   a < pa \<Longrightarrow> pa \<le> pb \<Longrightarrow> pb \<le> pe \<Longrightarrow> pe \<le> pf \<Longrightarrow> pf \<le> e \<Longrightarrow> e \<le> length xs \<Longrightarrow> part_inv cmp p a e xs' pa' pb' pe pf"
proof (induction cmp a pe xs pa pb sc rule: part_left.induct)
  case (1 cmp a pe xs pa pb sc)
  have xa: "xs ! a = p" using "1.prems"(2) by (simp add: part_inv_def)
  show ?case
  proof (cases "pb < pe \<and> cmp (xs ! pb) (xs ! a) \<le> 0")
    case True
    show ?thesis
    proof (cases "cmp (xs ! pb) (xs ! a) = 0")
      case eq: True
      have nth: "swap xs pa pb ! i = (if i = pa then xs ! pb else if i = pb then xs ! pa else xs ! i)" for i
        using True "1.prems" by (simp add: nth_swap)
      have "part_inv cmp p a e (swap xs pa pb) (pa + 1) (pb + 1) pe pf"
        using "1.prems"(2-7) eq True xa unfolding part_inv_def nth by (auto simp: less_Suc_eq)
      moreover have "part_left cmp a pe (swap xs pa pb) (pa + 1) (pb + 1) True = (xs', pa', pb', sc')"
        using "1.prems"(1) True eq by (subst (asm) part_left.simps) simp
      ultimately show ?thesis using "1.IH"(1) [OF True eq] "1.prems" True by simp
    next
      case neq: False
      have "part_inv cmp p a e xs pa (pb + 1) pe pf"
        using "1.prems"(2) neq True xa unfolding part_inv_def by (auto simp: less_Suc_eq)
      moreover have "part_left cmp a pe xs pa (pb + 1) sc = (xs', pa', pb', sc')"
        using "1.prems"(1) True neq by (subst (asm) part_left.simps) simp
      ultimately show ?thesis using "1.IH"(2) [OF True neq] "1.prems" True by simp
    qed
  next
    case False
    then show ?thesis using "1.prems" by (subst (asm) part_left.simps) auto
  qed
qed

lemma part_right_inv:
  "part_right cmp a pb xs pe pf sc = (xs', pe', pf', sc') \<Longrightarrow> part_inv cmp p a e xs pa pb pe pf \<Longrightarrow>
   a < pa \<Longrightarrow> pa \<le> pb \<Longrightarrow> pb \<le> pe \<Longrightarrow> pe \<le> pf \<Longrightarrow> pf \<le> e \<Longrightarrow> e \<le> length xs \<Longrightarrow> part_inv cmp p a e xs' pa pb pe' pf'"
proof (induction cmp a pb xs pe pf sc rule: part_right.induct)
  case (1 cmp a pb xs pe pf sc)
  have xa: "xs ! a = p" using "1.prems"(2) by (simp add: part_inv_def)
  show ?case
  proof (cases "pb < pe \<and> cmp (xs ! (pe - 1)) (xs ! a) \<ge> 0")
    case True
    then obtain q where q: "pe = Suc q" by (cases pe) auto
    obtain f where f: "pf = Suc f" using q "1.prems" by (cases pf) auto
    show ?thesis
    proof (cases "cmp (xs ! (pe - 1)) (xs ! a) = 0")
      case eq: True
      have nth: "swap xs q f ! i = (if i = q then xs ! f else if i = f then xs ! q else xs ! i)" for i
        using q f "1.prems" by (simp add: nth_swap)
      have "part_inv cmp p a e (swap xs q f) pa pb q f"
        using "1.prems"(2-7) eq True xa q f unfolding part_inv_def nth by (auto simp: less_Suc_eq Suc_le_eq)
      moreover have "part_right cmp a pb (swap xs (pe - 1) (pf - 1)) (pe - 1) (pf - 1) True = (xs', pe', pf', sc')"
        using "1.prems"(1) True eq by (subst (asm) part_right.simps) simp
      ultimately show ?thesis using "1.IH"(1) [OF True eq] "1.prems" True q f by simp
    next
      case neq: False
      have "part_inv cmp p a e xs pa pb q pf"
        using "1.prems"(2) neq True xa q unfolding part_inv_def by (auto simp: Suc_le_eq) (metis le_neq_implies_less order_le_less)
      moreover have "part_right cmp a pb xs (pe - 1) pf sc = (xs', pe', pf', sc')"
        using "1.prems"(1) True neq by (subst (asm) part_right.simps) simp
      ultimately show ?thesis using "1.IH"(2) [OF True neq] "1.prems" True q by simp
    qed
  next
    case False
    then show ?thesis using "1.prems" by (subst (asm) part_right.simps) auto
  qed
qed

lemma part_right_frame:
  "part_right cmp a pb xs pe pf sc = (xs', pe', pf', sc') \<Longrightarrow> i < pe' \<Longrightarrow> pe \<le> pf \<Longrightarrow> xs' ! i = xs ! i"
proof (induction cmp a pb xs pe pf sc rule: part_right.induct)
  case (1 cmp a pb xs pe pf sc)
  show ?case
  proof (cases "pb < pe \<and> cmp (xs ! (pe - 1)) (xs ! a) \<ge> 0")
    case True
    show ?thesis
    proof (cases "cmp (xs ! (pe - 1)) (xs ! a) = 0")
      case eq: True
      have r: "part_right cmp a pb (swap xs (pe - 1) (pf - 1)) (pe - 1) (pf - 1) True = (xs', pe', pf', sc')"
        using "1.prems"(1) True eq by (subst (asm) part_right.simps) simp
      then have "xs' ! i = swap xs (pe - 1) (pf - 1) ! i"
        using "1.IH"(1) [OF True eq] "1.prems" True by simp
      moreover have "i < pe - 1" "i < pf - 1" using part_right_mono [OF r] "1.prems" True by auto
      ultimately show ?thesis by (simp add: swap_def)
    next
      case neq: False
      then show ?thesis using 1 True by (subst (asm) (3) part_right.simps) auto
    qed
  next
    case False
    then show ?thesis using "1.prems"(1) by (subst (asm) part_right.simps) auto
  qed
qed

lemma part_right_end:
  "part_right cmp a pb xs pe pf sc = (xs', pe', pf', sc') \<Longrightarrow> pb < pe' \<Longrightarrow> cmp (xs' ! (pe' - 1)) (xs' ! a) < 0"
proof (induction cmp a pb xs pe pf sc rule: part_right.induct)
  case (1 cmp a pb xs pe pf sc)
  then show ?case
    by (subst (asm) (3) part_right.simps) (auto split: if_splits)
qed

lemma part_inv_cross:
  assumes inv: "part_inv cmp p a e xs pa pb (Suc q) pf" and gt: "cmp (xs ! pb) p > 0" and lt: "cmp (xs ! q) p < 0"
    and le: "a < pa" "pa \<le> pb" "pb < q" "Suc q \<le> pf" "pf \<le> e" "e \<le> length xs"
  shows "part_inv cmp p a e (swap xs pb q) pa (Suc pb) q pf"
proof -
  have "pb < length xs" "q < length xs" using le by auto
  note nth = nth_swap [OF this]
  have "cmp (swap xs pb q ! i) p < 0" if "pa \<le> i" "i < Suc pb" for i
    using inv lt that le unfolding nth part_inv_def by (cases "i = pb") auto
  moreover have "cmp (swap xs pb q ! i) p > 0" if "q \<le> i" "i < pf" for i
    using inv gt that le unfolding nth part_inv_def by (cases "i = q") auto
  ultimately show ?thesis
    using inv le unfolding part_inv_def by (simp add: nth)
qed

lemma part_loop_inv:
  "part_loop cmp a xs pa pb pe pf sc = (xs', pa', pb', pe', pf', sc') \<Longrightarrow> part_inv cmp p a e xs pa pb pe pf \<Longrightarrow>
   a < pa \<Longrightarrow> pa \<le> pb \<Longrightarrow> pb \<le> pe \<Longrightarrow> pe \<le> pf \<Longrightarrow> pf \<le> e \<Longrightarrow> e \<le> length xs \<Longrightarrow> part_inv cmp p a e xs' pa' pb' pe' pf'"
proof (induction cmp a xs pa pb pe pf sc rule: part_loop.induct)
  case (1 cmp a xs pa pb pe pf sc)
  obtain xs1 pa1 pb1 sc1 where l: "part_left cmp a pe xs pa pb sc = (xs1, pa1, pb1, sc1)" by (metis prod_cases4)
  obtain xs2 pe2 pf2 sc2 where r: "part_right cmp a pb1 xs1 pe pf sc1 = (xs2, pe2, pf2, sc2)" by (metis prod_cases4)
  note bl = part_left_bounds [OF l "1.prems"(4,5)]
  have br: "pb1 \<le> pe2 \<and> pe2 \<le> pf2 \<and> pe2 \<le> pe \<and> pf2 \<le> pf \<and> length xs2 = length xs1"
    using part_right_bounds [OF r _ "1.prems"(6)] bl by simp
  have "part_inv cmp p a e xs1 pa1 pb1 pe pf" using part_left_inv [OF l "1.prems"(2-8)] .
  then have inv: "part_inv cmp p a e xs2 pa1 pb1 pe2 pf2"
    using part_right_inv [OF r] "1.prems" bl by auto
  show ?case
  proof (cases "pb1 < pe2")
    case True
    have stop: "cmp (xs2 ! pb1) p > 0" "cmp (xs2 ! (pe2 - 1)) p < 0"
      using part_left_stop [OF l] part_right_end [OF r True] part_right_frame [OF r] True "1.prems" bl br inv
      by (auto simp: part_inv_def)
    then have lt: "Suc pb1 < pe2"
      using True by (cases "Suc pb1 = pe2") auto
    then have le: "a < pa1" "pa1 \<le> pb1 + 1" "pb1 + 1 \<le> pe2 - 1" "pe2 - 1 \<le> pf2" "pf2 \<le> e"
        "e \<le> length (swap xs2 pb1 (pe2 - 1))"
      using "1.prems" bl br by auto
    obtain q where q: "pe2 = Suc q" using lt by (cases pe2) auto
    have "part_inv cmp p a e (swap xs2 pb1 (pe2 - 1)) pa1 (pb1 + 1) (pe2 - 1) pf2"
      using part_inv_cross [of cmp p a e xs2 pa1 pb1 q pf2] inv stop le q lt bl br by simp
    moreover have "part_loop cmp a (swap xs2 pb1 (pe2 - 1)) pa1 (pb1 + 1) (pe2 - 1) pf2 True = (xs', pa', pb', pe', pf', sc')"
      using "1.prems"(1) l r True by (subst (asm) part_loop.simps) simp
    ultimately show ?thesis
      using "1.IH" [OF l [symmetric] refl refl r [symmetric] refl refl True _ _ le] by blast
  next
    case False
    then show ?thesis
      using "1.prems"(1) l r inv by (subst (asm) part_loop.simps) auto
  qed
qed

text \<open>Three runs: less than the pivot, equal to it, greater.\<close>

definition three_way :: "('a \<Rightarrow> 'a \<Rightarrow> int) \<Rightarrow> 'a \<Rightarrow> nat \<Rightarrow> nat \<Rightarrow> nat \<Rightarrow> nat \<Rightarrow> 'a list \<Rightarrow> bool" where
  "three_way cmp p a b c e xs \<longleftrightarrow> (\<forall>i. a \<le> i \<and> i < b \<longrightarrow> cmp (xs ! i) p < 0)
     \<and> (\<forall>i. b \<le> i \<and> i < c \<longrightarrow> cmp (xs ! i) p = 0) \<and> (\<forall>i. c \<le> i \<and> i < e \<longrightarrow> cmp (xs ! i) p > 0)"

text \<open>Two adjacent runs change places by exchanging the ends of the pair, as many elements as the shorter has.\<close>

lemma vecswap_runs:
  assumes P: "\<And>i. a \<le> i \<Longrightarrow> i < m \<Longrightarrow> P (xs ! i)" and Q: "\<And>i. m \<le> i \<Longrightarrow> i < e \<Longrightarrow> Q (xs ! i)"
    and le: "a \<le> m" "m \<le> e" "e \<le> length xs" and r: "r = min (m - a) (e - m)"
  shows "a \<le> k \<Longrightarrow> k < a + (e - m) \<Longrightarrow> Q (vecswap xs a (e - r) r ! k)"
    and "a + (e - m) \<le> k \<Longrightarrow> k < e \<Longrightarrow> P (vecswap xs a (e - r) r ! k)"
    and "k < a \<or> e \<le> k \<Longrightarrow> vecswap xs a (e - r) r ! k = xs ! k"
proof -
  have s: "a + r \<le> e - r" "e - r + r \<le> length xs" "r \<le> e" using le unfolding r by linarith+
  note nth = nth_vecswap [OF s(1,2)]
  show "Q (vecswap xs a (e - r) r ! k)" if "a \<le> k" "k < a + (e - m)"
  proof (cases "k < a + r")
    case True
    then have "Q (xs ! (e - r + (k - a)))" using that le r by (intro Q) linarith+
    then show ?thesis using True that by (simp add: nth)
  next
    case False
    have "k < e - r" using False that le r by linarith
    moreover have "Q (xs ! k)" using False that le r by (intro Q) linarith+
    ultimately show ?thesis using False by (simp add: nth)
  qed
  show "P (vecswap xs a (e - r) r ! k)" if "a + (e - m) \<le> k" "k < e"
  proof (cases "e - r \<le> k")
    case True
    then have "P (xs ! (a + (k - (e - r))))" using that le r by (intro P) linarith+
    moreover have "\<not> k < a + r" using True s by linarith
    ultimately show ?thesis using True that s(3) by (simp add: nth)
  next
    case False
    have "\<not> k < a + r" using False that le r by linarith
    moreover have "P (xs ! k)" using False that le r by (intro P) linarith+
    ultimately show ?thesis using False by (simp add: nth)
  qed
  show "vecswap xs a (e - r) r ! k = xs ! k" if "k < a \<or> e \<le> k"
    using that s by (auto simp: nth)
qed

lemma gather_three_way:
  assumes inv: "part_inv cmp p a (a + n) xs pa pb pb pf"
    and le: "a < pa" "pa \<le> pb" "pb \<le> pf" "pf \<le> a + n" "a + n \<le> length xs"
  shows "three_way cmp p a (a + (pb - pa)) (a + n - (pf - pb)) (a + n) (gather xs a n pa pb pf)"
proof -
  let ?r = "min (pa - a) (pb - pa)" and ?s = "min (pf - pb) (a + n - pf)"
  let ?ys = "vecswap xs a (pb - ?r) ?r"
  have len: "length ?ys = length xs"
    using le by (intro perm_in_length [of a n] perm_in_vecswap) auto
  have run: "\<And>i. a \<le> i \<Longrightarrow> i < pa \<Longrightarrow> cmp (xs ! i) p = 0" "\<And>i. pa \<le> i \<Longrightarrow> i < pb \<Longrightarrow> cmp (xs ! i) p < 0"
    using inv by (auto simp: part_inv_def)
  have "a \<le> pa" "pb \<le> length xs" using le by auto
  note y = vecswap_runs [where P = "\<lambda>x. cmp x p = 0" and Q = "\<lambda>x. cmp x p < 0" and xs = xs,
    OF run this(1) le(2) this(2) refl]
  have run': "\<And>i. pb \<le> i \<Longrightarrow> i < pf \<Longrightarrow> cmp (?ys ! i) p > 0" "\<And>i. pf \<le> i \<Longrightarrow> i < a + n \<Longrightarrow> cmp (?ys ! i) p = 0"
    using inv y(3) le by (auto simp: part_inv_def)
  have "a + n \<le> length ?ys" using le len by simp
  note z = vecswap_runs [where P = "\<lambda>x. cmp x p > 0" and Q = "\<lambda>x. cmp x p = 0" and xs = ?ys,
    OF run' le(3,4) this refl]
  have g: "gather xs a n pa pb pf = vecswap ?ys pb (a + n - ?s) ?s" by (simp add: gather_def Let_def)
  show ?thesis
    unfolding three_way_def g
  proof (intro conjI allI impI; elim conjE)
    fix i assume i: "a \<le> i" "i < a + (pb - pa)"
    then have "i < pb" using le by linarith
    with i show "cmp (vecswap ?ys pb (a + n - ?s) ?s ! i) p < 0" using z(3) [of i] y(1) [of i] le by simp
  next
    fix i assume i: "a + (pb - pa) \<le> i" "i < a + n - (pf - pb)"
    show "cmp (vecswap ?ys pb (a + n - ?s) ?s ! i) p = 0"
      using i z(3) [of i] y(2) [of i] z(1) [of i] le by (cases "i < pb") auto
  next
    fix i assume i: "a + n - (pf - pb) \<le> i" "i < a + n"
    then show "cmp (vecswap ?ys pb (a + n - ?s) ?s ! i) p > 0" using z(2) [of i] le by simp
  qed
qed

text \<open>A permutation within one of the three runs leaves the picture as it is.\<close>

lemma perm_in_run:
  assumes "perm_in a n xs ys" "a + n \<le> length xs" "b \<le> a \<and> a + n \<le> e \<or> a + n \<le> b \<or> e \<le> a"
    and "\<And>i. b \<le> i \<Longrightarrow> i < e \<Longrightarrow> P (xs ! i)" "b \<le> i" "i < e"
  shows "P (ys ! i)"
proof (cases "a \<le> i \<and> i < a + n")
  case True
  then obtain j where "a \<le> j" "j < a + n" "ys ! i = xs ! j"
    using perm_in_element [OF assms(1,2)] by metis
  then show ?thesis using assms(3-6) True by auto
next
  case False
  then have "ys ! i = xs ! i" using assms(1) by (auto simp: perm_in_def)
  then show ?thesis using assms by simp
qed

lemma three_way_perm:
  assumes tw: "three_way cmp p a b c e xs" and p: "perm_in s n xs ys" "s + n \<le> length xs"
    and le: "a \<le> b" "b \<le> c" "c \<le> e" "s = a \<and> s + n = b \<or> s = c \<and> s + n = e"
  shows "three_way cmp p a b c e ys"
proof -
  note run = perm_in_run [OF p]
  show ?thesis
    unfolding three_way_def
  proof (intro conjI allI impI; elim conjE)
    show "cmp (ys ! i) p < 0" if "a \<le> i" "i < b" for i
      using tw le that by (intro run [where b = a and e = b and P = "\<lambda>x. cmp x p < 0"]) (auto simp: three_way_def)
    show "cmp (ys ! i) p = 0" if "b \<le> i" "i < c" for i
      using tw le that by (intro run [where b = b and e = c and P = "\<lambda>x. cmp x p = 0"]) (auto simp: three_way_def)
    show "cmp (ys ! i) p > 0" if "c \<le> i" "i < e" for i
      using tw le that by (intro run [where b = c and e = e and P = "\<lambda>x. cmp x p > 0"]) (auto simp: three_way_def)
  qed
qed

section \<open>Binary search\<close>

text \<open>The sign of the comparison with the key falls along the range: positive, zero, negative.\<close>

definition monotone_sign :: "('k \<Rightarrow> 'a \<Rightarrow> int) \<Rightarrow> 'k \<Rightarrow> 'a list \<Rightarrow> nat \<Rightarrow> nat \<Rightarrow> bool" where
  "monotone_sign compar key xs a n \<longleftrightarrow> (\<forall>i j. a \<le> i \<and> i < j \<and> j < a + n \<longrightarrow>
     (compar key (xs ! i) \<le> 0 \<longrightarrow> compar key (xs ! j) \<le> 0) \<and> (compar key (xs ! i) < 0 \<longrightarrow> compar key (xs ! j) < 0))"

lemma monotone_signD:
  assumes "monotone_sign compar key xs a n" "a \<le> i" "i < j" "j < a + n"
  shows "compar key (xs ! j) > 0 \<Longrightarrow> compar key (xs ! i) > 0" "compar key (xs ! i) < 0 \<Longrightarrow> compar key (xs ! j) < 0"
  using assms unfolding monotone_sign_def by (meson not_less)+

lemma monotone_sign_sub:
  assumes "monotone_sign compar key xs a n" "a \<le> b" "b + k \<le> a + n"
  shows "monotone_sign compar key xs b k"
  unfolding monotone_sign_def
proof (intro allI impI; elim conjE)
  fix i j assume "b \<le> i" "i < j" "j < b + k"
  then have "a \<le> i \<and> i < j \<and> j < a + n" using assms(2,3) by linarith
  then show "(compar key (xs ! i) \<le> 0 \<longrightarrow> compar key (xs ! j) \<le> 0) \<and> (compar key (xs ! i) < 0 \<longrightarrow> compar key (xs ! j) < 0)"
    using assms(1) unfolding monotone_sign_def by blast
qed

lemma bsearch_spec:
  "monotone_sign compar key xs base lim \<Longrightarrow>
   case bsearch compar key xs base lim of
     None \<Rightarrow> \<forall>i. base \<le> i \<and> i < base + lim \<longrightarrow> compar key (xs ! i) \<noteq> 0
   | Some p \<Rightarrow> base \<le> p \<and> p < base + lim \<and> compar key (xs ! p) = 0"
proof (induction compar key xs base lim rule: bsearch.induct)
  case (1 compar key xs base lim)
  let ?p = "base + lim div 2"
  show ?case
  proof (cases "lim = 0")
    case lim: False
    then have p: "base \<le> ?p" "?p < base + lim" by auto
    consider "compar key (xs ! ?p) = 0" | "compar key (xs ! ?p) > 0" | "compar key (xs ! ?p) < 0" by linarith
    then show ?thesis
    proof cases
      case 1
      then show ?thesis using p lim by (subst bsearch.simps) simp
    next
      case 2
      let ?l = "(lim - 1) div 2"
      have l: "?p + 1 + ?l = base + lim" using lim by presburger
      have low: "compar key (xs ! i) > 0" if "base \<le> i" "i \<le> ?p" for i
        using monotone_signD(1) [OF "1.prems" that(1) _ p(2)] 2 that(2) by (cases "i = ?p") auto
      have "monotone_sign compar key xs (?p + 1) ?l" using l by (intro monotone_sign_sub [OF "1.prems"]) auto
      from "1.IH"(1) [OF lim refl refl _ _ this] 2
      have "case bsearch compar key xs (?p + 1) ?l of
          None \<Rightarrow> \<forall>i. ?p + 1 \<le> i \<and> i < base + lim \<longrightarrow> compar key (xs ! i) \<noteq> 0
        | Some p \<Rightarrow> ?p + 1 \<le> p \<and> p < base + lim \<and> compar key (xs ! p) = 0" unfolding l by simp
      moreover have "bsearch compar key xs base lim = bsearch compar key xs (?p + 1) ?l"
        using lim 2 by (subst bsearch.simps) (simp add: Let_def)
      ultimately show ?thesis
        using low by (auto split: option.splits) (metis Suc_leI leI less_irrefl)
    next
      case 3
      let ?l = "lim div 2"
      have hi: "compar key (xs ! i) < 0" if "?p \<le> i" "i < base + lim" for i
        using monotone_signD(2) [OF "1.prems" p(1) _ that(2)] 3 that(1) by (cases "i = ?p") auto
      have "monotone_sign compar key xs base ?l" using lim by (intro monotone_sign_sub [OF "1.prems"]) auto
      from "1.IH"(2) [OF lim refl refl _ _ this] 3
      have "case bsearch compar key xs base ?l of
          None \<Rightarrow> \<forall>i. base \<le> i \<and> i < ?p \<longrightarrow> compar key (xs ! i) \<noteq> 0
        | Some p \<Rightarrow> base \<le> p \<and> p < ?p \<and> compar key (xs ! p) = 0" by simp
      moreover have "bsearch compar key xs base lim = bsearch compar key xs base ?l"
        using lim 3 by (subst bsearch.simps) (simp add: Let_def)
      ultimately show ?thesis
        using hi p by (auto split: option.splits) (metis leI less_irrefl)
    qed
  qed (simp add: bsearch.simps)
qed

section \<open>Comparison functions that are orders\<close>

text \<open>The range in order, and with one element still on its way to its place.\<close>

definition sorted_in :: "('a \<Rightarrow> 'a \<Rightarrow> int) \<Rightarrow> 'a list \<Rightarrow> nat \<Rightarrow> nat \<Rightarrow> bool" where
  "sorted_in cmp xs a n \<longleftrightarrow> (\<forall>i j. a \<le> i \<and> i < j \<and> j < a + n \<longrightarrow> cmp (xs ! i) (xs ! j) \<le> 0)"

definition hole_inv :: "('a \<Rightarrow> 'a \<Rightarrow> int) \<Rightarrow> 'a list \<Rightarrow> nat \<Rightarrow> nat \<Rightarrow> nat \<Rightarrow> bool" where
  "hole_inv cmp xs a k pl \<longleftrightarrow>
     (\<forall>i j. a \<le> i \<and> i < j \<and> j \<le> k \<and> i \<noteq> pl \<and> j \<noteq> pl \<longrightarrow> cmp (xs ! i) (xs ! j) \<le> 0)
     \<and> (\<forall>j. pl < j \<and> j \<le> k \<longrightarrow> cmp (xs ! pl) (xs ! j) \<le> 0)"

text \<open>
  The contract of a comparison function on the elements of \<open>D\<close>: swapping the arguments swaps the
  sign, and being at most equal is transitive.
\<close>

locale comparator =
  fixes D :: "'a set" and cmp :: "'a \<Rightarrow> 'a \<Rightarrow> int"
  assumes swap_sign: "x \<in> D \<Longrightarrow> y \<in> D \<Longrightarrow> sgn (cmp y x) = - sgn (cmp x y)"
    and le_trans: "x \<in> D \<Longrightarrow> y \<in> D \<Longrightarrow> z \<in> D \<Longrightarrow> cmp x y \<le> 0 \<Longrightarrow> cmp y z \<le> 0 \<Longrightarrow> cmp x z \<le> 0"
begin

lemma refl: "x \<in> D \<Longrightarrow> cmp x x = 0"
  using swap_sign [of x x] by (simp add: sgn_if split: if_splits)

lemma swap_less: "x \<in> D \<Longrightarrow> y \<in> D \<Longrightarrow> 0 < cmp y x \<longleftrightarrow> cmp x y < 0"
  using swap_sign [of x y] by (simp add: sgn_if split: if_splits)

lemma swap_eq: "x \<in> D \<Longrightarrow> y \<in> D \<Longrightarrow> cmp y x = 0 \<longleftrightarrow> cmp x y = 0"
  using swap_sign [of x y] by (simp add: sgn_if split: if_splits)

lemma isort_inner_sorted:
  assumes "hole_inv cmp xs a k pl" "set xs \<subseteq> D" "k < length xs" "a \<le> pl" "pl \<le> k"
  shows "sorted_in cmp (isort_inner cmp a xs pl) a (Suc k - a)"
  using assms
proof (induction pl arbitrary: xs)
  case 0
  then have "cmp (xs ! i) (xs ! j) \<le> 0" if "i < j" "j < Suc k" for i j
    using that by (cases i) (auto simp: hole_inv_def)
  then show ?case using 0 by (auto simp: sorted_in_def)
next
  case (Suc q)
  have inD: "i \<le> k \<Longrightarrow> xs ! i \<in> D" for i using Suc.prems by (meson nth_mem order.strict_trans1 subsetD)
  show ?case
  proof (cases "Suc q > a \<and> cmp (xs ! q) (xs ! Suc q) > 0")
    case True
    let ?ys = "swap xs (Suc q) q"
    have nth: "?ys ! i = (if i = Suc q then xs ! q else if i = q then xs ! Suc q else xs ! i)" for i
      using Suc.prems by (simp add: nth_swap)
    have "cmp (xs ! Suc q) (xs ! q) \<le> 0" using True swap_less [of "xs ! Suc q" "xs ! q"] inD Suc.prems by auto
    then have "hole_inv cmp ?ys a k q"
      using Suc.prems(1) True unfolding hole_inv_def nth by (auto simp: less_Suc_eq)
    moreover have "set ?ys \<subseteq> D" using Suc.prems by (simp add: swap_def set_swap)
    ultimately have "sorted_in cmp (isort_inner cmp a ?ys q) a (Suc k - a)"
      using Suc.prems True by (intro Suc.IH) auto
    then show ?thesis using True by simp
  next
    case False
    have "cmp (xs ! i) (xs ! Suc q) \<le> 0" if "a \<le> i" "i < Suc q" for i
    proof (cases "i = q")
      case True
      then show ?thesis using that False by auto
    next
      case neq: False
      then have "cmp (xs ! i) (xs ! q) \<le> 0" "cmp (xs ! q) (xs ! Suc q) \<le> 0"
        using that False Suc.prems by (auto simp: hole_inv_def)
      then show ?thesis using le_trans inD Suc.prems(5) that by (meson Suc_leD order.trans less_imp_le_nat)
    qed
    then have "cmp (xs ! i) (xs ! j) \<le> 0" if "a \<le> i" "i < j" "j \<le> k" for i j
      using that Suc.prems(1) unfolding hole_inv_def by (cases "j = Suc q"; cases "i = Suc q") auto
    then have "sorted_in cmp xs a (Suc k - a)"
      using Suc.prems by (auto simp: sorted_in_def)
    then show ?thesis using False by auto
  qed
qed

lemma isort_sorted:
  assumes "set xs \<subseteq> D" "a + n \<le> length xs"
  shows "sorted_in cmp (isort cmp xs a n) a n"
proof (cases n)
  case (Suc n')
  have "sorted_in cmp (foldl (isort_inner cmp a) xs [a + 1..<a + Suc k]) a (Suc k)" if "Suc k \<le> n" for k
    using that
  proof (induction k)
    case (Suc k)
    let ?ys = "foldl (isort_inner cmp a) xs [a + 1..<a + Suc k]"
    have p: "perm_in a n xs ?ys"
      using perm_in_isort [of a "Suc k" xs cmp] assms(2) Suc.prems perm_in_widen [of a "Suc k" xs ?ys a n]
      by (simp add: isort_def)
    have "hole_inv cmp ?ys a (a + Suc k) (a + Suc k)"
      using Suc by (auto simp: sorted_in_def hole_inv_def)
    moreover have "set ?ys \<subseteq> D" using perm_in_set [OF p] assms(1) by simp
    ultimately have "sorted_in cmp (isort_inner cmp a ?ys (a + Suc k)) a (Suc (a + Suc k) - a)"
      using perm_in_length [OF p] assms(2) Suc.prems by (intro isort_inner_sorted) auto
    then show ?case by simp
  qed (simp add: sorted_in_def)
  then show ?thesis using Suc by (simp add: isort_def)
qed (simp add: sorted_in_def)

lemma three_way_sorted:
  assumes le: "a \<le> b" "b \<le> c" "c \<le> a + n" "a + n \<le> length xs" and D: "set xs \<subseteq> D" "p \<in> D"
    and tw: "three_way cmp p a b c (a + n) xs" and lo: "sorted_in cmp xs a (b - a)" and hi: "sorted_in cmp xs c (a + n - c)"
  shows "sorted_in cmp xs a n"
  unfolding sorted_in_def
proof (intro allI impI; elim conjE)
  fix i j assume ij: "a \<le> i" "i < j" "j < a + n"
  have inD: "xs ! i \<in> D" "xs ! j \<in> D" using ij le D by (auto intro!: subsetD [OF D(1)] nth_mem)
  consider "j < b" | "c \<le> i" | "i < c" "b \<le> j" by linarith
  then show "cmp (xs ! i) (xs ! j) \<le> 0"
  proof cases
    case 1
    then show ?thesis using lo ij by (simp add: sorted_in_def)
  next
    case 2
    then show ?thesis using hi ij le by (simp add: sorted_in_def)
  next
    case 3
    have "cmp (xs ! i) p \<le> 0" using tw 3 ij unfolding three_way_def by (cases "i < b") (auto simp: less_imp_le)
    moreover have "0 \<le> cmp (xs ! j) p" using tw 3 ij unfolding three_way_def by (cases "j < c") (auto simp: less_imp_le)
    then have "cmp p (xs ! j) \<le> 0" using swap_less [OF inD(2) D(2)] swap_eq [OF inD(2) D(2)] by linarith
    ultimately show ?thesis using le_trans inD D(2) by blast
  qed
qed

lemma qsort_sorted: "set xs \<subseteq> D \<Longrightarrow> a + n \<le> length xs \<Longrightarrow> sorted_in cmp (qsort cmp xs a n) a n"
proof (induction n arbitrary: xs a rule: less_induct)
  case (less n)
  show ?case
  proof (cases "n < 7")
    case True
    then show ?thesis using less.prems by (subst qsort.simps) (simp add: isort_sorted)
  next
    case False
    then obtain xs' pa pb pf sc where pd: "part_done cmp xs a n xs' pa pb pf sc"
      using less.prems by (meson not_less part_done_ex)
    then have le: "a < pa" "pa \<le> pb" "pb \<le> pf" "pf \<le> a + n" and xs': "perm_in a n xs xs'"
      by (auto simp: part_done_def)
    have D': "set xs' \<subseteq> D" "a + n \<le> length xs'" using less.prems perm_in_set [OF xs'] perm_in_length [OF xs'] by auto
    show ?thesis
    proof (cases sc)
      case sc: True
      define p where "p = swap xs a (choose_pm cmp xs a n) ! a"
      define ys where "ys = gather xs' a n pa pb pf"
      define zs where "zs = (if pb - pa > 1 then qsort cmp ys a (pb - pa) else ys)"
      define c where "c = a + n - (pf - pb)"
      define ws where "ws = (if pf - pb > 1 then qsort cmp zs c (pf - pb) else zs)"
      have cl: "a + (pb - pa) \<le> c" "c \<le> a + n" "c + (pf - pb) = a + n" "pb - pa < n" "pf - pb < n"
        using le False unfolding c_def by auto
      have pos: "choose_pm cmp xs a n < length xs" using choose_pm_bounds [of n a cmp xs] False less.prems by auto
      have p: "p \<in> D" unfolding p_def using pos less.prems False by (auto simp: nth_swap intro!: subsetD [OF less.prems(1)])
      have "part_inv cmp p a (a + n) (swap xs a (choose_pm cmp xs a n)) (a + 1) (a + 1) (a + n) (a + n)"
        using refl [OF p] p_def by (auto simp: part_inv_def less_Suc_eq)
      then have inv: "part_inv cmp p a (a + n) xs' pa pb pb pf"
        using pd part_loop_inv [of cmp a "swap xs a (choose_pm cmp xs a n)" "a + 1" "a + 1" "a + n" "a + n" False]
          less.prems False by (simp add: part_done_def)
      have tw: "three_way cmp p a (a + (pb - pa)) c (a + n) ys"
        unfolding ys_def c_def by (rule gather_three_way [OF inv le D'(2)])
      have ys: "perm_in a n xs' ys" unfolding ys_def using perm_in_gather [OF le D'(2)] .
      note ysl = perm_in_length [OF ys] perm_in_set [OF ys]
      have zs: "perm_in a (pb - pa) ys zs" "sorted_in cmp zs a (pb - pa)"
        unfolding zs_def using perm_in_qsort [of a "pb - pa" ys cmp] less.IH [OF cl(4), of ys a] ysl D' cl
        by (auto simp: sorted_in_def)
      note zsl = perm_in_length [OF zs(1)] perm_in_set [OF zs(1)]
      have ws: "perm_in c (pf - pb) zs ws" "sorted_in cmp ws c (pf - pb)"
        unfolding ws_def using perm_in_qsort [of c "pf - pb" zs cmp] less.IH [OF cl(5), of zs c] zsl ysl D' cl
        by (auto simp: sorted_in_def)
      note wsl = perm_in_length [OF ws(1)] perm_in_set [OF ws(1)]
      have "three_way cmp p a (a + (pb - pa)) c (a + n) zs"
        using cl ysl D' by (intro three_way_perm [OF tw zs(1)]) auto
      then have "three_way cmp p a (a + (pb - pa)) c (a + n) ws"
        using cl ysl zsl D' by (intro three_way_perm [OF _ ws(1)]) auto
      moreover have "sorted_in cmp ws a (pb - pa)"
        using zs(2) ws(1) cl unfolding sorted_in_def perm_in_def by auto
      moreover have "sorted_in cmp ws c (a + n - c)" using ws(2) cl by (metis diff_add_inverse)
      ultimately have "sorted_in cmp ws a n"
        using cl p D' wsl zsl ysl by (intro three_way_sorted [of a "a + (pb - pa)" c n ws p]) auto
      moreover have "qsort cmp xs a n = ws"
        using qsort_unfold [OF pd] sc False unfolding ws_def zs_def ys_def c_def by (simp add: Let_def)
      ultimately show ?thesis by simp
    next
      case False
      then show ?thesis using qsort_unfold [OF pd] \<open>\<not> n < 7\<close> isort_sorted D' by simp
    qed
  qed
qed

lemma bsearch_sorted:
  assumes "sorted_in cmp xs 0 (length xs)" "set xs \<subseteq> D" "key \<in> D"
  shows "case bsearch cmp key xs 0 (length xs) of
      None \<Rightarrow> \<forall>x \<in> set xs. cmp key x \<noteq> 0 | Some p \<Rightarrow> p < length xs \<and> cmp key (xs ! p) = 0"
proof -
  have "monotone_sign cmp key xs 0 (length xs)"
    unfolding monotone_sign_def
  proof (intro allI impI; elim conjE)
    fix i j assume ij: "i < j" "j < 0 + length xs"
    then have le: "cmp (xs ! i) (xs ! j) \<le> 0" and D: "xs ! i \<in> D" "xs ! j \<in> D"
      using assms by (auto simp: sorted_in_def)
    show "(cmp key (xs ! i) \<le> 0 \<longrightarrow> cmp key (xs ! j) \<le> 0) \<and> (cmp key (xs ! i) < 0 \<longrightarrow> cmp key (xs ! j) < 0)"
    proof (intro conjI impI)
      assume "cmp key (xs ! i) \<le> 0"
      then show "cmp key (xs ! j) \<le> 0" using le le_trans D assms(3) by blast
    next
      assume lt: "cmp key (xs ! i) < 0"
      show "cmp key (xs ! j) < 0"
      proof (rule ccontr)
        assume "\<not> cmp key (xs ! j) < 0"
        then have "cmp (xs ! j) key \<le> 0" using swap_less D assms(3) by fastforce
        then have "cmp (xs ! i) key \<le> 0" using le le_trans D assms(3) by blast
        then show False using lt swap_less [of key "xs ! i"] D assms(3) by linarith
      qed
    qed
  qed
  from bsearch_spec [OF this] show ?thesis
    by (auto split: option.splits simp: in_set_conv_nth)
qed

end

section \<open>The comparison functions of the library\<close>

interpretation str_cmp: comparator "{s. 0 \<notin> set s}" str_order
proof
  show "sgn (str_order t s) = - sgn (str_order s t)" for s t
    by (subst str_order_swap) simp
qed (use str_order_trans in blast)

interpretation mem_cmp: comparator "{s. length s = n}" diff_first
proof
  show "sgn (diff_first t s) = - sgn (diff_first s t)" for s t
    by (subst diff_first_swap) simp
  show "diff_first x z \<le> 0"
    if "x \<in> {s. length s = n}" "y \<in> {s. length s = n}" "z \<in> {s. length s = n}" "diff_first x y \<le> 0" "diff_first y z \<le> 0"
    for x y z using that diff_first_trans [of x y z] by simp
qed

interpretation quad_cmp: comparator UNIV "\<lambda>a b. cmpdi2 a b - 1"
  by unfold_locales (auto simp: cmpdi2_eq split: if_splits)

section \<open>Exchanges in memory\<close>

lemma elems_swap:
  assumes "base + n * es \<le> length m" "i < n" "j < n"
  shows "elems (xchg m (base + i * es) (base + j * es) es) base es n = swap (elems m base es n) i j"
  using assms by (simp add: elems_xchg swap_def)

lemma elems_vecswap:
  assumes "base + n * es \<le> length m" "i + r \<le> j" "j + r \<le> n"
  shows "elems (xchg m (base + i * es) (base + j * es) (r * es)) base es n = vecswap (elems m base es n) i j r"
  using assms
proof (induction r arbitrary: m i j)
  case 0
  then show ?case by (simp add: xchg_def)
next
  case (Suc r)
  let ?p = "base + i * es" and ?q = "base + j * es"
  let ?m = "xchg m ?p ?q es"
  have le: "?p + (es + r * es) \<le> ?q" using mult_le_mono1 [of "i + Suc r" j es] Suc.prems by (simp add: algebra_simps)
  have ub: "?q + (es + r * es) \<le> length m" using mult_le_mono1 [of "j + Suc r" n es] Suc.prems by (simp add: algebra_simps)
  have "xchg m ?p ?q (Suc r * es) = xchg ?m (?p + es) (?q + es) (r * es)"
    using xchg_add_before [OF le ub] by simp
  also have "\<dots> = xchg ?m (base + (i + 1) * es) (base + (j + 1) * es) (r * es)" by (simp add: algebra_simps)
  finally have "xchg m ?p ?q (Suc r * es) = xchg ?m (base + (i + 1) * es) (base + (j + 1) * es) (r * es)" .
  moreover have "elems (xchg ?m (base + (i + 1) * es) (base + (j + 1) * es) (r * es)) base es n
      = vecswap (elems ?m base es n) (i + 1) (j + 1) r"
    using Suc.prems le ub by (intro Suc.IH) auto
  ultimately have "elems (xchg m ?p ?q (Suc r * es)) base es n = vecswap (elems ?m base es n) (i + 1) (j + 1) r"
    by simp
  then show ?case using Suc.prems by (simp add: elems_swap)
qed

lemma SWAPINIT_words: "SWAPINIT base es \<le> 1 \<Longrightarrow> 4 dvd es"
  by (auto simp: SWAPINIT_def dvd_eq_mod_eq_0 split: if_splits)

section \<open>Properties\<close>

text \<open>
  C5: \<open>qsort\<close> sorts: for a comparison function that is an order on the elements, the range comes out in
  ascending order, it is a permutation of what it was, and nothing outside the range moves.
\<close>

theorem qsort_sorts:
  assumes "comparator D cmp" "set xs \<subseteq> D" "a + n \<le> length xs"
  shows "sorted_in cmp (qsort cmp xs a n) a n \<and> mset (qsort cmp xs a n) = mset xs
    \<and> (\<forall>i. i < a \<or> a + n \<le> i \<longrightarrow> qsort cmp xs a n ! i = xs ! i)"
  using comparator.qsort_sorted [OF assms] perm_in_qsort [OF assms(3), of cmp] by (simp add: perm_in_def)

theorem qsort_sorts_witness:
  "sorted_in str_order (qsort str_order [[99], [98, 97], [], [98], [97, 1], [97], [98], [97, 1]] 0 8) 0 8
   \<and> qsort str_order [[99], [98, 97], [], [98], [97, 1], [97], [98], [97, 1]] 0 8
     = [[], [97], [97, 1], [97, 1], [98], [98], [98, 97], [99]]"
proof
  show "sorted_in str_order (qsort str_order [[99], [98, 97], [], [98], [97, 1], [97], [98], [97, 1]] 0 8) 0 8"
    using qsort_sorts [OF str_cmp.comparator_axioms, of "[[99], [98, 97], [], [98], [97, 1], [97], [98], [97, 1]]" 0 8]
    by simp
qed code_simp

text \<open>
  Whatever the comparison function answers, even one that is no order, \<open>qsort\<close> ends and the array
  is a permutation of what it was, unchanged outside the range.
\<close>

theorem qsort_permutes:
  assumes "a + n \<le> length xs"
  shows "mset (qsort cmp xs a n) = mset xs \<and> (\<forall>i. i < a \<or> a + n \<le> i \<longrightarrow> qsort cmp xs a n ! i = xs ! i)"
  using perm_in_qsort [OF assms, of cmp] by (simp add: perm_in_def)

theorem qsort_permutes_witness:
  "mset (qsort (\<lambda>x y. 1) [1, 2, 3 :: int] 0 3) = {#1, 2, 3#}"
  using qsort_permutes [of 0 3 "[1, 2, 3 :: int]" "\<lambda>x y. 1"] by simp

text \<open>
  C38: the exchanges of \<open>qsort.c\<close>, which pick words or bytes by the alignment of the array and of the
  element size, exchange two elements, or two runs of elements, of the array in memory.
\<close>

theorem exchanges_refine:
  assumes "0 < es" "base + n * es \<le> length m" "i < n" "j < n" "k + r \<le> l" "l + r \<le> n"
  shows "swap_bytes m (base + i * es) (base + j * es) es (SWAPINIT base es) = Some (xchg m (base + i * es) (base + j * es) es)
    \<and> elems (xchg m (base + i * es) (base + j * es) es) base es n = swap (elems m base es n) i j
    \<and> vecswap_bytes m (base + k * es) (base + l * es) (r * es) (SWAPINIT base es)
      = Some (xchg m (base + k * es) (base + l * es) (r * es))
    \<and> elems (xchg m (base + k * es) (base + l * es) (r * es)) base es n = vecswap (elems m base es n) k l r"
proof (intro conjI)
  have ij: "base + i * es + es \<le> length m" "base + j * es + es \<le> length m" using assms by (auto intro: elem_bound)
  show "swap_bytes m (base + i * es) (base + j * es) es (SWAPINIT base es) = Some (xchg m (base + i * es) (base + j * es) es)"
  proof (cases "SWAPINIT base es = 0")
    case True
    then have "es = 4" by (auto simp: SWAPINIT_def split: if_splits)
    then show ?thesis using True ij unfolding swap_bytes_def by (simp only: if_True refl swap_word)
  next
    case False
    then show ?thesis using ij assms(1) elem_apart SWAPINIT_words
      by (auto simp: swap_bytes_def intro!: swapfunc_spec)
  qed
  have "(k + r) * es \<le> l * es" "(l + r) * es \<le> n * es" using assms by (auto intro: mult_le_mono1)
  then have kl: "base + k * es + r * es \<le> base + l * es" "base + l * es + r * es \<le> length m"
    using assms(2) by (auto simp: algebra_simps)
  show "vecswap_bytes m (base + k * es) (base + l * es) (r * es) (SWAPINIT base es)
      = Some (xchg m (base + k * es) (base + l * es) (r * es))"
  proof (cases "r = 0")
    case True
    then show ?thesis by (simp add: vecswap_bytes_def xchg_def)
  next
    case False
    then have "swapfunc m (base + k * es) (base + l * es) (r * es) (SWAPINIT base es)
        = Some (xchg m (base + k * es) (base + l * es) (r * es))"
      using kl assms(1) SWAPINIT_words [of base es] by (intro swapfunc_spec) (auto simp: apart_def)
    then show ?thesis using False assms(1) by (simp add: vecswap_bytes_def)
  qed
qed (use assms in \<open>simp_all add: elems_swap elems_vecswap\<close>)

theorem exchanges_refine_witness:
  "swap_bytes [1, 2, 3, 4, 5, 6] 4 0 2 2 = Some [5, 6, 3, 4, 1, 2]
   \<and> vecswap_bytes [1, 2, 3, 4, 5, 6] 0 4 2 2 = Some [5, 6, 3, 4, 1, 2]"
  using exchanges_refine [of 2 0 3 "[1, 2, 3, 4, 5, 6]" 2 0 0 1 2]
  by (simp add: SWAPINIT_def xchg_def put_def slice_def del: One_nat_def)

text \<open>
  After \<open>qsort\<close>, \<open>bsearch\<close> with the same comparison function returns an element equal to the key
  when there is one, and a null pointer exactly when there is none.
\<close>

theorem bsearch_after_qsort:
  assumes "comparator D cmp" "set xs \<subseteq> D" "key \<in> D"
  shows "case bsearch cmp key (qsort cmp xs 0 (length xs)) 0 (length xs) of
      None \<Rightarrow> \<forall>x \<in> set xs. cmp key x \<noteq> 0
    | Some p \<Rightarrow> p < length xs \<and> cmp key (qsort cmp xs 0 (length xs) ! p) = 0"
proof -
  have "perm_in 0 (length xs) xs (qsort cmp xs 0 (length xs))" by (simp add: perm_in_qsort)
  then have "length (qsort cmp xs 0 (length xs)) = length xs" "set (qsort cmp xs 0 (length xs)) = set xs"
    by (rule perm_in_length, rule perm_in_set)
  then show ?thesis
    using comparator.bsearch_sorted [OF assms(1) _ _ assms(3), of "qsort cmp xs 0 (length xs)"]
      comparator.qsort_sorted [OF assms(1,2), of 0 "length xs"] assms(2) by (simp split: option.splits)
qed

theorem bsearch_after_qsort_witness:
  "bsearch str_order [98] (qsort str_order [[99], [98], [97]] 0 3) 0 3 = Some 1
   \<and> str_order [98] (qsort str_order [[99], [98], [97]] 0 3 ! 1) = 0
   \<and> bsearch str_order [100] (qsort str_order [[99], [98], [97]] 0 3) 0 3 = None"
proof -
  have "bsearch str_order [98] (qsort str_order [[99], [98], [97]] 0 3) 0 3 = Some 1"
    "bsearch str_order [100] (qsort str_order [[99], [98], [97]] 0 3) 0 3 = None" by code_simp+
  then show ?thesis
    using bsearch_after_qsort [OF str_cmp.comparator_axioms, of "[[99], [98], [97]]" "[98]"] by (simp add: numeral_3_eq_3)
qed

end
