(* ===== verification/Heap.thy ===== *)
theory Heap
  imports Sort
begin

text \<open>
  \<open>lib/libc/stdlib/heapsort.c\<close>. Items are numbered from 1, as the macros of the source number them, over the
  array of elements; theory \<open>Xchg\<close> has the byte loops of \<open>SWAP\<close> and \<open>COPY\<close>. The comparison function is the one
  of theory \<open>Sort\<close>, and the correctness of the routine rests on the same contract.
\<close>

section \<open>Definitions\<close>

text \<open>Item \<open>i\<close>: \<open>base\<close> lies one element below the array.\<close>

definition item :: "'a list \<Rightarrow> nat \<Rightarrow> 'a" where
  "item xs i = xs ! (i - 1)"

definition set_item :: "'a list \<Rightarrow> nat \<Rightarrow> 'a \<Rightarrow> 'a list" where
  "set_item xs i x = xs[i - 1 := x]"

text \<open>The larger child of an item, as both macros pick it.\<close>

definition larger_child :: "('a \<Rightarrow> 'a \<Rightarrow> int) \<Rightarrow> 'a list \<Rightarrow> nat \<Rightarrow> nat \<Rightarrow> nat" where
  "larger_child compar xs nmemb child_i =
     (if child_i < nmemb \<and> compar (item xs child_i) (item xs (child_i + 1)) < 0 then child_i + 1 else child_i)"

text \<open>
  The loops start at item 1 or above, and double the item at every turn; the first conjunct of the
  conditions is true wherever the code comes by.
\<close>

function CREATE :: "('a \<Rightarrow> 'a \<Rightarrow> int) \<Rightarrow> nat \<Rightarrow> 'a list \<Rightarrow> nat \<Rightarrow> 'a list" where
  "CREATE compar nmemb xs par_i =
     (if 0 < par_i \<and> par_i * 2 \<le> nmemb then
        let child_i = larger_child compar xs nmemb (par_i * 2) in
        if compar (item xs child_i) (item xs par_i) \<le> 0 then xs
        else CREATE compar nmemb (swap xs (par_i - 1) (child_i - 1)) child_i
      else xs)"
  by pat_completeness auto
termination
  by (relation "measure (\<lambda>(compar, nmemb, xs, par_i). nmemb - par_i)") (auto simp: larger_child_def split: if_splits)

function SELECT_down :: "('a \<Rightarrow> 'a \<Rightarrow> int) \<Rightarrow> nat \<Rightarrow> 'a list \<Rightarrow> nat \<Rightarrow> 'a list \<times> nat" where
  "SELECT_down compar nmemb xs par_i =
     (if 0 < par_i \<and> par_i * 2 \<le> nmemb then
        let child_i = larger_child compar xs nmemb (par_i * 2) in
        SELECT_down compar nmemb (set_item xs par_i (item xs child_i)) child_i
      else (xs, par_i))"
  by pat_completeness auto
termination
  by (relation "measure (\<lambda>(compar, nmemb, xs, par_i). nmemb - par_i)") (auto simp: larger_child_def split: if_splits)

function SELECT_up :: "('a \<Rightarrow> 'a \<Rightarrow> int) \<Rightarrow> 'a \<Rightarrow> 'a list \<Rightarrow> nat \<Rightarrow> 'a list" where
  "SELECT_up compar k xs child_i =
     (let par_i = child_i div 2 in
      if child_i \<le> 1 \<or> compar k (item xs par_i) < 0 then set_item xs child_i k
      else SELECT_up compar k (set_item xs child_i (item xs par_i)) par_i)"
  by pat_completeness auto
termination
  by (relation "measure (\<lambda>(compar, k, xs, child_i). child_i)") auto

definition SELECT :: "('a \<Rightarrow> 'a \<Rightarrow> int) \<Rightarrow> nat \<Rightarrow> 'a list \<Rightarrow> 'a \<Rightarrow> 'a list" where
  "SELECT compar nmemb xs k = (case SELECT_down compar nmemb xs 1 of (xs, par_i) \<Rightarrow> SELECT_up compar k xs par_i)"

declare CREATE.simps [simp del] SELECT_down.simps [simp del] SELECT_up.simps [simp del]

text \<open>The two loops of the routine: \<open>l\<close> counts down from \<open>nmemb / 2\<close> to 1, then \<open>nmemb\<close> down to 1.\<close>

fun heap_create :: "('a \<Rightarrow> 'a \<Rightarrow> int) \<Rightarrow> nat \<Rightarrow> 'a list \<Rightarrow> nat \<Rightarrow> 'a list" where
  "heap_create compar nmemb xs 0 = xs"
| "heap_create compar nmemb xs (Suc l) = heap_create compar nmemb (CREATE compar nmemb xs (Suc l)) l"

fun heap_select :: "('a \<Rightarrow> 'a \<Rightarrow> int) \<Rightarrow> 'a list \<Rightarrow> nat \<Rightarrow> 'a list" where
  "heap_select compar xs nmemb =
     (if nmemb > 1 then
        let k = item xs nmemb; xs = set_item xs nmemb (item xs 1) in
        heap_select compar (SELECT compar (nmemb - 1) xs k) (nmemb - 1)
      else xs)"

declare heap_select.simps [simp del]

text \<open>The outcome: the value returned, the error left in \<open>errno\<close> by the routine itself, and the array.\<close>

datatype heap_errno = EINVAL

definition heapsort :: "bool \<Rightarrow> ('a \<Rightarrow> 'a \<Rightarrow> int) \<Rightarrow> 'a list \<Rightarrow> nat \<Rightarrow> nat \<Rightarrow> int \<times> heap_errno option \<times> 'a list" where
  "heapsort malloc_ok compar xs nmemb es =
     (if nmemb \<le> 1 then (0, None, xs)
      else if es = 0 then (-1, Some EINVAL, xs)
      else if \<not> malloc_ok then (-1, None, xs)
      else (0, None, heap_select compar (heap_create compar nmemb xs (nmemb div 2)) nmemb))"

section \<open>Heaps\<close>

text \<open>
  Every item from \<open>l\<close> on is at least as large as its children. While an item sinks from \<open>par_i\<close>, only
  its own children may be larger.
\<close>

definition heap :: "('a \<Rightarrow> 'a \<Rightarrow> int) \<Rightarrow> nat \<Rightarrow> nat \<Rightarrow> 'a list \<Rightarrow> bool" where
  "heap compar l n xs \<longleftrightarrow> (\<forall>j. 2 \<le> j \<and> j \<le> n \<and> l \<le> j div 2 \<longrightarrow> compar (item xs j) (item xs (j div 2)) \<le> 0)"

definition sinking :: "('a \<Rightarrow> 'a \<Rightarrow> int) \<Rightarrow> nat \<Rightarrow> nat \<Rightarrow> nat \<Rightarrow> 'a list \<Rightarrow> bool" where
  "sinking compar l n p xs \<longleftrightarrow>
     (\<forall>j. 2 \<le> j \<and> j \<le> n \<and> l \<le> j div 2 \<and> j div 2 \<noteq> p \<longrightarrow> compar (item xs j) (item xs (j div 2)) \<le> 0)
     \<and> (\<forall>j. 2 \<le> j \<and> j \<le> n \<and> j div 2 = p \<and> l \<le> p div 2 \<longrightarrow> compar (item xs j) (item xs (p div 2)) \<le> 0)"

lemma item_set_item:
  "1 \<le> i \<Longrightarrow> i \<le> length xs \<Longrightarrow> 1 \<le> j \<Longrightarrow> item (set_item xs i x) j = (if j = i then x else item xs j)"
  by (auto simp: item_def set_item_def nth_list_update)

lemma length_set_item [simp]: "length (set_item xs i x) = length xs"
  by (simp add: set_item_def)

lemma item_swap:
  "1 \<le> i \<Longrightarrow> i \<le> length xs \<Longrightarrow> 1 \<le> j \<Longrightarrow> j \<le> length xs \<Longrightarrow> 1 \<le> k \<Longrightarrow>
   item (swap xs (i - 1) (j - 1)) k = (if k = i then item xs j else if k = j then item xs i else item xs k)"
  by (auto simp: item_def nth_swap)

lemma larger_child_cases:
  assumes "0 < p" "p * 2 \<le> n" and c: "c = larger_child compar xs n (p * 2)"
  shows "c div 2 = p" "2 \<le> c" "c \<le> n" "p < c"
  using assms by (auto simp: larger_child_def)

section \<open>Permutations\<close>

lemma perm_in_CREATE: "n \<le> length xs \<Longrightarrow> perm_in 0 n xs (CREATE compar n xs p)"
proof (induction compar n xs p rule: CREATE.induct)
  case (1 compar n xs p)
  let ?c = "larger_child compar xs n (p * 2)"
  show ?case
  proof (cases "0 < p \<and> p * 2 \<le> n \<and> \<not> compar (item xs ?c) (item xs p) \<le> 0")
    case True
    then have c: "2 \<le> ?c" "?c \<le> n" using larger_child_cases [of p n ?c compar xs] by auto
    have "perm_in 0 n xs (swap xs (p - 1) (?c - 1))"
      using True c "1.prems" by (intro perm_in_swap) auto
    moreover have "perm_in 0 n (swap xs (p - 1) (?c - 1)) (CREATE compar n (swap xs (p - 1) (?c - 1)) ?c)"
      using "1.IH" [OF _ refl] True "1.prems" by simp
    ultimately show ?thesis
      using True by (subst CREATE.simps) (auto simp: Let_def intro: perm_in_trans)
  next
    case False
    then show ?thesis by (subst CREATE.simps) (auto simp: Let_def)
  qed
qed

lemma perm_in_heap_create: "n \<le> length xs \<Longrightarrow> perm_in 0 n xs (heap_create compar n xs l)"
proof (induction l arbitrary: xs)
  case (Suc l)
  have p: "perm_in 0 n xs (CREATE compar n xs (Suc l))" using Suc.prems by (rule perm_in_CREATE)
  then show ?case using Suc perm_in_length [OF p] by (auto intro: perm_in_trans)
qed simp

text \<open>\<open>SELECT\<close> keeps the displaced element apart: with it in the hole, the array is a permutation throughout.\<close>

lemma SELECT_down_perm:
  "SELECT_down compar n xs p = (ys, q) \<Longrightarrow> 1 \<le> p \<Longrightarrow> p \<le> n \<Longrightarrow> n \<le> length xs \<Longrightarrow>
   perm_in 0 n (set_item xs p k) (set_item ys q k) \<and> p \<le> q \<and> q \<le> n \<and> n < q * 2 \<and> length ys = length xs"
proof (induction compar n xs p rule: SELECT_down.induct)
  case (1 compar n xs p)
  let ?c = "larger_child compar xs n (p * 2)"
  show ?case
  proof (cases "p * 2 \<le> n")
    case True
    then have c: "2 \<le> ?c" "?c \<le> n" "p < ?c" using larger_child_cases [of p n ?c compar xs] "1.prems" by auto
    let ?zs = "set_item xs p (item xs ?c)"
    have "set_item ?zs ?c k = swap (set_item xs p k) (p - 1) (?c - 1)"
      using c "1.prems" by (intro nth_equalityI) (auto simp: set_item_def item_def swap_def nth_list_update)
    moreover have "perm_in 0 n (set_item xs p k) (swap (set_item xs p k) (p - 1) (?c - 1))"
      using c "1.prems" by (intro perm_in_swap) auto
    moreover have "SELECT_down compar n ?zs ?c = (ys, q)"
      using "1.prems" True by (subst (asm) SELECT_down.simps) (simp add: Let_def)
    ultimately show ?thesis
      using "1.IH" [OF _ refl] True "1.prems" c by (auto intro: perm_in_trans)
  next
    case False
    then show ?thesis using "1.prems" by (subst (asm) SELECT_down.simps) auto
  qed
qed

lemma SELECT_up_perm:
  "1 \<le> q \<Longrightarrow> q \<le> n \<Longrightarrow> n \<le> length xs \<Longrightarrow> perm_in 0 n (set_item xs q k) (SELECT_up compar k xs q)"
proof (induction compar k xs q rule: SELECT_up.induct)
  case (1 compar k xs q)
  show ?case
  proof (cases "q \<le> 1 \<or> compar k (item xs (q div 2)) < 0")
    case True
    then show ?thesis by (subst SELECT_up.simps) (simp add: Let_def)
  next
    case False
    let ?zs = "set_item xs q (item xs (q div 2))"
    have "set_item ?zs (q div 2) k = swap (set_item xs q k) (q - 1) (q div 2 - 1)"
      using False "1.prems" by (intro nth_equalityI) (auto simp: set_item_def item_def swap_def nth_list_update)
    moreover have "perm_in 0 n (set_item xs q k) (swap (set_item xs q k) (q - 1) (q div 2 - 1))"
      using False "1.prems" by (intro perm_in_swap) auto
    ultimately show ?thesis
      using "1.IH" [OF refl _] False "1.prems" by (subst SELECT_up.simps) (auto simp: Let_def intro: perm_in_trans)
  qed
qed

lemma perm_in_SELECT:
  assumes "1 \<le> n" "n \<le> length xs"
  shows "perm_in 0 n (set_item xs 1 k) (SELECT compar n xs k)"
proof -
  obtain ys q where d: "SELECT_down compar n xs 1 = (ys, q)" by fastforce
  note s = SELECT_down_perm [OF d _ assms, of k]
  show ?thesis
    unfolding SELECT_def d using s SELECT_up_perm [of q n ys k compar] assms by (auto intro: perm_in_trans)
qed

section \<open>Sorting\<close>

text \<open>The proofs for any comparison function that keeps the contract of theory \<open>Sort\<close>.\<close>

context comparator
begin

lemma item_in: "set xs \<subseteq> D \<Longrightarrow> 1 \<le> j \<Longrightarrow> j \<le> length xs \<Longrightarrow> item xs j \<in> D"
  by (auto simp: item_def intro!: subsetD [of "set xs" D])

lemma larger_child_max:
  assumes "set xs \<subseteq> D" "n \<le> length xs" "0 < p" "p * 2 \<le> n" "2 \<le> j" "j \<le> n" "j div 2 = p"
  shows "cmp (item xs j) (item xs (larger_child cmp xs n (p * 2))) \<le> 0"
proof -
  have D: "item xs (p * 2) \<in> D" "item xs j \<in> D" "p * 2 + 1 \<le> n \<Longrightarrow> item xs (p * 2 + 1) \<in> D"
    using assms by (auto intro!: item_in)
  consider "j = p * 2" | "j = p * 2 + 1" using assms(7) by linarith
  then show ?thesis
  proof cases
    case 1
    then show ?thesis using refl [OF D(1)] assms by (auto simp: larger_child_def)
  next
    case 2
    then show ?thesis using refl [OF D(2)] swap_less [of "item xs (p * 2 + 1)" "item xs (p * 2)"] swap_less [of "item xs (p * 2)" "item xs (p * 2 + 1)"] swap_eq [of "item xs (p * 2)" "item xs (p * 2 + 1)"] D assms
      by (auto simp: larger_child_def)
  qed
qed

lemma CREATE_heap:
  "sinking cmp l n p xs \<Longrightarrow> set xs \<subseteq> D \<Longrightarrow> n \<le> length xs \<Longrightarrow> 0 < l \<Longrightarrow> l \<le> p \<Longrightarrow> p \<le> n \<Longrightarrow> heap cmp l n (CREATE cmp n xs p)"
proof (induction "n - p" arbitrary: xs p rule: less_induct)
  case less
  let ?c = "larger_child cmp xs n (p * 2)"
  note pr = less.prems
  show ?case
  proof (cases "p * 2 \<le> n")
    case True
    have p0: "0 < p" using pr by simp
    note c = larger_child_cases [OF p0 True HOL.refl, of cmp xs]
    have mx: "cmp (item xs j) (item xs ?c) \<le> 0" if "2 \<le> j" "j \<le> n" "j div 2 = p" for j
      using larger_child_max [OF pr(2,3) p0 True that] .
    have D: "item xs ?c \<in> D" "item xs p \<in> D" using item_in pr c p0 by auto
    show ?thesis
    proof (cases "cmp (item xs ?c) (item xs p) \<le> 0")
      case le: True
      have "cmp (item xs j) (item xs p) \<le> 0" if "2 \<le> j" "j \<le> n" "j div 2 = p" for j
        using mx [OF that] le le_trans D item_in pr that by (meson dual_order.trans one_le_numeral)
      then have "heap cmp l n xs" using pr(1) unfolding heap_def sinking_def by metis
      then show ?thesis using True le p0 by (subst CREATE.simps) simp
    next
      case gt: False
      let ?ys = "swap xs (p - 1) (?c - 1)"
      have it: "item ?ys j = (if j = p then item xs ?c else if j = ?c then item xs p else item xs j)" if "1 \<le> j" for j
        using that c p0 pr by (intro item_swap) auto
      have pc: "cmp (item xs p) (item xs ?c) \<le> 0" using gt swap_less [OF D(2,1)] by linarith
      have "sinking cmp l n ?c ?ys"
        unfolding sinking_def
      proof (intro conjI allI impI; elim conjE)
        fix j assume j: "2 \<le> j" "j \<le> n" "l \<le> j div 2" "j div 2 \<noteq> ?c"
        consider "j = ?c" | "j = p" | "j \<noteq> ?c" "j div 2 = p" | "j \<noteq> ?c" "j \<noteq> p" "j div 2 \<noteq> p" by blast
        then show "cmp (item ?ys j) (item ?ys (j div 2)) \<le> 0"
        proof cases
          case 1
          then show ?thesis using it [of j] it [of p] pc c p0 by simp
        next
          case 2
          then have "p div 2 \<noteq> p" "p div 2 \<noteq> ?c" "1 \<le> p div 2" using j c by auto
          then show ?thesis using 2 it [of j] it [of "p div 2"] j c pr(1) by (auto simp: sinking_def)
        next
          case 3
          then have "j \<noteq> p" using p0 by auto
          then show ?thesis using 3 it [of j] it [of p] mx j p0 by simp
        next
          case 4
          then show ?thesis using it [of j] it [of "j div 2"] j pr(1) by (auto simp: sinking_def)
        qed
      next
        fix j assume j: "2 \<le> j" "j \<le> n" "j div 2 = ?c" "l \<le> ?c div 2"
        then have "j \<noteq> p" "j \<noteq> ?c" using c by auto
        then show "cmp (item ?ys j) (item ?ys (?c div 2)) \<le> 0"
          using it [of j] it [of p] j c p0 pr(1) by (auto simp: sinking_def)
      qed
      then have "heap cmp l n (CREATE cmp n ?ys ?c)"
        using pr c by (intro less.hyps) (auto simp: swap_def set_swap)
      then show ?thesis using True gt p0 by (subst CREATE.simps) (simp add: Let_def)
    qed
  next
    case False
    then have "heap cmp l n xs" using pr(1) unfolding heap_def sinking_def by auto
    then show ?thesis using False by (subst CREATE.simps) simp
  qed
qed

lemma heap_create_heap:
  "heap cmp (Suc l) n xs \<Longrightarrow> set xs \<subseteq> D \<Longrightarrow> n \<le> length xs \<Longrightarrow> l \<le> n \<Longrightarrow> heap cmp 1 n (heap_create cmp n xs l)"
proof (induction l arbitrary: xs)
  case (Suc l)
  have p: "perm_in 0 n xs (CREATE cmp n xs (Suc l))" using Suc.prems by (intro perm_in_CREATE)
  have "sinking cmp (Suc l) n (Suc l) xs" using Suc.prems(1) unfolding heap_def sinking_def by auto
  then have "heap cmp (Suc l) n (CREATE cmp n xs (Suc l))" using Suc.prems by (intro CREATE_heap) auto
  then show ?case using Suc perm_in_length [OF p] perm_in_set [OF p] by simp
qed simp

lemma heap_top:
  "heap cmp 1 n xs \<Longrightarrow> set xs \<subseteq> D \<Longrightarrow> n \<le> length xs \<Longrightarrow> 1 \<le> j \<Longrightarrow> j \<le> n \<Longrightarrow> cmp (item xs j) (item xs 1) \<le> 0"
proof (induction j rule: less_induct)
  case (less j)
  have D: "item xs i \<in> D" if "1 \<le> i" "i \<le> n" for i using item_in less.prems that by simp
  show ?case
  proof (cases "j = 1")
    case True
    then show ?thesis using refl D less.prems by auto
  next
    case False
    then have "cmp (item xs j) (item xs (j div 2)) \<le> 0" "cmp (item xs (j div 2)) (item xs 1) \<le> 0"
      using less by (auto simp: heap_def)
    moreover have "item xs j \<in> D" "item xs (j div 2) \<in> D" "item xs 1 \<in> D" using D less.prems False by auto
    ultimately show ?thesis by (meson le_trans)
  qed
qed

lemma SELECT_down_heap:
  "SELECT_down cmp n xs p = (ys, q) \<Longrightarrow> heap cmp 1 n xs \<Longrightarrow> set xs \<subseteq> D \<Longrightarrow> 1 \<le> p \<Longrightarrow> p \<le> n \<Longrightarrow> n \<le> length xs \<Longrightarrow>
   heap cmp 1 n ys \<and> set ys \<subseteq> D"
proof (induction "n - p" arbitrary: xs p rule: less_induct)
  case less
  let ?c = "larger_child cmp xs n (p * 2)"
  note pr = less.prems
  show ?case
  proof (cases "p * 2 \<le> n")
    case True
    have p0: "0 < p" using pr by simp
    note c = larger_child_cases [OF p0 True HOL.refl, of cmp xs]
    let ?zs = "set_item xs p (item xs ?c)"
    have D: "item xs ?c \<in> D" using item_in pr c by auto
    have it: "item ?zs j = (if j = p then item xs ?c else item xs j)" if "1 \<le> j" for j
      using that p0 pr by (intro item_set_item) auto
    have "heap cmp 1 n ?zs"
      unfolding heap_def
    proof (intro allI impI; elim conjE)
      fix j assume j: "2 \<le> j" "j \<le> n" "1 \<le> j div 2"
      consider "j = p" | "j div 2 = p" | "j \<noteq> p" "j div 2 \<noteq> p" by blast
      then show "cmp (item ?zs j) (item ?zs (j div 2)) \<le> 0"
      proof cases
        case 1
        have e: "cmp (item xs ?c) (item xs p) \<le> 0" "cmp (item xs p) (item xs (p div 2)) \<le> 0"
          using pr(2) c j 1 p0 unfolding heap_def by (metis Suc_leI One_nat_def)+
        have "cmp (item xs ?c) (item xs (p div 2)) \<le> 0"
          using e D item_in [OF pr(3), of p] item_in [OF pr(3), of "p div 2"] pr j 1
            le_trans [of "item xs ?c" "item xs p" "item xs (p div 2)"] by auto
        then show ?thesis using 1 it [of j] it [of "j div 2"] j by auto
      next
        case 2
        then have "j \<noteq> p" using p0 by auto
        then show ?thesis using 2 it [of j] it [of p] larger_child_max [OF pr(3,6) p0 True j(1,2) 2] j p0 by simp
      next
        case 3
        then show ?thesis using it [of j] it [of "j div 2"] j pr(2) by (auto simp: heap_def)
      qed
    qed
    moreover have "set ?zs \<subseteq> D" using pr(3) D unfolding set_item_def by (meson set_update_subsetI)
    moreover have "SELECT_down cmp n ?zs ?c = (ys, q)"
      using pr(1) True p0 by (subst (asm) SELECT_down.simps) (simp add: Let_def)
    ultimately show ?thesis using less.hyps [of ?c ?zs] c pr by simp
  next
    case False
    then show ?thesis using pr by (subst (asm) SELECT_down.simps) auto
  qed
qed

lemma SELECT_up_heap:
  "heap cmp 1 n xs \<Longrightarrow> (\<forall>j. 2 \<le> j \<and> j \<le> n \<and> j div 2 = q \<longrightarrow> cmp (item xs j) k \<le> 0) \<Longrightarrow> set xs \<subseteq> D \<Longrightarrow> k \<in> D \<Longrightarrow>
   1 \<le> q \<Longrightarrow> q \<le> n \<Longrightarrow> n \<le> length xs \<Longrightarrow> heap cmp 1 n (SELECT_up cmp k xs q)"
proof (induction q arbitrary: xs rule: less_induct)
  case (less q)
  note pr = less.prems
  have D: "item xs i \<in> D" if "1 \<le> i" "i \<le> n" for i using item_in pr that by simp
  show ?case
  proof (cases "q \<le> 1 \<or> cmp k (item xs (q div 2)) < 0")
    case True
    have it: "item (set_item xs q k) j = (if j = q then k else item xs j)" if "1 \<le> j" for j
      using that pr by (intro item_set_item) auto
    have "heap cmp 1 n (set_item xs q k)"
      unfolding heap_def
    proof (intro allI impI; elim conjE)
      fix j assume j: "2 \<le> j" "j \<le> n" "1 \<le> j div 2"
      then show "cmp (item (set_item xs q k) j) (item (set_item xs q k) (j div 2)) \<le> 0"
        using it [of j] it [of "j div 2"] pr(1,2) True by (auto simp: heap_def)
    qed
    then show ?thesis using True by (subst SELECT_up.simps) (simp add: Let_def)
  next
    case False
    let ?p = "q div 2"
    let ?zs = "set_item xs q (item xs ?p)"
    have p: "1 \<le> ?p" "?p < q" using False by auto
    have it: "item ?zs j = (if j = q then item xs ?p else item xs j)" if "1 \<le> j" for j
      using that pr by (intro item_set_item) auto
    have edge: "cmp (item xs j) (item xs (j div 2)) \<le> 0" if "2 \<le> j" "j \<le> n" for j
      using pr(1) that by (auto simp: heap_def)
    have zs: "heap cmp 1 n ?zs"
      unfolding heap_def
    proof (intro allI impI; elim conjE)
      fix j assume j: "2 \<le> j" "j \<le> n" "1 \<le> j div 2"
      have "cmp (item xs j) (item xs ?p) \<le> 0" if "j div 2 = q"
        using edge [OF j(1,2)] edge [of q] that p pr(6) j D le_trans [of "item xs j" "item xs q" "item xs ?p"] by auto
      then show "cmp (item ?zs j) (item ?zs (j div 2)) \<le> 0"
        using it [of j] it [of "j div 2"] edge [OF j(1,2)] refl D j p pr(6) by auto
    qed
    have pk: "cmp (item xs ?p) k \<le> 0"
      using False swap_less [OF pr(4) D [OF p(1)]] swap_less [OF D [OF p(1)] pr(4)] p pr(6) by fastforce
    have "\<forall>j. 2 \<le> j \<and> j \<le> n \<and> j div 2 = ?p \<longrightarrow> cmp (item ?zs j) k \<le> 0"
    proof (intro allI impI; elim conjE)
      fix j assume j: "2 \<le> j" "j \<le> n" "j div 2 = ?p"
      then have "cmp (item xs j) k \<le> 0"
        using edge [OF j(1,2)] pk D p pr(4,6) le_trans [of "item xs j" "item xs ?p" k] by auto
      then show "cmp (item ?zs j) k \<le> 0" using it [of j] pk j by auto
    qed
    moreover have "set ?zs \<subseteq> D" using pr(3) D p pr(6) unfolding set_item_def by (simp add: set_update_subsetI)
    ultimately have "heap cmp 1 n (SELECT_up cmp k ?zs ?p)"
      using pr p zs by (intro less.IH) auto
    then show ?thesis using False by (subst SELECT_up.simps) (simp add: Let_def)
  qed
qed

lemma SELECT_heap:
  assumes "heap cmp 1 n xs" "set xs \<subseteq> D" "k \<in> D" "1 \<le> n" "n \<le> length xs"
  shows "heap cmp 1 n (SELECT cmp n xs k)"
proof -
  obtain ys q where d: "SELECT_down cmp n xs 1 = (ys, q)" by fastforce
  have q: "1 \<le> q" "q \<le> n" "n < q * 2" "length ys = length xs" using SELECT_down_perm [OF d _ assms(4,5)] by auto
  have ys: "heap cmp 1 n ys \<and> set ys \<subseteq> D" using SELECT_down_heap [OF d assms(1,2) _ assms(4,5)] by simp
  have "\<forall>j. 2 \<le> j \<and> j \<le> n \<and> j div 2 = q \<longrightarrow> cmp (item ys j) k \<le> 0" using q by auto
  then show ?thesis unfolding SELECT_def d using SELECT_up_heap [of n ys q k] ys q assms by simp
qed

text \<open>The second loop: a heap of \<open>n\<close> items, and above it the largest items in order.\<close>

lemma heap_select_sorted:
  "heap cmp 1 n xs \<Longrightarrow> set xs \<subseteq> D \<Longrightarrow> n \<le> length xs \<Longrightarrow> sorted_in cmp xs n (N - n) \<Longrightarrow> n \<le> N \<Longrightarrow> N \<le> length xs \<Longrightarrow>
   (\<forall>i j. i < n \<and> n \<le> j \<and> j < N \<longrightarrow> cmp (xs ! i) (xs ! j) \<le> 0) \<Longrightarrow> sorted_in cmp (heap_select cmp xs n) 0 N"
proof (induction n arbitrary: xs)
  case 0
  then show ?case by (subst heap_select.simps) simp
next
  case (Suc n)
  note pr = Suc.prems
  show ?case
  proof (cases "n = 0")
    case True
    then have "sorted_in cmp xs 0 N"
      using pr(4,7) unfolding sorted_in_def by (auto simp: Suc_le_eq) (metis gr0I less_Suc_eq_0_disj)
    then show ?thesis using True by (subst heap_select.simps) simp
  next
    case False
    define k where "k = item xs (Suc n)"
    define zs where "zs = set_item xs (Suc n) (item xs 1)"
    define ys where "ys = SELECT cmp n zs k"
    have D: "k \<in> D" "item xs 1 \<in> D" unfolding k_def using item_in pr by auto
    have it: "item zs j = (if j = Suc n then item xs 1 else item xs j)" if "1 \<le> j" for j
      unfolding zs_def using that pr by (intro item_set_item) auto
    have zs: "set zs \<subseteq> D" "length zs = length xs" "zs ! n = xs ! 0"
      using pr D unfolding zs_def by (auto simp: set_item_def item_def dest: set_update_subset_insert [THEN subsetD])
    have "heap cmp 1 n zs"
      unfolding heap_def
    proof (intro allI impI; elim conjE)
      fix j assume "2 \<le> j" "j \<le> n" "1 \<le> j div 2"
      then show "cmp (item zs j) (item zs (j div 2)) \<le> 0"
        using it [of j] it [of "j div 2"] pr(1) by (auto simp: heap_def)
    qed
    then have hy: "heap cmp 1 n ys" unfolding ys_def using zs D False pr by (intro SELECT_heap) auto
    have p: "perm_in 0 n (set_item zs 1 k) ys" unfolding ys_def using False zs pr by (intro perm_in_SELECT) auto
    have ylen: "length ys = length xs" using perm_in_length [OF p] zs by simp
    have Dy: "set ys \<subseteq> D"
      using perm_in_set [OF p] zs D unfolding set_item_def by (metis set_update_subsetI)
    have high: "ys ! j = (if j = n then xs ! 0 else xs ! j)" if "n \<le> j" for j
      using p that False zs(3) unfolding perm_in_def zs_def set_item_def item_def by auto
    have low: "cmp (ys ! i) (ys ! j) \<le> 0" if "i < n" "n \<le> j" "j < N" for i j
    proof (rule perm_in_run [OF p, where b = 0 and e = n and P = "\<lambda>x. cmp x (ys ! j) \<le> 0"])
      fix i assume i: "i < n"
      define i' where "i' = (if i = 0 then n else i)"
      have "xs \<noteq> []" using pr(3) by auto
      then have "set_item zs 1 k ! i = xs ! i'" "i' < Suc n"
        unfolding i'_def zs_def k_def set_item_def item_def using i zs pr False by (auto simp: nth_list_update)
      moreover have "cmp (xs ! i') (xs ! 0) \<le> 0"
        using heap_top [OF pr(1,2,3), of "Suc i'"] \<open>i' < Suc n\<close> by (simp add: item_def)
      moreover have "cmp (xs ! i') (xs ! j) \<le> 0" if "j \<noteq> n"
        using pr(7) \<open>i' < Suc n\<close> that \<open>n \<le> j\<close> \<open>j < N\<close> by auto
      ultimately show "cmp (set_item zs 1 k ! i) (ys ! j) \<le> 0"
        using high [OF \<open>n \<le> j\<close>] by simp
    qed (use that zs pr in auto)
    have "sorted_in cmp ys n (N - n)"
      unfolding sorted_in_def
    proof (intro allI impI; elim conjE)
      fix i j assume "n \<le> i" "i < j" "j < n + (N - n)"
      then show "cmp (ys ! i) (ys ! j) \<le> 0"
        using high [of i] high [of j] pr(4,5,7) by (auto simp: sorted_in_def)
    qed
    then have "sorted_in cmp (heap_select cmp ys n) 0 N"
      using hy Dy ylen low pr by (intro Suc.IH) auto
    moreover have "heap_select cmp xs (Suc n) = heap_select cmp ys n"
      using False by (subst heap_select.simps) (simp add: Let_def ys_def zs_def k_def)
    ultimately show ?thesis by simp
  qed
qed

lemma heapsort_sorted:
  assumes "set xs \<subseteq> D" "n \<le> length xs"
  shows "sorted_in cmp (heap_select cmp (heap_create cmp n xs (n div 2)) n) 0 n"
proof -
  let ?ys = "heap_create cmp n xs (n div 2)"
  have p: "perm_in 0 n xs ?ys" using assms by (intro perm_in_heap_create)
  have "heap cmp (Suc (n div 2)) n xs" unfolding heap_def using div_le_mono by fastforce
  then have "heap cmp 1 n ?ys" using assms by (intro heap_create_heap) auto
  then show ?thesis
    using perm_in_length [OF p] perm_in_set [OF p] assms by (intro heap_select_sorted) (auto simp: sorted_in_def)
qed

end

lemma perm_in_heap_select: "n \<le> length xs \<Longrightarrow> perm_in 0 n xs (heap_select cmp xs n)"
proof (induction n arbitrary: xs)
  case (Suc n)
  show ?case
  proof (cases "n = 0")
    case False
    let ?zs = "set_item xs (Suc n) (item xs 1)" and ?k = "item xs (Suc n)"
    have "set_item ?zs 1 ?k = swap xs n 0"
      using Suc.prems by (intro nth_equalityI) (auto simp: set_item_def item_def swap_def nth_list_update)
    then have "perm_in 0 (Suc n) xs (set_item ?zs 1 ?k)"
      using Suc.prems by (auto intro!: perm_in_swap)
    moreover have s: "perm_in 0 n (set_item ?zs 1 ?k) (SELECT cmp n ?zs ?k)"
      using Suc.prems False by (intro perm_in_SELECT) auto
    moreover have "perm_in 0 n (SELECT cmp n ?zs ?k) (heap_select cmp (SELECT cmp n ?zs ?k) n)"
      using Suc.prems perm_in_length [OF s] by (intro Suc.IH) simp
    ultimately have "perm_in 0 (Suc n) xs (heap_select cmp (SELECT cmp n ?zs ?k) n)"
      using perm_in_widen [of 0 n _ _ 0 "Suc n"] perm_in_trans [of 0 "Suc n"] by (metis add_0 le_SucI le_refl)
    then show ?thesis using False by (subst heap_select.simps) (simp add: Let_def)
  qed (simp add: heap_select.simps)
qed (simp add: heap_select.simps)

section \<open>Properties\<close>



end
