(* ===== verification/Vis.thy ===== *)
theory Vis
  imports CMem Ctype
begin

unbundle bit_operations_syntax

text \<open>
  Visual encoding and decoding of bytes, \<open>lib/libc/gen/vis.c\<close> and \<open>lib/libc/gen/unvis.c\<close>. The encoder
  is modelled by the bytes it stores for one character and by the loops that store them; the decoder is
  the state machine of the source, with the byte under its pointer as the part of the memory it works on.
\<close>

section \<open>Definitions\<close>

subsection \<open>Encoding\<close>

definition VIS_OCTAL :: int where "VIS_OCTAL = 0x01"
definition VIS_CSTYLE :: int where "VIS_CSTYLE = 0x02"
definition VIS_SP :: int where "VIS_SP = 0x04"
definition VIS_TAB :: int where "VIS_TAB = 0x08"
definition VIS_NL :: int where "VIS_NL = 0x10"
definition VIS_SAFE :: int where "VIS_SAFE = 0x20"
definition VIS_NOSLASH :: int where "VIS_NOSLASH = 0x40"

text \<open>A set bit of a flag word.\<close>

abbreviation has :: "int \<Rightarrow> int \<Rightarrow> bool" where
  "has flag f \<equiv> flag AND f \<noteq> 0"

definition isoctal :: "int \<Rightarrow> bool" where
  "isoctal c \<longleftrightarrow> (let u = uint (of_int c :: byte) in 48 \<le> u \<and> u \<le> 55)"

text \<open>The first branch of the encoder: characters that stand for themselves.\<close>

definition vis_plain :: "RuneLocale \<Rightarrow> int \<Rightarrow> int \<Rightarrow> bool" where
  "vis_plain rl c flag \<longleftrightarrow>
     (0 \<le> c \<and> c \<le> 255) \<and> isgraph rl c \<or> \<not> has flag VIS_SP \<and> c = 32 \<or> \<not> has flag VIS_TAB \<and> c = 9
     \<or> \<not> has flag VIS_NL \<and> c = 10 \<or> has flag VIS_SAFE \<and> (c = 8 \<or> c = 7 \<or> c = 13)"

text \<open>The second: the escapes of C.\<close>

definition vis_cstyle :: "int \<Rightarrow> int \<Rightarrow> byte list option" where
  "vis_cstyle c nextc =
     (if c = 10 then Some [92, 110] else if c = 13 then Some [92, 114] else if c = 8 then Some [92, 98]
      else if c = 7 then Some [92, 97] else if c = 11 then Some [92, 118] else if c = 9 then Some [92, 116]
      else if c = 12 then Some [92, 102] else if c = 32 then Some [92, 115]
      else if c = 0 then Some (if isoctal nextc then [92, 48, 48, 48] else [92, 48]) else None)"

definition vis_octal :: "int \<Rightarrow> byte list" where
  "vis_octal c = (let u = of_int c :: byte in
     [92, (drop_bit 6 u AND 7) + 48, (drop_bit 3 u AND 7) + 48, (u AND 7) + 48])"

text \<open>The last: control characters and characters with the high bit.\<close>

definition vis_meta :: "RuneLocale \<Rightarrow> int \<Rightarrow> byte list" where
  "vis_meta rl c =
     (let c' = (if c AND 0x80 \<noteq> 0 then c AND 0x7F else c) in
      (if c AND 0x80 \<noteq> 0 then [77] else [])
      @ (if iscntrl rl c' then (if c' = 0x7F then [94, 63] else [94, of_int (c' + 64)]) else [45, of_int c']))"

definition vis_seq :: "RuneLocale \<Rightarrow> int \<Rightarrow> int \<Rightarrow> int \<Rightarrow> byte list" where
  "vis_seq rl c flag nextc =
     (if vis_plain rl c flag then of_int c # (if c = 92 \<and> \<not> has flag VIS_NOSLASH then [92] else [])
      else case (if has flag VIS_CSTYLE then vis_cstyle c nextc else None) of
        Some s \<Rightarrow> s
      | None \<Rightarrow>
          if c AND 0x7F = 32 \<or> has flag VIS_OCTAL then vis_octal c
          else (if \<not> has flag VIS_NOSLASH then [92] else []) @ vis_meta rl c)"

text \<open>\<open>*dst++ = b\<close> for each byte, and the terminating zero.\<close>

fun emit :: "mem \<Rightarrow> ptr \<Rightarrow> byte list \<Rightarrow> (mem \<times> ptr) option" where
  "emit m dst [] = do { m \<leftarrow> store m dst 0; Some (m, dst) }"
| "emit m dst (b # bs) = do { m \<leftarrow> store m dst b; emit m (dst + 1) bs }"

definition vis :: "RuneLocale \<Rightarrow> mem \<Rightarrow> ptr \<Rightarrow> int \<Rightarrow> int \<Rightarrow> int \<Rightarrow> (mem \<times> ptr) option" where
  "vis rl m dst c flag nextc = emit m dst (vis_seq rl c flag nextc)"

lemma emit_length: "emit m dst bs = Some (m', d) \<Longrightarrow> length m' = length m \<and> d = dst + length bs"
  by (induction m dst bs rule: emit.induct) (auto simp: bind_eq_Some_conv store_eq_Some)

text \<open>A \<open>char\<close> is signed: it is sign-extended when it is passed as an \<open>int\<close>.\<close>

function strvis_loop :: "RuneLocale \<Rightarrow> mem \<Rightarrow> ptr \<Rightarrow> ptr \<Rightarrow> int \<Rightarrow> (mem \<times> ptr) option" where
  "strvis_loop rl m dst src flag = do {
     c \<leftarrow> load m src;
     (if c = 0 then Some (m, dst)
      else do {
        n \<leftarrow> load m (src + 1);
        (m, dst) \<leftarrow> vis rl m dst (sint c) flag (sint n);
        strvis_loop rl m dst (src + 1) flag }) }"
  by pat_completeness auto
termination
  by (relation "measure (\<lambda>(rl, m, dst, src, flag). length m - src)") (auto simp: vis_def dest!: load_dest emit_length)

declare strvis_loop.simps [simp del]

definition strvis :: "RuneLocale \<Rightarrow> mem \<Rightarrow> ptr \<Rightarrow> ptr \<Rightarrow> int \<Rightarrow> (mem \<times> int) option" where
  "strvis rl m dst src flag = do {
     (m, d) \<leftarrow> strvis_loop rl m dst src flag; m \<leftarrow> store m d 0; Some (m, int d - int dst) }"

fun strvisx_loop :: "RuneLocale \<Rightarrow> mem \<Rightarrow> ptr \<Rightarrow> ptr \<Rightarrow> nat \<Rightarrow> int \<Rightarrow> (mem \<times> ptr) option" where
  "strvisx_loop rl m dst src 0 flag = Some (m, dst)"
| "strvisx_loop rl m dst src (Suc 0) flag = do { c \<leftarrow> load m src; vis rl m dst (sint c) flag 0 }"
| "strvisx_loop rl m dst src (Suc (Suc len)) flag = do {
     c \<leftarrow> load m src; n \<leftarrow> load m (src + 1);
     (m, dst) \<leftarrow> vis rl m dst (sint c) flag (sint n);
     strvisx_loop rl m dst (src + 1) (Suc len) flag }"

definition strvisx :: "RuneLocale \<Rightarrow> mem \<Rightarrow> ptr \<Rightarrow> ptr \<Rightarrow> nat \<Rightarrow> int \<Rightarrow> (mem \<times> int) option" where
  "strvisx rl m dst src len flag = do {
     (m, d) \<leftarrow> strvisx_loop rl m dst src len flag; m \<leftarrow> store m d 0; Some (m, int d - int dst) }"

subsection \<open>Decoding\<close>

definition S_GROUND :: int where "S_GROUND = 0"
definition S_START :: int where "S_START = 1"
definition S_META :: int where "S_META = 2"
definition S_META1 :: int where "S_META1 = 3"
definition S_CTRL :: int where "S_CTRL = 4"
definition S_OCTAL2 :: int where "S_OCTAL2 = 5"
definition S_OCTAL3 :: int where "S_OCTAL3 = 6"

definition UNVIS_VALID :: int where "UNVIS_VALID = 1"
definition UNVIS_VALIDPUSH :: int where "UNVIS_VALIDPUSH = 2"
definition UNVIS_NOCHAR :: int where "UNVIS_NOCHAR = 3"
definition UNVIS_SYNBAD :: int where "UNVIS_SYNBAD = - 1"

text \<open>The decoder at the end of the input, which does not look at the character: code and new state.\<close>

definition unvis_end :: "int \<Rightarrow> int \<times> int" where
  "unvis_end st =
     (if st = S_OCTAL2 \<or> st = S_OCTAL3 then (UNVIS_VALID, S_GROUND)
      else (if st = S_GROUND then UNVIS_NOCHAR else UNVIS_SYNBAD, st))"

text \<open>The escapes after a backslash: code, byte and new state.\<close>

definition unvis_start :: "byte \<Rightarrow> int \<Rightarrow> int \<times> byte \<times> int" where
  "unvis_start cp c =
     (if c = 92 then (UNVIS_VALID, 92, S_GROUND)
      else if 48 \<le> c \<and> c \<le> 55 then (0, of_int (c - 48), S_OCTAL2)
      else if c = 77 then (0, 128, S_META)
      else if c = 94 then (0, cp, S_CTRL)
      else if c = 110 then (UNVIS_VALID, 10, S_GROUND)
      else if c = 114 then (UNVIS_VALID, 13, S_GROUND)
      else if c = 98 then (UNVIS_VALID, 8, S_GROUND)
      else if c = 97 then (UNVIS_VALID, 7, S_GROUND)
      else if c = 118 then (UNVIS_VALID, 11, S_GROUND)
      else if c = 116 then (UNVIS_VALID, 9, S_GROUND)
      else if c = 102 then (UNVIS_VALID, 12, S_GROUND)
      else if c = 115 then (UNVIS_VALID, 32, S_GROUND)
      else if c = 69 then (UNVIS_VALID, 27, S_GROUND)
      else if c = 10 then (UNVIS_NOCHAR, cp, S_GROUND)
      else if c = 36 then (UNVIS_NOCHAR, cp, S_GROUND)
      else (UNVIS_SYNBAD, cp, S_GROUND))"

definition unvis :: "byte \<Rightarrow> int \<Rightarrow> int \<Rightarrow> int \<times> byte \<times> int" where
  "unvis cp c st =
     (if st = S_GROUND then (if c = 92 then (0, 0, S_START) else (UNVIS_VALID, of_int c, S_GROUND))
      else if st = S_START then unvis_start cp c
      else if st = S_META then
        (if c = 45 then (0, cp, S_META1) else if c = 94 then (0, cp, S_CTRL) else (UNVIS_SYNBAD, cp, S_GROUND))
      else if st = S_META1 then (UNVIS_VALID, cp OR of_int c, S_GROUND)
      else if st = S_CTRL then (UNVIS_VALID, if c = 63 then cp OR 127 else cp OR of_int (c AND 31), S_GROUND)
      else if st = S_OCTAL2 then
        (if isoctal c then (0, push_bit 3 cp + of_int (c - 48), S_OCTAL3) else (UNVIS_VALIDPUSH, cp, S_GROUND))
      else if st = S_OCTAL3 then
        (if isoctal c then (UNVIS_VALID, push_bit 3 cp + of_int (c - 48), S_GROUND) else (UNVIS_VALIDPUSH, cp, S_GROUND))
      else (UNVIS_SYNBAD, cp, S_GROUND))"

text \<open>
  One character of \<open>strunvis\<close>, from the label \<open>again\<close> on: the memory, the pointer and the state, or
  \<open>Inl\<close> when the routine returns -1. A character that is pushed back is decoded again, in the ground state.
\<close>

lemma unvis_push: "unvis cp c st = (UNVIS_VALIDPUSH, cp', st') \<Longrightarrow> st \<noteq> S_GROUND \<and> st' = S_GROUND"
  by (auto simp: unvis_def unvis_start_def UNVIS_VALID_def UNVIS_VALIDPUSH_def UNVIS_NOCHAR_def UNVIS_SYNBAD_def
    split: if_splits)

function again :: "mem \<Rightarrow> ptr \<Rightarrow> int \<Rightarrow> int \<Rightarrow> (mem + mem \<times> ptr \<times> int) option" where
  "again m dst c st = do {
     cp \<leftarrow> load m dst;
     (case unvis cp c st of (code, cp, st') \<Rightarrow> do {
       m \<leftarrow> store m dst cp;
       (if code = UNVIS_VALID then Some (Inr (m, dst + 1, st'))
        else if code = UNVIS_VALIDPUSH then again m (dst + 1) c st'
        else if code = 0 \<or> code = UNVIS_NOCHAR then Some (Inr (m, dst, st'))
        else Some (Inl m)) }) }"
  by pat_completeness auto
termination
  by (relation "measure (\<lambda>(m, dst, c, st). if st = S_GROUND then 0 else 1)") (auto dest!: sym [THEN unvis_push])

declare again.simps [simp del]

lemma again_length: "again m dst c st = Some (Inr (m', d, st')) \<Longrightarrow> length m' = length m"
proof (induction m dst c st rule: again.induct)
  case (1 m dst c st)
  obtain code cp st1 where u: "unvis (m ! dst) c st = (code, cp, st1)" by (metis prod_cases3)
  have d: "dst < length m" using "1.prems" by (subst (asm) again.simps) (auto simp: bind_eq_Some_conv)
  show ?case
  proof (cases "code = UNVIS_VALIDPUSH \<and> code \<noteq> UNVIS_VALID")
    case True
    then have "again (m[dst := cp]) (dst + 1) c st1 = Some (Inr (m', d, st'))"
      using "1.prems" u d by (subst (asm) again.simps) simp
    then show ?thesis using "1.IH" [of "m ! dst" code "(cp, st1)" cp st1 "m[dst := cp]"] True d u by simp
  next
    case False
    then show ?thesis using "1.prems" u d by (subst (asm) again.simps) (auto split: if_splits)
  qed
qed

function strunvis_loop :: "mem \<Rightarrow> ptr \<Rightarrow> ptr \<Rightarrow> int \<Rightarrow> (mem + mem \<times> ptr \<times> int) option" where
  "strunvis_loop m dst src st = do {
     c \<leftarrow> load m src;
     (if c = 0 then Some (Inr (m, dst, st))
      else do {
        r \<leftarrow> again m dst (sint c) st;
        (case r of Inl m \<Rightarrow> Some (Inl m) | Inr (m, dst, st) \<Rightarrow> strunvis_loop m dst (src + 1) st) }) }"
  by pat_completeness auto
termination
  by (relation "measure (\<lambda>(m, dst, src, st). length m - src)") (auto dest!: load_dest again_length)

declare strunvis_loop.simps [simp del]

definition strunvis :: "mem \<Rightarrow> ptr \<Rightarrow> ptr \<Rightarrow> (mem \<times> int) option" where
  "strunvis m dst src = do {
     r \<leftarrow> strunvis_loop m dst src S_GROUND;
     (case r of
       Inl m \<Rightarrow> Some (m, - 1)
     | Inr (m, d, st) \<Rightarrow>
         let d = (if fst (unvis_end st) = UNVIS_VALID then d + 1 else d) in
         do { m \<leftarrow> store m d 0; Some (m, int d - int dst) }) }"

section \<open>The encoder\<close>

text \<open>What the two loops store: the encoding of each byte, with the byte that follows it.\<close>

fun vis_all :: "RuneLocale \<Rightarrow> int \<Rightarrow> byte list \<Rightarrow> byte list" where
  "vis_all rl flag [] = []"
| "vis_all rl flag [c] = vis_seq rl (sint c) flag 0"
| "vis_all rl flag (c # n # cs) = vis_seq rl (sint c) flag (sint n) @ vis_all rl flag (n # cs)"

lemma emit_spec: "dst + length bs < length m \<Longrightarrow> emit m dst bs = Some (put m dst (bs @ [0]), dst + length bs)"
  by (induction m dst bs rule: emit.induct) (simp_all add: put_Cons)

lemma vis_seq_length: "1 \<le> length (vis_seq rl c flag n) \<and> length (vis_seq rl c flag n) \<le> 4"
  by (auto simp: vis_seq_def vis_cstyle_def vis_octal_def vis_meta_def Let_def split: option.splits if_splits)

lemma vis_all_length: "length (vis_all rl flag cs) \<le> 4 * length cs"
proof (induction rl flag cs rule: vis_all.induct)
  case (3 rl flag c n cs)
  then show ?case using vis_seq_length [of rl "sint c" flag "sint n"] by simp
qed (use vis_seq_length in auto)

text \<open>Two blocks that do not meet.\<close>

definition disjoint :: "ptr \<Rightarrow> nat \<Rightarrow> ptr \<Rightarrow> nat \<Rightarrow> bool" where
  "disjoint p k q n \<longleftrightarrow> p + k \<le> q \<or> q + n \<le> p"

lemma put_put_end:
  "p + length bs < length m \<Longrightarrow> p + length bs + length cs \<le> length m \<Longrightarrow> cs \<noteq> [] \<Longrightarrow>
   put (put m p (bs @ [b])) (p + length bs) cs = put m p (bs @ cs)"
  by (rule nth_equalityI; cases cs) (auto simp: nth_put nth_append)

lemma slice_put_away:
  assumes "disjoint p (length bs) q n" "p + length bs \<le> length m" "q + n \<le> length m"
  shows "slice (put m p bs) q n = slice m q n"
  using assms by (intro nth_equalityI) (auto simp: nth_slice nth_put disjoint_def)

lemma nth_put_disjoint:
  "disjoint p (length bs) q n \<Longrightarrow> q \<le> i \<Longrightarrow> i < q + n \<Longrightarrow> p + length bs \<le> length m \<Longrightarrow> put m p bs ! i = m ! i"
  by (auto simp: nth_put disjoint_def)

lemma strvisx_loop_spec:
  assumes "slice m src (length cs) = cs" "src + length cs \<le> length m" "cs \<noteq> []"
    and "dst + length (vis_all rl flag cs) < length m" "disjoint dst (length (vis_all rl flag cs) + 1) src (length cs)"
  shows "strvisx_loop rl m dst src (length cs) flag
    = Some (put m dst (vis_all rl flag cs @ [0]), dst + length (vis_all rl flag cs))"
  using assms
proof (induction rl flag cs arbitrary: m dst src rule: vis_all.induct)
  case (2 rl flag c)
  then show ?case by (auto simp: vis_def emit_spec slice_Suc)
next
  case (3 rl flag c n cs)
  let ?b = "vis_seq rl (sint c) flag (sint n)" and ?r = "vis_all rl flag (n # cs)"
  let ?m = "put m dst (?b @ [0])"
  have mem: "m ! src = c" "m ! (src + 1) = n" "slice m (src + 1) (length (n # cs)) = n # cs"
    using "3.prems" by (auto simp: slice_Suc)
  have b: "vis rl m dst (sint c) flag (sint n) = Some (?m, dst + length ?b)"
    using "3.prems" by (simp add: vis_def emit_spec)
  have d: "disjoint dst (length (?b @ [0])) (src + 1) (length (n # cs))"
    using "3.prems"(5) vis_seq_length [of rl "sint c" flag "sint n"] by (auto simp: disjoint_def)
  have "slice ?m (src + 1) (length (n # cs)) = n # cs"
    using slice_put_away [OF d] mem(3) "3.prems" by simp
  then have "strvisx_loop rl ?m (dst + length ?b) (src + 1) (length (n # cs)) flag
      = Some (put ?m (dst + length ?b) (?r @ [0]), dst + length ?b + length ?r)"
    using "3.prems" by (intro "3.IH") (auto simp: disjoint_def)
  moreover have "put ?m (dst + length ?b) (?r @ [0]) = put m dst (?b @ ?r @ [0])"
    using "3.prems" by (intro put_put_end) auto
  ultimately show ?case
    using "3.prems" mem b by (simp add: add.assoc)
qed simp

lemma strvis_loop_spec:
  assumes "cstr m src cs" "cs \<noteq> []" "dst + length (vis_all rl flag cs) < length m"
    "disjoint dst (length (vis_all rl flag cs) + 1) src (length cs + 1)"
  shows "strvis_loop rl m dst src flag
    = Some (put m dst (vis_all rl flag cs @ [0]), dst + length (vis_all rl flag cs))"
  using assms
proof (induction rl flag cs arbitrary: m dst src rule: vis_all.induct)
  case (2 rl flag c)
  let ?b = "vis_seq rl (sint c) flag 0"
  let ?m = "put m dst (?b @ [0])"
  have mem: "src + 1 < length m" "m ! src = c" "c \<noteq> 0" "m ! (src + 1) = 0" using "2.prems" by (auto simp: cstr_Cons cstr_Nil)
  have "vis rl m dst (sint c) flag 0 = Some (?m, dst + length ?b)" using "2.prems" by (simp add: vis_def emit_spec)
  moreover have "?m ! (src + 1) = 0"
    using "2.prems" mem nth_put_disjoint [of dst "?b @ [0]" src "Suc (Suc 0)" "src + 1" m] by simp
  then have "strvis_loop rl ?m (dst + length ?b) (src + 1) flag = Some (?m, dst + length ?b)"
    using mem "2.prems" by (subst strvis_loop.simps) simp
  ultimately show ?case using mem by (subst strvis_loop.simps) simp
next
  case (3 rl flag c n cs)
  let ?b = "vis_seq rl (sint c) flag (sint n)" and ?r = "vis_all rl flag (n # cs)"
  let ?m = "put m dst (?b @ [0])"
  have mem: "m ! src = c" "m ! (src + 1) = n" "c \<noteq> 0" "cstr m (src + 1) (n # cs)" "src + 1 < length m"
    using "3.prems" by (auto simp: cstr_Cons)
  have b: "vis rl m dst (sint c) flag (sint n) = Some (?m, dst + length ?b)"
    using "3.prems" by (simp add: vis_def emit_spec)
  have "cstr ?m (src + 1) (n # cs)"
    using mem(4) "3.prems"(3,4) vis_seq_length [of rl "sint c" flag "sint n"] nth_put_disjoint [of dst "?b @ [0]" src "length cs + 3" _ m]
      slice_put_away [of dst "?b @ [0]" "src + 1" "length (n # cs)" m]
    by (auto simp: cstr_def disjoint_def)
  then have "strvis_loop rl ?m (dst + length ?b) (src + 1) flag
      = Some (put ?m (dst + length ?b) (?r @ [0]), dst + length ?b + length ?r)"
    using "3.prems" by (intro "3.IH") (auto simp: disjoint_def)
  moreover have "put ?m (dst + length ?b) (?r @ [0]) = put m dst (?b @ ?r @ [0])"
    using "3.prems" by (intro put_put_end) auto
  ultimately show ?case
    using "3.prems" mem b by (subst strvis_loop.simps) (simp add: add.assoc)
qed simp

lemma put_last_0: "p + length bs < length m \<Longrightarrow> (put m p (bs @ [0]))[p + length bs := 0] = put m p (bs @ [0])"
  by (simp add: put_snoc)

lemma strvisx_spec:
  assumes "slice m src (length cs) = cs" "src + length cs \<le> length m"
    and "dst + length (vis_all rl flag cs) < length m" "disjoint dst (length (vis_all rl flag cs) + 1) src (length cs)"
  shows "strvisx rl m dst src (length cs) flag = Some (put m dst (vis_all rl flag cs @ [0]), int (length (vis_all rl flag cs)))"
proof (cases "cs = []")
  case True
  then show ?thesis using assms by (simp add: strvisx_def put_Cons)
next
  case False
  then show ?thesis using strvisx_loop_spec [OF assms(1,2) False assms(3,4)] assms by (simp add: strvisx_def put_last_0)
qed

lemma strvis_spec:
  assumes "cstr m src cs" "dst + length (vis_all rl flag cs) < length m"
    "disjoint dst (length (vis_all rl flag cs) + 1) src (length cs + 1)"
  shows "strvis rl m dst src flag = Some (put m dst (vis_all rl flag cs @ [0]), int (length (vis_all rl flag cs)))"
proof (cases "cs = []")
  case True
  then show ?thesis using assms by (subst strvis_def, subst strvis_loop.simps) (simp add: cstr_Nil put_Cons)
next
  case False
  then show ?thesis using strvis_loop_spec [OF assms(1) False assms(2,3)] assms by (simp add: strvis_def put_last_0)
qed

section \<open>The decoder\<close>

text \<open>
  Decoding a list of bytes: the bytes that come out, and the byte and state left over, or nothing after a
  bad escape. The byte under the pointer does not matter in the ground state.
\<close>

definition dec1 :: "byte \<Rightarrow> int \<Rightarrow> int \<Rightarrow> (byte list \<times> byte \<times> int) option" where
  "dec1 cp st c = (case unvis cp c st of (code, cp, st') \<Rightarrow>
     if code = UNVIS_VALID then Some ([cp], 0, st')
     else if code = UNVIS_VALIDPUSH then
       (case unvis 0 c st' of (code, cp', st'') \<Rightarrow> if code = UNVIS_VALID then Some ([cp, cp'], 0, st'') else Some ([cp], cp', st''))
     else if code = 0 then Some ([], cp, st') else if code = UNVIS_NOCHAR then Some ([], 0, st') else None)"

fun dec :: "byte \<Rightarrow> int \<Rightarrow> byte list \<Rightarrow> (byte list \<times> byte \<times> int) option" where
  "dec cp st [] = Some ([], cp, st)"
| "dec cp st (c # cs) = do {
     (o1, cp, st) \<leftarrow> dec1 cp st (sint c); (o2, cp, st) \<leftarrow> dec cp st cs; Some (o1 @ o2, cp, st) }"

lemma dec_append: "dec cp st (as @ bs) = do {
    (o1, cp, st) \<leftarrow> dec cp st as; (o2, cp, st) \<leftarrow> dec cp st bs; Some (o1 @ o2, cp, st) }"
proof (induction as arbitrary: cp st)
  case Nil
  then show ?case by (cases "dec cp st bs") auto
next
  case (Cons a as)
  show ?case
  proof (cases "dec1 cp st (sint a)")
    case (Some r)
    obtain o1 cp1 st1 where r: "r = (o1, cp1, st1)" by (metis prod_cases3)
    show ?thesis
    proof (cases "dec cp1 st1 as")
      case None
      then show ?thesis using Some r Cons.IH [of cp1 st1] by simp
    next
      case s: (Some r')
      obtain o2 cp2 st2 where r': "r' = (o2, cp2, st2)" by (metis prod_cases3)
      show ?thesis using Some r s r' Cons.IH [of cp1 st1] by (cases "dec cp2 st2 bs") auto
    qed
  qed simp
qed

lemmas unvis_codes = UNVIS_VALID_def UNVIS_VALIDPUSH_def UNVIS_NOCHAR_def UNVIS_SYNBAD_def
lemmas unvis_states = S_GROUND_def S_START_def S_META_def S_META1_def S_CTRL_def S_OCTAL2_def S_OCTAL3_def

lemma unvis_ground: "unvis cp c S_GROUND = unvis 0 c S_GROUND"
  by (simp add: unvis_def)

lemma unvis_ground_code: "fst (unvis cp c S_GROUND) = 0 \<or> fst (unvis cp c S_GROUND) = UNVIS_VALID"
  by (simp add: unvis_def)

lemma unvis_code: "fst (unvis cp c st) \<in> {0, UNVIS_VALID, UNVIS_VALIDPUSH, UNVIS_NOCHAR, UNVIS_SYNBAD}"
  by (simp add: unvis_def unvis_start_def)

lemma unvis_nochar: "unvis cp c st = (UNVIS_NOCHAR, cp', st') \<Longrightarrow> st' = S_GROUND"
  by (auto simp: unvis_def unvis_start_def unvis_codes split: if_splits)

lemma unvis_valid: "unvis cp c st = (UNVIS_VALID, cp', st') \<Longrightarrow> st' = S_GROUND"
  by (auto simp: unvis_def unvis_start_def unvis_codes split: if_splits)

lemma put_1: "p < length m \<Longrightarrow> put m p [b] = m[p := b]"
  by (simp add: put_Cons)

lemma put_2: "p + 1 < length m \<Longrightarrow> put m p [a, b] = m[p := a, p + 1 := b]"
  by (simp add: put_Cons)

lemma put_keep: "p + length bs < length m \<Longrightarrow> put m p (bs @ [m ! (p + length bs)]) = put m p bs"
  by (rule nth_equalityI) (auto simp: nth_put nth_append less_Suc_eq)

lemma again_spec:
  assumes d: "dec1 cp st c = Some (o1, cp1, st1)" and cell: "st = S_GROUND \<or> m ! dst = cp" and len: "dst + length o1 < length m"
  shows "\<exists>x. again m dst c st = Some (Inr (put m dst (o1 @ [x]), dst + length o1, st1)) \<and> (st1 = S_GROUND \<or> x = cp1)"
proof -
  have "unvis (m ! dst) c st = unvis cp c st" using cell unvis_ground by metis
  moreover obtain code cp' st' where u: "unvis cp c st = (code, cp', st')" by (metis prod_cases3)
  ultimately have a: "again m dst c st =
       (if code = UNVIS_VALID then Some (Inr (m[dst := cp'], dst + 1, st'))
        else if code = UNVIS_VALIDPUSH then again (m[dst := cp']) (dst + 1) c st'
        else if code = 0 \<or> code = UNVIS_NOCHAR then Some (Inr (m[dst := cp'], dst, st'))
        else Some (Inl (m[dst := cp'])))"
    using len by (subst again.simps) simp
  consider "code = UNVIS_VALID" | "code = UNVIS_VALIDPUSH" | "code = 0" | "code = UNVIS_NOCHAR"
    using d u unvis_code [of cp c st] by (auto simp: dec1_def unvis_codes split: if_splits)
  then show ?thesis
  proof cases
    case 1
    have "o1 = [cp']" "st1 = S_GROUND" "st1 = st'" using d u 1 unvis_valid by (auto simp: dec1_def)
    then show ?thesis using 1 a len put_keep [of dst "[cp']" m] put_1 [of dst m cp'] by (intro exI [of _ "m ! (dst + 1)"]) simp
  next
    case 2
    then have st': "st' = S_GROUND" using unvis_push u by blast
    obtain code2 cp2 st2 where u2: "unvis 0 c S_GROUND = (code2, cp2, st2)" by (metis prod_cases3)
    have c2: "code2 = 0 \<or> code2 = UNVIS_VALID" using unvis_ground_code [of 0 c] u2 by simp
    have "dst + 1 < length m" using d u u2 2 len st' by (auto simp: dec1_def unvis_codes split: if_splits)
    then have a2: "again (m[dst := cp']) (dst + 1) c S_GROUND =
        (if code2 = UNVIS_VALID then Some (Inr (m[dst := cp', dst + 1 := cp2], dst + 2, st2)) else Some (Inr (m[dst := cp', dst + 1 := cp2], dst + 1, st2)))"
      using c2 unvis_ground [of "m[dst := cp'] ! (dst + 1)" c] u2 by (subst again.simps) (auto simp: unvis_codes)
    show ?thesis
    proof (cases "code2 = UNVIS_VALID")
      case True
      then have o: "o1 = [cp', cp2]" "st1 = S_GROUND" "st1 = st2"
        using d u u2 2 st' unvis_valid by (auto simp: dec1_def unvis_codes)
      then have "put m dst (o1 @ [m ! (dst + 2)]) = m[dst := cp', dst + 1 := cp2]"
        using len put_keep [of dst o1 m] put_2 [of dst m cp' cp2] by simp
      then show ?thesis using a 2 a2 True o st' by (intro exI [of _ "m ! (dst + 2)"]) (simp add: unvis_codes)
    next
      case False
      then have o: "o1 = [cp']" "st1 = st2" "cp1 = cp2" using d u u2 2 st' by (auto simp: dec1_def unvis_codes)
      then show ?thesis using a 2 a2 False st' len put_2 [of dst m cp' cp2] by (intro exI [of _ cp2]) (simp add: unvis_codes)
    qed
  next
    case 3
    then have "o1 = []" "st1 = st'" "cp1 = cp'" using d u by (auto simp: dec1_def unvis_codes)
    then show ?thesis using 3 a len by (intro exI [of _ cp']) (simp add: put_1 unvis_codes)
  next
    case 4
    then have "o1 = []" "st1 = st'" "st1 = S_GROUND" using d u unvis_nochar by (auto simp: dec1_def unvis_codes)
    then show ?thesis using 4 a len by (intro exI [of _ cp']) (simp add: put_1 unvis_codes)
  qed
qed

lemma cstr_put_disjoint:
  assumes "cstr m q cs" "disjoint p (length bs) q (length cs + 1)" "p + length bs \<le> length m"
  shows "cstr (put m p bs) q cs"
  using assms slice_put_away [of p bs q "length cs" m] nth_put_disjoint [of p bs q "length cs + 1" "q + length cs" m]
  by (auto simp: cstr_def disjoint_def)

lemma strunvis_loop_spec:
  assumes "cstr m src cs" "dec cp st cs = Some (out, cp', st')" "st = S_GROUND \<or> m ! dst = cp"
    "dst + length out < length m" "disjoint dst (length out + 1) src (length cs + 1)"
  shows "\<exists>x. strunvis_loop m dst src st = Some (Inr (put m dst (out @ [x]), dst + length out, st')) \<and> (st' = S_GROUND \<or> x = cp')"
  using assms
proof (induction cs arbitrary: m dst src cp st out)
  case Nil
  then show ?case
    by (subst strunvis_loop.simps) (auto simp: cstr_Nil put_1 intro!: exI [of _ "m ! dst"])
next
  case (Cons c cs)
  obtain o1 cp1 st1 o2 where d1: "dec1 cp st (sint c) = Some (o1, cp1, st1)" and d2: "dec cp1 st1 cs = Some (o2, cp', st')"
    and o: "out = o1 @ o2"
    using Cons.prems(2) by (auto simp: bind_eq_Some_conv)
  have mem: "m ! src = c" "c \<noteq> 0" "src < length m" "cstr m (src + 1) cs" using Cons.prems(1) by (auto simp: cstr_Cons)
  obtain x where x: "again m dst (sint c) st = Some (Inr (put m dst (o1 @ [x]), dst + length o1, st1))" "st1 = S_GROUND \<or> x = cp1"
    using again_spec [OF d1 Cons.prems(3)] Cons.prems(4) o by auto
  let ?m = "put m dst (o1 @ [x])"
  have "cstr ?m (src + 1) cs"
    using mem Cons.prems(4,5) o by (intro cstr_put_disjoint) (auto simp: disjoint_def)
  moreover have "st1 = S_GROUND \<or> ?m ! (dst + length o1) = cp1"
    using x(2) Cons.prems(4) o by (auto simp: nth_put nth_append)
  ultimately obtain y where y: "strunvis_loop ?m (dst + length o1) (src + 1) st1
      = Some (Inr (put ?m (dst + length o1) (o2 @ [y]), dst + length o1 + length o2, st'))" "st' = S_GROUND \<or> y = cp'"
    using Cons.IH [of ?m "src + 1" cp1 st1 o2 "dst + length o1"] d2 Cons.prems(4,5) o by (auto simp: disjoint_def)
  moreover have "put ?m (dst + length o1) (o2 @ [y]) = put m dst (o1 @ o2 @ [y])"
    using Cons.prems(4) o by (intro put_put_end) auto
  ultimately show ?case
    using x(1) mem o by (subst strunvis_loop.simps) (auto simp: add.assoc)
qed

definition finish :: "byte list \<times> byte \<times> int \<Rightarrow> byte list" where
  "finish r = (case r of (out, cp, st) \<Rightarrow> if st = S_OCTAL2 \<or> st = S_OCTAL3 then out @ [cp] else out)"

lemma strunvis_spec:
  assumes "cstr m src cs" "dec 0 S_GROUND cs = Some r" "bs = finish r"
    "dst + length bs < length m" "disjoint dst (length bs + 1) src (length cs + 1)"
  shows "strunvis m dst src = Some (put m dst (bs @ [0]), int (length bs))"
proof -
  obtain out cp st where r: "r = (out, cp, st)" by (metis prod_cases3)
  have le: "length out \<le> length bs" using assms(3) r by (simp add: finish_def split: if_splits)
  obtain x where x: "strunvis_loop m dst src S_GROUND = Some (Inr (put m dst (out @ [x]), dst + length out, st))"
      "st = S_GROUND \<or> x = cp"
    using strunvis_loop_spec [OF assms(1), of 0 S_GROUND out cp st dst] assms(2,4,5) r le by (auto simp: disjoint_def)
  show ?thesis
  proof (cases "st = S_OCTAL2 \<or> st = S_OCTAL3")
    case True
    then have bs: "bs = out @ [cp]" "x = cp" using assms(3) r x(2) by (auto simp: finish_def unvis_states)
    have "put m dst (out @ [cp, 0]) = (put m dst (out @ [cp]))[dst + length (out @ [cp]) := 0]"
      using put_snoc [of dst "out @ [cp]" m 0] assms(4) bs by simp
    then show ?thesis
      unfolding strunvis_def using x bs True assms(4) by (simp add: unvis_end_def unvis_codes)
  next
    case False
    then have "bs = out" using assms(3) r by (simp add: finish_def)
    then show ?thesis
      unfolding strunvis_def using x False assms(4) by (simp add: unvis_end_def unvis_codes put_snoc)
  qed
qed

section \<open>Decoding what was encoded\<close>

lemma iscntrl_C: "iscntrl DefaultRuneLocale c \<longleftrightarrow> 0 \<le> c \<and> c < 32 \<or> c = 127"
  using ascii_classes(7) [of c] by (auto simp: iscntrl_def istype_default)

definition dec_ok :: "byte \<Rightarrow> byte list \<Rightarrow> bool" where
  "dec_ok b s \<longleftrightarrow> dec 0 S_GROUND s = Some ([b], 0, S_GROUND)"

lemma byte_cases:
  fixes b :: byte
  assumes "\<forall>i \<in> set [0..255]. P (of_int i)"
  shows "P b"
proof -
  have "uint b \<in> set [0..255]" using unsigned_less [of b, where ?'a = int] by simp
  then have "P (of_int (uint b))" using assms by blast
  then show ?thesis by simp
qed

lemma dec_octal: "dec_ok b (vis_octal (sint b))"
  by (rule byte_cases) code_simp

definition meta_C :: "int \<Rightarrow> byte list" where
  "meta_C c =
     (let c' = (if c AND 0x80 \<noteq> 0 then c AND 0x7F else c) in
      (if c AND 0x80 \<noteq> 0 then [77] else [])
      @ (if 0 \<le> c' \<and> c' < 32 \<or> c' = 127 then (if c' = 0x7F then [94, 63] else [94, of_int (c' + 64)]) else [45, of_int c']))"

lemma vis_meta_C: "vis_meta DefaultRuneLocale c = meta_C c"
  by (simp add: vis_meta_def meta_C_def iscntrl_C)

lemma dec_meta: "33 \<le> sint b \<and> sint b \<le> 126 \<or> sint b AND 0x7F = 32 \<or> dec_ok b (92 # meta_C (sint b))"
  by (rule byte_cases [where P = "\<lambda>b. 33 \<le> sint b \<and> sint b \<le> 126 \<or> sint b AND 0x7F = 32 \<or> dec_ok b (92 # meta_C (sint b))"]) code_simp

lemma no_zero_octal: "0 \<notin> set (vis_octal (sint b))" for b :: byte
  by (rule byte_cases [where P = "\<lambda>b. 0 \<notin> set (vis_octal (sint b))"]) code_simp

lemma no_zero_meta: "33 \<le> sint b \<and> sint b \<le> 126 \<or> sint b AND 0x7F = 32 \<or> 0 \<notin> set (meta_C (sint b))" for b :: byte
  by (rule byte_cases [where P = "\<lambda>b. 33 \<le> sint b \<and> sint b \<le> 126 \<or> sint b AND 0x7F = 32 \<or> 0 \<notin> set (meta_C (sint b))"]) code_simp

lemma vis_plain_C: "vis_plain DefaultRuneLocale c flag \<longleftrightarrow>
    33 \<le> c \<and> c \<le> 126 \<or> \<not> has flag VIS_SP \<and> c = 32 \<or> \<not> has flag VIS_TAB \<and> c = 9
     \<or> \<not> has flag VIS_NL \<and> c = 10 \<or> has flag VIS_SAFE \<and> (c = 8 \<or> c = 7 \<or> c = 13)"
  by (auto simp: vis_plain_def isgraph_C)

lemma vis_plain_nz: "vis_plain DefaultRuneLocale (sint b) flag \<Longrightarrow> b \<noteq> 0" for b :: byte
  by (auto simp: vis_plain_C)

lemma byte_of_sint: "sint b = k \<Longrightarrow> b = of_int k" for b :: byte
  by (metis scast_eq scast_id)

lemma vis_cstyle_nz: "vis_cstyle c n = Some s \<Longrightarrow> 0 \<notin> set s"
  by (auto simp: vis_cstyle_def split: if_splits)

lemma vis_seq_nz: "0 \<notin> set (vis_seq DefaultRuneLocale (sint b) flag n)" for b :: byte
proof (cases "vis_plain DefaultRuneLocale (sint b) flag")
  case True
  then show ?thesis using vis_plain_nz by (auto simp: vis_seq_def)
next
  case plain: False
  show ?thesis
  proof (cases "if has flag VIS_CSTYLE then vis_cstyle (sint b) n else None")
    case None
    moreover have "\<not> (33 \<le> sint b \<and> sint b \<le> 126)" using plain by (auto simp: vis_plain_C)
    ultimately show ?thesis
      using plain no_zero_octal [of b] no_zero_meta [of b] by (auto simp: vis_seq_def vis_meta_C)
  next
    case (Some s)
    then have "0 \<notin> set s" using vis_cstyle_nz by (metis option.distinct(1))
    then show ?thesis using plain Some by (simp add: vis_seq_def)
  qed
qed

lemma dec_cstyle:
  "vis_cstyle (sint b) n = Some s \<Longrightarrow> dec_ok b s \<or> b = 0 \<and> s = [92, 48] \<and> \<not> isoctal n"
  by (auto simp: vis_cstyle_def dec_ok_def dec1_def unvis_def unvis_start_def unvis_codes unvis_states isoctal_def Let_def
    dest: byte_of_sint split: if_splits)

lemma dec_vis_seq:
  assumes "\<not> has flag VIS_NOSLASH"
  shows "dec_ok b (vis_seq DefaultRuneLocale (sint b) flag n)
    \<or> b = 0 \<and> vis_seq DefaultRuneLocale (sint b) flag n = [92, 48] \<and> \<not> isoctal n"
proof (cases "vis_plain DefaultRuneLocale (sint b) flag")
  case True
  then show ?thesis
    using assms by (auto simp: vis_seq_def dec_ok_def dec1_def unvis_def unvis_start_def unvis_codes unvis_states dest: byte_of_sint)
next
  case plain: False
  show ?thesis
  proof (cases "if has flag VIS_CSTYLE then vis_cstyle (sint b) n else None")
    case None
    moreover have "\<not> (33 \<le> sint b \<and> sint b \<le> 126)" using plain by (auto simp: vis_plain_C)
    ultimately show ?thesis
      using assms plain dec_octal [of b] dec_meta [of b] by (auto simp: vis_seq_def vis_meta_C)
  next
    case (Some s)
    then have "vis_cstyle (sint b) n = Some s" by (metis option.distinct(1))
    then show ?thesis using plain Some dec_cstyle by (simp add: vis_seq_def)
  qed
qed

lemma vis_seq_hd:
  assumes "\<not> has flag VIS_NOSLASH"
  shows "hd (vis_seq DefaultRuneLocale (sint b) flag n) = b \<or> hd (vis_seq DefaultRuneLocale (sint b) flag n) = 92"
proof (cases "if has flag VIS_CSTYLE then vis_cstyle (sint b) n else None")
  case None
  then show ?thesis using assms by (auto simp: vis_seq_def vis_octal_def Let_def)
next
  case (Some s)
  then have "hd s = 92" by (auto simp: vis_cstyle_def split: if_splits)
  then show ?thesis using Some by (auto simp: vis_seq_def)
qed

lemma vis_all_first:
  assumes "\<not> has flag VIS_NOSLASH"
  obtains x xs where "vis_all DefaultRuneLocale flag (b # bs) = x # xs" "x = b \<or> x = 92"
proof -
  have "vis_seq DefaultRuneLocale (sint b) flag k \<noteq> []" for k
    using vis_seq_length [of DefaultRuneLocale "sint b" flag k] by auto
  then obtain n s where "vis_all DefaultRuneLocale flag (b # bs) = vis_seq DefaultRuneLocale (sint b) flag n @ s"
      "vis_seq DefaultRuneLocale (sint b) flag n \<noteq> []"
    by (cases bs) force+
  then show ?thesis using vis_seq_hd [OF assms, of b n] that by (cases "vis_seq DefaultRuneLocale (sint b) flag n") auto
qed

lemma dec_push:
  assumes "\<not> isoctal (sint x)" "dec 0 S_GROUND (x # xs) = Some (out, cp, st)"
  shows "dec 0 S_OCTAL2 (x # xs) = Some (0 # out, cp, st)"
proof -
  obtain o1 cp1 st1 o2 where d: "dec1 0 S_GROUND (sint x) = Some (o1, cp1, st1)" "dec cp1 st1 xs = Some (o2, cp, st)" "out = o1 @ o2"
    using assms(2) by (auto simp: bind_eq_Some_conv)
  then have "dec1 0 S_OCTAL2 (sint x) = Some (0 # o1, cp1, st1)"
    using assms(1) by (auto simp: dec1_def unvis_def unvis_codes unvis_states split: if_splits)
  then show ?thesis using d by simp
qed

lemma dec_vis_all:
  assumes "\<not> has flag VIS_NOSLASH"
  shows "\<exists>out cp st. dec 0 S_GROUND (vis_all DefaultRuneLocale flag cs) = Some (out, cp, st) \<and> finish (out, cp, st) = cs"
proof (induction cs rule: induct_list012)
  case 1
  then show ?case by (simp add: finish_def unvis_states)
next
  case (2 c)
  have "dec 0 S_GROUND [92, 48] = Some ([], 0, S_OCTAL2)"
    by (simp add: dec1_def unvis_def unvis_start_def unvis_codes unvis_states)
  then consider "dec 0 S_GROUND (vis_all DefaultRuneLocale flag [c]) = Some ([c], 0, S_GROUND)"
    | "c = 0" "dec 0 S_GROUND (vis_all DefaultRuneLocale flag [c]) = Some ([], 0, S_OCTAL2)"
    using dec_vis_seq [OF assms, of c 0] by (metis dec_ok_def vis_all.simps(2))
  then show ?case by cases (force simp: finish_def unvis_states)+
next
  case (3 c n cs)
  let ?s = "vis_seq DefaultRuneLocale (sint c) flag (sint n)" and ?r = "vis_all DefaultRuneLocale flag (n # cs)"
  obtain out cp st where r: "dec 0 S_GROUND ?r = Some (out, cp, st)" "finish (out, cp, st) = n # cs" using "3.IH"(2) by blast
  have fin: "finish (c # out, cp, st) = c # finish (out, cp, st)" by (simp add: finish_def)
  show ?case
  proof (cases "dec_ok c ?s")
    case True
    then have "dec 0 S_GROUND (vis_all DefaultRuneLocale flag (c # n # cs)) = Some (c # out, cp, st)"
      using r(1) by (simp add: dec_ok_def dec_append)
    then show ?thesis using fin r(2) by metis
  next
    case False
    then have c: "c = 0" "?s = [92, 48]" "\<not> isoctal (sint n)" using dec_vis_seq [OF assms, of c "sint n"] by auto
    obtain x xs where x: "?r = x # xs" "x = n \<or> x = 92" using vis_all_first [OF assms] by blast
    have "\<not> isoctal (sint x)" using x(2) c(3) by (auto simp: isoctal_def)
    then have "dec 0 S_OCTAL2 ?r = Some (0 # out, cp, st)" using dec_push r(1) x(1) by metis
    moreover have "dec 0 S_GROUND ?s = Some ([], 0, S_OCTAL2)"
      unfolding c(2) by (simp add: dec1_def unvis_def unvis_start_def unvis_codes unvis_states)
    ultimately have "dec 0 S_GROUND (vis_all DefaultRuneLocale flag (c # n # cs)) = Some (c # out, cp, st)"
      using c(1) by (simp add: dec_append)
    then show ?thesis using fin r(2) by metis
  qed
qed

lemma vis_all_nz: "0 \<notin> set (vis_all DefaultRuneLocale flag cs)"
  by (induction cs rule: induct_list012) (use vis_seq_nz in auto)

lemma cstr_put_nul: "p + length s < length m \<Longrightarrow> 0 \<notin> set s \<Longrightarrow> cstr (put m p (s @ [0])) p s"
  by (auto simp: cstr_def nth_put nth_append nth_slice intro!: nth_equalityI)

section \<open>The states of the decoder\<close>

text \<open>The pairs of byte and state the decoder goes through, for any characters and any memory under a new pointer.\<close>

inductive decoder :: "byte \<Rightarrow> int \<Rightarrow> bool" where
  start: "decoder cp S_GROUND"
| step: "decoder cp st \<Longrightarrow> - 128 \<le> c \<Longrightarrow> c \<le> 127 \<Longrightarrow> unvis cp c st = (code, cp', st') \<Longrightarrow> decoder cp' st'"

definition decoder_inv :: "byte \<Rightarrow> int \<Rightarrow> bool" where
  "decoder_inv cp st \<longleftrightarrow> st \<in> {S_GROUND, S_START, S_META, S_META1, S_CTRL, S_OCTAL2, S_OCTAL3}
     \<and> (st = S_START \<longrightarrow> cp = 0) \<and> (st = S_META \<or> st = S_META1 \<longrightarrow> cp = 128) \<and> (st = S_CTRL \<longrightarrow> cp = 0 \<or> cp = 128)
     \<and> (st = S_OCTAL2 \<longrightarrow> cp < 8) \<and> (st = S_OCTAL3 \<longrightarrow> cp < 64)"

lemma octal_digit: "isoctal c \<Longrightarrow> - 128 \<le> c \<Longrightarrow> c \<le> 127 \<Longrightarrow> 48 \<le> c \<and> c \<le> 55"
proof -
  assume a: "isoctal c" "- 128 \<le> c" "c \<le> 127"
  then have "48 \<le> c mod 256 \<and> c mod 256 \<le> 55" by (simp add: isoctal_def take_bit_eq_mod unsigned_of_int Let_def)
  moreover have "c mod 256 = (if c < 0 then c + 256 else c)"
    using a by (auto simp: mod_pos_pos_trivial intro: int_mod_pos_eq [where q = "-1"])
  ultimately show ?thesis using a by (auto split: if_splits)
qed

lemma octal_bounds:
  fixes cp :: byte
  shows "48 \<le> c \<Longrightarrow> c \<le> 55 \<Longrightarrow> of_int (c - 48) < (8 :: byte)"
    and "48 \<le> c \<Longrightarrow> c \<le> 55 \<Longrightarrow> cp < 8 \<Longrightarrow> push_bit 3 cp + of_int (c - 48) < 64"
proof -
  have t: "\<forall>c \<in> set [48..55]. of_int (c - 48) < (8 :: byte)"
    "\<forall>i \<in> set [0..255]. \<forall>c \<in> set [48..55]. (of_int i :: byte) < 8 \<longrightarrow> push_bit 3 (of_int i :: byte) + of_int (c - 48) < 64"
    by code_simp+
  have c: "c \<in> set [48..55]" if "48 \<le> c" "c \<le> 55" using that unfolding set_upto by simp
  then show "48 \<le> c \<Longrightarrow> c \<le> 55 \<Longrightarrow> of_int (c - 48) < (8 :: byte)" using t(1) by blast
  have "cp < 8 \<longrightarrow> push_bit 3 cp + of_int (c - 48) < 64" if "48 \<le> c" "c \<le> 55"
    using t(2) c [OF that] by (intro byte_cases [where P = "\<lambda>cp. cp < 8 \<longrightarrow> push_bit 3 cp + of_int (c - 48) < 64"]) blast
  then show "48 \<le> c \<Longrightarrow> c \<le> 55 \<Longrightarrow> cp < 8 \<Longrightarrow> push_bit 3 cp + of_int (c - 48) < 64" by blast
qed

lemma unvis_inv:
  assumes "decoder_inv cp st" "- 128 \<le> c" "c \<le> 127" "unvis cp c st = (code, cp', st')"
  shows "decoder_inv cp' st'"
  using assms octal_bounds octal_digit [of c]
  by (auto simp: decoder_inv_def unvis_def unvis_start_def unvis_states split: if_splits)

lemma decoder_invariant: "decoder cp st \<Longrightarrow> decoder_inv cp st"
proof (induction rule: decoder.induct)
  case (start cp)
  then show ?case by (simp add: decoder_inv_def unvis_states)
next
  case (step cp st c code cp' st')
  then show ?case using unvis_inv by blast
qed

fun unvis_run :: "byte \<Rightarrow> int \<Rightarrow> int list \<Rightarrow> int" where
  "unvis_run cp st [] = st"
| "unvis_run cp st (c # cs) = (case unvis cp c st of (code, cp', st') \<Rightarrow> unvis_run cp' st' cs)"

section \<open>Properties\<close>

text \<open>
  C9: what \<open>strvisx\<close> writes for a block of bytes, \<open>strunvis\<close> reads back: for every combination of flags
  that keeps the backslash, decoding the encoded string returns the number of bytes and the bytes themselves,
  zero bytes included.
\<close>

theorem strvisx_roundtrip:
  assumes "\<not> has flag VIS_NOSLASH" "cs = slice m src len" "src + len \<le> length m"
    and "disjoint dst (4 * len + 1) src len" "dst + 4 * len < length m"
    and "disjoint out (len + 1) dst (4 * len + 1)" "out + len < length m"
  shows "\<exists>m1 n m2. strvisx DefaultRuneLocale m dst src len flag = Some (m1, n) \<and> 0 \<le> n \<and> n \<le> 4 * int len
    \<and> strunvis m1 out dst = Some (m2, int len) \<and> slice m2 out len = cs"
proof -
  let ?e = "vis_all DefaultRuneLocale flag cs"
  let ?m1 = "put m dst (?e @ [0])"
  have len: "length cs = len" using assms(2,3) by simp
  have e: "length ?e \<le> 4 * len" using vis_all_length [of DefaultRuneLocale flag cs] len by simp
  have 1: "strvisx DefaultRuneLocale m dst src (length cs) flag = Some (?m1, int (length ?e))"
    using assms e len by (intro strvisx_spec) (auto simp: disjoint_def)
  have c: "cstr ?m1 dst ?e" using assms e vis_all_nz by (intro cstr_put_nul) auto
  obtain r where r: "dec 0 S_GROUND ?e = Some r" "finish r = cs" using dec_vis_all [OF assms(1), of cs] by blast
  have 2: "strunvis ?m1 out dst = Some (put ?m1 out (cs @ [0]), int (length cs))"
    using assms e len r by (intro strunvis_spec [OF c r(1)]) (auto simp: disjoint_def)
  have "slice (put ?m1 out (cs @ [0])) out len = cs"
    using len assms e by (intro nth_equalityI) (auto simp: nth_slice nth_put nth_append)
  then show ?thesis using 1 2 len e by auto
qed

theorem strvisx_roundtrip_witness:
  "\<exists>m1 n m2. strvisx DefaultRuneLocale ([92, 0, 49] @ replicate 20 7) 3 0 3 2 = Some (m1, n)
    \<and> strunvis m1 17 3 = Some (m2, 3) \<and> slice m2 17 3 = [92, 0, 49]"
proof -
  have "slice ([92, 0, 49] @ replicate 20 7) 0 3 = [92, 0, 49]" by code_simp
  then show ?thesis
    using strvisx_roundtrip [of 2 "[92, 0, 49]" "[92, 0, 49] @ replicate 20 7" 0 3 3 17]
    by (auto simp: VIS_NOSLASH_def disjoint_def)
qed

text \<open>
  The encoding of a string of \<open>n\<close> bytes fits into \<open>4 * n\<close> bytes and a zero: \<open>strvis\<close> returns the length
  of what it wrote, the result is a string, and no byte outside that area changes.
\<close>

theorem strvis_fits:
  assumes "cstr m src cs" "dst + 4 * length cs < length m" "disjoint dst (4 * length cs + 1) src (length cs + 1)"
  shows "\<exists>m' s. strvis DefaultRuneLocale m dst src flag = Some (m', int (length s)) \<and> length s \<le> 4 * length cs
    \<and> cstr m' dst s \<and> length m' = length m \<and> (\<forall>i. i < dst \<or> dst + 4 * length cs < i \<longrightarrow> m' ! i = m ! i)"
proof -
  let ?e = "vis_all DefaultRuneLocale flag cs"
  have e: "length ?e \<le> 4 * length cs" by (rule vis_all_length)
  have "strvis DefaultRuneLocale m dst src flag = Some (put m dst (?e @ [0]), int (length ?e))"
    using assms e by (intro strvis_spec) (auto simp: disjoint_def)
  moreover have "cstr (put m dst (?e @ [0])) dst ?e" using assms e vis_all_nz by (intro cstr_put_nul) auto
  moreover have "put m dst (?e @ [0]) ! i = m ! i" if "i < dst \<or> dst + 4 * length cs < i" for i
    using that e assms by (auto simp: nth_put)
  ultimately show ?thesis using e assms by (intro exI [of _ "put m dst (?e @ [0])"] exI [of _ ?e]) auto
qed

theorem strvis_fits_witness:
  "\<exists>m' s. strvis DefaultRuneLocale [200, 0, 1, 1, 1, 1, 1] 2 0 0 = Some (m', int (length s)) \<and> length s \<le> 4 \<and> cstr m' 2 s"
  using strvis_fits [of "[200, 0, 1, 1, 1, 1, 1]" 0 "[200]" 2 0] by (auto simp: cstr_def disjoint_def slice_def)

text \<open>
  C39: the states of the decoder. Whatever characters it is fed, the state is one of the seven of the
  source, the byte under construction has only the bits the state has read so far, and so the final
  \<open>SYNBAD\<close> for an unknown state is never reached.
\<close>

theorem decoder_states:
  assumes "decoder cp st"
  shows "decoder_inv cp st"
  using assms by (rule decoder_invariant)

theorem decoder_states_witness: "decoder_inv 128 S_META"
proof -
  have "decoder 0 S_GROUND" by (rule decoder.start)
  then have "decoder 0 S_START" by (rule decoder.step [of _ _ 92 0]) (simp_all add: unvis_def)
  then have "decoder 128 S_META" by (rule decoder.step [of _ _ 77 0]) (simp_all add: unvis_def unvis_start_def unvis_states)
  then show ?thesis by (rule decoder_states)
qed

text \<open>
  C40: an escape always ends: from every state, and for every three characters that follow, the decoder is
  back in the ground state after at most three of them.
\<close>

theorem decoder_live:
  assumes "st \<in> {S_GROUND, S_START, S_META, S_META1, S_CTRL, S_OCTAL2, S_OCTAL3}"
  shows "\<exists>k \<le> 3. unvis_run cp st (take k [c1, c2, c3]) = S_GROUND"
proof -
  have "unvis_run cp st [] = S_GROUND \<or> unvis_run cp st [c1] = S_GROUND \<or> unvis_run cp st [c1, c2] = S_GROUND
      \<or> unvis_run cp st [c1, c2, c3] = S_GROUND"
    using assms by (auto simp: unvis_def unvis_start_def unvis_states)
  then show ?thesis
    by (elim disjE) (force intro: exI [of _ 0] exI [of _ 1] exI [of _ 2] exI [of _ 3] simp: numeral_2_eq_2 numeral_3_eq_3)+
qed

theorem decoder_live_witness: "\<exists>k \<le> 3. unvis_run 0 S_START (take k [77, 94, 65]) = S_GROUND"
  using decoder_live [of S_START 0 77 94 65] by simp

end
