(* ===== verification/Fnmatch.thy ===== *)
theory Fnmatch
  imports CMem
begin

unbundle bit_operations_syntax

text \<open>
  File name matching, \<open>lib/libc/gen/fnmatch.c\<close>. Pattern and string are C strings: the list of their bytes
  without the terminating zero, which is what the code reads at the end of the list. The matcher is
  compared with a declarative semantics of patterns, in which a star stands for any run of characters.
\<close>

section \<open>Definitions\<close>

definition FNM_NOMATCH :: int where "FNM_NOMATCH = 1"
definition FNM_NOESCAPE :: int where "FNM_NOESCAPE = 0x01"
definition FNM_PATHNAME :: int where "FNM_PATHNAME = 0x02"
definition FNM_PERIOD :: int where "FNM_PERIOD = 0x04"

abbreviation flagged :: "int \<Rightarrow> int \<Rightarrow> bool" where
  "flagged flags f \<equiv> flags AND f \<noteq> 0"

function rangematch_loop :: "int \<Rightarrow> int \<Rightarrow> bool \<Rightarrow> byte list \<Rightarrow> (bool \<times> byte list) option" where
  "rangematch_loop flags test ok pattern =
     (case pattern of
       [] \<Rightarrow> None
     | c # p \<Rightarrow>
         if c = 93 then Some (ok, p)
         else
           let esc = \<not> flagged flags FNM_NOESCAPE;
               (c, p) = (if c = 92 \<and> esc then (deref p, tl p) else (c, p)) in
           if c = 0 then None
           else if deref p = 45 \<and> deref (tl p) \<noteq> 0 \<and> deref (tl p) \<noteq> 93 then
             let c2 = deref (tl p); p = tl (tl p);
                 (c2, p) = (if c2 = 92 \<and> esc then (deref p, tl p) else (c2, p)) in
             if c2 = 0 then None
             else rangematch_loop flags test (ok \<or> sint c \<le> test \<and> test \<le> sint c2) p
           else rangematch_loop flags test (ok \<or> sint c = test) p)"
  by pat_completeness auto
termination
  by (relation "measure (\<lambda>(flags, test, ok, pattern). length pattern)") (auto split: if_splits)

declare rangematch_loop.simps [simp del]

definition rangematch :: "byte list \<Rightarrow> int \<Rightarrow> int \<Rightarrow> byte list option" where
  "rangematch pattern test flags =
     (let negate = (deref pattern = 33 \<or> deref pattern = 94);
          pattern = (if negate then tl pattern else pattern) in
      case rangematch_loop flags test False pattern of
        None \<Rightarrow> None
      | Some (ok, p) \<Rightarrow> if ok = negate then None else Some p)"

lemma rangematch_loop_length: "rangematch_loop flags test ok p = Some (ok', q) \<Longrightarrow> length q < length p"
proof (induction flags test ok p rule: rangematch_loop.induct)
  case (1 flags test ok p)
  then show ?case
    by (subst (asm) (3) rangematch_loop.simps)
      (fastforce simp: Let_def deref_def split: list.splits if_splits)
qed

lemma rangematch_length: "rangematch p test flags = Some q \<Longrightarrow> length q < length p"
  by (auto simp: rangematch_def Let_def split: option.splits if_splits dest!: rangematch_loop_length)

text \<open>
  A period that must be matched explicitly: at the start of the string, where \<open>prev\<close> is \<open>None\<close>, or after a
  slash, where \<open>prev\<close> is the character before.
\<close>

definition leading_period :: "int \<Rightarrow> byte option \<Rightarrow> byte list \<Rightarrow> bool" where
  "leading_period flags prev string \<longleftrightarrow> deref string = 46 \<and> flagged flags FNM_PERIOD
     \<and> (prev = None \<or> flagged flags FNM_PATHNAME \<and> prev = Some 47)"

function (sequential) fnmatch_at :: "int \<Rightarrow> byte option \<Rightarrow> byte list \<Rightarrow> byte list \<Rightarrow> int"
  and star_loop :: "int \<Rightarrow> byte list \<Rightarrow> byte list \<Rightarrow> int" where
  "fnmatch_at flags prev [] string = (if string = [] then 0 else FNM_NOMATCH)"
| "fnmatch_at flags prev (c # pattern) string =
     (if c = 63 then
        (if string = [] then FNM_NOMATCH
         else if deref string = 47 \<and> flagged flags FNM_PATHNAME then FNM_NOMATCH
         else if leading_period flags prev string then FNM_NOMATCH
         else fnmatch_at flags (Some (deref string)) pattern (tl string))
      else if c = 42 then
        let pattern = dropWhile (\<lambda>c. c = 42) pattern; c = deref pattern in
        if leading_period flags prev string then FNM_NOMATCH
        else if c = 0 then
          (if flagged flags FNM_PATHNAME then (if 47 \<notin> set string then 0 else FNM_NOMATCH) else 0)
        else if c = 47 \<and> flagged flags FNM_PATHNAME then
          (if 47 \<notin> set string then FNM_NOMATCH
           else let skip = takeWhile (\<lambda>x. x \<noteq> 47) string in
             fnmatch_at flags (if skip = [] then prev else Some (last skip)) pattern (dropWhile (\<lambda>x. x \<noteq> 47) string))
        else star_loop flags pattern string
      else if c = 91 then
        (if string = [] then FNM_NOMATCH
         else if deref string = 47 \<and> flagged flags FNM_PATHNAME then FNM_NOMATCH
         else case rangematch pattern (sint (deref string)) flags of
           None \<Rightarrow> FNM_NOMATCH
         | Some pattern \<Rightarrow> fnmatch_at flags (Some (deref string)) pattern (tl string))
      else
        let (c, pattern) =
          (if c = 92 \<and> \<not> flagged flags FNM_NOESCAPE then
             (if deref pattern = 0 then (92, pattern) else (deref pattern, tl pattern))
           else (c, pattern)) in
        if c \<noteq> deref string then FNM_NOMATCH else fnmatch_at flags (Some c) pattern (tl string))"
| "star_loop flags pattern [] = FNM_NOMATCH"
| "star_loop flags pattern (test # string) =
     (if fnmatch_at (flags AND NOT FNM_PERIOD) None pattern (test # string) = 0 then 0
      else if test = 47 \<and> flagged flags FNM_PATHNAME then FNM_NOMATCH
      else star_loop flags pattern string)"
  by pat_completeness auto
termination
  by (relation "inv_image (less_than <*lex*> less_than <*lex*> less_than)
      (case_sum (\<lambda>(flags, prev, p, s). (length p, length s, 0 :: nat)) (\<lambda>(flags, p, s). (length p, length s, 1)))")
    (auto simp: le_imp_less_Suc length_dropWhile_le dest: rangematch_length split: if_splits)

declare fnmatch_at.simps(2) [simp del]

definition fnmatch :: "byte list \<Rightarrow> byte list \<Rightarrow> int \<Rightarrow> int" where
  "fnmatch pattern string flags = fnmatch_at flags None pattern string"

section \<open>Bracket expressions\<close>

text \<open>
  The ranges a bracket expression lists, up to its closing bracket; a single character is a range of one.
  What the expression lists does not depend on the character tested.
\<close>

function bracket :: "bool \<Rightarrow> byte list \<Rightarrow> ((int \<times> int) list \<times> byte list) option" where
  "bracket noescape pattern =
     (case pattern of
       [] \<Rightarrow> None
     | c # p \<Rightarrow>
         if c = 93 then Some ([], p)
         else
           let esc = \<not> noescape;
               (c, p) = (if c = 92 \<and> esc then (deref p, tl p) else (c, p)) in
           if c = 0 then None
           else if deref p = 45 \<and> deref (tl p) \<noteq> 0 \<and> deref (tl p) \<noteq> 93 then
             let c2 = deref (tl p); p = tl (tl p);
                 (c2, p) = (if c2 = 92 \<and> esc then (deref p, tl p) else (c2, p)) in
             if c2 = 0 then None else map_option (apfst (Cons (sint c, sint c2))) (bracket noescape p)
           else map_option (apfst (Cons (sint c, sint c))) (bracket noescape p))"
  by pat_completeness auto
termination
  by (relation "measure (\<lambda>(noescape, pattern). length pattern)") (auto split: if_splits)

declare bracket.simps [simp del]

definition in_ranges :: "(int \<times> int) list \<Rightarrow> int \<Rightarrow> bool" where
  "in_ranges rs x \<longleftrightarrow> (\<exists>(lo, hi) \<in> set rs. lo \<le> x \<and> x \<le> hi)"

lemma in_ranges_Cons [simp]: "in_ranges ((lo, hi) # rs) x \<longleftrightarrow> lo \<le> x \<and> x \<le> hi \<or> in_ranges rs x"
  by (simp add: in_ranges_def)

lemma in_ranges_Nil [simp]: "\<not> in_ranges [] x"
  by (simp add: in_ranges_def)

lemma rangematch_loop_bracket:
  "rangematch_loop flags test ok p = map_option (\<lambda>(rs, q). (ok \<or> in_ranges rs test, q)) (bracket (flagged flags FNM_NOESCAPE) p)"
proof (induction flags test ok p rule: rangematch_loop.induct)
  case (1 flags test ok p)
  show ?case
  proof (cases p)
    case Nil
    then show ?thesis by (simp add: rangematch_loop.simps bracket.simps)
  next
    case (Cons c p')
    show ?thesis
    proof (cases "c = 93")
      case True
      then show ?thesis using Cons by (simp add: rangematch_loop.simps bracket.simps)
    next
      case False
      define esc where "esc \<longleftrightarrow> \<not> flagged flags FNM_NOESCAPE"
      obtain d q where dq: "(if c = 92 \<and> esc then (deref p', tl p') else (c, p')) = (d, q)" by fastforce
      obtain d2 q2 where dq2: "(if deref (tl q) = 92 \<and> esc then (deref (tl (tl q)), tl (tl (tl q))) else (deref (tl q), tl (tl q))) = (d2, q2)" by fastforce
      have l: "rangematch_loop flags test ok p =
          (if d = 0 then None
           else if deref q = 45 \<and> deref (tl q) \<noteq> 0 \<and> deref (tl q) \<noteq> 93 then
             (if d2 = 0 then None else rangematch_loop flags test (ok \<or> sint d \<le> test \<and> test \<le> sint d2) q2)
           else rangematch_loop flags test (ok \<or> sint d = test) q)"
        by (subst rangematch_loop.simps) (use Cons False dq dq2 esc_def in \<open>simp add: Let_def\<close>)
      let ?ne = "flagged flags FNM_NOESCAPE"
      have b: "bracket ?ne p =
          (if d = 0 then None
           else if deref q = 45 \<and> deref (tl q) \<noteq> 0 \<and> deref (tl q) \<noteq> 93 then
             (if d2 = 0 then None else map_option (apfst (Cons (sint d, sint d2))) (bracket ?ne q2))
           else map_option (apfst (Cons (sint d, sint d))) (bracket ?ne q))"
        by (subst bracket.simps) (use Cons False dq dq2 esc_def in \<open>simp add: Let_def\<close>)
      show ?thesis
      proof (cases "deref q = 45 \<and> deref (tl q) \<noteq> 0 \<and> deref (tl q) \<noteq> 93")
        case True
        show ?thesis
          unfolding l b if_P [OF True]
          using "1.IH"(1) [OF Cons False esc_def dq [symmetric] HOL.refl _ True HOL.refl HOL.refl dq2 [symmetric] HOL.refl]
          by (cases "d = 0"; cases "d2 = 0") (simp_all add: option.map_comp o_def split_def)
      next
        case no: False
        have eq: "sint d \<le> test \<and> test \<le> sint d \<longleftrightarrow> sint d = test" by auto
        show ?thesis
          unfolding l b if_not_P [OF no]
          using "1.IH"(2) [OF Cons False esc_def dq [symmetric] HOL.refl _ no] eq
          by (cases "d = 0") (simp_all add: option.map_comp o_def split_def)
      qed
    qed
  qed
qed

section \<open>The meaning of a pattern\<close>

datatype glob = Lit byte | AnyChar | Star | Bracket bool "(int \<times> int) list" | Broken

function globs :: "bool \<Rightarrow> byte list \<Rightarrow> glob list" where
  "globs noescape pattern =
     (case pattern of
       [] \<Rightarrow> []
     | c # p \<Rightarrow>
         if c = 63 then AnyChar # globs noescape p
         else if c = 42 then Star # globs noescape p
         else if c = 91 then
           let negate = (deref p = 33 \<or> deref p = 94) in
           (case bracket noescape (if negate then tl p else p) of
             None \<Rightarrow> [Broken]
           | Some (rs, q) \<Rightarrow> if length q < length p then Bracket negate rs # globs noescape q else [Broken])
         else if c = 92 \<and> \<not> noescape \<and> p \<noteq> [] then Lit (hd p) # globs noescape (tl p)
         else Lit c # globs noescape p)"
  by pat_completeness auto
termination
  by (relation "measure (\<lambda>(noescape, pattern). length pattern)") (auto simp: le_imp_less_Suc)

declare globs.simps [simp del]

definition after :: "byte option \<Rightarrow> byte list \<Rightarrow> byte option" where
  "after prev u = (if u = [] then prev else Some (last u))"

fun globmatch :: "int \<Rightarrow> byte option \<Rightarrow> glob list \<Rightarrow> byte list \<Rightarrow> bool" where
  "globmatch flags prev [] s \<longleftrightarrow> s = []"
| "globmatch flags prev (Lit c # g) s \<longleftrightarrow> (\<exists>t. s = c # t \<and> globmatch flags (Some c) g t)"
| "globmatch flags prev (AnyChar # g) s \<longleftrightarrow> (\<exists>x t. s = x # t \<and> \<not> (x = 47 \<and> flagged flags FNM_PATHNAME)
     \<and> \<not> leading_period flags prev s \<and> globmatch flags (Some x) g t)"
| "globmatch flags prev (Bracket negate rs # g) s \<longleftrightarrow> (\<exists>x t. s = x # t \<and> \<not> (x = 47 \<and> flagged flags FNM_PATHNAME)
     \<and> in_ranges rs (sint x) \<noteq> negate \<and> globmatch flags (Some x) g t)"
| "globmatch flags prev (Star # g) s \<longleftrightarrow> \<not> leading_period flags prev s
     \<and> (\<exists>u v. s = u @ v \<and> (flagged flags FNM_PATHNAME \<longrightarrow> 47 \<notin> set u) \<and> globmatch flags (after prev u) g v)"
| "globmatch flags prev (Broken # g) s \<longleftrightarrow> False"

text \<open>Without one of the two flags, a period is leading at the start of the string only.\<close>

definition simple :: "int \<Rightarrow> bool" where
  "simple flags \<longleftrightarrow> \<not> (flagged flags FNM_PATHNAME \<and> flagged flags FNM_PERIOD)"

lemma not_leading_Some [simp]: "simple flags \<Longrightarrow> \<not> leading_period flags (Some x) s"
  by (auto simp: simple_def leading_period_def)

lemma not_leading_after:
  "simple flags \<Longrightarrow> \<not> leading_period flags prev (u @ v) \<Longrightarrow> \<not> leading_period flags (after prev u) v"
  by (auto simp: after_def)

lemma after_after: "after (after prev u) v = after prev (u @ v)"
  by (simp add: after_def)

lemma globmatch_quiet:
  assumes "simple f" "simple f'" "flagged f FNM_PATHNAME = flagged f' FNM_PATHNAME"
    "\<not> leading_period f prev s" "\<not> leading_period f' prev' s"
  shows "globmatch f prev g s = globmatch f' prev' g s"
  using assms(4,5)
proof (induction g arbitrary: prev prev' s)
  case (Cons x g)
  have next_c: "globmatch f (Some c) g t = globmatch f' (Some c) g t" for c t
    using Cons.IH [of "Some c" t "Some c"] assms(1,2) by simp
  show ?case
  proof (cases x)
    case Star
    have "globmatch f (after prev u) g v = globmatch f' (after prev' u) g v" if "s = u @ v" for u v
      using Cons.IH [of "after prev u" v "after prev' u"] not_leading_after assms(1,2) Cons.prems that by blast
    then show ?thesis using Star Cons.prems assms(3) by auto
  qed (use Cons.prems assms(3) next_c in auto)
qed simp

lemma globmatch_stars:
  assumes "simple f"
  shows "globmatch f prev (Star # Star # g) s = globmatch f prev (Star # g) s" (is "?l = ?r")
proof
  assume ?l
  then obtain u v u' v' where s: "s = u @ v" "v = u' @ v'" "\<not> leading_period f prev s"
      "flagged f FNM_PATHNAME \<longrightarrow> 47 \<notin> set u \<and> 47 \<notin> set u'" "globmatch f (after (after prev u) u') g v'" by auto
  then show ?r
    by (simp add: after_after) (rule exI [of _ "u @ u'"], auto)
next
  assume r: ?r
  then have "globmatch f (after prev []) (Star # g) s" by (simp add: after_def del: globmatch.simps)
  then have "\<exists>u v. s = u @ v \<and> (flagged f FNM_PATHNAME \<longrightarrow> 47 \<notin> set u) \<and> globmatch f (after prev u) (Star # g) v"
    by (intro exI [of _ "[]"] exI [of _ s]) simp
  then show ?l using r unfolding globmatch.simps(5) [of f prev] by blast
qed

lemma globs_stars:
  assumes "simple f"
  shows "globmatch f prev (Star # globs noescape p) s = globmatch f prev (Star # globs noescape (dropWhile (\<lambda>c. c = 42) p)) s"
proof (induction p)
  case (Cons c p)
  show ?case
  proof (cases "c = 42")
    case True
    then have "globs noescape (c # p) = Star # globs noescape p" by (subst globs.simps) simp
    then show ?thesis using True Cons globmatch_stars [OF assms] by (simp del: globmatch.simps(5))
  qed simp
qed simp

section \<open>The matcher\<close>

lemma star_loop_iff:
  "star_loop flags p s = 0 \<longleftrightarrow> (\<exists>u v. s = u @ v \<and> v \<noteq> [] \<and> (flagged flags FNM_PATHNAME \<longrightarrow> 47 \<notin> set u)
     \<and> fnmatch_at (flags AND NOT FNM_PERIOD) None p v = 0)" (is "_ \<longleftrightarrow> ?R s")
proof (induction s)
  case Nil
  then show ?case by (simp add: FNM_NOMATCH_def)
next
  case (Cons x s)
  have "?R (x # s) \<longleftrightarrow> fnmatch_at (flags AND NOT FNM_PERIOD) None p (x # s) = 0
      \<or> (flagged flags FNM_PATHNAME \<longrightarrow> x \<noteq> 47) \<and> ?R s" (is "?L \<longleftrightarrow> ?now \<or> ?later")
  proof
    assume ?L
    then obtain u v where uv: "x # s = u @ v" "v \<noteq> []" "flagged flags FNM_PATHNAME \<longrightarrow> 47 \<notin> set u"
        "fnmatch_at (flags AND NOT FNM_PERIOD) None p v = 0" by blast
    show "?now \<or> ?later"
    proof (cases u)
      case Nil
      then show ?thesis using uv by simp
    next
      case (Cons y u')
      then have "s = u' @ v" "y = x" using uv(1) by auto
      then show ?thesis using Cons uv by auto
    qed
  next
    assume "?now \<or> ?later"
    then show ?L
    proof
      assume ?now
      then show ?L by (intro exI [of _ "[]"] exI [of _ "x # s"]) simp
    next
      assume ?later
      then obtain u v where uv: "s = u @ v" "v \<noteq> []" "flagged flags FNM_PATHNAME \<longrightarrow> x \<noteq> 47 \<and> 47 \<notin> set u"
        "fnmatch_at (flags AND NOT FNM_PERIOD) None p v = 0" by blast
      then show ?L by (intro exI [of _ "x # u"] exI [of _ v]) auto
    qed
  qed
  then show ?case using Cons by (auto simp: FNM_NOMATCH_def)
qed

lemma no_period:
  "simple (flags AND NOT FNM_PERIOD)" "flagged (flags AND NOT FNM_PERIOD) FNM_PATHNAME = flagged flags FNM_PATHNAME"
  "flagged (flags AND NOT FNM_PERIOD) FNM_NOESCAPE = flagged flags FNM_NOESCAPE"
  "\<not> leading_period (flags AND NOT FNM_PERIOD) prev s"
  by (simp_all add: simple_def leading_period_def FNM_PATHNAME_def FNM_PERIOD_def FNM_NOESCAPE_def and.assoc)

lemma rangematch_bracket:
  "rangematch p test flags =
     (let negate = (deref p = 33 \<or> deref p = 94) in
      case bracket (flagged flags FNM_NOESCAPE) (if negate then tl p else p) of
        None \<Rightarrow> None
      | Some (rs, q) \<Rightarrow> if in_ranges rs test \<noteq> negate then Some q else None)"
  by (auto simp: rangematch_def rangematch_loop_bracket Let_def split: option.splits)

lemma bracket_length: "bracket ne p = Some (rs, q) \<Longrightarrow> length q < length p"
proof -
  assume "bracket ne p = Some (rs, q)"
  moreover obtain f where "flagged f FNM_NOESCAPE = ne" by (cases ne) (auto simp: FNM_NOESCAPE_def intro: that [of 1] that [of 0])
  ultimately have "rangematch_loop f 0 False p = Some (in_ranges rs 0, q)" by (simp add: rangematch_loop_bracket)
  then show "length q < length p" by (rule rangematch_loop_length)
qed

lemma bracket_subset: "bracket ne p = Some (rs, q) \<Longrightarrow> set q \<subseteq> set p"
proof (induction ne p arbitrary: rs q rule: bracket.induct)
  case (1 ne p)
  have tl: "set (tl xs) \<subseteq> set xs" for xs :: "byte list" by (cases xs) auto
  have tl2: "set (tl (tl xs)) \<subseteq> set xs" for xs :: "byte list" using tl tl by (rule order_trans)
  have tl3: "set (tl (tl (tl xs))) \<subseteq> set xs" for xs :: "byte list" using tl tl2 by (rule order_trans)
  have tl4: "set (tl (tl (tl (tl xs)))) \<subseteq> set xs" for xs :: "byte list" using tl tl3 by (rule order_trans)
  show ?case
    using 1 by (subst (asm) (3) bracket.simps)
      (fastforce simp: Let_def split: list.splits if_splits dest: subsetD [OF tl] subsetD [OF tl2] subsetD [OF tl3] subsetD [OF tl4])
qed

lemma globs_nonempty:
  assumes "q \<noteq> []" "hd q \<noteq> 42"
  shows "\<not> globmatch f prev (globs ne q) []"
proof -
  obtain c p where "q = c # p" using assms(1) by (cases q) auto
  then show ?thesis
    using assms(2) by (subst globs.simps) (auto simp: Let_def split: option.splits)
qed

lemma split_at_slash: "s = u @ 47 # t \<Longrightarrow> 47 \<notin> set u \<Longrightarrow>
    takeWhile (\<lambda>x. x \<noteq> 47) s = u \<and> dropWhile (\<lambda>x. x \<noteq> 47) s = 47 # t" for s :: "byte list"
  by (simp add: takeWhile_append dropWhile_append)

lemma fnmatch_at_star:
  assumes simple: "simple flags"
    and IH: "\<And>flags prev t. simple flags \<Longrightarrow> set t \<subseteq> set s \<Longrightarrow>
      fnmatch_at flags prev q t = 0 \<longleftrightarrow> globmatch flags prev (globs (flagged flags FNM_NOESCAPE) q) t"
    and q: "q = dropWhile (\<lambda>c. c = 42) p" and nz: "0 \<notin> set p"
  shows "fnmatch_at flags prev (42 # p) s = 0 \<longleftrightarrow> globmatch flags prev (Star # globs (flagged flags FNM_NOESCAPE) q) s"
proof (cases "leading_period flags prev s")
  case True
  then show ?thesis by (simp add: fnmatch_at.simps(2) FNM_NOMATCH_def Let_def)
next
  case quiet: False
  let ?ne = "flagged flags FNM_NOESCAPE"
  have q0: "deref q = 0 \<longleftrightarrow> q = []" using nz unfolding q by (intro deref_eq_0) (auto dest: set_dropWhileD)
  show ?thesis
  proof (cases "q = []")
    case True
    then have "fnmatch_at flags prev (42 # p) s = 0 \<longleftrightarrow> (flagged flags FNM_PATHNAME \<longrightarrow> 47 \<notin> set s)"
      using quiet q q0 by (simp add: fnmatch_at.simps(2) FNM_NOMATCH_def Let_def)
    moreover have "globs ?ne q = []" using True by (subst globs.simps) simp
    ultimately show ?thesis using quiet by auto
  next
    case nonempty: False
    then have hd: "hd q \<noteq> 42" using q hd_dropWhile [of "\<lambda>c. c = 42" p] by simp
    obtain d q' where dq: "q = d # q'" using nonempty by (cases q) auto
    show ?thesis
    proof (cases "d = 47 \<and> flagged flags FNM_PATHNAME")
      case True
      have g: "globs ?ne q = Lit 47 # globs ?ne q'" using True dq by (subst globs.simps) simp
      let ?u = "takeWhile (\<lambda>x. x \<noteq> 47) s" and ?v = "dropWhile (\<lambda>x. x \<noteq> 47) s"
      have "fnmatch_at flags prev (42 # p) s = 0 \<longleftrightarrow> 47 \<in> set s \<and> fnmatch_at flags (after prev ?u) q ?v = 0"
        using True dq quiet q q0 by (simp add: fnmatch_at.simps(2) FNM_NOMATCH_def Let_def after_def)
      also have "\<dots> \<longleftrightarrow> 47 \<in> set s \<and> globmatch flags (after prev ?u) (globs ?ne q) ?v"
        using IH [OF simple] by (meson set_dropWhileD subsetI)
      also have "\<dots> \<longleftrightarrow> (\<exists>u v. s = u @ v \<and> 47 \<notin> set u \<and> globmatch flags (after prev u) (globs ?ne q) v)" (is "?a \<longleftrightarrow> ?b")
      proof
        assume ?a
        then show ?b
          by (intro exI [of _ ?u] exI [of _ ?v]) (auto dest: set_takeWhileD simp del: globmatch.simps)
      next
        assume ?b
        then obtain u t where "s = u @ 47 # t" "47 \<notin> set u" "globmatch flags (after prev u) (globs ?ne q) (47 # t)"
          unfolding g by auto
        then show ?a using split_at_slash [of s u t] by simp
      qed
      finally show ?thesis using quiet True by (simp del: globmatch.simps add: globmatch.simps(5))
    next
      case False
      let ?f = "flags AND NOT FNM_PERIOD"
      have l: "fnmatch_at flags prev (42 # p) s = star_loop flags q s"
        using False dq quiet q q0 nonempty by (auto simp: fnmatch_at.simps(2) Let_def)
      have m: "fnmatch_at ?f None q v = 0 \<longleftrightarrow> globmatch flags (after prev u) (globs ?ne q) v" if "s = u @ v" for u v
      proof -
        have "fnmatch_at ?f None q v = 0 \<longleftrightarrow> globmatch ?f None (globs ?ne q) v"
          using IH [OF no_period(1), of v] that by (simp add: no_period(3))
        also have "\<dots> \<longleftrightarrow> globmatch flags (after prev u) (globs ?ne q) v"
          using not_leading_after [OF simple, of prev u v] quiet that no_period simple by (intro globmatch_quiet) auto
        finally show ?thesis .
      qed
      let ?P = "\<lambda>u v. s = u @ v \<and> (flagged flags FNM_PATHNAME \<longrightarrow> 47 \<notin> set u)"
      have "(\<exists>u v. s = u @ v \<and> v \<noteq> [] \<and> (flagged flags FNM_PATHNAME \<longrightarrow> 47 \<notin> set u) \<and> fnmatch_at ?f None q v = 0)
          \<longleftrightarrow> (\<exists>u v. ?P u v \<and> v \<noteq> [] \<and> globmatch flags (after prev u) (globs ?ne q) v)" using m by blast
      also have "\<dots> \<longleftrightarrow> (\<exists>u v. ?P u v \<and> globmatch flags (after prev u) (globs ?ne q) v)"
        using globs_nonempty [OF nonempty hd] by metis
      finally show ?thesis using quiet unfolding l star_loop_iff globmatch.simps(5) by (simp only: conj_assoc simp_thms)
    qed
  qed
qed

lemma fnmatch_at_globs:
  "0 \<notin> set p \<Longrightarrow> 0 \<notin> set s \<Longrightarrow> simple flags \<Longrightarrow>
   fnmatch_at flags prev p s = 0 \<longleftrightarrow> globmatch flags prev (globs (flagged flags FNM_NOESCAPE) p) s"
proof (induction "length p" arbitrary: p s flags prev rule: less_induct)
  case less
  let ?ne = "flagged flags FNM_NOESCAPE"
  note nz = less.prems(1,2) and simple = less.prems(3)
  show ?case
  proof (cases p)
    case Nil
    then show ?thesis by (subst globs.simps) (simp add: FNM_NOMATCH_def)
  next
    case (Cons c p')
    have IH: "fnmatch_at flags prev q t = 0 \<longleftrightarrow> globmatch flags prev (globs ?ne q) t"
      if "length q \<le> length p'" "set q \<subseteq> set p" "set t \<subseteq> set s" for prev q t
      using that less.hyps [of q t flags prev] nz simple Cons by auto
    consider "c = 63" | "c = 42" | "c = 91" | "c \<noteq> 63" "c \<noteq> 42" "c \<noteq> 91" by blast
    then show ?thesis
    proof cases
      case 1
      then have g: "globs ?ne p = AnyChar # globs ?ne p'" using Cons by (subst globs.simps) simp
      show ?thesis
        using IH [of p' "tl s"] Cons 1 unfolding g by (cases s) (auto simp: fnmatch_at.simps(2) FNM_NOMATCH_def)
    next
      case 2
      then have g: "globs ?ne p = Star # globs ?ne p'" using Cons by (subst globs.simps) simp
      let ?q = "dropWhile (\<lambda>c. c = 42) p'"
      have "fnmatch_at flags prev (42 # p') s = 0 \<longleftrightarrow> globmatch flags prev (Star # globs ?ne ?q) s"
      proof (rule fnmatch_at_star [OF simple _ HOL.refl])
        show "fnmatch_at flags prev ?q t = 0 \<longleftrightarrow> globmatch flags prev (globs (flagged flags FNM_NOESCAPE) ?q) t"
          if "simple flags" "set t \<subseteq> set s" for flags prev t
          using that nz Cons by (intro less.hyps) (auto simp: le_imp_less_Suc length_dropWhile_le dest: set_dropWhileD)
      qed (use nz Cons in simp)
      then show ?thesis unfolding g using globs_stars [OF simple] 2 Cons by metis
    next
      case 3
      define negate where "negate \<longleftrightarrow> deref p' = 33 \<or> deref p' = 94"
      let ?b = "bracket ?ne (if negate then tl p' else p')"
      have len: "length q < length p'" "set q \<subseteq> set p'" if "?b = Some (rs, q)" for rs q
      proof -
        have "length (if negate then tl p' else p') \<le> length p'" "set (if negate then tl p' else p') \<subseteq> set p'"
          by (cases p'; auto)+
        then show "length q < length p'" "set q \<subseteq> set p'"
          using bracket_length [OF that] bracket_subset [OF that] by auto
      qed
      have g: "globs ?ne p = (case ?b of None \<Rightarrow> [Broken] | Some (rs, q) \<Rightarrow> Bracket negate rs # globs ?ne q)"
        using Cons 3 len by (subst globs.simps) (auto simp: Let_def negate_def split: option.splits)
      show ?thesis
      proof (cases s)
        case Nil
        then show ?thesis using Cons 3 unfolding g
          by (auto simp: fnmatch_at.simps(2) FNM_NOMATCH_def split: option.splits)
      next
        case s: (Cons x t)
        show ?thesis
        proof (cases ?b)
          case None
          then show ?thesis unfolding g using Cons 3 s
            by (simp add: fnmatch_at.simps(2) FNM_NOMATCH_def rangematch_bracket negate_def)
        next
          case (Some r)
          obtain rs q where r: "r = (rs, q)" by fastforce
          have "rangematch p' (sint x) flags = (if in_ranges rs (sint x) \<noteq> negate then Some q else None)"
            using Some r by (simp add: rangematch_bracket negate_def)
          then show ?thesis
            using Cons 3 s Some r IH [of q t "Some x"] len [of rs q] unfolding g
            by (auto simp: fnmatch_at.simps(2) FNM_NOMATCH_def)
        qed
      qed
    next
      case 4
      obtain d q where dq: "(if c = 92 \<and> \<not> ?ne then (if deref p' = 0 then (92, p') else (deref p', tl p')) else (c, p')) = (d, q)"
        by fastforce
      have p0: "deref p' = 0 \<longleftrightarrow> p' = []" "0 \<notin> set p'" "c \<noteq> 0" using nz Cons by (auto intro!: deref_eq_0)
      have q: "length q \<le> length p'" "set q \<subseteq> set p" "d \<noteq> 0"
        using dq Cons p0 by (cases p'; auto split: if_splits)+
      have g: "globs ?ne p = Lit d # globs ?ne q"
        using Cons 4 dq p0 by (subst globs.simps) (auto simp: deref_def split: list.splits if_splits)
      have "fnmatch_at flags prev p s = (if d \<noteq> deref s then FNM_NOMATCH else fnmatch_at flags (Some d) q (tl s))"
        using Cons 4 dq by (simp add: fnmatch_at.simps(2))
      then show ?thesis
        unfolding g using IH [of q "tl s" "Some d"] q by (cases s) (auto simp: FNM_NOMATCH_def deref_def)
    qed
  qed
qed

section \<open>Properties\<close>



text \<open>
  With both flags the code departs from the documented meaning: a period right after a slash has to be
  matched by a period, but after a star that is not followed by a slash the question mark matches it. The
  same string is refused when the part before the slash is spelled out.
\<close>

theorem fnmatch_period_lost:
  "fnmatch [42, 98, 47, 63, 120] [97, 98, 47, 46, 120] (FNM_PATHNAME OR FNM_PERIOD) = 0
   \<and> \<not> globmatch (FNM_PATHNAME OR FNM_PERIOD) None (globs False [42, 98, 47, 63, 120]) [97, 98, 47, 46, 120]
   \<and> fnmatch [97, 98, 47, 63, 120] [97, 98, 47, 46, 120] (FNM_PATHNAME OR FNM_PERIOD) = FNM_NOMATCH"
proof (intro conjI)
  let ?f = "FNM_PATHNAME OR FNM_PERIOD"
  show "fnmatch [42, 98, 47, 63, 120] [97, 98, 47, 46, 120] ?f = 0"
    "fnmatch [97, 98, 47, 63, 120] [97, 98, 47, 46, 120] ?f = FNM_NOMATCH" by code_simp+
  have g: "globs False [42, 98, 47, 63, 120] = [Star, Lit 98, Lit 47, AnyChar, Lit 120]" by code_simp
  have "leading_period ?f (Some 47) [46, 120]" by code_simp
  then show "\<not> globmatch ?f None (globs False [42, 98, 47, 63, 120]) [97, 98, 47, 46, 120]"
    unfolding g by (auto simp: Cons_eq_append_conv)
qed

end
