(* ===== verification/DName.thy ===== *)
theory DName
  imports CMem Ctype
begin

unbundle bit_operations_syntax

text \<open>
  Domain names in messages, \<open>lib/libc/net/res_comp.c\<close>: expanding a compressed name, compressing a name,
  skipping one, and the extraction of short and long integers. The message and the buffers lie in one byte
  memory; \<open>None\<close> is an access outside of it, and the value -1 the error return of the routines.
\<close>

section \<open>Definitions\<close>

definition INDIR_MASK :: byte where "INDIR_MASK = 0xC0"
definition MAXLABEL :: nat where "MAXLABEL = 63"

subsection \<open>Expanding\<close>

text \<open>
  One label of \<open>n\<close> bytes: the inner loop of \<open>dn_expand\<close>, with a backslash before a period. \<open>Inl\<close> is the
  return of -1.
\<close>

fun copy_label :: "mem \<Rightarrow> ptr \<Rightarrow> ptr \<Rightarrow> ptr \<Rightarrow> ptr \<Rightarrow> nat \<Rightarrow> (mem + mem \<times> ptr \<times> ptr) option" where
  "copy_label m eomorig eom cp dn 0 = Some (Inr (m, cp, dn))"
| "copy_label m eomorig eom cp dn (Suc n) = do {
     c \<leftarrow> load m cp;
     (if c = 46 \<and> dn + n + 2 \<ge> eom then Some (Inl m)
      else do {
        (m, dn) \<leftarrow> (if c = 46 then do { m \<leftarrow> store m dn 92; Some (m, dn + 1) } else Some (m, dn));
        m \<leftarrow> store m dn c;
        (if cp + 1 \<ge> eomorig then Some (Inl m)
         else copy_label m eomorig eom (cp + 1) (dn + 1) n) }) }"

lemma copy_label_cp:
  "copy_label m eomorig eom cp dn n = Some (Inr (m', cp', dn')) \<Longrightarrow> cp' = cp + n \<and> (0 < n \<longrightarrow> cp' < eomorig)"
proof (induction m eomorig eom cp dn n rule: copy_label.induct)
  case (2 m eomorig eom cp dn n)
  then show ?case by (cases n) (auto simp: bind_eq_Some_conv split: if_splits)
qed simp

function expand_loop :: "mem \<Rightarrow> ptr \<Rightarrow> ptr \<Rightarrow> ptr \<Rightarrow> ptr \<Rightarrow> ptr \<Rightarrow> ptr \<Rightarrow> ptr \<Rightarrow> nat option \<Rightarrow> nat \<Rightarrow>
    (mem + mem \<times> ptr \<times> ptr \<times> nat option) option" where
  "expand_loop m msg eomorig eom comp_dn exp_dn cp dn len checked = do {
     b \<leftarrow> load m cp;
     (let n = unat b; cp = cp + 1 in
      if n = 0 then Some (Inr (m, cp, dn, len))
      else if b AND INDIR_MASK = 0 then
        (if dn \<noteq> exp_dn \<and> dn \<ge> eom then Some (Inl m)
         else do {
           (m, dn) \<leftarrow> (if dn \<noteq> exp_dn then do { m \<leftarrow> store m dn 46; Some (m, dn + 1) } else Some (m, dn));
           (if dn + n \<ge> eom then Some (Inl m)
            else do {
              r \<leftarrow> copy_label m eomorig eom cp dn n;
              (case r of
                Inl m \<Rightarrow> Some (Inl m)
              | Inr (m, cp, dn) \<Rightarrow>
                  expand_loop m msg eomorig eom comp_dn exp_dn cp dn len (checked + n + 1)) }) })
      else if b AND INDIR_MASK = INDIR_MASK then do {
        b2 \<leftarrow> load m cp;
        (let len = (case len of None \<Rightarrow> Some (cp - comp_dn + 1) | Some l \<Rightarrow> Some l);
             cp = msg + (n mod 64 * 256 + unat b2) in
         if cp < msg \<or> cp \<ge> eomorig then Some (Inl m)
         else if checked + 2 \<ge> eomorig - msg then Some (Inl m)
         else expand_loop m msg eomorig eom comp_dn exp_dn cp dn len (checked + 2)) }
      else Some (Inl m)) }"
  by pat_completeness auto
termination
  by (relation "inv_image (less_than <*lex*> less_than)
      (\<lambda>(m, msg, eomorig, eom, comp_dn, exp_dn, cp, dn, len, checked). (eomorig - msg - checked, eomorig - cp))")
    (auto dest!: copy_label_cp split: if_splits)

declare expand_loop.simps [simp del]

text \<open>The last loop: a name with white space in it is refused.\<close>

function space_scan :: "RuneLocale \<Rightarrow> mem \<Rightarrow> ptr \<Rightarrow> bool option" where
  "space_scan rl m dn = do {
     c \<leftarrow> load m dn;
     (if c = 0 then Some False
      else if isascii (sint c) \<and> isspace rl (sint c) then Some True
      else space_scan rl m (dn + 1)) }"
  by pat_completeness auto
termination
  by (relation "measure (\<lambda>(rl, m, dn). length m - dn)") (auto dest!: load_dest)

declare space_scan.simps [simp del]

definition dn_expand :: "RuneLocale \<Rightarrow> mem \<Rightarrow> ptr \<Rightarrow> ptr \<Rightarrow> ptr \<Rightarrow> ptr \<Rightarrow> nat \<Rightarrow> (mem \<times> int) option" where
  "dn_expand rl m msg eomorig comp_dn exp_dn len0 = do {
     r \<leftarrow> expand_loop m msg eomorig (exp_dn + len0) comp_dn exp_dn comp_dn exp_dn None 0;
     (case r of
       Inl m \<Rightarrow> Some (m, - 1)
     | Inr (m, cp, dn, len) \<Rightarrow> do {
         m \<leftarrow> store m dn 0;
         bad \<leftarrow> space_scan rl m exp_dn;
         Some (m, if bad then - 1 else int (case len of None \<Rightarrow> cp - comp_dn | Some l \<Rightarrow> l)) }) }"

subsection \<open>Skipping\<close>

function skip_loop :: "mem \<Rightarrow> ptr \<Rightarrow> ptr \<Rightarrow> ptr option option" where
  "skip_loop m eom cp =
     (if cp < eom then do {
        b \<leftarrow> load m cp;
        (let n = unat b; cp = cp + 1 in
         if n = 0 then Some (Some cp)
         else if b AND INDIR_MASK = 0 then skip_loop m eom (cp + n)
         else if b AND INDIR_MASK = INDIR_MASK then Some (Some (cp + 1))
         else Some None) }
      else Some (Some cp))"
  by pat_completeness auto
termination
  by (relation "measure (\<lambda>(m, eom, cp). eom - cp)") auto

declare skip_loop.simps [simp del]

definition dn_skipname :: "mem \<Rightarrow> ptr \<Rightarrow> ptr \<Rightarrow> int option" where
  "dn_skipname m comp_dn eom = do {
     r \<leftarrow> skip_loop m eom comp_dn;
     (case r of None \<Rightarrow> Some (- 1) | Some cp \<Rightarrow> Some (if cp > eom then - 1 else int (cp - comp_dn))) }"

subsection \<open>Finding a name among the compressed ones\<close>

definition mklower :: "RuneLocale \<Rightarrow> int \<Rightarrow> int" where
  "mklower rl ch = (if isascii ch \<and> isupper rl ch then tolower rl ch else ch)"

text \<open>The outcome for one name of the list: found, the jump to \<open>next\<close>, or the return of -1.\<close>

datatype find_result = Found | Next | Illegal

fun match_label :: "RuneLocale \<Rightarrow> mem \<Rightarrow> ptr \<Rightarrow> ptr \<Rightarrow> nat \<Rightarrow> (ptr \<times> ptr) option option" where
  "match_label rl m dn cp 0 = Some (Some (dn, cp))"
| "match_label rl m dn cp (Suc n) = do {
     d \<leftarrow> load m dn;
     (if d = 46 then Some None
      else do {
        let dn = (if d = 92 then dn + 1 else dn);
        d \<leftarrow> load m dn; c \<leftarrow> load m cp;
        (if mklower rl (uint d) \<noteq> mklower rl (uint c) then Some None
         else match_label rl m (dn + 1) (cp + 1) n) }) }"

text \<open>The chain of pointers of a bad message may have no end; \<open>None\<close> covers that too.\<close>

partial_function (option) find_at :: "RuneLocale \<Rightarrow> mem \<Rightarrow> ptr \<Rightarrow> ptr \<Rightarrow> ptr \<Rightarrow> find_result option" where
  "find_at rl m msg dn cp =
     Option.bind (load m cp) (\<lambda>b.
       if b = 0 then Option.bind (load m dn) (\<lambda>d. Some (if d = 0 then Found else Next))
       else if b AND INDIR_MASK = 0 then
         Option.bind (match_label rl m dn (cp + 1) (unat b)) (\<lambda>r.
           case r of
             None \<Rightarrow> Some Next
           | Some dc \<Rightarrow>
               Option.bind (load m (fst dc)) (\<lambda>d.
                 if d = 0 then Option.bind (load m (snd dc)) (\<lambda>c. Some (if c = 0 then Found else Next))
                 else if d = 46 then find_at rl m msg (fst dc + 1) (snd dc)
                 else Some Next))
       else if b AND INDIR_MASK = INDIR_MASK then
         Option.bind (load m (cp + 1)) (\<lambda>b2. find_at rl m msg dn (msg + (unat b mod 64 * 256 + unat b2)))
       else Some Illegal)"

fun dn_find :: "RuneLocale \<Rightarrow> mem \<Rightarrow> ptr \<Rightarrow> ptr \<Rightarrow> ptr list \<Rightarrow> int option" where
  "dn_find rl m exp_dn msg [] = Some (- 1)"
| "dn_find rl m exp_dn msg (sp # dnptrs) = do {
     r \<leftarrow> find_at rl m msg exp_dn sp;
     (case r of
       Found \<Rightarrow> Some (int sp - int msg)
     | Next \<Rightarrow> dn_find rl m exp_dn msg dnptrs
     | Illegal \<Rightarrow> Some (- 1)) }"

subsection \<open>Compressing\<close>

text \<open>The inner loop: one label up to a period or the end, with backslashes taken off.\<close>

function comp_label :: "mem \<Rightarrow> ptr \<Rightarrow> ptr \<Rightarrow> ptr \<Rightarrow> byte \<Rightarrow> (mem \<times> ptr \<times> ptr \<times> byte) option option" where
  "comp_label m eob cp dn c =
     (if c = 46 then do { c \<leftarrow> load m dn; Some (Some (m, cp, dn + 1, c)) }
      else do {
        (c, dn) \<leftarrow> (if c = 92 then do { c \<leftarrow> load m dn; Some (c, dn + 1) } else Some (c, dn));
        (if c = 0 then Some (Some (m, cp, dn, c))
         else if cp \<ge> eob then Some None
         else do {
           m \<leftarrow> store m cp c;
           c \<leftarrow> load m dn;
           (if c = 0 then Some (Some (m, cp + 1, dn + 1, c)) else comp_label m eob (cp + 1) (dn + 1) c) }) })"
  by pat_completeness auto
termination
  by (relation "measure (\<lambda>(m, eob, cp, dn, c). length m - dn)")
    (auto simp: store_eq_Some bind_eq_Some_conv dest!: load_dest split: if_splits)

declare comp_label.simps [simp del]

lemma comp_label_dn:
  "comp_label m eob cp dn c = Some (Some (m', cp', dn', c')) \<Longrightarrow> c \<noteq> 0 \<Longrightarrow>
   dn < dn' \<and> dn' \<le> length m \<and> cp \<le> cp' \<and> length m' = length m"
proof (induction m eob cp dn c rule: comp_label.induct)
  case (1 m eob cp dn c)
  show ?case
  proof (cases "c = 46")
    case True
    then show ?thesis using "1.prems" by (subst (asm) comp_label.simps) (auto simp: bind_eq_Some_conv)
  next
    case False
    obtain c1 dn1 where e: "(if c = 92 then do { c \<leftarrow> load m dn; Some (c, dn + 1) } else Some (c, dn)) = Some (c1, dn1)"
      using "1.prems"(1) False by (subst (asm) comp_label.simps) (auto simp: bind_eq_Some_conv)
    have dn1: "dn \<le> dn1" "dn1 \<le> dn + 1" "c1 = 0 \<Longrightarrow> dn < dn1 \<and> dn1 \<le> length m"
      using e "1.prems"(2) by (auto simp: bind_eq_Some_conv split: if_splits)
    have l: "comp_label m eob cp dn c =
        (if c1 = 0 then Some (Some (m, cp, dn1, c1)) else if cp \<ge> eob then Some None
         else do {
           m \<leftarrow> store m cp c1;
           c \<leftarrow> load m dn1;
           (if c = 0 then Some (Some (m, cp + 1, dn1 + 1, c)) else comp_label m eob (cp + 1) (dn1 + 1) c) })"
      using False e by (subst comp_label.simps) simp
    show ?thesis
    proof (cases "c1 = 0 \<or> cp \<ge> eob")
      case True
      then show ?thesis using "1.prems"(1) l dn1 by (auto split: if_splits)
    next
      case no: False
      then obtain m1 c2 where s: "store m cp c1 = Some m1" "load m1 dn1 = Some c2"
        using "1.prems"(1) l by (auto simp: bind_eq_Some_conv)
      have len: "length m1 = length m" "dn1 < length m" using s by (auto simp: store_eq_Some)
      show ?thesis
      proof (cases "c2 = 0")
        case True
        then show ?thesis using "1.prems"(1) l no s len dn1 by auto
      next
        case nz: False
        then have "comp_label m1 eob (cp + 1) (dn1 + 1) c2 = Some (Some (m', cp', dn', c'))"
          using "1.prems"(1) l no s by simp
        then show ?thesis using "1.IH" [OF False e refl _ _ s nz] no nz len dn1 by auto
      qed
    qed
  qed
qed

text \<open>
  The list of names: \<open>names\<close> are the entries after the pointer to the message, \<open>found\<close> those of them that
  were there at the start, and \<open>cap\<close> the number of places of the whole array when the caller lets it grow.
\<close>

function comp_loop :: "RuneLocale \<Rightarrow> mem \<Rightarrow> ptr \<Rightarrow> ptr \<Rightarrow> ptr option \<Rightarrow> ptr list \<Rightarrow> nat option \<Rightarrow> ptr list \<Rightarrow> ptr \<Rightarrow> ptr \<Rightarrow> byte \<Rightarrow>
    (mem \<times> ptr list \<times> int) option" where
  "comp_loop rl m comp_dn eob msg found cap names cp dn c =
     (let finish = (\<lambda>m names cp.
        if cp \<ge> eob then Some (m, if msg = None then names else found, - 1)
        else do { m \<leftarrow> store m cp 0; Some (m, names, int (cp + 1) - int comp_dn) }) in
      if c = 0 then finish m names cp
      else do {
        l \<leftarrow> (case msg of None \<Rightarrow> Some (- 1) | Some msg \<Rightarrow> dn_find rl m (dn - 1) msg found);
        (if l \<ge> 0 then
           (if cp + 1 \<ge> eob then Some (m, names, - 1)
            else do {
              m \<leftarrow> store m cp (of_int (l div 256) OR INDIR_MASK);
              m \<leftarrow> store m (cp + 1) (of_int (l mod 256));
              Some (m, names, int (cp + 2) - int comp_dn) })
         else do {
           let names = (if msg \<noteq> None \<and> (case cap of None \<Rightarrow> False | Some k \<Rightarrow> 1 + length names + 1 < k) then names @ [cp] else names);
           r \<leftarrow> comp_label m eob (cp + 1) dn c;
           (case r of
             None \<Rightarrow> Some (m, if msg = None then names else found, - 1)
           | Some (m, cp', dn, c) \<Rightarrow>
               let l = cp' - cp - 1 in
               if l = 0 \<and> c = 0 then finish m names cp
               else if l = 0 \<or> l > MAXLABEL then Some (m, if msg = None then names else found, - 1)
               else do {
                 m \<leftarrow> store m cp (of_nat l);
                 comp_loop rl m comp_dn eob msg found cap names cp' dn c }) }) })"
  by pat_completeness auto
termination
  by (relation "measure (\<lambda>(rl, m, comp_dn, eob, msg, found, cap, names, cp, dn, c). length m + 1 - dn)")
    (auto simp: store_eq_Some dest!: comp_label_dn split: if_splits)

declare comp_loop.simps [simp del]

text \<open>\<open>dnptrs\<close> is the pointer to the message and the names after it, or \<open>None\<close> where the code has no list to use.\<close>

definition dn_comp :: "RuneLocale \<Rightarrow> mem \<Rightarrow> ptr \<Rightarrow> ptr \<Rightarrow> nat \<Rightarrow> (ptr \<times> ptr list) option \<Rightarrow> nat option \<Rightarrow>
    (mem \<times> ptr list \<times> int) option" where
  "dn_comp rl m exp_dn comp_dn len0 dnptrs cap = do {
     c \<leftarrow> load m exp_dn;
     (let (msg, found) = (case dnptrs of None \<Rightarrow> (None, []) | Some (msg, names) \<Rightarrow> (Some msg, names)) in
      comp_loop rl m comp_dn (comp_dn + len0) msg found cap found comp_dn (exp_dn + 1) c) }"

subsection \<open>Integers in messages\<close>

definition getshort :: "mem \<Rightarrow> ptr \<Rightarrow> u_short option" where
  "getshort m msgp = do {
     b0 \<leftarrow> load m msgp; b1 \<leftarrow> load m (msgp + 1); Some (push_bit 8 (ucast b0) OR ucast b1) }"

definition getlong :: "mem \<Rightarrow> ptr \<Rightarrow> u_long option" where
  "getlong m msgp = do {
     b0 \<leftarrow> load m msgp; b1 \<leftarrow> load m (msgp + 1); b2 \<leftarrow> load m (msgp + 2); b3 \<leftarrow> load m (msgp + 3);
     Some (push_bit 24 (ucast b0) OR push_bit 16 (ucast b1) OR push_bit 8 (ucast b2) OR ucast b3) }"

definition putshort :: "mem \<Rightarrow> u_short \<Rightarrow> ptr \<Rightarrow> mem option" where
  "putshort m s msgp = do { m \<leftarrow> store m msgp (ucast (drop_bit 8 s)); store m (msgp + 1) (ucast s) }"

definition putlong :: "mem \<Rightarrow> u_long \<Rightarrow> ptr \<Rightarrow> mem option" where
  "putlong m l msgp = do {
     m \<leftarrow> store m msgp (ucast (drop_bit 24 l)); m \<leftarrow> store m (msgp + 1) (ucast (drop_bit 16 l));
     m \<leftarrow> store m (msgp + 2) (ucast (drop_bit 8 l)); store m (msgp + 3) (ucast l) }"

section \<open>Integers\<close>

lemma getshort_putshort:
  assumes "p + 2 \<le> length m"
  shows "Option.bind (putshort m s p) (\<lambda>m'. getshort m' p) = Some s"
proof -
  have "push_bit 8 (ucast (ucast (drop_bit 8 s) :: byte)) OR ucast (ucast s :: byte) = s"
    by (rule bit_word_eqI) (auto simp: bit_simps)
  then show ?thesis using assms by (simp add: putshort_def getshort_def)
qed

lemma getlong_putlong:
  assumes "p + 4 \<le> length m"
  shows "Option.bind (putlong m l p) (\<lambda>m'. getlong m' p) = Some l"
proof -
  have "push_bit 24 (ucast (ucast (drop_bit 24 l) :: byte)) OR push_bit 16 (ucast (ucast (drop_bit 16 l) :: byte))
      OR push_bit 8 (ucast (ucast (drop_bit 8 l) :: byte)) OR ucast (ucast l :: byte) = l" (is "?w = l")
  proof (rule bit_word_eqI)
    fix n assume "n < LENGTH(32)"
    then consider "n < 8" | "8 \<le> n" "n < 16" | "16 \<le> n" "n < 24" | "24 \<le> n" "n < 32" by force
    then show "bit ?w n \<longleftrightarrow> bit l n" by cases (auto simp: bit_simps)
  qed
  then show ?thesis using assms by (simp add: putlong_def getlong_def)
qed

section \<open>Expanding stays in its buffer\<close>

text \<open>The memory is changed inside the block of \<open>n\<close> bytes at \<open>p\<close> at most.\<close>

definition same_outside :: "mem \<Rightarrow> mem \<Rightarrow> ptr \<Rightarrow> ptr \<Rightarrow> bool" where
  "same_outside m m' p e \<longleftrightarrow> length m' = length m \<and> (\<forall>i. i < p \<or> e \<le> i \<longrightarrow> m' ! i = m ! i)"

lemma same_outside_refl [simp]: "same_outside m m p e"
  by (simp add: same_outside_def)

lemma same_outside_trans: "same_outside m m' p e \<Longrightarrow> same_outside m' m'' p e \<Longrightarrow> same_outside m m'' p e"
  by (simp add: same_outside_def)

lemma same_outside_update: "p \<le> i \<Longrightarrow> i < e \<Longrightarrow> same_outside m (m[i := b]) p e"
  by (auto simp: same_outside_def)

definition label_ok :: "mem \<Rightarrow> ptr \<Rightarrow> ptr \<Rightarrow> ptr \<Rightarrow> nat \<Rightarrow> mem + mem \<times> ptr \<times> ptr \<Rightarrow> bool" where
  "label_ok m exp_dn eom dn n r \<longleftrightarrow> (case r of
     Inl m' \<Rightarrow> same_outside m m' exp_dn eom
   | Inr (m', cp', dn') \<Rightarrow> same_outside m m' exp_dn eom \<and> dn + n \<le> dn' \<and> dn' < eom)"

lemma copy_label_safe:
  "exp_dn \<le> dn \<Longrightarrow> dn + n < eom \<Longrightarrow> eom \<le> length m \<Longrightarrow> cp \<le> eomorig \<Longrightarrow> eomorig < length m \<Longrightarrow>
   \<exists>r. copy_label m eomorig eom cp dn n = Some r \<and> label_ok m exp_dn eom dn n r"
proof (induction n arbitrary: m cp dn)
  case 0
  then show ?case by (auto simp: label_ok_def)
next
  case (Suc n)
  let ?c = "m ! cp"
  show ?case
  proof (cases "?c = 46 \<and> dn + n + 2 \<ge> eom")
    case True
    then show ?thesis using Suc.prems by (auto simp: label_ok_def)
  next
    case False
    define dn1 where "dn1 = (if ?c = 46 then dn + 1 else dn)"
    define m1 where "m1 = (if ?c = 46 then m[dn := 92] else m)[dn1 := ?c]"
    have d: "dn \<le> dn1" "dn1 + n + 1 < eom" using False Suc.prems by (auto simp: dn1_def)
    have so: "same_outside m m1 exp_dn eom"
      unfolding m1_def using Suc.prems d by (auto simp: same_outside_def)
    have step: "copy_label m eomorig eom cp dn (Suc n) =
        (if cp + 1 \<ge> eomorig then Some (Inl m1) else copy_label m1 eomorig eom (cp + 1) (dn1 + 1) n)"
      using Suc.prems False d by (auto simp: dn1_def m1_def)
    show ?thesis
    proof (cases "cp + 1 \<ge> eomorig")
      case True
      then show ?thesis using step so by (auto simp: label_ok_def)
    next
      case no: False
      have "length m1 = length m" by (simp add: m1_def)
      then obtain r where r: "copy_label m1 eomorig eom (cp + 1) (dn1 + 1) n = Some r" "label_ok m1 exp_dn eom (dn1 + 1) n r"
        using Suc.IH [of "dn1 + 1" m1 "cp + 1"] Suc.prems d no by auto
      then have "label_ok m exp_dn eom dn (Suc n) r"
        using so d(1) by (auto simp: label_ok_def intro: same_outside_trans split: sum.splits)
      then show ?thesis using step no r by auto
    qed
  qed
qed

definition expand_ok :: "mem \<Rightarrow> ptr \<Rightarrow> ptr \<Rightarrow> ptr \<Rightarrow> (mem + mem \<times> ptr \<times> ptr \<times> nat option) \<Rightarrow> bool" where
  "expand_ok m exp_dn eom dn r \<longleftrightarrow> (case r of
     Inl m' \<Rightarrow> same_outside m m' exp_dn eom
   | Inr (m', cp', dn', len') \<Rightarrow> same_outside m m' exp_dn eom \<and> dn \<le> dn' \<and> dn' < eom)"

text \<open>The loop by cases, and the measure that falls along it.\<close>

definition dot_mem :: "mem \<Rightarrow> ptr \<Rightarrow> ptr \<Rightarrow> mem" where
  "dot_mem m exp_dn dn = (if dn \<noteq> exp_dn then m[dn := 46] else m)"

definition dot_dn :: "ptr \<Rightarrow> ptr \<Rightarrow> ptr" where
  "dot_dn exp_dn dn = (if dn \<noteq> exp_dn then dn + 1 else dn)"

definition target :: "mem \<Rightarrow> ptr \<Rightarrow> ptr \<Rightarrow> ptr" where
  "target m msg cp = msg + (unat (m ! cp) mod 64 * 256 + unat (m ! (cp + 1)))"

definition meas :: "ptr \<Rightarrow> ptr \<Rightarrow> ptr \<Rightarrow> nat \<Rightarrow> nat" where
  "meas msg eomorig cp checked = (eomorig - msg - checked) * (eomorig + 1) + (eomorig - cp)"

lemma meas_label: "cp < cp' \<Longrightarrow> cp' < eomorig \<Longrightarrow> checked \<le> checked' \<Longrightarrow> meas msg eomorig cp' checked' < meas msg eomorig cp checked"
  unfolding meas_def by (intro add_le_less_mono mult_le_mono1 diff_le_mono2) auto

lemma meas_target: "checked + 2 < eomorig - msg \<Longrightarrow> meas msg eomorig cp' (checked + 2) < meas msg eomorig cp checked"
proof -
  assume a: "checked + 2 < eomorig - msg"
  then have "Suc (eomorig - msg - (checked + 2)) * (eomorig + 1) \<le> (eomorig - msg - checked) * (eomorig + 1)"
    by (intro mult_le_mono1) auto
  moreover have "Suc (eomorig - msg - (checked + 2)) * (eomorig + 1)
      = (eomorig - msg - (checked + 2)) * (eomorig + 1) + (eomorig + 1)" by simp
  ultimately show ?thesis unfolding meas_def by linarith
qed

lemma expand_end:
  "cp < length m \<Longrightarrow> m ! cp = 0 \<Longrightarrow>
   expand_loop m msg eomorig eom comp_dn exp_dn cp dn len checked = Some (Inr (m, cp + 1, dn, len))"
  by (subst expand_loop.simps) simp

lemma expand_label:
  assumes "cp < length m" "m ! cp \<noteq> 0" "m ! cp AND INDIR_MASK = 0" "dn < eom" "dn < length m"
  shows "expand_loop m msg eomorig eom comp_dn exp_dn cp dn len checked =
    (if dot_dn exp_dn dn + unat (m ! cp) \<ge> eom then Some (Inl (dot_mem m exp_dn dn))
     else case copy_label (dot_mem m exp_dn dn) eomorig eom (cp + 1) (dot_dn exp_dn dn) (unat (m ! cp)) of
       None \<Rightarrow> None
     | Some (Inl m') \<Rightarrow> Some (Inl m')
     | Some (Inr (m', cp', dn')) \<Rightarrow>
         expand_loop m' msg eomorig eom comp_dn exp_dn cp' dn' len (checked + unat (m ! cp) + 1))"
proof -
  have "unat (m ! cp) \<noteq> 0" using assms(2) by (simp add: unat_eq_0)
  then show ?thesis
    using assms by (subst expand_loop.simps)
      (auto simp: Let_def dot_mem_def dot_dn_def bind_eq_None_conv split: option.splits sum.splits)
qed

lemma expand_pointer:
  assumes "cp + 1 < length m" "m ! cp AND INDIR_MASK = INDIR_MASK"
  shows "expand_loop m msg eomorig eom comp_dn exp_dn cp dn len checked =
    (if target m msg cp \<ge> eomorig \<or> checked + 2 \<ge> eomorig - msg then Some (Inl m)
     else expand_loop m msg eomorig eom comp_dn exp_dn (target m msg cp) dn
       (case len of None \<Rightarrow> Some (cp + 1 - comp_dn + 1) | Some l \<Rightarrow> Some l) (checked + 2))"
proof -
  have "INDIR_MASK \<noteq> 0" by (simp add: INDIR_MASK_def)
  then have "m ! cp \<noteq> 0" "m ! cp AND INDIR_MASK \<noteq> 0" using assms(2) by auto
  then have "unat (m ! cp) \<noteq> 0" "m ! cp AND INDIR_MASK \<noteq> 0" by (simp_all add: unat_eq_0)
  then show ?thesis using assms by (subst expand_loop.simps) (cases len; simp add: Let_def target_def)
qed

lemma expand_illegal:
  assumes "cp < length m" "m ! cp AND INDIR_MASK \<noteq> 0" "m ! cp AND INDIR_MASK \<noteq> INDIR_MASK"
  shows "expand_loop m msg eomorig eom comp_dn exp_dn cp dn len checked = Some (Inl m)"
proof -
  have "m ! cp \<noteq> 0" using assms(2) by auto
  then have "unat (m ! cp) \<noteq> 0" by (simp add: unat_eq_0)
  then show ?thesis using assms by (subst expand_loop.simps) (simp add: Let_def)
qed

lemma expand_loop_safe:
  "exp_dn \<le> dn \<Longrightarrow> dn < eom \<Longrightarrow> eom \<le> length m \<Longrightarrow> cp < eomorig \<Longrightarrow> eomorig < length m \<Longrightarrow>
   \<exists>r. expand_loop m msg eomorig eom comp_dn exp_dn cp dn len checked = Some r \<and> expand_ok m exp_dn eom dn r"
proof (induction "meas msg eomorig cp checked" arbitrary: m cp dn len checked rule: less_induct)
  case less
  note pr = less.prems
  have cp: "cp < length m" "cp + 1 < length m" "dn < length m" using pr by auto
  let ?b = "m ! cp"
  consider "?b = 0" | "?b \<noteq> 0" "?b AND INDIR_MASK = 0" | "?b AND INDIR_MASK = INDIR_MASK"
    | "?b AND INDIR_MASK \<noteq> 0" "?b AND INDIR_MASK \<noteq> INDIR_MASK" by blast
  then show ?case
  proof cases
    case 1
    then show ?thesis using pr cp by (auto simp: expand_end expand_ok_def)
  next
    case 2
    let ?m = "dot_mem m exp_dn dn" and ?dn = "dot_dn exp_dn dn" and ?n = "unat ?b"
    note l = expand_label [OF cp(1) 2 pr(2) cp(3), of msg eomorig comp_dn exp_dn len checked]
    have so: "same_outside m ?m exp_dn eom" "length ?m = length m"
      using pr by (auto simp: dot_mem_def same_outside_update)
    show ?thesis
    proof (cases "?dn + ?n \<ge> eom")
      case True
      then show ?thesis using l so by (auto simp: expand_ok_def)
    next
      case False
      have n: "0 < ?n" using 2(1) by (simp add: unat_gt_0)
      have dn: "dn \<le> ?dn" "exp_dn \<le> ?dn" using pr(1) by (auto simp: dot_dn_def)
      obtain r where r: "copy_label ?m eomorig eom (cp + 1) ?dn ?n = Some r" "label_ok ?m exp_dn eom ?dn ?n r"
        using copy_label_safe [of exp_dn ?dn ?n eom ?m "cp + 1" eomorig] False dn so pr by auto
      show ?thesis
      proof (cases r)
        case (Inl m')
        then show ?thesis using r l False so by (auto simp: expand_ok_def label_ok_def intro: same_outside_trans)
      next
        case (Inr t)
        then obtain m' cp' dn' where t: "r = Inr (m', cp', dn')" by (cases t) auto
        have c: "cp' = cp + 1 + ?n" "cp' < eomorig" using copy_label_cp [of ?m eomorig eom "cp + 1" ?dn ?n m' cp' dn'] r t n by auto
        have d: "same_outside m m' exp_dn eom" "dn \<le> dn'" "dn' < eom" "length m' = length m"
          using r t so dn by (auto simp: label_ok_def same_outside_def)
        obtain r' where r': "expand_loop m' msg eomorig eom comp_dn exp_dn cp' dn' len (checked + ?n + 1) = Some r'"
            "expand_ok m' exp_dn eom dn' r'"
          using less.hyps [of cp' "checked + ?n + 1" dn' m' len] meas_label [of cp cp' eomorig checked "checked + ?n + 1" msg] c d pr by auto
        then have "expand_ok m exp_dn eom dn r'"
          using d by (auto simp: expand_ok_def intro: same_outside_trans split: sum.splits)
        then show ?thesis using l False r t r' by auto
      qed
    qed
  next
    case 3
    show ?thesis
    proof (cases "target m msg cp \<ge> eomorig \<or> checked + 2 \<ge> eomorig - msg")
      case True
      then show ?thesis using expand_pointer [OF cp(2) 3] by (auto simp: expand_ok_def)
    next
      case False
      then show ?thesis
        using expand_pointer [OF cp(2) 3, of msg eomorig eom comp_dn exp_dn dn len checked]
          less.hyps [of "target m msg cp" "checked + 2" dn m] meas_target [of checked eomorig msg "target m msg cp" cp] pr by auto
    qed
  next
    case 4
    then show ?thesis using expand_illegal [OF cp(1) 4] by (auto simp: expand_ok_def)
  qed
qed

lemma space_scan_Some:
  "p \<le> e \<Longrightarrow> e < length m \<Longrightarrow> m ! e = 0 \<Longrightarrow> \<exists>b. space_scan rl m p = Some b"
proof (induction "e - p" arbitrary: p rule: less_induct)
  case less
  show ?case
  proof (cases "m ! p = 0 \<or> isascii (sint (m ! p)) \<and> isspace rl (sint (m ! p))")
    case True
    then show ?thesis using less.prems by (subst space_scan.simps) auto
  next
    case False
    then have "p \<noteq> e" using less.prems by auto
    then have "\<exists>b. space_scan rl m (p + 1) = Some b" using less by (intro less.hyps) auto
    then show ?thesis using False less.prems by (subst space_scan.simps) auto
  qed
qed

section \<open>The name that is expanded\<close>

text \<open>
  What a message holds at an address: a list of labels, read through the pointers. The text of a name has
  periods between the labels and a backslash before a period inside a label.
\<close>

inductive name_at :: "mem \<Rightarrow> ptr \<Rightarrow> ptr \<Rightarrow> byte list list \<Rightarrow> bool" for m msg where
  root: "m ! cp = 0 \<Longrightarrow> name_at m msg cp []"
| label: "m ! cp \<noteq> 0 \<Longrightarrow> m ! cp AND INDIR_MASK = 0 \<Longrightarrow> name_at m msg (cp + 1 + unat (m ! cp)) ls \<Longrightarrow>
    name_at m msg cp (slice m (cp + 1) (unat (m ! cp)) # ls)"
| pointer: "m ! cp AND INDIR_MASK = INDIR_MASK \<Longrightarrow> name_at m msg (target m msg cp) ls \<Longrightarrow> name_at m msg cp ls"

fun escape :: "byte list \<Rightarrow> byte list" where
  "escape [] = []"
| "escape (c # cs) = (if c = 46 then 92 # c # escape cs else c # escape cs)"

definition dotted_tail :: "byte list list \<Rightarrow> byte list" where
  "dotted_tail ls = concat (map (\<lambda>l. 46 # escape l) ls)"

fun name_text :: "byte list list \<Rightarrow> byte list" where
  "name_text [] = []"
| "name_text (l # ls) = escape l @ dotted_tail ls"

lemma copy_label_escape:
  "copy_label m eomorig eom cp dn n = Some (Inr (m', cp', dn')) \<Longrightarrow> dn + n < eom \<Longrightarrow> eom \<le> length m \<Longrightarrow>
   cp + n \<le> dn \<or> eom \<le> cp \<Longrightarrow>
   m' = put m dn (escape (slice m cp n)) \<and> dn' = dn + length (escape (slice m cp n)) \<and> dn' < eom"
proof (induction n arbitrary: m cp dn)
  case 0
  then show ?case by simp
next
  case (Suc n)
  let ?c = "m ! cp"
  have cp: "cp < length m" using Suc.prems(1) by (auto simp: bind_eq_Some_conv)
  then have no: "\<not> (?c = 46 \<and> dn + n + 2 \<ge> eom)" using Suc.prems(1) by auto
  define dn1 where "dn1 = (if ?c = 46 then dn + 1 else dn)"
  define m0 where "m0 = (if ?c = 46 then m[dn := 92] else m)"
  let ?m1 = "m0[dn1 := ?c]"
  have d: "dn \<le> dn1" "dn1 + 1 + n < eom" using no Suc.prems by (auto simp: dn1_def)
  have len: "length m0 = length m" by (simp add: m0_def)
  have "copy_label m eomorig eom cp dn (Suc n) =
      (if cp + 1 \<ge> eomorig then Some (Inl ?m1) else copy_label ?m1 eomorig eom (cp + 1) (dn1 + 1) n)"
    using Suc.prems cp no d by (auto simp: dn1_def m0_def)
  then have step: "copy_label ?m1 eomorig eom (cp + 1) (dn1 + 1) n = Some (Inr (m', cp', dn'))"
    using Suc.prems(1) by (auto split: if_splits)
  let ?s = "slice m (cp + 1) n"
  have sl: "slice ?m1 (cp + 1) n = ?s"
    unfolding slice_def m0_def dn1_def using Suc.prems d
    by (intro nth_equalityI) (auto simp: nth_list_update)
  have IH: "m' = put ?m1 (dn1 + 1) (escape ?s)" "dn' = dn1 + 1 + length (escape ?s)" "dn' < eom"
    using Suc.IH [OF step] d Suc.prems len unfolding sl by auto
  have "put m dn (escape (?c # ?s)) = m'"
  proof (cases "?c = 46")
    case True
    then have "put m dn (escape (?c # ?s)) = put (m[dn := 92, dn + 1 := ?c]) (dn + 1 + 1) (escape ?s)"
      using IH(2,3) Suc.prems(3) by (simp add: dn1_def put_Cons)
    then show ?thesis using True IH(1) by (simp add: dn1_def m0_def)
  next
    case False
    then show ?thesis using IH Suc.prems(3) by (simp add: dn1_def m0_def put_Cons)
  qed
  moreover have "slice m cp (Suc n) = ?c # ?s" using slice_Suc [OF cp] by simp
  ultimately show ?case using IH(2,3) by (auto simp: dn1_def)
qed

text \<open>The message as it was, while the buffer fills.\<close>

definition agrees :: "mem \<Rightarrow> mem \<Rightarrow> ptr \<Rightarrow> ptr \<Rightarrow> bool" where
  "agrees m0 m msg e \<longleftrightarrow> length m = length m0 \<and> (\<forall>i. msg \<le> i \<and> i \<le> e \<longrightarrow> m ! i = m0 ! i)"

definition text_from :: "ptr \<Rightarrow> ptr \<Rightarrow> byte list list \<Rightarrow> byte list" where
  "text_from exp_dn dn ls = (if dn = exp_dn then name_text ls else dotted_tail ls)"

lemma escape_length: "length l \<le> length (escape l)"
  by (induction l rule: escape.induct) auto

lemma length_dot_mem [simp]: "length (dot_mem m exp_dn dn) = length m"
  by (simp add: dot_mem_def)

lemma text_from_Cons:
  assumes "dn1 \<noteq> exp_dn" "l1 = escape l" "dn1 = dot_dn exp_dn dn + length l1" "dn1 + length (dotted_tail ls) < length m"
  shows "put (put (dot_mem m exp_dn dn) (dot_dn exp_dn dn) l1) dn1 (text_from exp_dn dn1 ls) = put m dn (text_from exp_dn dn (l # ls))
    \<and> dn1 + length (text_from exp_dn dn1 ls) = dn + length (text_from exp_dn dn (l # ls))"
proof -
  have "put (put (dot_mem m exp_dn dn) (dot_dn exp_dn dn) l1) dn1 (text_from exp_dn dn1 ls)
      = put (dot_mem m exp_dn dn) (dot_dn exp_dn dn) (l1 @ dotted_tail ls)"
    using assms put_append [of "dot_dn exp_dn dn" l1 "dotted_tail ls" "dot_mem m exp_dn dn"]
    by (simp add: text_from_def)
  also have "\<dots> = put m dn (text_from exp_dn dn (l # ls))"
    using assms by (cases "dn = exp_dn") (simp_all add: text_from_def dot_mem_def dot_dn_def put_Cons dotted_tail_def)
  finally show ?thesis
    using assms by (simp add: text_from_def dot_dn_def dotted_tail_def)
qed

text \<open>The size of a name, as the routine that skips it finds it.\<close>

lemma skip_end: "cp < eom \<Longrightarrow> cp < length m \<Longrightarrow> m ! cp = 0 \<Longrightarrow> skip_loop m eom cp = Some (Some (cp + 1))"
  by (subst skip_loop.simps) simp

lemma skip_label:
  "cp < eom \<Longrightarrow> cp < length m \<Longrightarrow> m ! cp \<noteq> 0 \<Longrightarrow> m ! cp AND INDIR_MASK = 0 \<Longrightarrow>
   skip_loop m eom cp = skip_loop m eom (cp + 1 + unat (m ! cp))"
  by (subst skip_loop.simps) (simp add: Let_def unat_eq_0)

lemma skip_pointer:
  "cp < eom \<Longrightarrow> cp < length m \<Longrightarrow> m ! cp AND INDIR_MASK = INDIR_MASK \<Longrightarrow> skip_loop m eom cp = Some (Some (cp + 2))"
  by (subst skip_loop.simps) (auto simp: Let_def unat_eq_0 INDIR_MASK_def)

definition size_ok :: "mem \<Rightarrow> ptr \<Rightarrow> ptr \<Rightarrow> ptr \<Rightarrow> nat option \<Rightarrow> ptr \<Rightarrow> nat option \<Rightarrow> bool" where
  "size_ok m eom comp_dn cp len cp' len' \<longleftrightarrow> (case len of
     Some l \<Rightarrow> len' = Some l
   | None \<Rightarrow> comp_dn \<le> cp \<longrightarrow> skip_loop m eom cp = Some (Some (comp_dn + (case len' of None \<Rightarrow> cp' - comp_dn | Some l \<Rightarrow> l))))"

lemma expand_loop_sound:
  assumes apart: "eomorig < exp_dn \<or> eom \<le> msg" and emax: "eom \<le> length m0" "eomorig < length m0"
  shows "expand_loop m msg eomorig eom comp_dn exp_dn cp dn len checked = Some (Inr (m', cp', dn', len')) \<Longrightarrow>
    agrees m0 m msg eomorig \<Longrightarrow> msg \<le> cp \<Longrightarrow> cp < eomorig \<Longrightarrow> exp_dn \<le> dn \<Longrightarrow> dn < eom \<Longrightarrow>
    \<exists>ls. name_at m0 msg cp ls \<and> m' = put m dn (text_from exp_dn dn ls) \<and> dn' = dn + length (text_from exp_dn dn ls) \<and> dn' < eom
      \<and> size_ok m0 eomorig comp_dn cp len cp' len'"
proof (induction "meas msg eomorig cp checked" arbitrary: m cp dn len checked rule: less_induct)
  case less
  note pr = less.prems
  have lm: "length m = length m0" using pr(2) by (simp add: agrees_def)
  have same: "m ! i = m0 ! i" if "msg \<le> i" "i \<le> eomorig" for i using pr(2) that by (simp add: agrees_def)
  have cp: "cp < length m" "cp + 1 < length m" "dn < length m" using pr lm emax by auto
  let ?b = "m ! cp"
  have b: "?b = m0 ! cp" using same pr by simp
  consider "?b = 0" | "?b \<noteq> 0" "?b AND INDIR_MASK = 0" | "?b AND INDIR_MASK = INDIR_MASK"
    | "?b AND INDIR_MASK \<noteq> 0" "?b AND INDIR_MASK \<noteq> INDIR_MASK" by blast
  then show ?case
  proof cases
    case 1
    then have "m' = m" "dn' = dn" "cp' = cp + 1" "len' = len" using expand_end [OF cp(1) 1] pr(1) by auto
    moreover have "skip_loop m0 eomorig cp = Some (Some (cp + 1))" using pr(4) emax 1 b by (intro skip_end) auto
    ultimately show ?thesis
      using name_at.root [of m0 cp msg] 1 b pr(6)
      by (intro exI [of _ "[]"]) (auto simp: text_from_def dotted_tail_def size_ok_def split: option.splits)
  next
    case 2
    let ?m = "dot_mem m exp_dn dn" and ?dn = "dot_dn exp_dn dn" and ?n = "unat ?b"
    note l = expand_label [OF cp(1) 2 pr(6) cp(3), of msg eomorig comp_dn exp_dn len checked]
    obtain m1 cp1 dn1 where c: "copy_label ?m eomorig eom (cp + 1) ?dn ?n = Some (Inr (m1, cp1, dn1))"
        and next_e: "expand_loop m1 msg eomorig eom comp_dn exp_dn cp1 dn1 len (checked + ?n + 1) = Some (Inr (m', cp', dn', len'))"
        and fits: "?dn + ?n < eom"
      using pr(1) l by (auto split: if_splits option.splits sum.splits prod.splits)
    have n: "0 < ?n" using 2(1) by (simp add: unat_gt_0)
    have cp1: "cp1 = cp + 1 + ?n" "cp1 < eomorig" using copy_label_cp [OF c] n by auto
    have dn: "exp_dn \<le> ?dn" "dn \<le> ?dn" using pr(5) by (auto simp: dot_dn_def)
    define lab where "lab = slice m0 (cp + 1) ?n"
    have dm: "?m ! i = m0 ! i" if "msg \<le> i" "i \<le> eomorig" for i
      using same [OF that] that apart pr(5,6) by (auto simp: dot_mem_def)
    have "slice ?m (cp + 1) ?n = lab"
    proof (rule nth_equalityI)
      show "length (slice ?m (cp + 1) ?n) = length lab" unfolding lab_def slice_def using lm by simp
      fix i assume "i < length (slice ?m (cp + 1) ?n)"
      then have "i < ?n" unfolding slice_def by simp
      then show "slice ?m (cp + 1) ?n ! i = lab ! i"
        unfolding lab_def using dm [of "cp + 1 + i"] cp1 lm emax pr(3) by (simp add: nth_slice)
    qed
    then have m1: "m1 = put ?m ?dn (escape lab)" "dn1 = ?dn + length (escape lab)" "dn1 < eom"
      using copy_label_escape [OF c fits] emax lm apart dn cp1 pr by (auto simp: dot_mem_def)
    have ll: "length lab = ?n" unfolding lab_def using cp1 emax by (intro length_slice) auto
    then have gt: "?dn < dn1" "dn1 \<noteq> exp_dn" using m1(2) n escape_length [of lab] dn by auto
    have "agrees m0 m1 msg eomorig"
      using pr(2,5,6) apart m1 lm emax dn unfolding agrees_def m1(1)
      by (auto simp: nth_put dot_mem_def nth_list_update)
    then obtain ls where ls: "name_at m0 msg cp1 ls" "m' = put m1 dn1 (text_from exp_dn dn1 ls)"
        "dn' = dn1 + length (text_from exp_dn dn1 ls)" "dn' < eom" "size_ok m0 eomorig comp_dn cp1 len cp' len'"
      using less.hyps [OF _ next_e] meas_label [of cp cp1 eomorig checked "checked + ?n + 1" msg] cp1 m1(3) gt dn pr(3) by auto
    have "dn1 + length (dotted_tail ls) < length m" using ls(3,4) gt lm emax by (simp add: text_from_def)
    from text_from_Cons [OF gt(2) HOL.refl m1(2) this] ls m1(1)
    have "m' = put m dn (text_from exp_dn dn (lab # ls)) \<and> dn' = dn + length (text_from exp_dn dn (lab # ls))" by simp
    moreover have "name_at m0 msg cp (lab # ls)"
      using name_at.label [of m0 cp msg ls] ls(1) 2 b cp1 unfolding lab_def by simp
    moreover have "skip_loop m0 eomorig cp = skip_loop m0 eomorig cp1"
      using skip_label [of cp eomorig m0] pr(4) emax 2 b cp1 by simp
    then have "size_ok m0 eomorig comp_dn cp len cp' len'"
      using ls(5) cp1 by (auto simp: size_ok_def split: option.splits)
    ultimately show ?thesis using ls(4) by blast
  next
    case 3
    have t: "target m msg cp = target m0 msg cp" unfolding target_def using same pr by simp
    note p = expand_pointer [OF cp(2) 3, of msg eomorig eom comp_dn exp_dn dn len checked]
    have ok: "\<not> (target m msg cp \<ge> eomorig \<or> checked + 2 \<ge> eomorig - msg)" using pr(1) p by auto
    define len1 where "len1 = (case len of None \<Rightarrow> Some (cp + 1 - comp_dn + 1) | Some l \<Rightarrow> Some l)"
    have e: "expand_loop m msg eomorig eom comp_dn exp_dn (target m msg cp) dn len1 (checked + 2) = Some (Inr (m', cp', dn', len'))"
      using pr(1) p ok unfolding len1_def by simp
    have "msg \<le> target m msg cp" by (simp add: target_def)
    then obtain ls where "name_at m0 msg (target m msg cp) ls" "m' = put m dn (text_from exp_dn dn ls)"
        "dn' = dn + length (text_from exp_dn dn ls)" "dn' < eom" and sz: "size_ok m0 eomorig comp_dn (target m msg cp) len1 cp' len'"
      using less.hyps [OF _ e pr(2)] meas_target [of checked eomorig msg "target m msg cp" cp] ok pr by auto
    moreover from this(1) have "name_at m0 msg cp ls" using name_at.pointer 3 b t by metis
    moreover have "skip_loop m0 eomorig cp = Some (Some (cp + 2))" using skip_pointer [of cp eomorig m0] pr(4) emax 3 b by simp
    then have "size_ok m0 eomorig comp_dn cp len cp' len'"
      using sz by (auto simp: size_ok_def len1_def split: option.splits)
    ultimately show ?thesis by blast
  next
    case 4
    then show ?thesis using expand_illegal [OF cp(1) 4] pr(1) by simp
  qed
qed

section \<open>The routines\<close>

text \<open>
  C13: given a name that starts inside a message and a buffer of at least one byte, expanding it always
  returns, however the pointers of the message lead: it stores nothing outside the buffer, reads at most the
  byte behind the message, and the result is -1 or a size.
\<close>

theorem dn_expand_safe:
  assumes "comp_dn < eomorig" "eomorig < length m" "0 < len0" "exp_dn + len0 \<le> length m"
  shows "\<exists>m' r. dn_expand rl m msg eomorig comp_dn exp_dn len0 = Some (m', r) \<and> - 1 \<le> r
    \<and> length m' = length m \<and> (\<forall>i. i < exp_dn \<or> exp_dn + len0 \<le> i \<longrightarrow> m' ! i = m ! i)"
proof -
  let ?eom = "exp_dn + len0"
  obtain r where r: "expand_loop m msg eomorig ?eom comp_dn exp_dn comp_dn exp_dn None 0 = Some r" "expand_ok m exp_dn ?eom exp_dn r"
    using expand_loop_safe [of exp_dn exp_dn ?eom m comp_dn eomorig msg comp_dn None 0] assms by auto
  show ?thesis
  proof (cases r)
    case (Inl m')
    then show ?thesis using r by (simp add: dn_expand_def expand_ok_def same_outside_def)
  next
    case (Inr t)
    then obtain m' cp' dn' len' where t: "r = Inr (m', cp', dn', len')" by (cases t) auto
    have ok: "same_outside m m' exp_dn ?eom" "exp_dn \<le> dn'" "dn' < ?eom" using r t by (auto simp: expand_ok_def)
    then have l: "dn' < length m'" using assms by (simp add: same_outside_def)
    obtain b where "space_scan rl (m'[dn' := 0]) exp_dn = Some b" using space_scan_Some [of exp_dn dn' "m'[dn' := 0]" rl] ok l by auto
    then show ?thesis using r t l ok by (auto simp: dn_expand_def same_outside_def)
  qed
qed

theorem dn_expand_safe_witness:
  "\<exists>m' r. dn_expand DefaultRuneLocale [0xC0, 0, 0, 7, 7, 7] 0 2 0 3 2 = Some (m', r) \<and> - 1 \<le> r
    \<and> length m' = length [0xC0, 0, 0, 7, 7, 7 :: byte] \<and> (\<forall>i. i < 3 \<or> 3 + 2 \<le> i \<longrightarrow> m' ! i = [0xC0, 0, 0, 7, 7, 7] ! i)"
  using dn_expand_safe [of 0 2 "[0xC0, 0, 0, 7, 7, 7]" 2 3 DefaultRuneLocale 0] by simp

text \<open>
  C14: when expanding succeeds, the message holds a name at that address, read through its pointers; the buffer
  holds the text of this name, with periods between the labels and backslashes before those inside, and a
  null byte; and the value is the size of the compressed name, the one the routine that skips names finds
  unless the name ends behind the message.
\<close>

theorem dn_expand_sound:
  assumes "dn_expand rl m msg eomorig comp_dn exp_dn len0 = Some (m', r)" "0 \<le> r"
    "msg \<le> comp_dn" "comp_dn < eomorig" "eomorig < length m" "0 < len0" "exp_dn + len0 \<le> length m"
    "eomorig < exp_dn \<or> exp_dn + len0 \<le> msg"
  shows "\<exists>ls. name_at m msg comp_dn ls \<and> length (name_text ls) < len0 \<and> m' = put m exp_dn (name_text ls @ [0])
    \<and> dn_skipname m comp_dn eomorig = Some (if comp_dn + nat r > eomorig then - 1 else r)"
proof -
  let ?eom = "exp_dn + len0"
  obtain x where x: "expand_loop m msg eomorig ?eom comp_dn exp_dn comp_dn exp_dn None 0 = Some x"
    using assms(1) by (auto simp: dn_expand_def bind_eq_Some_conv)
  then obtain m1 cp' dn' len' where e: "expand_loop m msg eomorig ?eom comp_dn exp_dn comp_dn exp_dn None 0 = Some (Inr (m1, cp', dn', len'))"
    using assms(1,2) by (cases x) (auto simp: dn_expand_def)
  then have st: "store m1 dn' 0 = Some m'" and r: "r = int (case len' of None \<Rightarrow> cp' - comp_dn | Some l \<Rightarrow> l)"
    using assms(1,2) by (auto simp: dn_expand_def bind_eq_Some_conv split: if_splits)
  obtain ls where ls: "name_at m msg comp_dn ls" "m1 = put m exp_dn (name_text ls)" "dn' = exp_dn + length (name_text ls)"
      "dn' < ?eom" "size_ok m eomorig comp_dn comp_dn None cp' len'"
    using expand_loop_sound [OF assms(8,7,5) e] assms by (auto simp: agrees_def text_from_def)
  have "m' = put m exp_dn (name_text ls @ [0])"
    using st ls assms(7) by (simp add: store_eq_Some put_snoc)
  moreover have "dn_skipname m comp_dn eomorig = Some (if comp_dn + nat r > eomorig then - 1 else r)"
    using ls(5) r by (simp add: dn_skipname_def size_ok_def)
  ultimately show ?thesis using ls by auto
qed

theorem dn_expand_sound_witness:
  "\<exists>ls. name_at [1, 97, 0, 9, 9, 9, 9] 0 0 ls \<and> length (name_text ls) < 3 \<and> [1, 97, 0, 9, 97, 0, 9] = put [1, 97, 0, 9, 9, 9, 9] 4 (name_text ls @ [0])
    \<and> dn_skipname [1, 97, 0, 9, 9, 9, 9] 0 3 = Some (if 0 + nat 3 > 3 then - 1 else 3)"
proof (rule dn_expand_sound)
  show "dn_expand DefaultRuneLocale [1, 97, 0, 9, 9, 9, 9] 0 3 0 4 3 = Some ([1, 97, 0, 9, 97, 0, 9], 3)"
    by code_simp
qed simp_all

end
