(* ===== verification/DNameTrip.thy ===== *)
theory DNameTrip
  imports DName
begin

unbundle bit_operations_syntax

text \<open>
  Compressing a name without a list of earlier names and expanding it again, \<open>dn_comp\<close> and \<open>dn_expand\<close> of
  \<open>lib/libc/net/res_comp.c\<close>: the text comes back for every name whose labels are free of backslashes.
\<close>

section \<open>Compressing\<close>

text \<open>The labels of a name as they stand in a message: each after its length, and a null byte.\<close>

definition wire :: "byte list list \<Rightarrow> byte list" where
  "wire ls = concat (map (\<lambda>l. of_nat (length l) # l) ls) @ [0]"

definition label_wf :: "byte list \<Rightarrow> bool" where
  "label_wf l \<longleftrightarrow> 0 < length l \<and> length l \<le> MAXLABEL \<and> 0 \<notin> set l \<and> 92 \<notin> set l"

lemma wire_simps [simp]: "wire [] = [0]" "wire (l # ls) = of_nat (length l) # l @ wire ls"
  by (simp_all add: wire_def)

text \<open>A block is apart from the string at \<open>q\<close>.\<close>

definition off :: "ptr \<Rightarrow> ptr \<Rightarrow> ptr \<Rightarrow> nat \<Rightarrow> bool" where
  "off cp eob q n \<longleftrightarrow> eob \<le> q \<or> q + n < cp"

lemma cstr_same:
  "cstr m q s \<Longrightarrow> length m' = length m \<Longrightarrow> (\<And>i. q \<le> i \<Longrightarrow> i \<le> q + length s \<Longrightarrow> m' ! i = m ! i) \<Longrightarrow> cstr m' q s"
proof (induction s arbitrary: q)
  case Nil
  then show ?case by (auto simp: cstr_Nil)
next
  case (Cons c s)
  then show ?case by (auto simp: cstr_Cons)
qed

lemma cstr_suffix: "cstr m q (s @ t) \<Longrightarrow> cstr m (q + length s) t"
  by (induction s arbitrary: q) (force simp: cstr_Cons)+

lemma escape_eq_Nil [simp]: "escape l = [] \<longleftrightarrow> l = []"
  by (cases l) auto

lemma cstr_put_off:
  "cstr m q s \<Longrightarrow> off cp eob q (length s) \<Longrightarrow> cp + length bs \<le> eob \<Longrightarrow> eob \<le> length m \<Longrightarrow> cstr (put m cp bs) q s"
  by (erule cstr_same) (auto simp: off_def nth_put)

lemma cstr_update_off: "cstr m q s \<Longrightarrow> off cp eob q (length s) \<Longrightarrow> cp < eob \<Longrightarrow> cstr (m[cp := b]) q s"
  by (erule cstr_same) (auto simp: off_def)

text \<open>One label: its text, up to the period after it or the end of the name.\<close>

definition after_label :: "ptr \<Rightarrow> byte list \<Rightarrow> byte list \<Rightarrow> ptr" where
  "after_label q l rest = q + length (escape l) + (if rest = [] then 0 else 1)"

lemma comp_label_step:
  assumes "c \<noteq> 46" "if c = 92 then dn < length m \<and> c1 = m ! dn \<and> dn1 = dn + 1 else c1 = c \<and> dn1 = dn"
    "c1 \<noteq> 0" "cp < eob" "cp < length m" "dn1 < length m" "c2 = m[cp := c1] ! dn1"
  shows "comp_label m eob cp dn c =
    (if c2 = 0 then Some (Some (m[cp := c1], cp + 1, dn1 + 1, c2)) else comp_label (m[cp := c1]) eob (cp + 1) (dn1 + 1) c2)"
  using assms by (subst comp_label.simps) (auto split: if_splits)

lemma comp_label_escape:
  assumes "rest = [] \<or> (\<exists>t. rest = 46 # t)"
  shows "cstr m q (escape l @ rest) \<Longrightarrow> l \<noteq> [] \<or> rest \<noteq> [] \<Longrightarrow> 0 \<notin> set l \<Longrightarrow> 92 \<notin> set l \<Longrightarrow>
    cp + length l \<le> eob \<Longrightarrow> eob \<le> length m \<Longrightarrow> off cp eob q (length (escape l @ rest)) \<Longrightarrow>
    comp_label m eob cp (q + 1) (m ! q) =
      Some (Some (put m cp l, cp + length l, after_label q l rest + 1, m ! after_label q l rest))"
proof (induction l arbitrary: m q cp)
  case Nil
  then obtain t where "rest = 46 # t" using assms by auto
  then have "m ! q = 46" "q + 1 < length m" using Nil.prems(1) by (simp_all add: cstr_Cons) (simp add: cstr_def)
  then show ?case using \<open>rest = 46 # t\<close> by (subst comp_label.simps) (simp add: after_label_def)
next
  case (Cons a l)
  let ?m = "m[cp := a]"
  define q1 where "q1 = q + (if a = 46 then 2 else 1)"
  have a: "a \<noteq> 0" "a \<noteq> 92" and lt: "cp < eob" "cp < length m" using Cons.prems by auto
  have c1: "cstr m q1 (escape l @ rest)" using Cons.prems(1) by (auto simp: q1_def cstr_Cons split: if_splits)
  then have q1: "cstr m q1 (escape l @ rest)" "q1 < length m" "q1 \<noteq> cp"
    using Cons.prems(7) lt by (auto simp: q1_def off_def cstr_def split: if_splits)
  have off: "off cp eob q1 (length (escape l @ rest))" "off (cp + 1) eob q1 (length (escape l @ rest))"
    using Cons.prems(7) by (auto simp: q1_def off_def split: if_splits)
  have c2: "?m ! q1 = m ! q1" using q1 by simp
  have step: "comp_label m eob cp (q + 1) (m ! q) =
      (if m ! q1 = 0 then Some (Some (?m, cp + 1, q1 + 1, m ! q1)) else comp_label ?m eob (cp + 1) (q1 + 1) (m ! q1))"
    using Cons.prems(1) a lt q1 by (intro comp_label_step) (auto simp: q1_def cstr_Cons split: if_splits)
  have af: "after_label q (a # l) rest = after_label q1 l rest" by (simp add: after_label_def q1_def)
  show ?case
  proof (cases "l = [] \<and> rest = []")
    case True
    then have "m ! q1 = 0" using q1 by (simp add: cstr_Nil)
    then show ?thesis using step True af lt by (simp add: after_label_def put_Cons)
  next
    case False
    then have "m ! q1 \<noteq> 0" using q1(1) by (cases "escape l @ rest") (auto simp: cstr_Cons)
    moreover have "cstr ?m q1 (escape l @ rest)" using cstr_update_off [OF q1(1) off(1) lt(1)] .
    moreover have "?m ! after_label q1 l rest = m ! after_label q1 l rest"
      using off(1) lt(1) assms by (auto simp: off_def after_label_def split: if_splits)
    ultimately show ?thesis
      using step Cons.IH [of ?m q1 "cp + 1"] False Cons.prems off(2) c2 af by (simp add: put_Cons)
  qed
qed

text \<open>The whole name, without a list of earlier ones.\<close>

lemma dotted_tail_simps [simp]: "dotted_tail [] = []" "dotted_tail (l # ls) = 46 # name_text (l # ls)"
  by (simp_all add: dotted_tail_def)

lemma comp_loop_label:
  assumes "m ! q \<noteq> 0" "comp_label m eob (cp + 1) (q + 1) (m ! q) = Some (Some (m1, cp1, dn1, c1))"
    "cp + 1 < cp1" "cp1 \<le> cp + 1 + MAXLABEL" "cp < length m1"
  shows "comp_loop rl m comp_dn eob None found cap names cp (q + 1) (m ! q) =
    comp_loop rl (m1[cp := of_nat (cp1 - cp - 1)]) comp_dn eob None found cap names cp1 dn1 c1"
  using assms by (subst comp_loop.simps) (auto simp: Let_def)

lemma comp_loop_wire:
  "cstr m q (name_text ls) \<Longrightarrow> \<forall>l \<in> set ls. label_wf l \<Longrightarrow> cp + length (wire ls) \<le> eob \<Longrightarrow> eob \<le> length m \<Longrightarrow>
   off cp eob q (length (name_text ls)) \<Longrightarrow> comp_dn \<le> cp \<Longrightarrow>
   comp_loop rl m comp_dn eob None found cap names cp (q + 1) (m ! q) =
     Some (put m cp (wire ls), names, int (cp + length (wire ls)) - int comp_dn)"
proof (induction ls arbitrary: m q cp)
  case Nil
  then show ?case by (subst comp_loop.simps) (simp add: Let_def cstr_Nil put_Cons)
next
  case (Cons l ls)
  let ?rest = "dotted_tail ls" and ?n = "length l"
  define q1 where "q1 = after_label q l ?rest"
  let ?m1 = "put m (cp + 1) l" and ?m2 = "put m cp (of_nat ?n # l)"
  have wf: "0 < ?n" "?n \<le> MAXLABEL" "0 \<notin> set l" "92 \<notin> set l" using Cons.prems(2) by (auto simp: label_wf_def)
  have bounds: "cp + 1 + ?n < eob" "eob \<le> length m" using Cons.prems(3,4) by (auto simp: wire_def)
  have rest: "?rest = [] \<or> (\<exists>t. ?rest = 46 # t)" by (cases ls) auto
  have "off (cp + 1) eob q (length (escape l @ ?rest))" using Cons.prems(5) by (auto simp: off_def)
  then have "comp_label m eob (cp + 1) (q + 1) (m ! q) = Some (Some (?m1, cp + 1 + ?n, q1 + 1, m ! q1))"
    unfolding q1_def using comp_label_escape [OF rest, of m q l "cp + 1" eob] Cons.prems(1) wf bounds by auto
  moreover have "m ! q \<noteq> 0" using Cons.prems(1) wf by (cases l) (auto simp: cstr_Cons split: if_splits)
  moreover have "?m1[cp := of_nat ?n] = ?m2" using bounds by (intro nth_equalityI) (auto simp: nth_put nth_list_update nth_Cons')
  ultimately have step: "comp_loop rl m comp_dn eob None found cap names cp (q + 1) (m ! q) =
      comp_loop rl ?m2 comp_dn eob None found cap names (cp + 1 + ?n) (q1 + 1) (m ! q1)"
    using comp_loop_label [of m q eob cp ?m1 "cp + 1 + ?n" "q1 + 1" "m ! q1"] wf bounds by simp
  have "cstr m q1 (name_text ls) \<and> off cp eob q1 (length (name_text ls))"
    using cstr_suffix [of m q "escape l" ?rest] Cons.prems(1,5) by (cases ls) (auto simp: q1_def after_label_def off_def cstr_Cons)
  then have t: "cstr ?m2 q1 (name_text ls)" "off (cp + 1 + ?n) eob q1 (length (name_text ls))" "?m2 ! q1 = m ! q1"
    using bounds cstr_put_off [of m q1 "name_text ls" cp eob "of_nat ?n # l"] by (auto simp: off_def nth_put)
  have "put ?m2 (cp + 1 + ?n) (wire ls) = put m cp (wire (l # ls))"
    using put_append [of cp "of_nat ?n # l" "wire ls" m] Cons.prems(3,4) by simp
  then show ?case
    using step Cons.IH [of ?m2 q1 "cp + 1 + ?n"] t Cons.prems bounds by (simp add: algebra_simps)
qed

section \<open>Expanding what was compressed\<close>

lemma copy_label_complete:
  "dn + length (escape (slice m cp n)) < eom \<Longrightarrow> cp + n < eomorig \<Longrightarrow> eomorig \<le> length m \<Longrightarrow> eom \<le> length m \<Longrightarrow>
   cp + n \<le> dn \<or> eom \<le> cp \<Longrightarrow>
   copy_label m eomorig eom cp dn n = Some (Inr (put m dn (escape (slice m cp n)), cp + n, dn + length (escape (slice m cp n))))"
proof (induction n arbitrary: m cp dn)
  case 0
  then show ?case by simp
next
  case (Suc n)
  let ?c = "m ! cp" and ?s = "slice m (cp + 1) n"
  have cp: "cp < length m" using Suc.prems by simp
  have sl: "slice m cp (Suc n) = ?c # ?s" using slice_Suc [OF cp] by simp
  define dn1 where "dn1 = (if ?c = 46 then dn + 1 else dn)"
  define m1 where "m1 = (if ?c = 46 then m[dn := 92] else m)[dn1 := ?c]"
  have e: "n \<le> length (escape ?s)" using escape_length [of ?s] Suc.prems by simp
  have d: "dn \<le> dn1" "dn1 + 1 + length (escape ?s) < eom" "length m1 = length m"
    using Suc.prems(1) by (auto simp: sl dn1_def m1_def split: if_splits)
  have step: "copy_label m eomorig eom cp dn (Suc n) = copy_label m1 eomorig eom (cp + 1) (dn1 + 1) n"
    using Suc.prems cp d e by (auto simp: dn1_def m1_def split: if_splits)
  have "slice m1 (cp + 1) n = ?s"
    unfolding slice_def m1_def dn1_def using Suc.prems d
    by (intro nth_equalityI) (auto simp: nth_list_update)
  moreover have "put m dn (escape (?c # ?s)) = put m1 (dn1 + 1) (escape ?s)"
    using d Suc.prems(4) by (auto simp: dn1_def m1_def put_Cons split: if_splits)
  moreover have "cp + 1 + n \<le> dn1 + 1 \<or> eom \<le> cp + 1" using Suc.prems(5) d(1) by auto
  ultimately have "copy_label m eomorig eom cp dn (Suc n) =
      Some (Inr (put m dn (escape (?c # ?s)), cp + 1 + n, dn1 + 1 + length (escape ?s)))"
    using Suc.IH [of "dn1 + 1" m1 "cp + 1"] d Suc.prems(2,3,4) unfolding step by simp
  then show ?case by (simp add: sl dn1_def del: copy_label.simps split: if_splits)
qed

text \<open>A name in full, without pointers, at \<open>cp\<close>.\<close>

lemma label_byte:
  "label_wf l \<Longrightarrow> unat (of_nat (length l) :: byte) = length l \<and> (of_nat (length l) :: byte) \<noteq> 0
    \<and> (of_nat (length l) :: byte) AND INDIR_MASK = 0"
proof -
  assume "label_wf l"
  then have l: "0 < length l" "length l < 64" by (auto simp: label_wf_def MAXLABEL_def)
  then have u: "unat (of_nat (length l) :: byte) = length l" by (simp add: unat_of_nat)
  have "\<forall>n \<in> set [0..<64]. (of_nat n :: byte) AND INDIR_MASK = 0" by code_simp
  then have "(of_nat (length l) :: byte) AND INDIR_MASK = 0" using l by auto
  moreover have "(of_nat (length l) :: byte) \<noteq> 0" using u l by auto
  ultimately show ?thesis using u by auto
qed

lemma expand_loop_wire:
  "slice m cp (length (wire ls)) = wire ls \<Longrightarrow> \<forall>l \<in> set ls. label_wf l \<Longrightarrow> cp + length (wire ls) \<le> eomorig \<Longrightarrow>
   eomorig \<le> length m \<Longrightarrow> exp_dn \<le> dn \<Longrightarrow> dn + length (text_from exp_dn dn ls) < eom \<Longrightarrow> eom \<le> length m \<Longrightarrow>
   cp + length (wire ls) \<le> dn \<or> eom \<le> cp \<Longrightarrow>
   expand_loop m msg eomorig eom comp_dn exp_dn cp dn len checked =
     Some (Inr (put m dn (text_from exp_dn dn ls), cp + length (wire ls), dn + length (text_from exp_dn dn ls), len))"
proof (induction ls arbitrary: m cp dn checked)
  case Nil
  then have "cp < length m" "m ! cp = 0" by (auto simp: slice_Suc)
  then show ?case by (simp add: expand_end text_from_def)
next
  case (Cons l ls)
  let ?n = "length l" and ?w = "length (wire ls)"
  let ?m = "dot_mem m exp_dn dn" and ?dn = "dot_dn exp_dn dn"
  have wf: "label_wf l" using Cons.prems(2) by simp
  have w: "cp + 1 + ?n < eomorig" using Cons.prems(3) by (simp add: wire_def)
  have cp: "cp < length m" "dn < length m" "dn < eom" using Cons.prems by auto
  have "m ! cp # slice m (cp + 1) (?n + ?w) = of_nat ?n # l @ wire ls"
    using Cons.prems(1) slice_Suc [OF cp(1), of "?n + ?w"] by simp
  then have b: "m ! cp = of_nat ?n" and sl: "slice m (cp + 1) ?n = l" "slice m (cp + 1 + ?n) ?w = wire ls"
    using slice_append [of m "cp + 1" l "wire ls"] Cons.prems(3,4) by auto
  have len: "dn + length (text_from exp_dn dn (l # ls)) = ?dn + length (escape l) + length (dotted_tail ls)"
    by (simp add: text_from_def dot_dn_def dotted_tail_def)
  define dn1 where "dn1 = ?dn + length (escape l)"
  have ne: "dn1 \<noteq> exp_dn" "?n \<le> length (escape l)" "dn \<le> ?dn" "0 < ?n"
    using Cons.prems(5) wf escape_length [of l] by (auto simp: dn1_def dot_dn_def label_wf_def)
  have room: "dn1 + length (dotted_tail ls) < eom" "eom \<le> length m" "dn1 < length m" "dn1 < eom"
    using Cons.prems(6,7) len by (simp_all add: dn1_def)
  have apart: "a + k \<le> dn \<or> eom \<le> a" if "cp \<le> a" "a + k \<le> cp + length (wire (l # ls))" for a k
    using Cons.prems(8) that by auto
  have sm: "slice ?m a k = slice m a k" if "cp \<le> a" "a + k \<le> cp + length (wire (l # ls))" for a k
    unfolding slice_def dot_mem_def using apart [OF that] cp(3) by (intro nth_equalityI) auto
  have sp: "slice (put ?m ?dn (escape l)) a k = slice m a k" if "cp \<le> a" "a + k \<le> cp + length (wire (l # ls))" for a k
    using slice_put_disjoint [of ?dn "escape l" ?m a k] apart [OF that] that sm [OF that] room ne Cons.prems(3,4)
    by (auto simp: dn1_def)
  have c: "copy_label ?m eomorig eom (cp + 1) ?dn ?n = Some (Inr (put ?m ?dn (escape l), cp + 1 + ?n, dn1))"
    using copy_label_complete [of ?dn ?m "cp + 1" ?n eom eomorig] sm [of "cp + 1" ?n] apart [of "cp + 1" ?n]
      sl room ne w Cons.prems(3,4) by (auto simp: dn1_def)
  have "expand_loop m msg eomorig eom comp_dn exp_dn cp dn len checked =
      expand_loop (put ?m ?dn (escape l)) msg eomorig eom comp_dn exp_dn (cp + 1 + ?n) dn1 len (checked + ?n + 1)"
    using expand_label [of cp m dn eom msg eomorig comp_dn exp_dn len checked] label_byte [OF wf] cp c room ne
    unfolding b by (simp add: dn1_def)
  moreover have ge: "dn \<le> dn1" "length (put ?m ?dn (escape l)) = length m" using ne(3) room by (auto simp: dn1_def)
  moreover have "expand_loop (put ?m ?dn (escape l)) msg eomorig eom comp_dn exp_dn (cp + 1 + ?n) dn1 len (checked + ?n + 1) =
    Some (Inr (put (put ?m ?dn (escape l)) dn1 (text_from exp_dn dn1 ls),
      cp + 1 + ?n + ?w, dn1 + length (text_from exp_dn dn1 ls), len))"
    using Cons.prems(2,3,4,5) ne(1) ge room sp [of "cp + 1 + ?n" ?w] sl apart [of "cp + 1 + ?n" ?w]
    by (intro Cons.IH) (auto simp: text_from_def)
  ultimately show ?case
    using text_from_Cons [OF ne(1) refl dn1_def, of ls m] room by (simp add: algebra_simps)
qed

lemma space_scan_clean:
  "cstr m p s \<Longrightarrow> \<forall>c \<in> set s. \<not> (isascii (sint c) \<and> isspace rl (sint c)) \<Longrightarrow> space_scan rl m p = Some False"
proof (induction s arbitrary: p)
  case Nil
  then show ?case by (subst space_scan.simps) (simp add: cstr_Nil)
next
  case (Cons c s)
  then show ?case by (subst space_scan.simps) (auto simp: cstr_Cons)
qed

lemma zero_notin_text: "\<forall>l \<in> set ls. label_wf l \<Longrightarrow> 0 \<notin> set (name_text ls)"
proof -
  have e: "0 \<notin> set l \<Longrightarrow> 0 \<notin> set (escape l)" for l by (induction l rule: escape.induct) auto
  assume "\<forall>l \<in> set ls. label_wf l"
  then show ?thesis using e by (cases ls) (auto simp: label_wf_def dotted_tail_def)
qed

section \<open>The round trip\<close>

lemma dn_comp_wire:
  assumes "cstr m src (name_text ls)" "\<forall>l \<in> set ls. label_wf l" "length (wire ls) \<le> len0" "comp_dn + len0 \<le> length m"
    "off comp_dn (comp_dn + len0) src (length (name_text ls))"
  shows "dn_comp rl m src comp_dn len0 None cap = Some (put m comp_dn (wire ls), [], int (length (wire ls)))"
  using comp_loop_wire [of m src ls comp_dn "comp_dn + len0"] assms
  by (auto simp: dn_comp_def cstr_def)

lemma dn_expand_wire:
  assumes "slice m comp_dn (length (wire ls)) = wire ls" "\<forall>l \<in> set ls. label_wf l" "comp_dn + length (wire ls) \<le> eomorig"
    "eomorig \<le> length m" "length (name_text ls) < len0" "exp_dn + len0 \<le> length m"
    "comp_dn + length (wire ls) \<le> exp_dn \<or> exp_dn + len0 \<le> comp_dn"
    "\<forall>c \<in> set (name_text ls). \<not> (isascii (sint c) \<and> isspace rl (sint c))"
  shows "dn_expand rl m msg eomorig comp_dn exp_dn len0 = Some (put m exp_dn (name_text ls @ [0]), int (length (wire ls)))"
proof -
  let ?t = "name_text ls"
  let ?m = "put m exp_dn (?t @ [0])"
  have "expand_loop m msg eomorig (exp_dn + len0) comp_dn exp_dn comp_dn exp_dn None 0 =
      Some (Inr (put m exp_dn ?t, comp_dn + length (wire ls), exp_dn + length ?t, None))"
    using expand_loop_wire [of m comp_dn ls eomorig exp_dn exp_dn "exp_dn + len0"] assms by (simp add: text_from_def)
  moreover have "(put m exp_dn ?t)[exp_dn + length ?t := 0] = ?m" using assms(5,6) by (simp add: put_snoc)
  moreover have "cstr ?m exp_dn ?t"
    using slice_append [of ?m exp_dn ?t "[0]"] slice_put_same [of exp_dn "?t @ [0]" m] zero_notin_text [of ls] assms(2,5,6)
    by (simp add: cstr_def nth_put)
  then have "space_scan rl ?m exp_dn = Some False" using assms(8) by (rule space_scan_clean)
  ultimately show ?thesis using assms(5,6) by (simp add: dn_expand_def)
qed



end
