(* ===== verification/Xdr.thy ===== *)
theory Xdr
  imports MemBlk Strings
begin

unbundle bit_operations_syntax

text \<open>
  External data representation, \<open>lib/librpc/rpc/xdr.h\<close>, \<open>xdr.c\<close>, \<open>xdr_array.c\<close> and \<open>xdr_reference.c\<close>: one filter
  per type that encodes an object in memory onto a stream, decodes it from one, or frees it. The handle carries the
  operation and the vector of stream operations; a filter returns its \<open>bool_t\<close>, the handle and the memory, and
  \<open>None\<close> is an access outside the memory. The locale \<open>xdr_stream\<close> is the contract between filters and streams.
\<close>

section \<open>Definitions\<close>

subsection \<open>The handle\<close>

datatype xdr_op = XDR_ENCODE | XDR_DECODE | XDR_FREE

text \<open>
  The operations of a stream with private part \<open>'s\<close>. \<open>x_putlong\<close> is given the long its argument points to, and
  \<open>x_getlong\<close> gives the long to store there, \<open>None\<close> where it returns \<open>FALSE\<close>. The last three are given the operation of
  the handle.
\<close>

record 's xdr_ops =
  x_getlong :: "'s \<Rightarrow> mem \<Rightarrow> (u_long option \<times> 's \<times> mem) option"
  x_putlong :: "'s \<Rightarrow> mem \<Rightarrow> u_long \<Rightarrow> (bool \<times> 's \<times> mem) option"
  x_getbytes :: "'s \<Rightarrow> mem \<Rightarrow> ptr \<Rightarrow> u_int \<Rightarrow> (bool \<times> 's \<times> mem) option"
  x_putbytes :: "'s \<Rightarrow> mem \<Rightarrow> ptr \<Rightarrow> u_int \<Rightarrow> (bool \<times> 's \<times> mem) option"
  x_getpostn :: "xdr_op \<Rightarrow> 's \<Rightarrow> u_int"
  x_setpostn :: "xdr_op \<Rightarrow> 's \<Rightarrow> u_int \<Rightarrow> bool \<times> 's"
  x_inline :: "xdr_op \<Rightarrow> 's \<Rightarrow> u_int \<Rightarrow> ptr \<times> 's"

record 's XDR =
  x_op :: xdr_op
  x_ops :: "'s xdr_ops"
  x_stream :: 's

type_synonym 's xdrproc_t = "'s XDR \<Rightarrow> mem \<Rightarrow> ptr \<Rightarrow> u_int \<Rightarrow> (bool \<times> 's XDR \<times> mem) option"

definition XDR_GETLONG :: "'s XDR \<Rightarrow> mem \<Rightarrow> (u_long option \<times> 's XDR \<times> mem) option" where
  "XDR_GETLONG xdrs m = do {
     (r, s, m) \<leftarrow> x_getlong (x_ops xdrs) (x_stream xdrs) m; Some (r, xdrs\<lparr>x_stream := s\<rparr>, m) }"

definition XDR_PUTLONG :: "'s XDR \<Rightarrow> mem \<Rightarrow> u_long \<Rightarrow> (bool \<times> 's XDR \<times> mem) option" where
  "XDR_PUTLONG xdrs m l = do {
     (r, s, m) \<leftarrow> x_putlong (x_ops xdrs) (x_stream xdrs) m l; Some (r, xdrs\<lparr>x_stream := s\<rparr>, m) }"

definition XDR_GETBYTES :: "'s XDR \<Rightarrow> mem \<Rightarrow> ptr \<Rightarrow> u_int \<Rightarrow> (bool \<times> 's XDR \<times> mem) option" where
  "XDR_GETBYTES xdrs m addr len = do {
     (r, s, m) \<leftarrow> x_getbytes (x_ops xdrs) (x_stream xdrs) m addr len; Some (r, xdrs\<lparr>x_stream := s\<rparr>, m) }"

definition XDR_PUTBYTES :: "'s XDR \<Rightarrow> mem \<Rightarrow> ptr \<Rightarrow> u_int \<Rightarrow> (bool \<times> 's XDR \<times> mem) option" where
  "XDR_PUTBYTES xdrs m addr len = do {
     (r, s, m) \<leftarrow> x_putbytes (x_ops xdrs) (x_stream xdrs) m addr len; Some (r, xdrs\<lparr>x_stream := s\<rparr>, m) }"

text \<open>
  What the filters find around them: the addresses of the two static arrays of \<open>xdr.c\<close> and the allocator, which
  keeps its state in memory and gives 0 when there is none left.
\<close>

record xdr_env =
  crud :: ptr
  xdr_zero :: ptr
  mem_alloc :: "mem \<Rightarrow> u_int \<Rightarrow> ptr \<times> mem"
  mem_free :: "mem \<Rightarrow> ptr \<Rightarrow> u_int \<Rightarrow> mem"

definition BYTES_PER_XDR_UNIT :: u_int where "BYTES_PER_XDR_UNIT = 4"
definition LASTUNSIGNED :: u_int where "LASTUNSIGNED = 0 - 1"
definition MAX_NETOBJ_SZ :: u_int where "MAX_NETOBJ_SZ = 1024"

subsection \<open>Numbers\<close>

definition xdr_void :: "'s XDR \<Rightarrow> mem \<Rightarrow> ptr \<Rightarrow> (bool \<times> 's XDR \<times> mem) option" where
  "xdr_void xdrs m addr = Some (True, xdrs, m)"

text \<open>A filter on a local variable gives its new value; the one on an address stores it when it decodes.\<close>

definition xdr_long_var :: "'s XDR \<Rightarrow> mem \<Rightarrow> u_long \<Rightarrow> (bool \<times> u_long \<times> 's XDR \<times> mem) option" where
  "xdr_long_var xdrs m l =
     (case x_op xdrs of
       XDR_ENCODE \<Rightarrow> do { (ok, xdrs, m) \<leftarrow> XDR_PUTLONG xdrs m l; Some (ok, l, xdrs, m) }
     | XDR_DECODE \<Rightarrow> do {
         (r, xdrs, m) \<leftarrow> XDR_GETLONG xdrs m;
         Some (case r of None \<Rightarrow> (False, l, xdrs, m) | Some v \<Rightarrow> (True, v, xdrs, m)) }
     | XDR_FREE \<Rightarrow> Some (True, l, xdrs, m))"

definition xdr_long :: "'s XDR \<Rightarrow> mem \<Rightarrow> ptr \<Rightarrow> (bool \<times> 's XDR \<times> mem) option" where
  "xdr_long xdrs m lp =
     (case x_op xdrs of
       XDR_ENCODE \<Rightarrow> do { l \<leftarrow> load32 m lp; XDR_PUTLONG xdrs m l }
     | XDR_DECODE \<Rightarrow> do {
         (r, xdrs, m) \<leftarrow> XDR_GETLONG xdrs m;
         (case r of
           None \<Rightarrow> Some (False, xdrs, m)
         | Some v \<Rightarrow> do { m \<leftarrow> store32 m lp v; Some (True, xdrs, m) }) }
     | XDR_FREE \<Rightarrow> Some (True, xdrs, m))"

definition xdr_u_long :: "'s XDR \<Rightarrow> mem \<Rightarrow> ptr \<Rightarrow> (bool \<times> 's XDR \<times> mem) option" where
  "xdr_u_long xdrs m ulp =
     (case x_op xdrs of
       XDR_DECODE \<Rightarrow> do {
         (r, xdrs, m) \<leftarrow> XDR_GETLONG xdrs m;
         (case r of
           None \<Rightarrow> Some (False, xdrs, m)
         | Some v \<Rightarrow> do { m \<leftarrow> store32 m ulp v; Some (True, xdrs, m) }) }
     | XDR_ENCODE \<Rightarrow> do { l \<leftarrow> load32 m ulp; XDR_PUTLONG xdrs m l }
     | XDR_FREE \<Rightarrow> Some (True, xdrs, m))"

text \<open>\<open>int\<close> and \<open>long\<close> have the same size, and so have enumerations.\<close>

definition xdr_int :: "'s XDR \<Rightarrow> mem \<Rightarrow> ptr \<Rightarrow> (bool \<times> 's XDR \<times> mem) option" where
  "xdr_int = xdr_long"

definition xdr_u_int :: "'s XDR \<Rightarrow> mem \<Rightarrow> ptr \<Rightarrow> (bool \<times> 's XDR \<times> mem) option" where
  "xdr_u_int = xdr_u_long"

definition xdr_enum :: "'s XDR \<Rightarrow> mem \<Rightarrow> ptr \<Rightarrow> (bool \<times> 's XDR \<times> mem) option" where
  "xdr_enum = xdr_long"

definition load16 :: "mem \<Rightarrow> ptr \<Rightarrow> u_short option" where
  "load16 m p = do { b0 \<leftarrow> load m p; b1 \<leftarrow> load m (p + 1); Some (ucast b0 OR push_bit 8 (ucast b1)) }"

definition store16 :: "mem \<Rightarrow> ptr \<Rightarrow> u_short \<Rightarrow> mem option" where
  "store16 m p w = do { m \<leftarrow> store m p (ucast w); store m (p + 1) (ucast (drop_bit 8 w)) }"

definition xdr_short :: "'s XDR \<Rightarrow> mem \<Rightarrow> ptr \<Rightarrow> (bool \<times> 's XDR \<times> mem) option" where
  "xdr_short xdrs m sp =
     (case x_op xdrs of
       XDR_ENCODE \<Rightarrow> do { h \<leftarrow> load16 m sp; XDR_PUTLONG xdrs m (scast h) }
     | XDR_DECODE \<Rightarrow> do {
         (r, xdrs, m) \<leftarrow> XDR_GETLONG xdrs m;
         (case r of
           None \<Rightarrow> Some (False, xdrs, m)
         | Some l \<Rightarrow> do { m \<leftarrow> store16 m sp (ucast l); Some (True, xdrs, m) }) }
     | XDR_FREE \<Rightarrow> Some (True, xdrs, m))"

definition xdr_u_short :: "'s XDR \<Rightarrow> mem \<Rightarrow> ptr \<Rightarrow> (bool \<times> 's XDR \<times> mem) option" where
  "xdr_u_short xdrs m usp =
     (case x_op xdrs of
       XDR_ENCODE \<Rightarrow> do { h \<leftarrow> load16 m usp; XDR_PUTLONG xdrs m (ucast h) }
     | XDR_DECODE \<Rightarrow> do {
         (r, xdrs, m) \<leftarrow> XDR_GETLONG xdrs m;
         (case r of
           None \<Rightarrow> Some (False, xdrs, m)
         | Some l \<Rightarrow> do { m \<leftarrow> store16 m usp (ucast l); Some (True, xdrs, m) }) }
     | XDR_FREE \<Rightarrow> Some (True, xdrs, m))"

text \<open>Both character filters take a \<open>char *\<close>, so both extend the sign.\<close>

definition xdr_char :: "'s XDR \<Rightarrow> mem \<Rightarrow> ptr \<Rightarrow> (bool \<times> 's XDR \<times> mem) option" where
  "xdr_char xdrs m cp = do {
     c \<leftarrow> load m cp;
     (ok, i, xdrs, m) \<leftarrow> xdr_long_var xdrs m (scast c);
     (if \<not> ok then Some (False, xdrs, m)
      else do { m \<leftarrow> store m cp (ucast i); Some (True, xdrs, m) }) }"

definition xdr_u_char :: "'s XDR \<Rightarrow> mem \<Rightarrow> ptr \<Rightarrow> (bool \<times> 's XDR \<times> mem) option" where
  "xdr_u_char xdrs m cp = do {
     c \<leftarrow> load m cp;
     (ok, u, xdrs, m) \<leftarrow> xdr_long_var xdrs m (scast c);
     (if \<not> ok then Some (False, xdrs, m)
      else do { m \<leftarrow> store m cp (ucast u); Some (True, xdrs, m) }) }"

definition xdr_bool_var :: "'s XDR \<Rightarrow> mem \<Rightarrow> u_int \<Rightarrow> (bool \<times> u_int \<times> 's XDR \<times> mem) option" where
  "xdr_bool_var xdrs m b =
     (case x_op xdrs of
       XDR_ENCODE \<Rightarrow> do { (ok, xdrs, m) \<leftarrow> XDR_PUTLONG xdrs m (if b \<noteq> 0 then 1 else 0); Some (ok, b, xdrs, m) }
     | XDR_DECODE \<Rightarrow> do {
         (r, xdrs, m) \<leftarrow> XDR_GETLONG xdrs m;
         Some (case r of None \<Rightarrow> (False, b, xdrs, m) | Some lb \<Rightarrow> (True, if lb = 0 then 0 else 1, xdrs, m)) }
     | XDR_FREE \<Rightarrow> Some (True, b, xdrs, m))"

definition xdr_bool :: "'s XDR \<Rightarrow> mem \<Rightarrow> ptr \<Rightarrow> (bool \<times> 's XDR \<times> mem) option" where
  "xdr_bool xdrs m bp =
     (case x_op xdrs of
       XDR_ENCODE \<Rightarrow> do { b \<leftarrow> load32 m bp; XDR_PUTLONG xdrs m (if b \<noteq> 0 then 1 else 0) }
     | XDR_DECODE \<Rightarrow> do {
         (r, xdrs, m) \<leftarrow> XDR_GETLONG xdrs m;
         (case r of
           None \<Rightarrow> Some (False, xdrs, m)
         | Some lb \<Rightarrow> do { m \<leftarrow> store32 m bp (if lb = 0 then 0 else 1); Some (True, xdrs, m) }) }
     | XDR_FREE \<Rightarrow> Some (True, xdrs, m))"

subsection \<open>Bytes and strings\<close>

text \<open>The bytes that are missing to a full unit.\<close>

definition rndup_of :: "u_int \<Rightarrow> u_int" where
  "rndup_of cnt = (let rndup = cnt mod BYTES_PER_XDR_UNIT in if rndup > 0 then BYTES_PER_XDR_UNIT - rndup else rndup)"

definition xdr_opaque :: "xdr_env \<Rightarrow> 's XDR \<Rightarrow> mem \<Rightarrow> ptr \<Rightarrow> u_int \<Rightarrow> (bool \<times> 's XDR \<times> mem) option" where
  "xdr_opaque E xdrs m cp cnt =
     (if cnt = 0 then Some (True, xdrs, m)
      else
        let rndup = rndup_of cnt in
        case x_op xdrs of
          XDR_DECODE \<Rightarrow> do {
            (ok, xdrs, m) \<leftarrow> XDR_GETBYTES xdrs m cp cnt;
            (if \<not> ok then Some (False, xdrs, m)
             else if rndup = 0 then Some (True, xdrs, m)
             else XDR_GETBYTES xdrs m (crud E) rndup) }
        | XDR_ENCODE \<Rightarrow> do {
            (ok, xdrs, m) \<leftarrow> XDR_PUTBYTES xdrs m cp cnt;
            (if \<not> ok then Some (False, xdrs, m)
             else if rndup = 0 then Some (True, xdrs, m)
             else XDR_PUTBYTES xdrs m (xdr_zero E) rndup) }
        | XDR_FREE \<Rightarrow> Some (True, xdrs, m))"

definition xdr_bytes :: "xdr_env \<Rightarrow> 's XDR \<Rightarrow> mem \<Rightarrow> ptr \<Rightarrow> ptr \<Rightarrow> u_int \<Rightarrow> (bool \<times> 's XDR \<times> mem) option" where
  "xdr_bytes E xdrs m cpp sizep maxsize = do {
     w \<leftarrow> load32 m cpp;
     let sp = unat w;
     (ok, xdrs, m) \<leftarrow> xdr_u_int xdrs m sizep;
     (if \<not> ok then Some (False, xdrs, m)
      else do {
        nodesize \<leftarrow> load32 m sizep;
        (if nodesize > maxsize \<and> x_op xdrs \<noteq> XDR_FREE then Some (False, xdrs, m)
         else case x_op xdrs of
           XDR_DECODE \<Rightarrow>
             (if nodesize = 0 then Some (True, xdrs, m)
              else do {
                (sp, m) \<leftarrow> (if sp = 0 then do {
                    let (sp, m) = mem_alloc E m nodesize;
                    m \<leftarrow> store32 m cpp (of_nat sp);
                    Some (sp, m) } else Some (sp, m));
                (if sp = 0 then Some (False, xdrs, m) else xdr_opaque E xdrs m sp nodesize) })
         | XDR_ENCODE \<Rightarrow> xdr_opaque E xdrs m sp nodesize
         | XDR_FREE \<Rightarrow>
             (if sp \<noteq> 0 then do { m \<leftarrow> store32 (mem_free E m sp nodesize) cpp 0; Some (True, xdrs, m) }
              else Some (True, xdrs, m))) }) }"

text \<open>\<open>struct netobj\<close>: the length, and the pointer to the bytes after it.\<close>

definition xdr_netobj :: "xdr_env \<Rightarrow> 's XDR \<Rightarrow> mem \<Rightarrow> ptr \<Rightarrow> (bool \<times> 's XDR \<times> mem) option" where
  "xdr_netobj E xdrs m np = xdr_bytes E xdrs m (np + 4) np MAX_NETOBJ_SZ"

definition xdr_string :: "xdr_env \<Rightarrow> 's XDR \<Rightarrow> mem \<Rightarrow> ptr \<Rightarrow> u_int \<Rightarrow> (bool \<times> 's XDR \<times> mem) option" where
  "xdr_string E xdrs m cpp maxsize = do {
     w \<leftarrow> load32 m cpp;
     let sp = unat w;
     (if x_op xdrs = XDR_FREE \<and> sp = 0 then Some (True, xdrs, m)
      else do {
        size0 \<leftarrow> (if x_op xdrs = XDR_DECODE then Some 0 else strlen m sp);
        (ok, size1, xdrs, m) \<leftarrow> xdr_long_var xdrs m (of_nat size0);
        (if \<not> ok then Some (False, xdrs, m)
         else if size1 > maxsize then Some (False, xdrs, m)
         else
           let nodesize = size1 + 1 in
           case x_op xdrs of
             XDR_DECODE \<Rightarrow>
               (if nodesize = 0 then Some (True, xdrs, m)
                else do {
                  (sp, m) \<leftarrow> (if sp = 0 then do {
                      let (sp, m) = mem_alloc E m nodesize;
                      m \<leftarrow> store32 m cpp (of_nat sp);
                      Some (sp, m) } else Some (sp, m));
                  (if sp = 0 then Some (False, xdrs, m)
                   else do { m \<leftarrow> store m (sp + unat size1) 0; xdr_opaque E xdrs m sp size1 }) })
           | XDR_ENCODE \<Rightarrow> xdr_opaque E xdrs m sp size1
           | XDR_FREE \<Rightarrow> do { m \<leftarrow> store32 (mem_free E m sp nodesize) cpp 0; Some (True, xdrs, m) }) }) }"

definition xdr_wrapstring :: "xdr_env \<Rightarrow> 's XDR \<Rightarrow> mem \<Rightarrow> ptr \<Rightarrow> (bool \<times> 's XDR \<times> mem) option" where
  "xdr_wrapstring E xdrs m cpp = do {
     (ok, xdrs, m) \<leftarrow> xdr_string E xdrs m cpp LASTUNSIGNED;
     (if ok then Some (True, xdrs, m) else Some (False, xdrs, m)) }"

subsection \<open>Unions, arrays and references\<close>

text \<open>The arms of a union are values with their filters; the entry with the null filter ends the list.\<close>

fun union_arm :: "(u_int \<times> 's xdrproc_t) list \<Rightarrow> 's xdrproc_t option \<Rightarrow> u_int \<Rightarrow> 's xdrproc_t option" where
  "union_arm [] dfault dscm = dfault"
| "union_arm ((val, proc) # choices) dfault dscm = (if val = dscm then Some proc else union_arm choices dfault dscm)"

definition xdr_union :: "'s XDR \<Rightarrow> mem \<Rightarrow> ptr \<Rightarrow> ptr \<Rightarrow> (u_int \<times> 's xdrproc_t) list \<Rightarrow> 's xdrproc_t option \<Rightarrow>
    (bool \<times> 's XDR \<times> mem) option" where
  "xdr_union xdrs m dscmp unp choices dfault = do {
     (ok, xdrs, m) \<leftarrow> xdr_enum xdrs m dscmp;
     (if \<not> ok then Some (False, xdrs, m)
      else do {
        dscm \<leftarrow> load32 m dscmp;
        (case union_arm choices dfault dscm of
          None \<Rightarrow> Some (False, xdrs, m)
        | Some proc \<Rightarrow> proc xdrs m unp LASTUNSIGNED) }) }"

text \<open>The loop of both array filters, over the elements left.\<close>

fun each_elem :: "'s xdrproc_t \<Rightarrow> nat \<Rightarrow> nat \<Rightarrow> 's XDR \<Rightarrow> mem \<Rightarrow> ptr \<Rightarrow> (bool \<times> 's XDR \<times> mem) option" where
  "each_elem elproc elsize 0 xdrs m target = Some (True, xdrs, m)"
| "each_elem elproc elsize (Suc n) xdrs m target = do {
     (stat, xdrs, m) \<leftarrow> elproc xdrs m target LASTUNSIGNED;
     (if stat then each_elem elproc elsize n xdrs m (target + elsize) else Some (False, xdrs, m)) }"

definition xdr_array :: "xdr_env \<Rightarrow> 's XDR \<Rightarrow> mem \<Rightarrow> ptr \<Rightarrow> ptr \<Rightarrow> u_int \<Rightarrow> u_int \<Rightarrow> 's xdrproc_t \<Rightarrow>
    (bool \<times> 's XDR \<times> mem) option" where
  "xdr_array E xdrs m addrp sizep maxsize elsize elproc = do {
     w \<leftarrow> load32 m addrp;
     let target = unat w;
     (ok, xdrs, m) \<leftarrow> xdr_u_int xdrs m sizep;
     (if \<not> ok then Some (False, xdrs, m)
      else do {
        c \<leftarrow> load32 m sizep;
        (if c > maxsize \<and> x_op xdrs \<noteq> XDR_FREE then Some (False, xdrs, m)
         else
           let nodesize = c * elsize;
               elements = (\<lambda>m target. do {
                 (stat, xdrs, m) \<leftarrow> each_elem elproc (unat elsize) (unat c) xdrs m target;
                 (if x_op xdrs = XDR_FREE then do {
                    w \<leftarrow> load32 m addrp;
                    m \<leftarrow> store32 (mem_free E m (unat w) nodesize) addrp 0;
                    Some (stat, xdrs, m) }
                  else Some (stat, xdrs, m)) }) in
           if target = 0 \<and> x_op xdrs = XDR_DECODE then
             (if c = 0 then Some (True, xdrs, m)
              else do {
                let (target, m) = mem_alloc E m nodesize;
                m \<leftarrow> store32 m addrp (of_nat target);
                (if target = 0 then Some (False, xdrs, m)
                 else do { m \<leftarrow> bzero m target nodesize; elements m target }) })
           else if target = 0 \<and> x_op xdrs = XDR_FREE then Some (True, xdrs, m)
           else elements m target) }) }"

definition xdr_vector :: "'s XDR \<Rightarrow> mem \<Rightarrow> ptr \<Rightarrow> u_int \<Rightarrow> u_int \<Rightarrow> 's xdrproc_t \<Rightarrow> (bool \<times> 's XDR \<times> mem) option" where
  "xdr_vector xdrs m basep nelem elemsize xdr_elem = each_elem xdr_elem (unat elemsize) (unat nelem) xdrs m basep"

definition xdr_reference :: "xdr_env \<Rightarrow> 's XDR \<Rightarrow> mem \<Rightarrow> ptr \<Rightarrow> u_int \<Rightarrow> 's xdrproc_t \<Rightarrow> (bool \<times> 's XDR \<times> mem) option" where
  "xdr_reference E xdrs m pp obj_size proc = do {
     w \<leftarrow> load32 m pp;
     let loc = unat w;
     (if loc = 0 \<and> x_op xdrs = XDR_FREE then Some (True, xdrs, m)
      else do {
        (loc, m) \<leftarrow> (if loc = 0 \<and> x_op xdrs = XDR_DECODE then do {
            let (loc, m) = mem_alloc E m obj_size;
            m \<leftarrow> store32 m pp (of_nat loc);
            (if loc = 0 then Some (loc, m) else do { m \<leftarrow> bzero m loc obj_size; Some (loc, m) }) }
          else Some (loc, m));
        (if loc = 0 \<and> x_op xdrs = XDR_DECODE then Some (False, xdrs, m)
         else do {
           (stat, xdrs, m) \<leftarrow> proc xdrs m loc LASTUNSIGNED;
           (if x_op xdrs = XDR_FREE then do {
              m \<leftarrow> store32 (mem_free E m loc obj_size) pp 0; Some (stat, xdrs, m) }
            else Some (stat, xdrs, m)) }) }) }"

definition xdr_pointer :: "xdr_env \<Rightarrow> 's XDR \<Rightarrow> mem \<Rightarrow> ptr \<Rightarrow> u_int \<Rightarrow> 's xdrproc_t \<Rightarrow> (bool \<times> 's XDR \<times> mem) option" where
  "xdr_pointer E xdrs m objpp obj_size xdr_obj = do {
     w \<leftarrow> load32 m objpp;
     (ok, more_data, xdrs, m) \<leftarrow> xdr_bool_var xdrs m (if w \<noteq> 0 then 1 else 0);
     (if \<not> ok then Some (False, xdrs, m)
      else if more_data = 0 then do { m \<leftarrow> store32 m objpp 0; Some (True, xdrs, m) }
      else xdr_reference E xdrs m objpp obj_size xdr_obj) }"

definition xdr_free :: "'s xdrproc_t \<Rightarrow> 's XDR \<Rightarrow> mem \<Rightarrow> ptr \<Rightarrow> mem option" where
  "xdr_free proc x m objp = do { (ok, x, m) \<leftarrow> proc (x\<lparr>x_op := XDR_FREE\<rparr>) m objp LASTUNSIGNED; Some m }"

end
