(* ===== verification/XdrStream.thy ===== *)
theory XdrStream
  imports Xdr
begin

unbundle bit_operations_syntax

text \<open>
  The contract between the filters of \<open>Xdr\<close> and the streams under them, as the locale \<open>xdr_stream\<close>, and
  what the filters make of it: each filter of fixed size is a codec, that writes a given sequence of bytes for the object in
  memory and reads it back, and arrays of codecs are codecs.
\<close>

section \<open>Memory\<close>

definition le16 :: "u_short \<Rightarrow> byte list" where
  "le16 w = [ucast w, ucast (drop_bit 8 w)]"

definition le32 :: "u_int \<Rightarrow> byte list" where
  "le32 w = [ucast w, ucast (drop_bit 8 w), ucast (drop_bit 16 w), ucast (drop_bit 24 w)]"

definition be32 :: "u_int \<Rightarrow> byte list" where
  "be32 w = rev (le32 w)"

lemma length_le32 [simp]: "length (le32 w) = 4" and length_be32 [simp]: "length (be32 w) = 4"
  and length_le16 [simp]: "length (le16 h) = 2"
  by (simp_all add: le32_def be32_def le16_def)

lemma le32_word:
  "ucast (ucast w :: byte) OR push_bit 8 (ucast (ucast (drop_bit 8 w) :: byte))
    OR push_bit 16 (ucast (ucast (drop_bit 16 w) :: byte)) OR push_bit 24 (ucast (ucast (drop_bit 24 w) :: byte)) = w"
  (is "?v = w") for w :: u_int
proof (rule bit_word_eqI)
  fix n assume "n < LENGTH(32)"
  then consider "n < 8" | "8 \<le> n" "n < 16" | "16 \<le> n" "n < 24" | "24 \<le> n" "n < 32" by force
  then show "bit ?v n \<longleftrightarrow> bit w n" by cases (auto simp: bit_simps)
qed

lemma le16_word: "ucast (ucast w :: byte) OR push_bit 8 (ucast (ucast (drop_bit 8 w) :: byte)) = w" for w :: u_short
  by (rule bit_word_eqI) (auto simp: bit_simps)

lemma narrow_back [simp]:
  "ucast (scast h :: u_int) = h" "ucast (ucast h :: u_int) = h" "ucast (scast b :: u_int) = b"
  for h :: u_short and b :: byte
  by (rule bit_word_eqI, auto simp: bit_simps)+

lemma store32_put: "p + 4 \<le> length m \<Longrightarrow> store32 m p w = Some (put m p (le32 w))"
  by (simp add: store32_def le32_def put_Cons eval_nat_numeral)

lemma load32_slice: "slice m p 4 = le32 w \<Longrightarrow> p + 4 \<le> length m \<Longrightarrow> load32 m p = Some w"
  using le32_word [of w] by (simp add: load32_def le32_def numeral_eq_Suc slice_Suc)

lemma store16_put: "p + 2 \<le> length m \<Longrightarrow> store16 m p w = Some (put m p (le16 w))"
  by (simp add: store16_def le16_def put_Cons)

lemma load16_slice: "slice m p 2 = le16 w \<Longrightarrow> p + 2 \<le> length m \<Longrightarrow> load16 m p = Some w"
  using le16_word [of w] by (simp add: load16_def le16_def numeral_eq_Suc slice_Suc)

text \<open>The memory is changed at most at the addresses of a set.\<close>

definition blk :: "ptr \<Rightarrow> nat \<Rightarrow> ptr set" where
  "blk p n = {p..<p + n}"

definition same_off :: "ptr set \<Rightarrow> mem \<Rightarrow> mem \<Rightarrow> bool" where
  "same_off A m m' \<longleftrightarrow> length m' = length m \<and> (\<forall>i. i \<notin> A \<longrightarrow> m' ! i = m ! i)"

lemma same_off_refl [simp]: "same_off A m m"
  by (simp add: same_off_def)

lemma same_off_trans: "same_off A m m' \<Longrightarrow> same_off B m' m'' \<Longrightarrow> same_off (A \<union> B) m m''"
  by (simp add: same_off_def)

lemma same_off_mono: "same_off A m m' \<Longrightarrow> A \<subseteq> B \<Longrightarrow> same_off B m m'"
  by (auto simp: same_off_def)

lemma same_off_length: "same_off A m m' \<Longrightarrow> length m' = length m"
  by (simp add: same_off_def)

lemma same_off_put: "p + length bs \<le> length m \<Longrightarrow> same_off (blk p (length bs)) m (put m p bs)"
  by (auto simp: same_off_def blk_def nth_put)

lemma slice_same_off: "same_off A m m' \<Longrightarrow> blk p n \<inter> A = {} \<Longrightarrow> slice m' p n = slice m p n"
proof -
  assume s: "same_off A m m'" and d: "blk p n \<inter> A = {}"
  have "p + i \<notin> A" if "i < n" for i using d that unfolding blk_def by (simp add: disjoint_iff)
  then show ?thesis using s by (intro nth_equalityI) (auto simp: slice_def same_off_def)
qed

lemma blk_0 [simp]: "blk p 0 = {}"
  by (simp add: blk_def)

lemma blk_add: "blk p (a + b) = blk p a \<union> blk (p + a) b"
  by (auto simp: blk_def)

lemma blk_add_disjoint: "blk p a \<inter> blk (p + a) b = {}"
  by (auto simp: blk_def)

section \<open>Streams\<close>

text \<open>
  What a filter may know of a stream: whether it is sound, the addresses it owns, the bytes still to be read, the bytes
  written so far and the room left for more.
\<close>

record 's view =
  v_wf :: "'s \<Rightarrow> mem \<Rightarrow> bool"
  v_own :: "'s \<Rightarrow> ptr set"
  v_inp :: "'s \<Rightarrow> mem \<Rightarrow> byte list"
  v_out :: "'s \<Rightarrow> mem \<Rightarrow> byte list"
  v_room :: "'s \<Rightarrow> nat"

definition wrote :: "'s view \<Rightarrow> 's \<Rightarrow> mem \<Rightarrow> 's \<Rightarrow> mem \<Rightarrow> byte list \<Rightarrow> bool" where
  "wrote V s m s' m' bs \<longleftrightarrow> v_wf V s' m' \<and> v_own V s' = v_own V s \<and> v_room V s \<le> v_room V s' + length bs
    \<and> v_out V s' m' = v_out V s m @ bs \<and> same_off (v_own V s) m m'"

definition took :: "'s view \<Rightarrow> ptr set \<Rightarrow> 's \<Rightarrow> mem \<Rightarrow> 's \<Rightarrow> mem \<Rightarrow> byte list \<Rightarrow> bool" where
  "took V A s m s' m' bs \<longleftrightarrow> v_wf V s' m' \<and> v_own V s' = v_own V s \<and> v_inp V s' m' = bs \<and> same_off (v_own V s \<union> A) m m'"

lemma wrote_trans: "wrote V s m s' m' bs \<Longrightarrow> wrote V s' m' s'' m'' cs \<Longrightarrow> wrote V s m s'' m'' (bs @ cs)"
  by (auto simp: wrote_def same_off_def)

lemma took_trans: "took V A s m s' m' bs \<Longrightarrow> took V B s' m' s'' m'' cs \<Longrightarrow> took V (A \<union> B) s m s'' m'' cs"
  by (auto simp: took_def same_off_def)

lemma took_mono: "took V A s m s' m' bs \<Longrightarrow> A \<subseteq> B \<Longrightarrow> took V B s m s' m' bs"
  by (auto simp: took_def intro: same_off_mono)

locale xdr_stream =
  fixes ops :: "'s xdr_ops" and V :: "'s view"
  assumes putlong: "v_wf V s m \<Longrightarrow> 4 \<le> v_room V s \<Longrightarrow>
      \<exists>s' m'. x_putlong ops s m l = Some (True, s', m') \<and> wrote V s m s' m' (be32 l)"
    and putbytes: "v_wf V s m \<Longrightarrow> unat n \<le> v_room V s \<Longrightarrow> p + unat n \<le> length m \<Longrightarrow> blk p (unat n) \<inter> v_own V s = {} \<Longrightarrow>
      \<exists>s' m'. x_putbytes ops s m p n = Some (True, s', m') \<and> wrote V s m s' m' (slice m p (unat n))"
    and getlong: "v_wf V s m \<Longrightarrow> v_inp V s m = be32 l @ bs \<Longrightarrow>
      \<exists>s' m'. x_getlong ops s m = Some (Some l, s', m') \<and> took V {} s m s' m' bs"
    and getbytes: "v_wf V s m \<Longrightarrow> v_inp V s m = xs @ bs \<Longrightarrow> length xs = unat n \<Longrightarrow> p + unat n \<le> length m \<Longrightarrow>
      blk p (unat n) \<inter> v_own V s = {} \<Longrightarrow>
      \<exists>s' m'. x_getbytes ops s m p n = Some (True, s', m') \<and> took V (blk p (unat n)) s m s' m' bs \<and> slice m' p (unat n) = xs"
    and frame: "v_wf V s m \<Longrightarrow> same_off A m m' \<Longrightarrow> A \<inter> v_own V s = {} \<Longrightarrow>
      v_wf V s m' \<and> v_inp V s m' = v_inp V s m \<and> v_out V s m' = v_out V s m"

section \<open>Codecs\<close>

definition handle :: "'s xdr_ops \<Rightarrow> xdr_op \<Rightarrow> 's \<Rightarrow> 's XDR" where
  "handle ops xop s = \<lparr>x_op = xop, x_ops = ops, x_stream = s\<rparr>"

lemma handle_simps [simp]:
  "x_op (handle ops xop s) = xop" "x_ops (handle ops xop s) = ops" "x_stream (handle ops xop s) = s"
  "handle ops xop s\<lparr>x_stream := s'\<rparr> = handle ops xop s'"
  by (simp_all add: handle_def)

text \<open>The static arrays of the filters are in memory, apart from each other and from the stream.\<close>

definition statics :: "xdr_env \<Rightarrow> ptr set" where
  "statics E = blk (crud E) 4 \<union> blk (xdr_zero E) 4"

definition env_ok :: "xdr_env \<Rightarrow> ptr set \<Rightarrow> mem \<Rightarrow> bool" where
  "env_ok E A m \<longleftrightarrow> xdr_zero E + 4 \<le> length m \<and> crud E + 4 \<le> length m \<and> slice m (xdr_zero E) 4 = [0, 0, 0, 0]
    \<and> statics E \<inter> A = {} \<and> blk (crud E) 4 \<inter> blk (xdr_zero E) 4 = {}"

text \<open>
  A filter encodes the values of \<open>D\<close>, that lie in \<open>k\<close> bytes of memory as \<open>lay\<close> says, to the bytes \<open>wr\<close>, and
  decodes these bytes to the same values.
\<close>

definition encodes :: "'s xdr_ops \<Rightarrow> 's view \<Rightarrow> xdr_env \<Rightarrow> 's xdrproc_t \<Rightarrow> nat \<Rightarrow> 'a set \<Rightarrow> ('a \<Rightarrow> byte list) \<Rightarrow> ('a \<Rightarrow> byte list) \<Rightarrow> bool" where
  "encodes ops V E f k D lay wr \<longleftrightarrow> (\<forall>s m p v.
     v_wf V s m \<and> env_ok E (v_own V s) m \<and> p + k \<le> length m \<and> blk p k \<inter> (v_own V s \<union> statics E) = {}
       \<and> v \<in> D \<and> slice m p k = lay v \<and> length (wr v) \<le> v_room V s \<longrightarrow>
     (\<exists>s' m'. f (handle ops XDR_ENCODE s) m p LASTUNSIGNED = Some (True, handle ops XDR_ENCODE s', m') \<and> wrote V s m s' m' (wr v)))"

definition decodes :: "'s xdr_ops \<Rightarrow> 's view \<Rightarrow> xdr_env \<Rightarrow> 's xdrproc_t \<Rightarrow> nat \<Rightarrow> 'a set \<Rightarrow> ('a \<Rightarrow> byte list) \<Rightarrow> ('a \<Rightarrow> byte list) \<Rightarrow> bool" where
  "decodes ops V E f k D lay wr \<longleftrightarrow> (\<forall>s m p v bs.
     v_wf V s m \<and> env_ok E (v_own V s) m \<and> p + k \<le> length m \<and> blk p k \<inter> (v_own V s \<union> statics E) = {}
       \<and> v \<in> D \<and> v_inp V s m = wr v @ bs \<longrightarrow>
     (\<exists>s' m'. f (handle ops XDR_DECODE s) m p LASTUNSIGNED = Some (True, handle ops XDR_DECODE s', m')
       \<and> took V (blk p k \<union> blk (crud E) 4) s m s' m' bs \<and> slice m' p k = lay v))"

definition codec :: "'s xdr_ops \<Rightarrow> 's view \<Rightarrow> xdr_env \<Rightarrow> 's xdrproc_t \<Rightarrow> nat \<Rightarrow> 'a set \<Rightarrow> ('a \<Rightarrow> byte list) \<Rightarrow> ('a \<Rightarrow> byte list) \<Rightarrow> bool" where
  "codec ops V E f k D lay wr \<longleftrightarrow> encodes ops V E f k D lay wr \<and> decodes ops V E f k D lay wr"

lemma env_ok_same_off: "env_ok E A m \<Longrightarrow> same_off B m m' \<Longrightarrow> B \<inter> blk (xdr_zero E) 4 = {} \<Longrightarrow> env_ok E A m'"
  unfolding env_ok_def using slice_same_off [of B m m' "xdr_zero E" 4] same_off_length [of B m m'] by auto

lemma encodesI:
  assumes "\<And>s m p v. v_wf V s m \<Longrightarrow> env_ok E (v_own V s) m \<Longrightarrow> p + k \<le> length m \<Longrightarrow>
      blk p k \<inter> (v_own V s \<union> statics E) = {} \<Longrightarrow> v \<in> D \<Longrightarrow> slice m p k = lay v \<Longrightarrow> length (wr v) \<le> v_room V s \<Longrightarrow>
    \<exists>s' m'. f (handle ops XDR_ENCODE s) m p LASTUNSIGNED = Some (True, handle ops XDR_ENCODE s', m') \<and> wrote V s m s' m' (wr v)"
  shows "encodes ops V E f k D lay wr"
  using assms unfolding encodes_def by blast

lemma decodesI:
  assumes "\<And>s m p v bs. v_wf V s m \<Longrightarrow> env_ok E (v_own V s) m \<Longrightarrow> p + k \<le> length m \<Longrightarrow>
      blk p k \<inter> (v_own V s \<union> statics E) = {} \<Longrightarrow> v \<in> D \<Longrightarrow> v_inp V s m = wr v @ bs \<Longrightarrow>
    \<exists>s' m'. f (handle ops XDR_DECODE s) m p LASTUNSIGNED = Some (True, handle ops XDR_DECODE s', m')
      \<and> took V (blk p k \<union> blk (crud E) 4) s m s' m' bs \<and> slice m' p k = lay v"
  shows "decodes ops V E f k D lay wr"
  using assms unfolding decodes_def by blast

subsection \<open>Numbers\<close>

context xdr_stream
begin

lemma PUTLONG:
  assumes "v_wf V s m" "4 \<le> v_room V s"
  shows "\<exists>s' m'. XDR_PUTLONG (handle ops xop s) m l = Some (True, handle ops xop s', m') \<and> wrote V s m s' m' (be32 l)"
  using putlong [OF assms, of l] by (auto simp: XDR_PUTLONG_def)

lemma GETLONG:
  assumes "v_wf V s m" "v_inp V s m = be32 l @ bs"
  shows "\<exists>s' m'. XDR_GETLONG (handle ops xop s) m = Some (Some l, handle ops xop s', m') \<and> took V {} s m s' m' bs"
  using getlong [OF assms] by (auto simp: XDR_GETLONG_def)

lemma took_put:
  assumes "took V A s m s' m' bs" "blk p (length xs) \<inter> v_own V s = {}" "p + length xs \<le> length m"
  shows "took V (A \<union> blk p (length xs)) s m s' (put m' p xs) bs"
proof -
  have l: "length m' = length m" using assms(1) by (simp add: took_def same_off_def)
  have so: "same_off (blk p (length xs)) m' (put m' p xs)" using assms(3) l by (intro same_off_put) simp
  then have "v_wf V s' (put m' p xs) \<and> v_inp V s' (put m' p xs) = bs"
    using frame [of s' m' "blk p (length xs)" "put m' p xs"] assms(1,2) by (auto simp: took_def)
  then show ?thesis
    using so assms(1) same_off_trans [of "v_own V s \<union> A" m m' "blk p (length xs)"] by (auto simp: took_def Un_assoc)
qed

lemma scalar_codec:
  assumes len: "\<And>v. v \<in> D \<Longrightarrow> length (lay v) = k"
    and enc: "\<And>s m p v h' m'. p + k \<le> length m \<Longrightarrow> v \<in> D \<Longrightarrow> slice m p k = lay v \<Longrightarrow> slice m' p k = lay v \<Longrightarrow>
      length m' = length m \<Longrightarrow> XDR_PUTLONG (handle ops XDR_ENCODE s) m (w v) = Some (True, h', m') \<Longrightarrow>
      f (handle ops XDR_ENCODE s) m p LASTUNSIGNED = Some (True, h', m')"
    and dec: "\<And>s m p v h' m'. p + k \<le> length m \<Longrightarrow> v \<in> D \<Longrightarrow> length m' = length m \<Longrightarrow>
      XDR_GETLONG (handle ops XDR_DECODE s) m = Some (Some (w v), h', m') \<Longrightarrow>
      f (handle ops XDR_DECODE s) m p LASTUNSIGNED = Some (True, h', put m' p (lay v))"
  shows "codec ops V E f k D lay (\<lambda>v. be32 (w v))"
  unfolding codec_def
proof
  show "encodes ops V E f k D lay (\<lambda>v. be32 (w v))"
  proof (rule encodesI)
    fix s m p v
    assume a: "v_wf V s m" "p + k \<le> length m" "blk p k \<inter> (v_own V s \<union> statics E) = {}" "v \<in> D" "slice m p k = lay v"
      "length (be32 (w v)) \<le> v_room V s"
    then obtain s' m' where s': "XDR_PUTLONG (handle ops XDR_ENCODE s) m (w v) = Some (True, handle ops XDR_ENCODE s', m')"
        "wrote V s m s' m' (be32 (w v))"
      using PUTLONG [of s m] by fastforce
    then have so: "same_off (v_own V s) m m'" by (simp add: wrote_def)
    then have "slice m' p k = lay v" using slice_same_off [OF so, of p k] a(3,5) by auto
    then show "\<exists>s' m'. f (handle ops XDR_ENCODE s) m p LASTUNSIGNED = Some (True, handle ops XDR_ENCODE s', m')
        \<and> wrote V s m s' m' (be32 (w v))"
      using enc [OF a(2,4,5) _ same_off_length [OF so] s'(1)] s'(2) by blast
  qed
  show "decodes ops V E f k D lay (\<lambda>v. be32 (w v))"
  proof (rule decodesI)
    fix s m p v bs
    assume a: "v_wf V s m" "p + k \<le> length m" "blk p k \<inter> (v_own V s \<union> statics E) = {}" "v \<in> D"
      "v_inp V s m = be32 (w v) @ bs"
    obtain s' m' where s': "XDR_GETLONG (handle ops XDR_DECODE s) m = Some (Some (w v), handle ops XDR_DECODE s', m')"
        "took V {} s m s' m' bs"
      using GETLONG [OF a(1,5)] by blast
    then have l: "length m' = length m" by (simp add: took_def same_off_def)
    have "took V (blk p k) s m s' (put m' p (lay v)) bs"
      using took_put [OF s'(2), of p "lay v"] a(2,3,4) len [OF a(4)] by auto
    moreover have "slice (put m' p (lay v)) p k = lay v"
      using slice_put_same [of p "lay v" m'] a(2,4) len [OF a(4)] l by simp
    ultimately show "\<exists>s' m'. f (handle ops XDR_DECODE s) m p LASTUNSIGNED = Some (True, handle ops XDR_DECODE s', m')
        \<and> took V (blk p k \<union> blk (crud E) 4) s m s' m' bs \<and> slice m' p k = lay v"
      using dec [OF a(2,4) l s'(1)] took_mono [of V "blk p k" s m s' "put m' p (lay v)" bs "blk p k \<union> blk (crud E) 4"] by blast
  qed
qed

lemma xdr_long_codec: "codec ops V E (\<lambda>x m p u. xdr_long x m p) 4 UNIV le32 be32"
  by (rule scalar_codec) (simp_all add: xdr_long_def load32_slice store32_put)

lemma xdr_u_long_codec: "codec ops V E (\<lambda>x m p u. xdr_u_long x m p) 4 UNIV le32 be32"
  by (rule scalar_codec) (simp_all add: xdr_u_long_def load32_slice store32_put)

lemma xdr_short_codec: "codec ops V E (\<lambda>x m p u. xdr_short x m p) 2 UNIV le16 (\<lambda>h. be32 (scast h))"
  by (rule scalar_codec) (simp_all add: xdr_short_def load16_slice store16_put)

lemma xdr_u_short_codec: "codec ops V E (\<lambda>x m p u. xdr_u_short x m p) 2 UNIV le16 (\<lambda>h. be32 (ucast h))"
  by (rule scalar_codec) (simp_all add: xdr_u_short_def load16_slice store16_put)

lemma xdr_char_codec: "codec ops V E (\<lambda>x m p u. xdr_char x m p) 1 UNIV (\<lambda>c. [c]) (\<lambda>c. be32 (scast c))"
  by (rule scalar_codec) (auto simp: xdr_char_def xdr_long_var_def slice_Suc put_Cons list_update_same_conv)

lemma xdr_u_char_codec: "codec ops V E (\<lambda>x m p u. xdr_u_char x m p) 1 UNIV (\<lambda>c. [c]) (\<lambda>c. be32 (scast c))"
  by (rule scalar_codec) (auto simp: xdr_u_char_def xdr_long_var_def slice_Suc put_Cons list_update_same_conv)

lemma xdr_bool_codec: "codec ops V E (\<lambda>x m p u. xdr_bool x m p) 4 {0, 1} le32 be32"
  by (rule scalar_codec) (auto simp: xdr_bool_def load32_slice store32_put)

end

subsection \<open>Opaque data\<close>

text \<open>The bytes with zeros up to a full unit.\<close>

definition fill :: "nat \<Rightarrow> nat" where
  "fill n = (4 - n mod 4) mod 4"

definition pad :: "byte list \<Rightarrow> byte list" where
  "pad xs = xs @ replicate (fill (length xs)) 0"

lemma unat_rndup_of: "unat (rndup_of cnt) = fill (unat cnt)"
proof -
  have m: "unat (cnt mod 4) = unat cnt mod 4" by (simp add: unat_mod)
  show ?thesis
  proof (cases "cnt mod 4 = 0")
    case True
    then have "unat cnt mod 4 = 0" using m by (metis unat_0)
    then show ?thesis using True by (simp add: rndup_of_def BYTES_PER_XDR_UNIT_def fill_def)
  next
    case False
    have "cnt mod 4 \<le> 4" using m unat_arith_simps by (simp add: word_le_nat_alt)
    then have "unat (4 - cnt mod 4) = 4 - unat cnt mod 4" using m by (simp add: unat_sub)
    moreover have "0 < unat cnt mod 4" using False m by (metis unat_eq_0 neq0_conv)
    ultimately show ?thesis using False by (simp add: rndup_of_def BYTES_PER_XDR_UNIT_def fill_def Let_def word_neq_0_conv)
  qed
qed

lemma fill_le: "fill n \<le> 4"
  by (simp add: fill_def)

lemma length_pad [simp]: "length (pad xs) = length xs + fill (length xs)"
  by (simp add: pad_def)

lemma pad_Nil [simp]: "pad [] = []"
  by (simp add: pad_def fill_def)

lemma zeros_of_static: "env_ok E A m \<Longrightarrow> n \<le> 4 \<Longrightarrow> slice m (xdr_zero E) n = replicate n 0"
proof -
  assume e: "env_ok E A m" and n: "n \<le> 4"
  then have "slice m (xdr_zero E) n = take n [0, 0, 0, 0]"
    by (metis env_ok_def slice_def take_take min.absorb1)
  also have "[0, 0, 0, 0 :: byte] = replicate 4 0" by (simp add: numeral_eq_Suc)
  also have "take n (replicate 4 0) = replicate n (0 :: byte)" using n by simp
  finally show ?thesis .
qed

lemma xdr_opaque_encode:
  "cnt \<noteq> 0 \<Longrightarrow> x_op xdrs = XDR_ENCODE \<Longrightarrow> xdr_opaque E xdrs m cp cnt = do {
     (ok, xdrs, m) \<leftarrow> XDR_PUTBYTES xdrs m cp cnt;
     (if \<not> ok then Some (False, xdrs, m) else if rndup_of cnt = 0 then Some (True, xdrs, m)
      else XDR_PUTBYTES xdrs m (xdr_zero E) (rndup_of cnt)) }"
  by (simp add: xdr_opaque_def Let_def)

lemma xdr_opaque_decode:
  "cnt \<noteq> 0 \<Longrightarrow> x_op xdrs = XDR_DECODE \<Longrightarrow> xdr_opaque E xdrs m cp cnt = do {
     (ok, xdrs, m) \<leftarrow> XDR_GETBYTES xdrs m cp cnt;
     (if \<not> ok then Some (False, xdrs, m) else if rndup_of cnt = 0 then Some (True, xdrs, m)
      else XDR_GETBYTES xdrs m (crud E) (rndup_of cnt)) }"
  by (simp add: xdr_opaque_def Let_def)

lemma blk_mono: "n \<le> k \<Longrightarrow> blk p n \<subseteq> blk p k"
  by (auto simp: blk_def)

context xdr_stream
begin

lemma PUTBYTES:
  assumes "v_wf V s m" "unat n \<le> v_room V s" "p + unat n \<le> length m" "blk p (unat n) \<inter> v_own V s = {}"
  shows "\<exists>s' m'. XDR_PUTBYTES (handle ops xop s) m p n = Some (True, handle ops xop s', m')
    \<and> wrote V s m s' m' (slice m p (unat n))"
  using putbytes [OF assms] by (auto simp: XDR_PUTBYTES_def)

lemma GETBYTES:
  assumes "v_wf V s m" "v_inp V s m = xs @ bs" "length xs = unat n" "p + unat n \<le> length m" "blk p (unat n) \<inter> v_own V s = {}"
  shows "\<exists>s' m'. XDR_GETBYTES (handle ops xop s) m p n = Some (True, handle ops xop s', m')
    \<and> took V (blk p (unat n)) s m s' m' bs \<and> slice m' p (unat n) = xs"
  using getbytes [OF assms] by (auto simp: XDR_GETBYTES_def)

lemma xdr_opaque_puts:
  assumes "v_wf V s m" "env_ok E (v_own V s) m" "p + unat cnt \<le> length m" "blk p (unat cnt) \<inter> v_own V s = {}"
    "unat cnt + fill (unat cnt) \<le> v_room V s"
  shows "\<exists>s' m'. xdr_opaque E (handle ops XDR_ENCODE s) m p cnt = Some (True, handle ops XDR_ENCODE s', m')
    \<and> wrote V s m s' m' (pad (slice m p (unat cnt)))"
proof (cases "cnt = 0")
  case True
  then show ?thesis using assms(1) by (auto simp: xdr_opaque_def wrote_def)
next
  case False
  let ?xs = "slice m p (unat cnt)"
  obtain s1 m1 where 1: "XDR_PUTBYTES (handle ops XDR_ENCODE s) m p cnt = Some (True, handle ops XDR_ENCODE s1, m1)"
      "wrote V s m s1 m1 ?xs"
    using PUTBYTES [where xop = XDR_ENCODE, OF assms(1) _ assms(3,4)] assms(5) by auto
  note step = xdr_opaque_encode [OF False, of "handle ops XDR_ENCODE s" E m p]
  show ?thesis
  proof (cases "rndup_of cnt = 0")
    case True
    then have "fill (unat cnt) = 0" using unat_rndup_of [of cnt] by simp
    then show ?thesis using True step 1 assms(3) by (auto simp: pad_def)
  next
    case r: False
    have own: "v_own V s1 = v_own V s" and so: "same_off (v_own V s) m m1" and wf1: "v_wf V s1 m1"
      and room: "fill (unat cnt) \<le> v_room V s1" using 1(2) assms(3,5) by (auto simp: wrote_def)
    have e: "env_ok E (v_own V s) m1"
      using assms(2) by (intro env_ok_same_off [OF assms(2) so]) (auto simp: env_ok_def statics_def)
    have z: "xdr_zero E + fill (unat cnt) \<le> length m1" "blk (xdr_zero E) (fill (unat cnt)) \<inter> v_own V s1 = {}"
      using e own fill_le [of "unat cnt"] blk_mono [of "fill (unat cnt)" 4 "xdr_zero E"] by (auto simp: env_ok_def statics_def)
    obtain s2 m2 where 2: "XDR_PUTBYTES (handle ops XDR_ENCODE s1) m1 (xdr_zero E) (rndup_of cnt) = Some (True, handle ops XDR_ENCODE s2, m2)"
        "wrote V s1 m1 s2 m2 (replicate (fill (unat cnt)) 0)"
      using PUTBYTES [of s1 m1 "rndup_of cnt" "xdr_zero E" XDR_ENCODE] wf1 room z zeros_of_static [OF e fill_le]
      by (auto simp: unat_rndup_of)
    then show ?thesis using step r 1 assms(3) wrote_trans [OF 1(2) 2(2)] by (auto simp: pad_def)
  qed
qed

lemma xdr_opaque_gets:
  assumes "v_wf V s m" "env_ok E (v_own V s) m" "p + unat cnt \<le> length m" "blk p (unat cnt) \<inter> (v_own V s \<union> statics E) = {}"
    "v_inp V s m = pad xs @ bs" "length xs = unat cnt"
  shows "\<exists>s' m'. xdr_opaque E (handle ops XDR_DECODE s) m p cnt = Some (True, handle ops XDR_DECODE s', m')
    \<and> took V (blk p (unat cnt) \<union> blk (crud E) 4) s m s' m' bs \<and> slice m' p (unat cnt) = xs"
proof (cases "cnt = 0")
  case True
  then show ?thesis using assms(1,5,6) by (auto simp: xdr_opaque_def took_def)
next
  case False
  have off: "blk p (unat cnt) \<inter> v_own V s = {}" "blk p (unat cnt) \<inter> blk (crud E) 4 = {}" "blk p (unat cnt) \<inter> blk (xdr_zero E) 4 = {}"
    using assms(4) by (auto simp: statics_def)
  obtain s1 m1 where 1: "XDR_GETBYTES (handle ops XDR_DECODE s) m p cnt = Some (True, handle ops XDR_DECODE s1, m1)"
      "took V (blk p (unat cnt)) s m s1 m1 (replicate (fill (unat cnt)) 0 @ bs)" "slice m1 p (unat cnt) = xs"
    using GETBYTES [where xop = XDR_DECODE, OF assms(1) _ assms(6) assms(3) off(1), of "replicate (fill (unat cnt)) 0 @ bs"] assms(5,6)
    by (auto simp: pad_def)
  note step = xdr_opaque_decode [OF False, of "handle ops XDR_DECODE s" E m p]
  show ?thesis
  proof (cases "rndup_of cnt = 0")
    case True
    then have "fill (unat cnt) = 0" using unat_rndup_of [of cnt] by simp
    then show ?thesis using True step 1 took_mono [OF 1(2), of "blk p (unat cnt) \<union> blk (crud E) 4"] by auto
  next
    case r: False
    have own: "v_own V s1 = v_own V s" and wf1: "v_wf V s1 m1" and l: "length m1 = length m"
      and inp: "v_inp V s1 m1 = replicate (fill (unat cnt)) 0 @ bs" using 1(2) by (auto simp: took_def same_off_def)
    have c: "crud E + fill (unat cnt) \<le> length m1" "blk (crud E) (fill (unat cnt)) \<inter> v_own V s1 = {}"
      and sub: "blk (crud E) (fill (unat cnt)) \<subseteq> blk (crud E) 4"
      using assms(2) l own fill_le [of "unat cnt"] blk_mono [of "fill (unat cnt)" 4 "crud E"] by (auto simp: env_ok_def statics_def)
    obtain s2 m2 where 2: "XDR_GETBYTES (handle ops XDR_DECODE s1) m1 (crud E) (rndup_of cnt) = Some (True, handle ops XDR_DECODE s2, m2)"
        "took V (blk (crud E) (fill (unat cnt))) s1 m1 s2 m2 bs"
      using GETBYTES [of s1 m1 _ bs "rndup_of cnt" "crud E" XDR_DECODE] wf1 inp c by (auto simp: unat_rndup_of)
    have "blk p (unat cnt) \<inter> (v_own V s1 \<union> blk (crud E) (fill (unat cnt))) = {}" using off own sub by blast
    then have "slice m2 p (unat cnt) = xs"
      using slice_same_off [of "v_own V s1 \<union> blk (crud E) (fill (unat cnt))" m1 m2 p "unat cnt"] 1(3) 2(2)
      by (simp add: took_def)
    then show ?thesis
      using step r 1 2 took_mono [OF took_trans [OF 1(2) 2(2)], of "blk p (unat cnt) \<union> blk (crud E) 4"] sub by auto
  qed
qed

lemma xdr_opaque_codec:
  "codec ops V E (\<lambda>x m p u. xdr_opaque E x m p cnt) (unat cnt) {xs. length xs = unat cnt} (\<lambda>xs. xs) pad"
  unfolding codec_def
proof
  show "encodes ops V E (\<lambda>x m p u. xdr_opaque E x m p cnt) (unat cnt) {xs. length xs = unat cnt} (\<lambda>xs. xs) pad"
    by (rule encodesI) (use xdr_opaque_puts in fastforce)
  show "decodes ops V E (\<lambda>x m p u. xdr_opaque E x m p cnt) (unat cnt) {xs. length xs = unat cnt} (\<lambda>xs. xs) pad"
    by (rule decodesI) (rule xdr_opaque_gets, auto)
qed

end

subsection \<open>Arrays\<close>

definition wires :: "('a \<Rightarrow> byte list) \<Rightarrow> 'a list \<Rightarrow> byte list" where
  "wires f vs = concat (map f vs)"

lemma wires_simps [simp]: "wires f [] = []" "wires f (v # vs) = f v @ wires f vs"
  by (simp_all add: wires_def)

lemma length_wires: "\<forall>v \<in> set vs. length (f v) = k \<Longrightarrow> length (wires f vs) = length vs * k"
  by (induction vs) auto

lemma blk_split: "blk p ((Suc n) * k) = blk p k \<union> blk (p + k) (n * k)"
  using blk_add [of p k "n * k"] by simp

text \<open>The loop over the elements, when each of them is encoded or decoded.\<close>

lemma each_elem_encodes:
  assumes f: "encodes ops V E f k D lay wr" and len: "\<forall>v \<in> D. length (lay v) = k"
  shows "v_wf V s m \<Longrightarrow> env_ok E (v_own V s) m \<Longrightarrow> p + length vs * k \<le> length m \<Longrightarrow>
    blk p (length vs * k) \<inter> (v_own V s \<union> statics E) = {} \<Longrightarrow> set vs \<subseteq> D \<Longrightarrow>
    slice m p (length vs * k) = wires lay vs \<Longrightarrow> length (wires wr vs) \<le> v_room V s \<Longrightarrow>
    \<exists>s' m'. each_elem f k (length vs) (handle ops XDR_ENCODE s) m p = Some (True, handle ops XDR_ENCODE s', m')
      \<and> wrote V s m s' m' (wires wr vs)"
proof (induction vs arbitrary: s m p)
  case Nil
  then show ?case by (auto simp: wrote_def)
next
  case (Cons v vs)
  let ?n = "length vs"
  have v: "v \<in> D" "length (lay v) = k" using Cons.prems(5) len by auto
  have d: "blk p k \<inter> (v_own V s \<union> statics E) = {}" "blk (p + k) (?n * k) \<inter> (v_own V s \<union> statics E) = {}"
    using Cons.prems(4) blk_split [of p ?n k] by auto
  have "slice m p (length (lay v @ wires lay vs)) = lay v @ wires lay vs"
    using Cons.prems(5,6) v length_wires [of vs lay k] len by (simp add: subset_iff)
  then have sl: "slice m p k = lay v" "slice m (p + k) (?n * k) = wires lay vs"
    using slice_append [of m p "lay v" "wires lay vs"] Cons.prems(3,5) v length_wires [of vs lay k] len by (auto simp: subset_iff)
  obtain s1 m1 where 1: "f (handle ops XDR_ENCODE s) m p LASTUNSIGNED = Some (True, handle ops XDR_ENCODE s1, m1)"
      "wrote V s m s1 m1 (wr v)"
    using f [unfolded encodes_def, rule_format, of s m p v] Cons.prems d(1) v(1) sl(1) by auto
  have w1: "v_wf V s1 m1" "v_own V s1 = v_own V s" "same_off (v_own V s) m m1" "v_room V s \<le> v_room V s1 + length (wr v)"
    using 1(2) by (auto simp: wrote_def)
  have e: "env_ok E (v_own V s1) m1"
    unfolding w1(2) using Cons.prems(2) by (intro env_ok_same_off [OF Cons.prems(2) w1(3)]) (auto simp: env_ok_def statics_def)
  have "blk (p + k) (?n * k) \<inter> v_own V s = {}" using d(2) by blast
  then have "slice m1 (p + k) (?n * k) = wires lay vs"
    using slice_same_off [OF w1(3), of "p + k" "?n * k"] sl(2) by simp
  then obtain s2 m2 where "each_elem f k ?n (handle ops XDR_ENCODE s1) m1 (p + k) = Some (True, handle ops XDR_ENCODE s2, m2)"
      "wrote V s1 m1 s2 m2 (wires wr vs)"
    using Cons.IH [OF w1(1) e, of "p + k"] Cons.prems(3,5,7) d(2) w1(2,4) same_off_length [OF w1(3)] by auto
  then show ?case using 1 wrote_trans [OF 1(2), of s2 m2 "wires wr vs"] by auto
qed

lemma each_elem_decodes:
  assumes f: "decodes ops V E f k D lay wr" and len: "\<forall>v \<in> D. length (lay v) = k"
  shows "v_wf V s m \<Longrightarrow> env_ok E (v_own V s) m \<Longrightarrow> p + length vs * k \<le> length m \<Longrightarrow>
    blk p (length vs * k) \<inter> (v_own V s \<union> statics E) = {} \<Longrightarrow> set vs \<subseteq> D \<Longrightarrow> v_inp V s m = wires wr vs @ bs \<Longrightarrow>
    \<exists>s' m'. each_elem f k (length vs) (handle ops XDR_DECODE s) m p = Some (True, handle ops XDR_DECODE s', m')
      \<and> took V (blk p (length vs * k) \<union> blk (crud E) 4) s m s' m' bs \<and> slice m' p (length vs * k) = wires lay vs"
proof (induction vs arbitrary: s m p)
  case Nil
  then show ?case by (auto simp: took_def)
next
  case (Cons v vs)
  let ?n = "length vs" and ?c = "blk (crud E) 4"
  have v: "v \<in> D" "length (lay v) = k" using Cons.prems(5) len by auto
  have d: "blk p k \<inter> (v_own V s \<union> statics E) = {}" "blk (p + k) (?n * k) \<inter> (v_own V s \<union> statics E) = {}"
    using Cons.prems(4) blk_split [of p ?n k] by auto
  obtain s1 m1 where 1: "f (handle ops XDR_DECODE s) m p LASTUNSIGNED = Some (True, handle ops XDR_DECODE s1, m1)"
      "took V (blk p k \<union> ?c) s m s1 m1 (wires wr vs @ bs)" "slice m1 p k = lay v"
    using f [unfolded decodes_def, rule_format, of s m p v "wires wr vs @ bs"] Cons.prems d(1) v(1) by auto
  have w1: "v_wf V s1 m1" "v_own V s1 = v_own V s" "v_inp V s1 m1 = wires wr vs @ bs" "same_off (v_own V s \<union> (blk p k \<union> ?c)) m m1"
    using 1(2) by (auto simp: took_def)
  have "(v_own V s \<union> (blk p k \<union> ?c)) \<inter> blk (xdr_zero E) 4 = {}"
    using Cons.prems(2) d(1) by (auto simp: env_ok_def statics_def)
  then have e: "env_ok E (v_own V s1) m1" unfolding w1(2) by (rule env_ok_same_off [OF Cons.prems(2) w1(4)])
  obtain s2 m2 where 2: "each_elem f k ?n (handle ops XDR_DECODE s1) m1 (p + k) = Some (True, handle ops XDR_DECODE s2, m2)"
      "took V (blk (p + k) (?n * k) \<union> ?c) s1 m1 s2 m2 bs" "slice m2 (p + k) (?n * k) = wires lay vs"
    using Cons.IH [OF w1(1) e, of "p + k"] Cons.prems(3,5) d(2) w1(2,3) same_off_length [OF w1(4)] by auto
  have "blk p k \<inter> (v_own V s1 \<union> (blk (p + k) (?n * k) \<union> ?c)) = {}"
    using d(1) w1(2) blk_add_disjoint [of p k "?n * k"] by (auto simp: statics_def)
  then have "slice m2 p k = lay v"
    using slice_same_off [of "v_own V s1 \<union> (blk (p + k) (?n * k) \<union> ?c)" m1 m2 p k] 1(3) 2(2) by (simp add: took_def)
  then have "slice m2 p (length (v # vs) * k) = wires lay (v # vs)" using 2(3) slice_add [of m2 p k "?n * k"] by simp
  moreover have "took V (blk p (length (v # vs) * k) \<union> ?c) s m s2 m2 bs"
    using took_mono [OF took_trans [OF 1(2) 2(2)], of "blk p (length (v # vs) * k) \<union> ?c"] blk_split [of p ?n k] by auto
  ultimately show ?case using 1(1) 2(1) by auto
qed

lemma xdr_vector_codec:
  assumes "codec ops V E f (unat elemsize) D lay wr" "\<forall>v \<in> D. length (lay v) = unat elemsize"
  shows "codec ops V E (\<lambda>x m p u. xdr_vector x m p nelem elemsize f) (unat nelem * unat elemsize)
    {vs. length vs = unat nelem \<and> set vs \<subseteq> D} (wires lay) (wires wr)"
  unfolding codec_def
proof
  have f: "encodes ops V E f (unat elemsize) D lay wr" "decodes ops V E f (unat elemsize) D lay wr"
    using assms(1) by (auto simp: codec_def)
  show "encodes ops V E (\<lambda>x m p u. xdr_vector x m p nelem elemsize f) (unat nelem * unat elemsize)
      {vs. length vs = unat nelem \<and> set vs \<subseteq> D} (wires lay) (wires wr)"
  proof (rule encodesI)
    fix s m p vs
    assume "v_wf V s m" "env_ok E (v_own V s) m" "p + unat nelem * unat elemsize \<le> length m"
      "blk p (unat nelem * unat elemsize) \<inter> (v_own V s \<union> statics E) = {}" "vs \<in> {vs. length vs = unat nelem \<and> set vs \<subseteq> D}"
      "slice m p (unat nelem * unat elemsize) = wires lay vs" "length (wires wr vs) \<le> v_room V s"
    then show "\<exists>s' m'. xdr_vector (handle ops XDR_ENCODE s) m p nelem elemsize f = Some (True, handle ops XDR_ENCODE s', m')
        \<and> wrote V s m s' m' (wires wr vs)"
      using each_elem_encodes [OF f(1) assms(2), of s m p vs] by (simp add: xdr_vector_def)
  qed
  show "decodes ops V E (\<lambda>x m p u. xdr_vector x m p nelem elemsize f) (unat nelem * unat elemsize)
      {vs. length vs = unat nelem \<and> set vs \<subseteq> D} (wires lay) (wires wr)"
  proof (rule decodesI)
    fix s m p vs bs
    assume "v_wf V s m" "env_ok E (v_own V s) m" "p + unat nelem * unat elemsize \<le> length m"
      "blk p (unat nelem * unat elemsize) \<inter> (v_own V s \<union> statics E) = {}" "vs \<in> {vs. length vs = unat nelem \<and> set vs \<subseteq> D}"
      "v_inp V s m = wires wr vs @ bs"
    then show "\<exists>s' m'. xdr_vector (handle ops XDR_DECODE s) m p nelem elemsize f = Some (True, handle ops XDR_DECODE s', m')
        \<and> took V (blk p (unat nelem * unat elemsize) \<union> blk (crud E) 4) s m s' m' bs
        \<and> slice m' p (unat nelem * unat elemsize) = wires lay vs"
      using each_elem_decodes [OF f(2) assms(2), of s m p vs bs] by (simp add: xdr_vector_def)
  qed
qed

end
