(* ===== verification/XdrHeap.thy ===== *)
theory XdrHeap
  imports XdrStream
begin

unbundle bit_operations_syntax

text \<open>
  The filters that follow a pointer, over the contract \<open>xdr_stream\<close>: strings, counted arrays and
  optional objects, with the storage taken from the allocator where the pointer is null.
\<close>

section \<open>The allocator\<close>

text \<open>
  The allocator keeps its state at the addresses \<open>H\<close>; for a request of \<open>n\<close> bytes in the state that \<open>m\<close> has there it
  gives the block at \<open>b\<close> and changes nothing outside of \<open>H\<close>.
\<close>

definition allocates :: "xdr_env \<Rightarrow> ptr set \<Rightarrow> mem \<Rightarrow> u_int \<Rightarrow> ptr \<Rightarrow> bool" where
  "allocates E H m n b \<longleftrightarrow> 0 < b \<and> b < 2 ^ 32 \<and> b + unat n \<le> length m \<and> blk b (unat n) \<inter> H = {}
    \<and> (\<forall>m'. same_off (- H) m m' \<longrightarrow> (\<exists>m''. mem_alloc E m' n = (b, m'') \<and> same_off H m' m''))"

lemma allocatesD:
  assumes "allocates E H m n b" "same_off A m m'" "A \<inter> H = {}"
  shows "\<exists>m''. mem_alloc E m' n = (b, m'') \<and> same_off H m' m''"
proof -
  have "same_off (- H) m m'" using same_off_mono [OF assms(2)] assms(3) by blast
  then show ?thesis using assms(1) unfolding allocates_def by blast
qed

lemma unat_ptr [simp]: "b < 2 ^ 32 \<Longrightarrow> unat (of_nat b :: u_int) = b"
  by (simp add: unat_of_nat)

lemma ptr_eq_0: "b < 2 ^ 32 \<Longrightarrow> (of_nat b :: u_int) = 0 \<longleftrightarrow> b = 0"
proof
  assume b: "b < 2 ^ 32" "(of_nat b :: u_int) = 0"
  then have "unat (of_nat b :: u_int) = unat (0 :: u_int)" by (simp only:)
  then show "b = 0" unfolding unat_ptr [OF b(1)] by simp
qed simp

text \<open>A null pointer at \<open>cpp\<close> is given new storage; the sets that have to be apart for it.\<close>

lemma new_block:
  assumes "allocates E H m n b" "same_off A m m1" "A \<inter> H = {}" "cpp + 4 \<le> length m"
  shows "\<exists>m2. mem_alloc E m1 n = (b, m2) \<and> store32 m2 cpp (of_nat b) = Some (put m2 cpp (le32 (of_nat b)))
    \<and> same_off (H \<union> blk cpp 4) m1 (put m2 cpp (le32 (of_nat b)))
    \<and> slice (put m2 cpp (le32 (of_nat b))) cpp 4 = le32 (of_nat b)"
proof -
  obtain m2 where m2: "mem_alloc E m1 n = (b, m2)" "same_off H m1 m2" using allocatesD [OF assms(1-3)] by blast
  have l: "cpp + 4 \<le> length m2" using same_off_length [OF m2(2)] same_off_length [OF assms(2)] assms(4) by simp
  have "same_off (H \<union> blk cpp 4) m1 (put m2 cpp (le32 (of_nat b)))"
    using same_off_trans [OF m2(2) same_off_put [of cpp "le32 (of_nat b)" m2]] l by simp
  then show ?thesis using m2(1) l slice_put_same [of cpp "le32 (of_nat b)" m2] by (simp add: store32_put)
qed

definition spread :: "xdr_env \<Rightarrow> ptr set \<Rightarrow> ptr set \<Rightarrow> ptr set \<Rightarrow> ptr set \<Rightarrow> bool" where
  "spread E A H P B \<longleftrightarrow> (A \<union> statics E) \<inter> (H \<union> P \<union> B) = {} \<and> H \<inter> P = {} \<and> P \<inter> B = {}"

section \<open>Strings\<close>

lemma cstr_slice: "cstr m p str \<longleftrightarrow> p + length str < length m \<and> slice m p (Suc (length str)) = str @ [0] \<and> 0 \<notin> set str"
proof -
  have "slice m p (Suc (length str)) = slice m p (length str) @ [m ! (p + length str)]" if "p + length str < length m"
    using that slice_add [of m p "length str" 1] by (simp add: slice_Suc)
  then show ?thesis by (auto simp: cstr_def)
qed

context xdr_stream
begin

lemma long_var_encode:
  assumes "v_wf V s m" "4 \<le> v_room V s"
  shows "\<exists>s' m'. xdr_long_var (handle ops XDR_ENCODE s) m l = Some (True, l, handle ops XDR_ENCODE s', m') \<and> wrote V s m s' m' (be32 l)"
  using PUTLONG [OF assms, of XDR_ENCODE l] by (auto simp: xdr_long_var_def)

lemma long_var_decode:
  assumes "v_wf V s m" "v_inp V s m = be32 l @ bs"
  shows "\<exists>s' m'. xdr_long_var (handle ops XDR_DECODE s) m l0 = Some (True, l, handle ops XDR_DECODE s', m') \<and> took V {} s m s' m' bs"
  using GETLONG [OF assms, of XDR_DECODE] by (auto simp: xdr_long_var_def)

lemma xdr_string_encode:
  assumes wf: "v_wf V s m" "env_ok E (v_own V s) m" and ptr: "slice m cpp 4 = le32 (of_nat sp)" "cpp + 4 \<le> length m" "sp < 2 ^ 32"
    and str: "cstr m sp str" "length str < 2 ^ 32" "of_nat (length str) \<le> maxsize" "blk sp (length str + 1) \<inter> v_own V s = {}"
    and room: "4 + length (pad str) \<le> v_room V s"
  shows "\<exists>s' m'. xdr_string E (handle ops XDR_ENCODE s) m cpp maxsize = Some (True, handle ops XDR_ENCODE s', m')
    \<and> wrote V s m s' m' (be32 (of_nat (length str)) @ pad str)"
proof -
  let ?n = "of_nat (length str) :: u_int"
  obtain s1 m1 where 1: "xdr_long_var (handle ops XDR_ENCODE s) m ?n = Some (True, ?n, handle ops XDR_ENCODE s1, m1)"
      "wrote V s m s1 m1 (be32 ?n)"
    using long_var_encode [OF wf(1)] room by fastforce
  have w1: "v_wf V s1 m1" "v_own V s1 = v_own V s" "same_off (v_own V s) m m1" "v_room V s \<le> v_room V s1 + 4"
    using 1(2) by (auto simp: wrote_def)
  have e: "env_ok E (v_own V s1) m1"
    unfolding w1(2) using wf(2) by (intro env_ok_same_off [OF wf(2) w1(3)]) (auto simp: env_ok_def statics_def)
  have off: "blk sp (length str) \<inter> v_own V s = {}" using str(4) blk_mono [of "length str" "length str + 1" sp] by auto
  have sl: "slice m1 sp (length str) = str" using slice_same_off [OF w1(3) off] str(1) by (simp add: cstr_def)
  obtain s2 m2 where 2: "xdr_opaque E (handle ops XDR_ENCODE s1) m1 sp ?n = Some (True, handle ops XDR_ENCODE s2, m2)"
      "wrote V s1 m1 s2 m2 (pad str)"
    using xdr_opaque_puts [of s1 m1 E sp ?n] w1 e off sl room str same_off_length [OF w1(3)] by (auto simp: cstr_def)
  have "xdr_string E (handle ops XDR_ENCODE s) m cpp maxsize = Some (True, handle ops XDR_ENCODE s2, m2)"
    using 1(1) 2(1) load32_slice [OF ptr(1,2)] ptr(3) str strlen_spec [OF str(1)] by (simp add: xdr_string_def)
  then show ?thesis using wrote_trans [OF 1(2) 2(2)] by auto
qed

lemma took_frame:
  assumes "took V A s m s' m' bs" "same_off B m' m''" "B \<inter> v_own V s = {}"
  shows "took V (A \<union> B) s m s' m'' bs"
  using frame [of s' m' B m''] assms same_off_trans [of "v_own V s \<union> A" m m' B m''] by (auto simp: took_def Un_assoc)

text \<open>After a number has been read, the pointer at \<open>cpp\<close> gets its storage.\<close>

lemma fresh_storage:
  assumes "took V A s m s1 m1 bs" "env_ok E (v_own V s) m" "allocates E H m n b" "spread E (v_own V s) H (blk cpp 4) (blk b (unat n))"
    "cpp + 4 \<le> length m" "A \<inter> H = {}" "A \<inter> blk (xdr_zero E) 4 = {}"
  shows "\<exists>m2 m3. mem_alloc E m1 n = (b, m2) \<and> store32 m2 cpp (of_nat b) = Some m3 \<and> took V (A \<union> (H \<union> blk cpp 4)) s m s1 m3 bs
    \<and> same_off (H \<union> blk cpp 4) m1 m3 \<and> env_ok E (v_own V s1) m3 \<and> slice m3 cpp 4 = le32 (of_nat b)"
proof -
  have so1: "same_off (v_own V s \<union> A) m m1" and own: "v_own V s1 = v_own V s" using assms(1) by (simp_all add: took_def)
  have d: "(v_own V s \<union> A) \<inter> H = {}" "(H \<union> blk cpp 4) \<inter> v_own V s = {}" "(H \<union> blk cpp 4) \<inter> statics E = {}"
    using assms(4,6) by (auto simp: spread_def)
  obtain m2 where 2: "mem_alloc E m1 n = (b, m2)" "store32 m2 cpp (of_nat b) = Some (put m2 cpp (le32 (of_nat b)))"
      "same_off (H \<union> blk cpp 4) m1 (put m2 cpp (le32 (of_nat b)))" "slice (put m2 cpp (le32 (of_nat b))) cpp 4 = le32 (of_nat b)"
    using new_block [OF assms(3) so1 d(1) assms(5)] by blast
  have t: "took V (A \<union> (H \<union> blk cpp 4)) s m s1 (put m2 cpp (le32 (of_nat b))) bs" using took_frame [OF assms(1) 2(3) d(2)] by simp
  have "(v_own V s \<union> A \<union> (H \<union> blk cpp 4)) \<inter> blk (xdr_zero E) 4 = {}" using d(3) assms(2,7) by (auto simp: env_ok_def statics_def)
  then have "env_ok E (v_own V s) (put m2 cpp (le32 (of_nat b)))"
    using env_ok_same_off [OF assms(2) same_off_trans [OF so1 2(3)]] by blast
  then show ?thesis using 2 t own by auto
qed

text \<open>What is then changed apart from the pointer leaves it.\<close>

lemma pointer_kept:
  assumes "slice m3 cpp 4 = le32 (of_nat b)" "same_off A m3 m4" "A \<inter> blk cpp 4 = {}"
  shows "slice m4 cpp 4 = le32 (of_nat b)"
  using slice_same_off [OF assms(2), of cpp 4] assms(1,3) by (simp add: Int_commute)

lemma opaque_string:
  assumes "v_wf V s1 m3" "env_ok E (v_own V s1) m3" "v_inp V s1 m3 = pad str @ bs" "b + (length str + 1) \<le> length m3"
    "blk b (length str + 1) \<inter> (v_own V s1 \<union> statics E) = {}" "length str < 2 ^ 32" "0 \<notin> set str"
  shows "\<exists>s' m'. xdr_opaque E (handle ops XDR_DECODE s1) (m3[b + length str := 0]) b (of_nat (length str)) = Some (True, handle ops XDR_DECODE s', m')
    \<and> took V (blk b (length str + 1) \<union> blk (crud E) 4) s1 m3 s' m' bs \<and> cstr m' b str"
proof -
  let ?k = "length str" and ?m = "m3[b + length str := 0]"
  have sub: "blk b ?k \<subseteq> blk b (?k + 1)" "b + ?k \<in> blk b (?k + 1)" "b + ?k \<notin> blk b ?k" by (auto simp: blk_def)
  have so: "same_off {b + ?k} m3 ?m" by (simp add: same_off_def)
  have d: "{b + ?k} \<inter> v_own V s1 = {}" "{b + ?k} \<inter> blk (xdr_zero E) 4 = {}" "blk b ?k \<inter> (v_own V s1 \<union> statics E) = {}"
    using assms(5) sub by (auto simp: statics_def)
  have t: "took V {b + ?k} s1 m3 s1 ?m (pad str @ bs)"
    using frame [OF assms(1) so d(1)] assms(3) by (auto simp: took_def same_off_def)
  obtain s5 m5 where 5: "xdr_opaque E (handle ops XDR_DECODE s1) ?m b (of_nat ?k) = Some (True, handle ops XDR_DECODE s5, m5)"
      "took V (blk b ?k \<union> blk (crud E) 4) s1 ?m s5 m5 bs" "slice m5 b ?k = str"
    using xdr_opaque_gets [of s1 ?m E b "of_nat ?k" str bs] t env_ok_same_off [OF assms(2) so d(2)] d(3) assms(4,6)
    by (auto simp: took_def)
  have so5: "same_off (v_own V s1 \<union> (blk b ?k \<union> blk (crud E) 4)) ?m m5" using 5(2) by (simp add: took_def)
  have "b + ?k \<notin> v_own V s1 \<union> (blk b ?k \<union> blk (crud E) 4)" using assms(5) sub by (auto simp: statics_def)
  then have "m5 ! (b + ?k) = 0" using so5 assms(4) by (simp add: same_off_def)
  then have "cstr m5 b str" using 5(3) assms(4,7) same_off_length [OF so5] by (simp add: cstr_def)
  moreover have "took V (blk b (?k + 1) \<union> blk (crud E) 4) s1 m3 s5 m5 bs"
    using took_mono [OF took_trans [OF t 5(2)]] sub by auto
  ultimately show ?thesis using 5(1) by blast
qed

lemma xdr_string_decode:
  assumes wf: "v_wf V s m" "env_ok E (v_own V s) m" and ptr: "slice m cpp 4 = le32 0" "cpp + 4 \<le> length m"
    and str: "v_inp V s m = be32 (of_nat (length str)) @ pad str @ bs" "length str < 2 ^ 32 - 1"
      "of_nat (length str) \<le> maxsize" "0 \<notin> set str"
    and new: "allocates E H m (of_nat (length str + 1)) b" "spread E (v_own V s) H (blk cpp 4) (blk b (length str + 1))"
  shows "\<exists>s' m'. xdr_string E (handle ops XDR_DECODE s) m cpp maxsize = Some (True, handle ops XDR_DECODE s', m')
    \<and> took V (H \<union> blk cpp 4 \<union> (blk b (length str + 1) \<union> blk (crud E) 4)) s m s' m' bs
    \<and> slice m' cpp 4 = le32 (of_nat b) \<and> cstr m' b str"
proof -
  let ?n = "of_nat (length str) :: u_int" and ?k = "length str"
  define N where "N = ?n + 1"
  have N: "N = of_nat (?k + 1)" by (simp add: N_def)
  have un: "unat ?n = ?k" "unat N = ?k + 1" unfolding N using str(2) unat_ptr [of "?k + 1"] by (simp, linarith)
  then have "N \<noteq> 0" by auto
  have new': "allocates E H m N b" "spread E (v_own V s) H (blk cpp 4) (blk b (unat N))" using new un(2) by (simp_all add: N del: of_nat_add)
  then have b: "0 < b" "b + (?k + 1) \<le> length m" "b < 2 ^ 32" using un(2) by (auto simp: allocates_def)
  obtain s1 m1 where 1: "xdr_long_var (handle ops XDR_DECODE s) m 0 = Some (True, ?n, handle ops XDR_DECODE s1, m1)"
      "took V {} s m s1 m1 (pad str @ bs)"
    using long_var_decode [OF wf(1) str(1)] by blast
  obtain m2 m3 where 3: "mem_alloc E m1 N = (b, m2)" "store32 m2 cpp (of_nat b) = Some m3" "took V (H \<union> blk cpp 4) s m s1 m3 (pad str @ bs)"
      "env_ok E (v_own V s1) m3" "slice m3 cpp 4 = le32 (of_nat b)"
    using fresh_storage [OF 1(2) wf(2) new' ptr(2)] by auto
  have w3: "v_wf V s1 m3" "v_own V s1 = v_own V s" "v_inp V s1 m3 = pad str @ bs" "length m3 = length m"
    using 3(3) by (auto simp: took_def same_off_def)
  have "blk b (?k + 1) \<inter> (v_own V s1 \<union> statics E) = {}" unfolding w3(2) using new(2) by (auto simp: spread_def)
  then obtain s5 m5 where 5: "xdr_opaque E (handle ops XDR_DECODE s1) (m3[b + ?k := 0]) b ?n = Some (True, handle ops XDR_DECODE s5, m5)"
      "took V (blk b (?k + 1) \<union> blk (crud E) 4) s1 m3 s5 m5 bs" "cstr m5 b str"
    using opaque_string [OF w3(1) 3(4) w3(3), of b] b w3(4) str by auto
  have "(v_own V s1 \<union> (blk b (?k + 1) \<union> blk (crud E) 4)) \<inter> blk cpp 4 = {}"
    unfolding w3(2) using new(2) by (auto simp: spread_def statics_def)
  then have "slice m5 cpp 4 = le32 (of_nat b)" using pointer_kept [OF 3(5)] 5(2) by (auto simp: took_def)
  moreover have "xdr_string E (handle ops XDR_DECODE s) m cpp maxsize = Some (True, handle ops XDR_DECODE s5, m5)"
    using 1(1) 3(1,2) 5(1) load32_slice [OF ptr] un b w3(4) \<open>N \<noteq> 0\<close> str(3)
    by (simp add: xdr_string_def N_def [symmetric])
  ultimately show ?thesis using took_trans [OF 3(3) 5(2)] 5(3) by blast
qed

end

section \<open>Counted arrays\<close>

context xdr_stream
begin

lemma u_int_encode:
  assumes "v_wf V s m" "env_ok E (v_own V s) m" "slice m p 4 = le32 l" "p + 4 \<le> length m" "blk p 4 \<inter> (v_own V s \<union> statics E) = {}"
    "4 \<le> v_room V s"
  shows "\<exists>s' m'. xdr_u_int (handle ops XDR_ENCODE s) m p = Some (True, handle ops XDR_ENCODE s', m') \<and> wrote V s m s' m' (be32 l)"
  using xdr_u_long_codec [of E] assms unfolding codec_def encodes_def xdr_u_int_def by auto

lemma u_int_decode:
  assumes "v_wf V s m" "env_ok E (v_own V s) m" "p + 4 \<le> length m" "blk p 4 \<inter> (v_own V s \<union> statics E) = {}"
    "v_inp V s m = be32 l @ bs"
  shows "\<exists>s' m'. xdr_u_int (handle ops XDR_DECODE s) m p = Some (True, handle ops XDR_DECODE s', m')
    \<and> took V (blk p 4 \<union> blk (crud E) 4) s m s' m' bs \<and> slice m' p 4 = le32 l"
  using xdr_u_long_codec [of E] assms unfolding codec_def decodes_def xdr_u_int_def by blast

lemma xdr_array_encode:
  assumes f: "encodes ops V E f (unat elsize) D lay wr" "\<forall>v \<in> D. length (lay v) = unat elsize"
    and wf: "v_wf V s m" "env_ok E (v_own V s) m"
    and ptr: "slice m addrp 4 = le32 (of_nat target)" "addrp + 4 \<le> length m" "target < 2 ^ 32"
    and sz: "slice m sizep 4 = le32 (of_nat (length vs))" "sizep + 4 \<le> length m" "length vs < 2 ^ 32" "of_nat (length vs) \<le> maxsize"
      "blk sizep 4 \<inter> (v_own V s \<union> statics E) = {}"
    and els: "target + length vs * unat elsize \<le> length m" "slice m target (length vs * unat elsize) = wires lay vs" "set vs \<subseteq> D"
      "blk target (length vs * unat elsize) \<inter> (v_own V s \<union> statics E) = {}"
    and room: "4 + length (wires wr vs) \<le> v_room V s"
  shows "\<exists>s' m'. xdr_array E (handle ops XDR_ENCODE s) m addrp sizep maxsize elsize f = Some (True, handle ops XDR_ENCODE s', m')
    \<and> wrote V s m s' m' (be32 (of_nat (length vs)) @ wires wr vs)"
proof -
  let ?n = "of_nat (length vs) :: u_int" and ?k = "length vs * unat elsize"
  obtain s1 m1 where 1: "xdr_u_int (handle ops XDR_ENCODE s) m sizep = Some (True, handle ops XDR_ENCODE s1, m1)" "wrote V s m s1 m1 (be32 ?n)"
    using u_int_encode [OF wf sz(1,2,5)] room by auto
  have w1: "v_wf V s1 m1" "v_own V s1 = v_own V s" "same_off (v_own V s) m m1" "v_room V s \<le> v_room V s1 + 4"
    using 1(2) by (auto simp: wrote_def)
  have e: "env_ok E (v_own V s1) m1"
    unfolding w1(2) using wf(2) by (intro env_ok_same_off [OF wf(2) w1(3)]) (auto simp: env_ok_def statics_def)
  have off: "blk sizep 4 \<inter> v_own V s = {}" "blk target ?k \<inter> v_own V s = {}" using sz(5) els(4) by auto
  have c: "load32 m1 sizep = Some ?n"
    using slice_same_off [OF w1(3) off(1)] sz(1,2) same_off_length [OF w1(3)] by (intro load32_slice) auto
  have "slice m1 target ?k = wires lay vs" using slice_same_off [OF w1(3) off(2)] els(2) by simp
  then obtain s2 m2 where 2: "each_elem f (unat elsize) (length vs) (handle ops XDR_ENCODE s1) m1 target = Some (True, handle ops XDR_ENCODE s2, m2)"
      "wrote V s1 m1 s2 m2 (wires wr vs)"
    using each_elem_encodes [OF f w1(1) e, of target vs] els w1(2,4) room same_off_length [OF w1(3)] by auto
  have "xdr_array E (handle ops XDR_ENCODE s) m addrp sizep maxsize elsize f = Some (True, handle ops XDR_ENCODE s2, m2)"
    using 1(1) 2(1) c load32_slice [OF ptr(1,2)] ptr(3) sz(3,4) by (simp add: xdr_array_def Let_def)
  then show ?thesis using wrote_trans [OF 1(2) 2(2)] by auto
qed

text \<open>New storage is cleared before the elements are decoded into it.\<close>

lemma cleared_elements:
  assumes f: "decodes ops V E f k D lay wr" "\<forall>v \<in> D. length (lay v) = k"
    and s1: "v_wf V s1 m3" "env_ok E (v_own V s1) m3" "v_inp V s1 m3 = wires wr vs @ bs" "set vs \<subseteq> D"
    and b: "b + length vs * k \<le> length m3" "blk b (length vs * k) \<inter> (v_own V s1 \<union> statics E) = {}" "unat n = length vs * k"
  shows "\<exists>m4 s5 m5. bzero m3 b n = Some m4
    \<and> each_elem f k (length vs) (handle ops XDR_DECODE s1) m4 b = Some (True, handle ops XDR_DECODE s5, m5)
    \<and> took V (blk b (length vs * k) \<union> blk (crud E) 4) s1 m3 s5 m5 bs \<and> slice m5 b (length vs * k) = wires lay vs"
proof -
  let ?k = "length vs * k"
  define m4 where "m4 = put m3 b (replicate ?k 0)"
  have so: "same_off (blk b ?k) m3 m4" using same_off_put [of b "replicate ?k 0" m3] b(1) by (simp add: m4_def)
  have d: "blk b ?k \<inter> v_own V s1 = {}" "blk b ?k \<inter> blk (xdr_zero E) 4 = {}" using b(2) by (auto simp: statics_def)
  have t: "took V (blk b ?k) s1 m3 s1 m4 (wires wr vs @ bs)"
    using frame [OF s1(1) so d(1)] s1(3) same_off_mono [OF so, of "v_own V s1 \<union> blk b ?k"] by (auto simp: took_def)
  obtain s5 m5 where 5: "each_elem f k (length vs) (handle ops XDR_DECODE s1) m4 b = Some (True, handle ops XDR_DECODE s5, m5)"
      "took V (blk b ?k \<union> blk (crud E) 4) s1 m4 s5 m5 bs" "slice m5 b ?k = wires lay vs"
    using each_elem_decodes [OF f, of s1 m4 b vs bs] t env_ok_same_off [OF s1(2) so d(2)] b(1,2) s1(4) same_off_length [OF so]
    by (auto simp: took_def)
  have "took V (blk b ?k \<union> blk (crud E) 4) s1 m3 s5 m5 bs" using took_mono [OF took_trans [OF t 5(2)]] by auto
  moreover have "bzero m3 b n = Some m4" using bzero_put [of b n m3] b(1,3) by (simp add: m4_def)
  ultimately show ?thesis using 5(1,3) by blast
qed

lemma xdr_array_decode:
  assumes f: "decodes ops V E f (unat elsize) D lay wr" "\<forall>v \<in> D. length (lay v) = unat elsize"
    and wf: "v_wf V s m" "env_ok E (v_own V s) m" and ptr: "slice m addrp 4 = le32 0" "addrp + 4 \<le> length m" "sizep + 4 \<le> length m"
    and vs: "v_inp V s m = be32 (of_nat (length vs)) @ wires wr vs @ bs" "set vs \<subseteq> D" "0 < length vs" "length vs < 2 ^ 32"
      "of_nat (length vs) \<le> maxsize" "length vs * unat elsize < 2 ^ 32"
    and new: "allocates E H m (of_nat (length vs) * elsize) b" "spread E (v_own V s) H (blk addrp 4) (blk b (length vs * unat elsize))"
      "blk sizep 4 \<inter> (v_own V s \<union> statics E \<union> (H \<union> blk addrp 4 \<union> blk b (length vs * unat elsize))) = {}"
  shows "\<exists>s' m'. xdr_array E (handle ops XDR_DECODE s) m addrp sizep maxsize elsize f = Some (True, handle ops XDR_DECODE s', m')
    \<and> took V (blk sizep 4 \<union> blk (crud E) 4 \<union> (H \<union> blk addrp 4) \<union> (blk b (length vs * unat elsize) \<union> blk (crud E) 4)) s m s' m' bs
    \<and> slice m' sizep 4 = le32 (of_nat (length vs)) \<and> slice m' addrp 4 = le32 (of_nat b)
    \<and> slice m' b (length vs * unat elsize) = wires lay vs"
proof -
  let ?n = "of_nat (length vs) :: u_int" and ?k = "length vs * unat elsize" and ?A = "blk sizep 4 \<union> blk (crud E) 4"
  have un: "unat ?n = length vs" "?n \<noteq> 0" using vs(3,4) by (simp_all add: ptr_eq_0)
  have uk: "unat (?n * elsize) = ?k" using vs(4,6) by (simp add: unat_word_ariths)
  have b: "0 < b" "b + ?k \<le> length m" using new(1) uk by (auto simp: allocates_def)
  obtain s1 m1 where 1: "xdr_u_int (handle ops XDR_DECODE s) m sizep = Some (True, handle ops XDR_DECODE s1, m1)"
      "took V ?A s m s1 m1 (wires wr vs @ bs)" "slice m1 sizep 4 = le32 ?n"
    using u_int_decode [OF wf ptr(3) _ vs(1)] new(3) by auto
  have l1: "length m1 = length m" using 1(2) by (simp add: took_def same_off_def)
  have d: "?A \<inter> H = {}" "?A \<inter> blk (xdr_zero E) 4 = {}" using new(2,3) wf(2) by (auto simp: spread_def statics_def env_ok_def)
  obtain m2 m3 where 3: "mem_alloc E m1 (?n * elsize) = (b, m2)" "store32 m2 addrp (of_nat b) = Some m3"
      "took V (?A \<union> (H \<union> blk addrp 4)) s m s1 m3 (wires wr vs @ bs)" "same_off (H \<union> blk addrp 4) m1 m3"
      "env_ok E (v_own V s1) m3" "slice m3 addrp 4 = le32 (of_nat b)"
    using fresh_storage [OF 1(2) wf(2) new(1) _ ptr(2) d] new(2) uk by auto
  have w3: "v_wf V s1 m3" "v_own V s1 = v_own V s" "v_inp V s1 m3 = wires wr vs @ bs" "length m3 = length m"
    using 3(3) by (auto simp: took_def same_off_def)
  have "blk b ?k \<inter> (v_own V s1 \<union> statics E) = {}" unfolding w3(2) using new(2) by (auto simp: spread_def)
  then obtain m4 s5 m5 where 5: "bzero m3 b (?n * elsize) = Some m4"
      "each_elem f (unat elsize) (length vs) (handle ops XDR_DECODE s1) m4 b = Some (True, handle ops XDR_DECODE s5, m5)"
      "took V (blk b ?k \<union> blk (crud E) 4) s1 m3 s5 m5 bs" "slice m5 b ?k = wires lay vs"
    using cleared_elements [OF f w3(1) 3(5) w3(3) vs(2), of b "?n * elsize"] b w3(4) uk by auto
  let ?C = "v_own V s1 \<union> (blk b ?k \<union> blk (crud E) 4)"
  have so5: "same_off ?C m3 m5" using 5(3) by (simp add: took_def)
  have kept: "?C \<inter> blk addrp 4 = {}" "?C \<inter> blk sizep 4 = {}" "(H \<union> blk addrp 4) \<inter> blk sizep 4 = {}"
    unfolding w3(2) using new(2,3) by (auto simp: spread_def statics_def)
  have "slice m5 addrp 4 = le32 (of_nat b)" "slice m5 sizep 4 = le32 ?n"
    using pointer_kept [OF 3(6) so5 kept(1)] pointer_kept [OF pointer_kept [OF 1(3) 3(4) kept(3)] so5 kept(2)] by auto
  moreover have "xdr_array E (handle ops XDR_DECODE s) m addrp sizep maxsize elsize f = Some (True, handle ops XDR_DECODE s5, m5)"
    using 1(1) 3(1,2) 5(1,2) load32_slice [OF ptr(1,2)] load32_slice [OF 1(3)] l1 ptr(3) un b vs(5)
    by (simp add: xdr_array_def Let_def)
  ultimately show ?thesis using took_trans [OF 3(3) 5(3)] 5(4) by blast
qed

end

section \<open>Optional objects\<close>

fun wire_opt :: "('a \<Rightarrow> byte list) \<Rightarrow> 'a option \<Rightarrow> byte list" where
  "wire_opt wr None = be32 0"
| "wire_opt wr (Some v) = be32 1 @ wr v"

text \<open>The pointer at \<open>pp\<close> is null, or leads to an object of \<open>k\<close> bytes apart from \<open>A\<close>.\<close>

fun opt_at :: "mem \<Rightarrow> ptr \<Rightarrow> nat \<Rightarrow> ptr set \<Rightarrow> ('a \<Rightarrow> byte list) \<Rightarrow> 'a option \<Rightarrow> bool" where
  "opt_at m pp k A lay None \<longleftrightarrow> slice m pp 4 = le32 0"
| "opt_at m pp k A lay (Some v) \<longleftrightarrow> (\<exists>loc. slice m pp 4 = le32 (of_nat loc) \<and> 0 < loc \<and> loc < 2 ^ 32 \<and> loc + k \<le> length m
    \<and> blk loc k \<inter> A = {} \<and> slice m loc k = lay v)"

context xdr_stream
begin

lemma bool_var_encode:
  assumes "v_wf V s m" "4 \<le> v_room V s"
  shows "\<exists>s' m'. xdr_bool_var (handle ops XDR_ENCODE s) m b = Some (True, b, handle ops XDR_ENCODE s', m')
    \<and> wrote V s m s' m' (be32 (if b \<noteq> 0 then 1 else 0))"
  using PUTLONG [OF assms, of XDR_ENCODE "if b \<noteq> 0 then 1 else 0"] by (auto simp: xdr_bool_var_def)

lemma bool_var_decode:
  assumes "v_wf V s m" "v_inp V s m = be32 l @ bs"
  shows "\<exists>s' m'. xdr_bool_var (handle ops XDR_DECODE s) m b0 = Some (True, if l = 0 then 0 else 1, handle ops XDR_DECODE s', m')
    \<and> took V {} s m s' m' bs"
  using GETLONG [OF assms, of XDR_DECODE] by (auto simp: xdr_bool_var_def)

lemma xdr_pointer_encode:
  assumes f: "encodes ops V E f (unat sz) D lay wr" and wf: "v_wf V s m" "env_ok E (v_own V s) m"
    and ptr: "pp + 4 \<le> length m" "blk pp 4 \<inter> v_own V s = {}"
    and ov: "opt_at m pp (unat sz) (v_own V s \<union> statics E) lay ov" "set_option ov \<subseteq> D" "length (wire_opt wr ov) \<le> v_room V s"
  shows "\<exists>s' m'. xdr_pointer E (handle ops XDR_ENCODE s) m pp sz f = Some (True, handle ops XDR_ENCODE s', m')
    \<and> wrote V s m s' m' (wire_opt wr ov)"
proof (cases ov)
  case None
  then have p: "slice m pp 4 = le32 0" using ov(1) by simp
  obtain s1 m1 where 1: "xdr_bool_var (handle ops XDR_ENCODE s) m 0 = Some (True, 0, handle ops XDR_ENCODE s1, m1)" "wrote V s m s1 m1 (be32 0)"
    using bool_var_encode [OF wf(1), of 0] ov(3) None by auto
  have so: "same_off (v_own V s) m m1" using 1(2) by (simp add: wrote_def)
  have p1: "slice m1 pp 4 = le32 0" "pp + 4 \<le> length m1" using slice_same_off [OF so ptr(2)] p ptr(1) same_off_length [OF so] by auto
  then have "store32 m1 pp 0 = Some m1" using put_same [of pp 4 m1] by (simp add: store32_put)
  then show ?thesis using 1 load32_slice [OF p ptr(1)] None by (auto simp: xdr_pointer_def)
next
  case (Some v)
  then obtain loc where loc: "slice m pp 4 = le32 (of_nat loc)" "0 < loc" "loc < 2 ^ 32" "loc + unat sz \<le> length m"
      "blk loc (unat sz) \<inter> (v_own V s \<union> statics E) = {}" "slice m loc (unat sz) = lay v" using ov(1) by auto
  obtain s1 m1 where 1: "xdr_bool_var (handle ops XDR_ENCODE s) m 1 = Some (True, 1, handle ops XDR_ENCODE s1, m1)" "wrote V s m s1 m1 (be32 1)"
    using bool_var_encode [OF wf(1), of 1] ov(3) Some by auto
  have w1: "v_wf V s1 m1" "v_own V s1 = v_own V s" "same_off (v_own V s) m m1" "v_room V s \<le> v_room V s1 + 4"
    using 1(2) by (auto simp: wrote_def)
  have e: "env_ok E (v_own V s1) m1"
    unfolding w1(2) using wf(2) by (intro env_ok_same_off [OF wf(2) w1(3)]) (auto simp: env_ok_def statics_def)
  have off: "blk loc (unat sz) \<inter> v_own V s = {}" using loc(5) by auto
  have sl: "slice m1 pp 4 = le32 (of_nat loc)" "slice m1 loc (unat sz) = lay v" "length m1 = length m"
    using slice_same_off [OF w1(3) ptr(2)] slice_same_off [OF w1(3) off] loc(1,6) same_off_length [OF w1(3)] by auto
  obtain s2 m2 where 2: "f (handle ops XDR_ENCODE s1) m1 loc LASTUNSIGNED = Some (True, handle ops XDR_ENCODE s2, m2)" "wrote V s1 m1 s2 m2 (wr v)"
    using f [unfolded encodes_def, rule_format, of s1 m1 loc v] w1 e sl loc(4,5) ov(2,3) Some by auto
  have "xdr_pointer E (handle ops XDR_ENCODE s) m pp sz f = Some (True, handle ops XDR_ENCODE s2, m2)"
    using 1(1) 2(1) load32_slice [OF loc(1) ptr(1)] load32_slice [OF sl(1)] sl(3) ptr(1) loc(2,3)
    by (simp add: xdr_pointer_def xdr_reference_def ptr_eq_0)
  then show ?thesis using wrote_trans [OF 1(2) 2(2)] Some by auto
qed

lemma xdr_pointer_decode_null:
  assumes "v_wf V s m" "v_inp V s m = be32 0 @ bs" "pp + 4 \<le> length m" "blk pp 4 \<inter> v_own V s = {}"
  shows "\<exists>s' m'. xdr_pointer E (handle ops XDR_DECODE s) m pp sz f = Some (True, handle ops XDR_DECODE s', m')
    \<and> took V (blk pp 4) s m s' m' bs \<and> slice m' pp 4 = le32 0"
proof -
  obtain w where w: "load32 m pp = Some w" using assms(3) by (simp add: load32_def)
  obtain s1 m1 where 1: "xdr_bool_var (handle ops XDR_DECODE s) m (if w \<noteq> 0 then 1 else 0) = Some (True, 0, handle ops XDR_DECODE s1, m1)"
      "took V {} s m s1 m1 bs"
    using bool_var_decode [OF assms(1,2)] by fastforce
  have l: "pp + 4 \<le> length m1" using 1(2) assms(3) by (simp add: took_def same_off_def)
  then show ?thesis
    using 1(1) w took_put [OF 1(2), of pp "le32 0"] assms(3,4) slice_put_same [of pp "le32 0" m1]
    by (auto simp: xdr_pointer_def store32_put)
qed

lemma xdr_pointer_decode:
  assumes f: "decodes ops V E f (unat sz) D lay wr" "length (lay v) = unat sz"
    and wf: "v_wf V s m" "env_ok E (v_own V s) m" and ptr: "slice m pp 4 = le32 0" "pp + 4 \<le> length m"
    and v: "v_inp V s m = be32 1 @ wr v @ bs" "v \<in> D"
    and new: "allocates E H m sz b" "spread E (v_own V s) H (blk pp 4) (blk b (unat sz))"
  shows "\<exists>s' m'. xdr_pointer E (handle ops XDR_DECODE s) m pp sz f = Some (True, handle ops XDR_DECODE s', m')
    \<and> took V (H \<union> blk pp 4 \<union> (blk b (unat sz) \<union> blk (crud E) 4)) s m s' m' bs
    \<and> slice m' pp 4 = le32 (of_nat b) \<and> slice m' b (unat sz) = lay v"
proof -
  obtain s1 m1 where 1: "xdr_bool_var (handle ops XDR_DECODE s) m 0 = Some (True, 1, handle ops XDR_DECODE s1, m1)"
      "took V {} s m s1 m1 (wr v @ bs)"
    using bool_var_decode [OF wf(1) v(1), of 0] by auto
  have so1: "same_off (v_own V s) m m1" using 1(2) by (simp add: took_def)
  have "blk pp 4 \<inter> v_own V s = {}" using new(2) by (auto simp: spread_def)
  then have p1: "slice m1 pp 4 = le32 0" "pp + 4 \<le> length m1" using slice_same_off [OF so1] ptr same_off_length [OF so1] by auto
  obtain m2 m3 where 3: "mem_alloc E m1 sz = (b, m2)" "store32 m2 pp (of_nat b) = Some m3" "took V (H \<union> blk pp 4) s m s1 m3 (wr v @ bs)"
      "env_ok E (v_own V s1) m3" "slice m3 pp 4 = le32 (of_nat b)"
    using fresh_storage [OF 1(2) wf(2) new ptr(2)] by auto
  have w3: "v_wf V s1 m3" "v_own V s1 = v_own V s" "v_inp V s1 m3 = wires wr [v] @ bs" "length m3 = length m"
    using 3(3) by (auto simp: took_def same_off_def)
  have b: "0 < b" "b + unat sz \<le> length m" using new(1) by (auto simp: allocates_def)
  have d: "blk b (unat sz) \<inter> (v_own V s1 \<union> statics E) = {}" unfolding w3(2) using new(2) by (auto simp: spread_def)
  have fs: "decodes ops V E f (unat sz) {v} lay wr" "\<forall>v \<in> {v}. length (lay v) = unat sz"
    using f v(2) by (auto simp: decodes_def)
  obtain m4 s5 m5 where 5: "bzero m3 b sz = Some m4" "each_elem f (unat sz) 1 (handle ops XDR_DECODE s1) m4 b = Some (True, handle ops XDR_DECODE s5, m5)"
      "took V (blk b (unat sz) \<union> blk (crud E) 4) s1 m3 s5 m5 bs" "slice m5 b (unat sz) = lay v"
    using cleared_elements [OF fs w3(1) 3(4) w3(3), of b sz] b w3(4) d by auto
  then have f5: "f (handle ops XDR_DECODE s1) m4 b LASTUNSIGNED = Some (True, handle ops XDR_DECODE s5, m5)"
    by (auto simp: bind_eq_Some_conv split: if_splits)
  have "(v_own V s1 \<union> (blk b (unat sz) \<union> blk (crud E) 4)) \<inter> blk pp 4 = {}"
    unfolding w3(2) using new(2) by (auto simp: spread_def statics_def)
  then have "slice m5 pp 4 = le32 (of_nat b)" using pointer_kept [OF 3(5)] 5(3) by (auto simp: took_def)
  moreover have "xdr_pointer E (handle ops XDR_DECODE s) m pp sz f = Some (True, handle ops XDR_DECODE s5, m5)"
    using 1(1) 3(1,2) 5(1) f5 load32_slice [OF ptr] load32_slice [OF p1] b by (simp add: xdr_pointer_def xdr_reference_def)
  ultimately show ?thesis using took_trans [OF 3(3) 5(3)] 5(4) by blast
qed

end

end
