(* ===== verification/Inet.thy ===== *)
theory Inet
  imports CMem Ctype
begin

unbundle bit_operations_syntax

text \<open>
  Internet addresses as text and as network and host numbers, \<open>lib/libc/net/inet_addr.c\<close>,
  \<open>inet_network.c\<close>, \<open>inet_ntoa.c\<close>, \<open>inet_makeaddr.c\<close>, \<open>inet_lnaof.c\<close> and \<open>inet_netof.c\<close>. An address in network
  order is the 32-bit word the machine reads from its four bytes. The class macros come from a header that
  is not part of these sources and are an argument.
\<close>

section \<open>Definitions\<close>

subsection \<open>Byte order\<close>

definition xchgb :: "u_long \<Rightarrow> u_long" where
  "xchgb w = (w AND 0xFFFF0000) OR push_bit 8 (w AND 0xFF) OR (drop_bit 8 w AND 0xFF)"

definition roll16 :: "u_long \<Rightarrow> u_long" where
  "roll16 w = push_bit 16 w OR drop_bit 16 w"

definition htonl :: "u_long \<Rightarrow> u_long" where
  "htonl w = xchgb (roll16 (xchgb w))"

definition ntohl :: "u_long \<Rightarrow> u_long" where
  "ntohl w = xchgb (roll16 (xchgb w))"

subsection \<open>From text\<close>

definition INADDR_NONE :: u_long where "INADDR_NONE = 0xFFFFFFFF"

fun aton_num :: "RuneLocale \<Rightarrow> u_long \<Rightarrow> u_long \<Rightarrow> byte list \<Rightarrow> u_long \<times> byte list" where
  "aton_num rl base val [] = (val, [])"
| "aton_num rl base val (b # cp) =
     (let c = sint b in
      if isascii c \<and> isdigit c then aton_num rl base (val * base + of_int (c - 48)) cp
      else if base = 16 \<and> isascii c \<and> isxdigit c then
        aton_num rl base (push_bit 4 val + of_int (c + 10 - (if islower rl c then 97 else 65))) cp
      else (val, b # cp))"

definition aton_base :: "byte list \<Rightarrow> u_long \<times> byte list" where
  "aton_base cp =
     (if deref cp = 48 then
        let cp = tl cp in
        if deref cp = 120 \<or> deref cp = 88 then (16, tl cp) else (8, cp)
      else (10, cp))"

lemma aton_num_length: "aton_num rl base val s = (v, t) \<Longrightarrow> length t \<le> length s"
  by (induction rl base val s rule: aton_num.induct) (auto simp: Let_def split: if_splits)

lemma aton_base_length: "aton_base s = (b, t) \<Longrightarrow> length t \<le> length s"
  by (auto simp: aton_base_def Let_def split: if_splits)

text \<open>The parts read so far, the last number and the rest of the string; or nothing when the routine returns 0.\<close>

function aton_parts :: "RuneLocale \<Rightarrow> u_long list \<Rightarrow> byte list \<Rightarrow> (u_long list \<times> u_long \<times> byte list) option" where
  "aton_parts rl parts cp =
     (let (base, cp) = aton_base cp; (val, cp) = aton_num rl base 0 cp in
      if deref cp = 46 then
        (if length parts \<ge> 3 \<or> val > 0xFF then None else aton_parts rl (parts @ [val]) (tl cp))
      else Some (parts, val, cp))"
  by pat_completeness auto
termination
proof (relation "measure (\<lambda>(rl, parts, cp). length cp)", goal_cases)
  case (2 rl parts cp x base cp1 y val cp2)
  then have "length cp2 \<le> length cp1" "length cp1 \<le> length cp" "cp2 \<noteq> []"
    using aton_num_length [of rl base 0 cp1 val cp2] aton_base_length [of cp base cp1] by auto
  then show ?case by (cases cp2) auto
qed simp

declare aton_parts.simps [simp del]

definition aton_concoct :: "u_long list \<Rightarrow> u_long \<Rightarrow> u_long option" where
  "aton_concoct parts val =
     (let n = length parts + 1 in
      if n = 2 then (if val > 0xFFFFFF then None else Some (val OR push_bit 24 (parts ! 0)))
      else if n = 3 then (if val > 0xFFFF then None else Some (val OR push_bit 24 (parts ! 0) OR push_bit 16 (parts ! 1)))
      else if n = 4 then
        (if val > 0xFF then None
         else Some (val OR push_bit 24 (parts ! 0) OR push_bit 16 (parts ! 1) OR push_bit 8 (parts ! 2)))
      else Some val)"

text \<open>The address stored through the pointer, or nothing when 0 is returned.\<close>

definition inet_aton :: "RuneLocale \<Rightarrow> byte list \<Rightarrow> u_long option" where
  "inet_aton rl cp = do {
     (parts, val, cp) \<leftarrow> aton_parts rl [] cp;
     (if deref cp \<noteq> 0 \<and> (\<not> isascii (sint (deref cp)) \<or> \<not> isspace rl (sint (deref cp))) then None
      else do { val \<leftarrow> aton_concoct parts val; Some (htonl val) }) }"

definition inet_addr :: "RuneLocale \<Rightarrow> byte list \<Rightarrow> u_long" where
  "inet_addr rl cp = (case inet_aton rl cp of Some a \<Rightarrow> a | None \<Rightarrow> INADDR_NONE)"

text \<open>
  The older routine for network numbers. The array of parts has four places; a store behind its end is the
  outer \<open>None\<close>.
\<close>

fun network_num :: "RuneLocale \<Rightarrow> u_long \<Rightarrow> u_long \<Rightarrow> byte list \<Rightarrow> u_long \<times> byte list" where
  "network_num rl base val [] = (val, [])"
| "network_num rl base val (b # cp) =
     (let c = sint b in
      if isdigit c then network_num rl base (val * base + of_int (c - 48)) cp
      else if base = 16 \<and> isxdigit c then
        network_num rl base (push_bit 4 val + of_int (c + 10 - (if islower rl c then 97 else 65))) cp
      else (val, b # cp))"

definition network_base :: "byte list \<Rightarrow> u_long \<times> byte list" where
  "network_base cp =
     (let (base, cp) = (if deref cp = 48 then (8, tl cp) else (10, cp)) in
      if deref cp = 120 \<or> deref cp = 88 then (16, tl cp) else (base, cp))"

lemma network_num_length: "network_num rl base val s = (v, t) \<Longrightarrow> length t \<le> length s"
  by (induction rl base val s rule: network_num.induct) (auto simp: Let_def split: if_splits)

lemma network_base_length: "network_base s = (b, t) \<Longrightarrow> length t \<le> length s"
  by (auto simp: network_base_def Let_def split: if_splits)

function network_parts :: "RuneLocale \<Rightarrow> u_long list \<Rightarrow> byte list \<Rightarrow> (u_long list \<times> u_long \<times> byte list) option" where
  "network_parts rl parts cp =
     (let (base, cp) = network_base cp; (val, cp) = network_num rl base 0 cp in
      if deref cp = 46 then
        (if length parts \<ge> 4 then None else network_parts rl (parts @ [val]) (tl cp))
      else Some (parts, val, cp))"
  by pat_completeness auto
termination
proof (relation "measure (\<lambda>(rl, parts, cp). length cp)", goal_cases)
  case (2 rl parts cp x base cp1 y val cp2)
  then have "length cp2 \<le> length cp1" "length cp1 \<le> length cp" "cp2 \<noteq> []"
    using network_num_length [of rl base 0 cp1 val cp2] network_base_length [of cp base cp1] by auto
  then show ?case by (cases cp2) auto
qed simp

declare network_parts.simps [simp del]

definition inet_network :: "RuneLocale \<Rightarrow> byte list \<Rightarrow> u_long option" where
  "inet_network rl cp =
     (case network_parts rl [] cp of
       None \<Rightarrow> Some INADDR_NONE
     | Some (parts, val, cp) \<Rightarrow>
         if deref cp \<noteq> 0 \<and> \<not> isspace rl (sint (deref cp)) then Some INADDR_NONE
         else if length parts \<ge> 4 then None
         else let parts = parts @ [val]; n = length parts in
           if n > 4 then Some INADDR_NONE
           else Some (foldl (\<lambda>val p. push_bit 8 val OR (p AND 0xFF)) 0 parts))"

subsection \<open>Networks and hosts\<close>

text \<open>The macros of \<open>netinet/in.h\<close>: the class tests, and masks and shifts per class.\<close>

record in_h =
  IN_CLASSA :: "u_long \<Rightarrow> bool"
  IN_CLASSB :: "u_long \<Rightarrow> bool"
  IN_CLASSA_NET :: u_long
  IN_CLASSA_NSHIFT :: nat
  IN_CLASSA_HOST :: u_long
  IN_CLASSB_NET :: u_long
  IN_CLASSB_NSHIFT :: nat
  IN_CLASSB_HOST :: u_long
  IN_CLASSC_NET :: u_long
  IN_CLASSC_NSHIFT :: nat
  IN_CLASSC_HOST :: u_long

definition inet_makeaddr :: "in_h \<Rightarrow> u_long \<Rightarrow> u_long \<Rightarrow> u_long" where
  "inet_makeaddr h net host =
     htonl (if net < 128 then push_bit (IN_CLASSA_NSHIFT h) net OR (host AND IN_CLASSA_HOST h)
       else if net < 65536 then push_bit (IN_CLASSB_NSHIFT h) net OR (host AND IN_CLASSB_HOST h)
       else if net < 16777216 then push_bit (IN_CLASSC_NSHIFT h) net OR (host AND IN_CLASSC_HOST h)
       else net OR host)"

definition inet_lnaof :: "in_h \<Rightarrow> u_long \<Rightarrow> u_long" where
  "inet_lnaof h a =
     (let i = ntohl a in
      if IN_CLASSA h i then i AND IN_CLASSA_HOST h
      else if IN_CLASSB h i then i AND IN_CLASSB_HOST h
      else i AND IN_CLASSC_HOST h)"

definition inet_netof :: "in_h \<Rightarrow> u_long \<Rightarrow> u_long" where
  "inet_netof h a =
     (let i = ntohl a in
      if IN_CLASSA h i then drop_bit (IN_CLASSA_NSHIFT h) (i AND IN_CLASSA_NET h)
      else if IN_CLASSB h i then drop_bit (IN_CLASSB_NSHIFT h) (i AND IN_CLASSB_NET h)
      else drop_bit (IN_CLASSC_NSHIFT h) (i AND IN_CLASSC_NET h))"

subsection \<open>To text\<close>

text \<open>The conversion \<open>%d\<close> of a number that is not negative.\<close>

fun utoa :: "nat \<Rightarrow> byte list" where
  "utoa n = (if n < 10 then [of_nat (48 + n)] else utoa (n div 10) @ [of_nat (48 + n mod 10)])"

declare utoa.simps [simp del]

definition UC :: "u_long \<Rightarrow> nat \<Rightarrow> nat" where
  "UC a i = unat (drop_bit (8 * i) a AND 0xFF)"

definition inet_ntoa :: "u_long \<Rightarrow> byte list" where
  "inet_ntoa a = take 17 (utoa (UC a 0) @ [46] @ utoa (UC a 1) @ [46] @ utoa (UC a 2) @ [46] @ utoa (UC a 3))"

section \<open>Facts\<close>

lemma and_0xFF: "w AND 0xFF = take_bit 8 w" for w :: u_long
  by (simp add: take_bit_eq_mask mask_numeral)

lemma and_high: "w AND 0xFFFF0000 = push_bit 16 (drop_bit 16 w)" for w :: u_long
proof -
  have m: "(0xFFFF0000 :: u_long) = push_bit 16 (mask 16)" by (simp add: mask_numeral)
  show ?thesis unfolding m by (intro bit_word_eqI) (auto simp: bit_simps)
qed

lemma bit_xchgb: "bit (xchgb w) n \<longleftrightarrow> n < 32 \<and> bit w (if n < 8 then 8 + n else if n < 16 then n - 8 else n)"
  unfolding xchgb_def and_0xFF and_high by (auto simp: bit_simps dest: bit_imp_le_length)

lemma bit_roll16: "bit (roll16 w) n \<longleftrightarrow> n < 32 \<and> bit w (if n < 16 then 16 + n else n - 16)"
  unfolding roll16_def by (auto simp: bit_simps dest: bit_imp_le_length)

lemma bit_htonl: "bit (htonl w) n \<longleftrightarrow>
    n < 32 \<and> bit w (if n < 8 then 24 + n else if n < 16 then 8 + n else if n < 24 then n - 8 else n - 24)"
  by (auto simp: htonl_def bit_xchgb bit_roll16 add.commute)

lemma htonl_htonl: "htonl (htonl w) = w"
  by (rule bit_word_eqI) (auto simp: bit_htonl)

lemma ntohl_htonl [simp]: "ntohl (htonl w) = w" "htonl (ntohl w) = w"
  using htonl_htonl by (simp_all add: ntohl_def htonl_def)

lemma or_push_bit:
  fixes v p :: u_long
  assumes "unat v < 2 ^ n"
  shows "v OR push_bit n p = v + push_bit n p"
proof -
  have "take_bit n v = v"
    using assms by (metis take_bit_nat_eq_self unsigned_take_bit_eq word_unat_eq_iff)
  then have "\<not> bit v k" if "n \<le> k" for k using that by (metis bit_take_bit_iff not_less)
  then have "v AND push_bit n p = 0" by (intro bit_word_eqI) (auto simp: bit_simps)
  then show ?thesis using word_plus_and_or [of v "push_bit n p"] by simp
qed

subsection \<open>Numbers\<close>

text \<open>What a number between the dots stands for: the prefix picks the base.\<close>

definition dig :: "byte \<Rightarrow> nat" where
  "dig b = nat (if isdigit (sint b) then sint b - 48 else sint b + 10 - (if islower DefaultRuneLocale (sint b) then 97 else 65))"

definition dig_ok :: "nat \<Rightarrow> byte \<Rightarrow> bool" where
  "dig_ok base b \<longleftrightarrow> isdigit (sint b) \<or> base = 16 \<and> isxdigit (sint b)"

fun prefix_of :: "byte list \<Rightarrow> nat \<times> byte list" where
  "prefix_of (c # d # s) = (if c = 48 then (if d = 120 \<or> d = 88 then (16, s) else (8, d # s)) else (10, c # d # s))"
| "prefix_of [c] = (if c = 48 then (8, []) else (10, [c]))"
| "prefix_of [] = (10, [])"

definition numeral_ok :: "byte list \<Rightarrow> bool" where
  "numeral_ok t = (case prefix_of t of (base, ds) \<Rightarrow> list_all (dig_ok base) ds)"

definition value_of :: "byte list \<Rightarrow> nat" where
  "value_of t = (case prefix_of t of (base, ds) \<Rightarrow> foldl (\<lambda>v b. v * base + dig b) 0 ds)"

text \<open>Where a number ends.\<close>

definition stops :: "byte list \<Rightarrow> bool" where
  "stops r \<longleftrightarrow> deref r = 0 \<or> deref r = 46 \<or> isspace DefaultRuneLocale (sint (deref r))"

lemma stops_not_digit: "stops r \<Longrightarrow> \<not> dig_ok base (deref r)"
  by (auto simp: stops_def dig_ok_def isdigit_C isxdigit_C isspace_C)

lemma stops_not_x: "stops r \<Longrightarrow> deref r \<noteq> 120 \<and> deref r \<noteq> 88 \<and> deref r \<noteq> 48"
  by (auto simp: stops_def isspace_C)

lemma isascii_iff: "isascii c \<longleftrightarrow> 0 \<le> c \<and> c < 128"
  using and_not_mask_zero [of c 7] by (simp add: isascii_def mask_numeral)

lemma of_int_dig:
  "isdigit (sint b) \<Longrightarrow> of_int (sint b - 48) = (of_nat (dig b) :: u_long)"
  "\<not> isdigit (sint b) \<Longrightarrow> isxdigit (sint b) \<Longrightarrow>
   of_int (sint b + 10 - (if islower DefaultRuneLocale (sint b) then 97 else 65)) = (of_nat (dig b) :: u_long)"
  by (auto simp: dig_def isdigit_C isxdigit_C islower_C)

lemma aton_num_digits:
  assumes "base \<in> {8, 10, 16}" "stops r"
  shows "list_all (dig_ok base) ds \<Longrightarrow>
   aton_num DefaultRuneLocale (of_nat base) (of_nat v) (ds @ r) = (of_nat (foldl (\<lambda>v b. v * base + dig b) v ds), r)"
proof (induction ds arbitrary: v)
  case Nil
  have b16: "(of_nat base :: u_long) = 16 \<longleftrightarrow> base = 16" using assms(1) by auto
  show ?case
  proof (cases r)
    case (Cons b r')
    then show ?thesis using stops_not_digit [OF assms(2), of base] b16 by (auto simp: dig_ok_def Let_def)
  qed simp
next
  case (Cons b ds)
  have ok: "dig_ok base b" using Cons.prems by simp
  then have as: "isascii (sint b)" by (auto simp: dig_ok_def isascii_iff isdigit_C isxdigit_C)
  have step: "aton_num DefaultRuneLocale (of_nat base) (of_nat v) (b # ds @ r)
      = aton_num DefaultRuneLocale (of_nat base) (of_nat (v * base + dig b)) (ds @ r)"
  proof (cases "isdigit (sint b)")
    case True
    then show ?thesis using as of_int_dig(1) [OF True] by (simp add: Let_def)
  next
    case False
    then have x: "base = 16" "isxdigit (sint b)" using ok by (auto simp: dig_ok_def)
    have "push_bit 4 (of_nat v :: u_long) = of_nat v * 16" by (simp add: push_bit_eq_mult)
    then show ?thesis using False x as of_int_dig(2) [OF False x(2)] by (simp add: Let_def)
  qed
  then show ?case
    using Cons.IH [of "v * base + dig b"] Cons.prems by (simp del: aton_num.simps of_nat_add of_nat_mult)
qed

lemma number_at:
  assumes "numeral_ok t" "stops r" "aton_base (t @ r) = (base, cp)"
  shows "aton_num DefaultRuneLocale base 0 cp = (of_nat (value_of t), r)"
proof -
  obtain b ds where p: "prefix_of t = (b, ds)" by fastforce
  have b: "b \<in> {8, 10, 16}" using p by (cases t rule: prefix_of.cases) (auto split: if_splits)
  have "base = of_nat b \<and> cp = ds @ r"
    using p assms(3) stops_not_x [OF assms(2)] by (cases t rule: prefix_of.cases) (auto simp: aton_base_def Let_def split: if_splits)
  then show ?thesis
    using aton_num_digits [OF b assms(2), of ds 0] assms(1) p by (simp add: numeral_ok_def value_of_def)
qed

subsection \<open>Dotted numbers\<close>

fun dotted :: "byte list list \<Rightarrow> byte list" where
  "dotted [] = []"
| "dotted [t] = t"
| "dotted (t # ts) = t @ 46 # dotted ts"

lemma aton_parts_number:
  assumes "numeral_ok t" "stops r"
  shows "aton_parts DefaultRuneLocale parts (t @ r) =
    (if deref r = 46 then
       (if length parts \<ge> 3 \<or> (of_nat (value_of t) :: u_long) > 0xFF then None
        else aton_parts DefaultRuneLocale (parts @ [of_nat (value_of t)]) (tl r))
     else Some (parts, of_nat (value_of t), r))"
proof -
  obtain base cp where b: "aton_base (t @ r) = (base, cp)" by fastforce
  show ?thesis
    by (subst aton_parts.simps) (simp add: b number_at [OF assms b])
qed

lemma of_nat_gt:
  assumes "n < 2 ^ 32" "k < 2 ^ 32"
  shows "(of_nat n :: u_long) > of_nat k \<longleftrightarrow> n > k"
  using assms by (simp add: word_less_nat_alt unat_of_nat)

lemma aton_parts_dotted:
  assumes "ts \<noteq> []" "list_all numeral_ok ts" "\<forall>t \<in> set ts. value_of t < 2 ^ 32" "stops r" "deref r \<noteq> 46"
  shows "aton_parts DefaultRuneLocale parts (dotted ts @ r) =
    (if length parts + length ts \<le> 4 \<or> length ts = 1 then
       (if \<forall>t \<in> set (butlast ts). value_of t < 256
        then Some (parts @ map (\<lambda>t. of_nat (value_of t)) (butlast ts), of_nat (value_of (last ts)), r) else None)
     else None)"
  using assms(1-3)
proof (induction ts arbitrary: parts rule: dotted.induct)
  case (2 t)
  then show ?case using aton_parts_number [of t r parts] assms(4,5) by simp
next
  case (3 t u ts)
  have st: "stops (46 # dotted (u # ts) @ r)" by (simp add: stops_def)
  have big: "(of_nat (value_of t) :: u_long) > 0xFF \<longleftrightarrow> \<not> value_of t < 256"
    using of_nat_gt [of "value_of t" 255] 3 by auto
  have "aton_parts DefaultRuneLocale parts (dotted (t # u # ts) @ r) =
      (if length parts \<ge> 3 \<or> \<not> value_of t < 256 then None
       else aton_parts DefaultRuneLocale (parts @ [of_nat (value_of t)]) (dotted (u # ts) @ r))"
    using aton_parts_number [OF _ st, of t parts] 3 unfolding big by simp
  also have "\<dots> = (if length parts \<ge> 3 \<or> \<not> value_of t < 256 then None
      else if length (parts @ [of_nat (value_of t) :: u_long]) + length (u # ts) \<le> 4 \<or> length (u # ts) = 1 then
       (if \<forall>t \<in> set (butlast (u # ts)). value_of t < 256
        then Some ((parts @ [of_nat (value_of t)]) @ map (\<lambda>t. of_nat (value_of t)) (butlast (u # ts)), of_nat (value_of (last (u # ts))), r) else None)
     else None)"
    by (subst "3.IH") (use "3.prems" in auto)
  finally show ?case by auto
qed simp

definition addr_of :: "nat list \<Rightarrow> nat" where
  "addr_of vs = foldl (\<lambda>a v. a * 256 + v) 0 (butlast vs) * 256 ^ (5 - length vs) + last vs"

definition addr_ok :: "nat list \<Rightarrow> bool" where
  "addr_ok vs \<longleftrightarrow> length vs \<le> 4 \<and> (\<forall>v \<in> set (butlast vs). v < 256) \<and> last vs < 256 ^ (5 - length vs)"

lemma push_bit_of_nat: "push_bit n (of_nat p) = (of_nat (p * 2 ^ n) :: u_long)"
  by (simp add: push_bit_eq_mult)

lemma or_of_nat:
  assumes "v < 2 ^ n" "n \<le> 32"
  shows "(of_nat v :: u_long) OR push_bit n (of_nat p) = of_nat (v + p * 2 ^ n)"
proof -
  have "v < 2 ^ 32" using assms by (meson less_le_trans one_le_numeral power_increasing)
  then have "unat (of_nat v :: u_long) = v" by (simp add: unat_of_nat)
  then show ?thesis using or_push_bit [of "of_nat v" n "of_nat p"] assms(1) by (simp add: push_bit_of_nat)
qed

lemma four_bytes:
  assumes "d < 256" "c < 256" "b < 256"
  shows "(of_nat d :: u_long) OR push_bit 24 (of_nat a) OR push_bit 16 (of_nat b) OR push_bit 8 (of_nat c)
    = of_nat (d + c * 2 ^ 8 + b * 2 ^ 16 + a * 2 ^ 24)"
proof -
  have le: "d < 2 ^ 8" "d + c * 2 ^ 8 < 2 ^ 16" "d + c * 2 ^ 8 + b * 2 ^ 16 < 2 ^ 24" using assms by simp_all
  have "(of_nat d :: u_long) OR push_bit 24 (of_nat a) OR push_bit 16 (of_nat b) OR push_bit 8 (of_nat c)
      = ((of_nat d OR push_bit 8 (of_nat c)) OR push_bit 16 (of_nat b)) OR push_bit 24 (of_nat a)"
    by (simp add: or.assoc or.commute or.left_commute)
  then show ?thesis by (simp only: or_of_nat [OF le(1)] or_of_nat [OF le(2)] or_of_nat [OF le(3)])
qed

lemma aton_concoct_spec:
  assumes "vs \<noteq> []" "length vs \<le> 4" "\<forall>v \<in> set (butlast vs). v < 256" "last vs < 2 ^ 32"
  shows "aton_concoct (map of_nat (butlast vs)) (of_nat (last vs)) =
    (if last vs < 256 ^ (5 - length vs) then Some (of_nat (addr_of vs)) else None)"
proof -
  have gt: "(of_nat n :: u_long) > of_nat k \<longleftrightarrow> \<not> n < Suc k" if "n < 2 ^ 32" "k < 2 ^ 32" for n k
    using of_nat_gt [OF that] by auto
  consider a where "vs = [a]" | a b where "vs = [a, b]" | a b c where "vs = [a, b, c]" | a b c d where "vs = [a, b, c, d]"
    using assms(1,2) by (cases vs; cases "tl vs"; cases "tl (tl vs)"; cases "tl (tl (tl vs))") auto
  then show ?thesis
  proof cases
    case 1
    then show ?thesis using assms(4) by (simp add: aton_concoct_def addr_of_def)
  next
    case 2
    then show ?thesis
      using assms gt [of b "0xFFFFFF"] or_of_nat [of b 24 a] by (simp add: aton_concoct_def addr_of_def ac_simps)
  next
    case 3
    have "(of_nat c :: u_long) OR push_bit 24 (of_nat a) OR push_bit 16 (of_nat b) = of_nat (c + b * 2 ^ 16 + a * 2 ^ 24)"
      if "c < 2 ^ 16"
    proof -
      have "b < 256" using assms 3 by simp
      then have le: "c + b * 2 ^ 16 < 2 ^ 24" using that by simp
      have "(of_nat c :: u_long) OR push_bit 24 (of_nat a) OR push_bit 16 (of_nat b)
          = (of_nat c OR push_bit 16 (of_nat b)) OR push_bit 24 (of_nat a)" by (simp add: or.assoc or.commute or.left_commute)
      then show ?thesis by (simp only: or_of_nat [OF that] or_of_nat [OF le])
    qed
    then show ?thesis
      using 3 assms gt [of c "0xFFFF"] by (simp add: aton_concoct_def addr_of_def ac_simps)
  next
    case 4
    then show ?thesis
      using assms gt [of d "0xFF"] four_bytes [of d c b a] by (simp add: aton_concoct_def addr_of_def ac_simps numeral_3_eq_3)
  qed
qed

lemma inet_aton_dotted:
  assumes "ts \<noteq> []" "list_all numeral_ok ts" "\<forall>t \<in> set ts. value_of t < 2 ^ 32" "stops r" "deref r \<noteq> 46"
  shows "inet_aton DefaultRuneLocale (dotted ts @ r) =
    (if addr_ok (map value_of ts) then Some (htonl (of_nat (addr_of (map value_of ts)))) else None)"
proof -
  have trail: "\<not> (deref r \<noteq> 0 \<and> (\<not> isascii (sint (deref r)) \<or> \<not> isspace DefaultRuneLocale (sint (deref r))))"
    using assms(4,5) by (auto simp: stops_def isascii_iff isspace_C)
  have bl: "map (\<lambda>t. of_nat (value_of t)) (butlast ts) = map of_nat (butlast (map value_of ts))"
    by (simp add: map_butlast comp_def)
  show ?thesis
  proof (cases "length ts \<le> 4 \<and> (\<forall>t \<in> set (butlast ts). value_of t < 256)")
    case True
    moreover have "aton_concoct (map of_nat (butlast (map value_of ts))) (of_nat (last (map value_of ts))) =
        (if last (map value_of ts) < 256 ^ (5 - length ts) then Some (of_nat (addr_of (map value_of ts))) else None)"
      using aton_concoct_spec [of "map value_of ts"] True assms by (simp add: map_butlast [symmetric] last_map)
    ultimately show ?thesis
      using assms(1) trail unfolding inet_aton_def aton_parts_dotted [OF assms] bl
      by (auto simp: addr_ok_def map_butlast [symmetric] last_map)
  next
    case False
    then have "\<not> addr_ok (map value_of ts)" by (auto simp: addr_ok_def map_butlast [symmetric])
    moreover have "length ts = 1 \<Longrightarrow> length ts \<le> 4 \<and> (\<forall>t \<in> set (butlast ts). value_of t < 256)" by (cases ts) auto
    ultimately show ?thesis
      using False unfolding inet_aton_def aton_parts_dotted [OF assms] by auto
  qed
qed

subsection \<open>Printing\<close>

lemma sint_digit: "d < 10 \<Longrightarrow> sint (of_nat (48 + d) :: byte) = 48 + int d"
  by (simp add: signed_of_nat signed_take_bit_int_eq_self del: of_nat_add)

lemma utoa_digits: "b \<in> set (utoa n) \<Longrightarrow> \<exists>d < 10. b = of_nat (48 + d)"
proof (induction n rule: utoa.induct)
  case (1 n)
  then show ?case by (subst (asm) (2) utoa.simps) (auto split: if_splits intro: exI [of _ n] exI [of _ "n mod 10"])
qed

lemma dig_digit: "d < 10 \<Longrightarrow> dig (of_nat (48 + d)) = d"
  by (simp only: dig_def sint_digit isdigit_C) simp

lemma utoa_value: "foldl (\<lambda>v b. v * 10 + dig b) 0 (utoa n) = n"
proof (induction n rule: utoa.induct)
  case (1 n)
  show ?case
  proof (cases "n < 10")
    case True
    then show ?thesis by (subst utoa.simps) (simp add: dig_digit del: of_nat_add)
  next
    case False
    then show ?thesis using 1 dig_digit [of "n mod 10"] by (subst utoa.simps) (simp del: of_nat_add)
  qed
qed

lemma utoa_hd: "0 < n \<Longrightarrow> utoa n \<noteq> [] \<and> hd (utoa n) \<noteq> 48"
proof (induction n rule: utoa.induct)
  case (1 n)
  show ?case
  proof (cases "n < 10")
    case True
    then have "sint (of_nat (48 + n) :: byte) \<noteq> sint (48 :: byte)" using sint_digit [of n] 1 by simp
    then show ?thesis using True by (subst utoa.simps, subst utoa.simps) auto
  next
    case False
    then show ?thesis using 1 by (subst utoa.simps, subst utoa.simps) (auto simp: hd_append)
  qed
qed

lemma utoa_prefix: "prefix_of (utoa n) = (if n = 0 then (8, []) else (10, utoa n))"
proof (cases "n = 0")
  case True
  then show ?thesis by (simp add: utoa.simps)
next
  case False
  then show ?thesis using utoa_hd [of n] by (cases "utoa n" rule: prefix_of.cases) auto
qed

lemma utoa_numeral: "numeral_ok (utoa n) \<and> value_of (utoa n) = n"
proof -
  have "dig_ok 10 b" if "b \<in> set (utoa n)" for b
    using utoa_digits [OF that] sint_digit by (auto simp: dig_ok_def isdigit_C simp del: of_nat_add)
  then show ?thesis
    using utoa_value [of n] by (auto simp: numeral_ok_def value_of_def utoa_prefix list_all_iff)
qed

lemma utoa_length: "n < 256 \<Longrightarrow> length (utoa n) \<le> 3"
proof -
  assume "n < 256"
  then have "n div 10 div 10 < 10" by simp
  then show ?thesis
    by (subst utoa.simps, subst utoa.simps, subst utoa.simps) simp
qed

lemma UC_less: "UC a i < 256"
  unfolding UC_def and_0xFF unsigned_take_bit_eq using take_bit_nat_less_exp [of 8 "unat (drop_bit (8 * i) a)"] by simp

lemma inet_ntoa_dotted: "inet_ntoa a = dotted [utoa (UC a 0), utoa (UC a 1), utoa (UC a 2), utoa (UC a 3)]"
proof -
  have "length (utoa (UC a i)) \<le> 3" for i using UC_less by (rule utoa_length)
  from this [of 0] this [of 1] this [of 2] this [of 3] show ?thesis
    unfolding inet_ntoa_def by (simp add: take_all)
qed

lemma of_nat_UC: "(of_nat (UC a i) :: u_long) = take_bit 8 (drop_bit (8 * i) a)"
  unfolding UC_def and_0xFF by simp

lemma htonl_UC: "(of_nat (UC a 3 + UC a 2 * 2 ^ 8 + UC a 1 * 2 ^ 16 + UC a 0 * 2 ^ 24) :: u_long) = htonl a"
proof -
  have "(of_nat (UC a 3 + UC a 2 * 2 ^ 8 + UC a 1 * 2 ^ 16 + UC a 0 * 2 ^ 24) :: u_long)
      = take_bit 8 (drop_bit 24 a) OR push_bit 24 (take_bit 8 (drop_bit 0 a)) OR push_bit 16 (take_bit 8 (drop_bit 8 a))
        OR push_bit 8 (take_bit 8 (drop_bit 16 a))"
    using four_bytes [of "UC a 3" "UC a 2" "UC a 1" "UC a 0"] UC_less by (simp add: of_nat_UC)
  then show ?thesis
    by (simp only:) (rule bit_word_eqI, auto simp: bit_htonl bit_simps dest: bit_imp_le_length)
qed

subsection \<open>Network numbers\<close>

lemma network_num_digits:
  assumes "base \<in> {8, 10, 16}" "stops r"
  shows "list_all (dig_ok base) ds \<Longrightarrow>
   network_num DefaultRuneLocale (of_nat base) (of_nat v) (ds @ r) = (of_nat (foldl (\<lambda>v b. v * base + dig b) v ds), r)"
proof -
  have "network_num DefaultRuneLocale b v s = aton_num DefaultRuneLocale b v s" for b v s
    by (induction DefaultRuneLocale b v s rule: network_num.induct)
      (auto simp: Let_def isascii_iff isdigit_C isxdigit_C)
  then show "list_all (dig_ok base) ds \<Longrightarrow> ?thesis" using aton_num_digits [OF assms] by simp
qed

lemma network_number_at:
  assumes "numeral_ok t" "stops r" "network_base (t @ r) = (base, cp)"
  shows "network_num DefaultRuneLocale base 0 cp = (of_nat (value_of t), r)"
proof -
  obtain b ds where p: "prefix_of t = (b, ds)" by fastforce
  have ok: "list_all (dig_ok b) ds" using assms(1) p by (simp add: numeral_ok_def)
  have b: "b \<in> {8, 10, 16}" using p by (cases t rule: prefix_of.cases) (auto split: if_splits)
  have nox: "\<not> dig_ok 10 120" "\<not> dig_ok 10 88" by (simp_all add: dig_ok_def isdigit_C)
  have "base = of_nat b \<and> cp = ds @ r"
    using p ok assms(3) stops_not_x [OF assms(2)] nox
    by (cases t rule: prefix_of.cases) (auto simp: network_base_def Let_def split: if_splits)
  then show ?thesis
    using network_num_digits [OF b assms(2), of ds 0] ok p by (simp add: value_of_def)
qed

lemma network_parts_number:
  assumes "numeral_ok t" "stops r"
  shows "network_parts DefaultRuneLocale parts (t @ r) =
    (if deref r = 46 then
       (if length parts \<ge> 4 then None else network_parts DefaultRuneLocale (parts @ [of_nat (value_of t)]) (tl r))
     else Some (parts, of_nat (value_of t), r))"
proof -
  obtain base cp where b: "network_base (t @ r) = (base, cp)" by fastforce
  show ?thesis
    by (subst network_parts.simps) (simp add: b network_number_at [OF assms b])
qed

lemma network_parts_dotted:
  assumes "ts \<noteq> []" "list_all numeral_ok ts" "stops r" "deref r \<noteq> 46"
  shows "network_parts DefaultRuneLocale parts (dotted ts @ r) =
    (if length parts + length ts \<le> 5 \<or> length ts = 1
     then Some (parts @ map (\<lambda>t. of_nat (value_of t)) (butlast ts), of_nat (value_of (last ts)), r) else None)"
  using assms(1,2)
proof (induction ts arbitrary: parts rule: dotted.induct)
  case (2 t)
  then show ?case using network_parts_number [of t r parts] assms(3,4) by simp
next
  case (3 t u ts)
  have st: "stops (46 # dotted (u # ts) @ r)" by (simp add: stops_def)
  have "network_parts DefaultRuneLocale parts (dotted (t # u # ts) @ r) =
      (if length parts \<ge> 4 then None
       else network_parts DefaultRuneLocale (parts @ [of_nat (value_of t)]) (dotted (u # ts) @ r))"
    using network_parts_number [OF _ st, of t parts] 3 by simp
  also have "\<dots> = (if length parts \<ge> 4 then None
      else if length (parts @ [of_nat (value_of t) :: u_long]) + length (u # ts) \<le> 5 \<or> length (u # ts) = 1
        then Some ((parts @ [of_nat (value_of t)]) @ map (\<lambda>t. of_nat (value_of t)) (butlast (u # ts)), of_nat (value_of (last (u # ts))), r)
     else None)"
    by (subst "3.IH") (use "3.prems" in auto)
  finally show ?case by auto
qed simp

lemma shift_in_byte: "push_bit 8 (of_nat a) OR (of_nat v AND 0xFF) = (of_nat (a * 256 + v mod 256) :: u_long)"
proof -
  have "(of_nat v AND 0xFF :: u_long) = of_nat (v mod 256)"
    unfolding and_0xFF take_bit_of_nat by (simp add: take_bit_eq_mod)
  then show ?thesis using or_of_nat [of "v mod 256" 8 a] by (simp add: or.commute add.commute)
qed

lemma foldl_shift_in:
  "foldl (\<lambda>val p. push_bit 8 val OR (p AND 0xFF)) (of_nat a :: u_long) (map of_nat vs)
   = of_nat (foldl (\<lambda>a v. a * 256 + v mod 256) a vs)"
  by (induction vs arbitrary: a) (simp_all add: shift_in_byte del: of_nat_add of_nat_mult)

subsection \<open>Classes\<close>

text \<open>What the header documents of the three classes: the leading bits of the address, a mask for the network, its complement for the host, and the number of host bits.\<close>

definition documented :: "in_h \<Rightarrow> bool" where
  "documented h \<longleftrightarrow> (\<forall>i. IN_CLASSA h i \<longleftrightarrow> \<not> bit i 31) \<and> (\<forall>i. IN_CLASSB h i \<longleftrightarrow> bit i 31 \<and> \<not> bit i 30)
     \<and> IN_CLASSA_NSHIFT h = 24 \<and> IN_CLASSA_HOST h = mask 24 \<and> IN_CLASSA_NET h = NOT (mask 24)
     \<and> IN_CLASSB_NSHIFT h = 16 \<and> IN_CLASSB_HOST h = mask 16 \<and> IN_CLASSB_NET h = NOT (mask 16)
     \<and> IN_CLASSC_NSHIFT h = 8 \<and> IN_CLASSC_HOST h = mask 8 \<and> IN_CLASSC_NET h = NOT (mask 8)"

definition netinet_in :: in_h where
  "netinet_in = \<lparr> IN_CLASSA = \<lambda>i. \<not> bit i 31, IN_CLASSB = \<lambda>i. bit i 31 \<and> \<not> bit i 30,
     IN_CLASSA_NET = 0xFF000000, IN_CLASSA_NSHIFT = 24, IN_CLASSA_HOST = 0x00FFFFFF,
     IN_CLASSB_NET = 0xFFFF0000, IN_CLASSB_NSHIFT = 16, IN_CLASSB_HOST = 0x0000FFFF,
     IN_CLASSC_NET = 0xFFFFFF00, IN_CLASSC_NSHIFT = 8, IN_CLASSC_HOST = 0x000000FF \<rparr>"

lemma documented_netinet_in: "documented netinet_in"
  unfolding documented_def netinet_in_def by (simp add: mask_numeral)

lemma drop_and_not_mask: "drop_bit n (i AND NOT (mask n)) = drop_bit n i" for i :: u_long
  by (rule bit_word_eqI) (auto simp: bit_simps dest: bit_imp_le_length)

lemma rejoin: "push_bit n (drop_bit n i) OR (i AND mask n AND mask n) = i" for i :: u_long
  by (rule bit_word_eqI) (auto simp: bit_simps)

lemma high_bit: "\<not> bit i 31 \<longleftrightarrow> unat i < 2 ^ 31" for i :: u_long
proof -
  have "unat i < 2 ^ 32" using unsigned_less [of i, where ?'a = nat] by simp
  then have "unat i div 2 ^ 31 < 2" by (simp add: div_less_iff_less_mult)
  then have "odd (unat i div 2 ^ 31) \<longleftrightarrow> unat i div 2 ^ 31 \<noteq> 0" by (auto simp: less_2_cases_iff)
  moreover have "bit i 31 \<longleftrightarrow> odd (unat i div 2 ^ 31)" by (subst bit_iff_odd [symmetric], simp add: bit_unsigned_iff)
  ultimately show ?thesis by (simp add: div_eq_0_iff)
qed

lemma makeaddr_parts:
  assumes "documented h"
  shows "inet_makeaddr h (inet_netof h a) (inet_lnaof h a) = a"
proof -
  define i where "i = ntohl a"
  have a: "a = htonl i" by (simp add: i_def)
  have lt: "unat i < 2 ^ 32" using unsigned_less [of i, where ?'a = nat] by simp
  have A: "unat (drop_bit 24 i) < 128 \<longleftrightarrow> \<not> bit i 31"
    unfolding high_bit unat_drop_bit by (simp add: div_less_iff_less_mult)
  have B: "unat (drop_bit 16 i) < 65536" "\<not> unat (drop_bit 16 i) < 128" if "bit i 31"
    using that high_bit [of i] lt unfolding unat_drop_bit by (simp_all add: div_less_iff_less_mult)
  have C: "unat (drop_bit 8 i) < 16777216" "\<not> unat (drop_bit 8 i) < 65536" if "bit i 31"
    using that high_bit [of i] lt unfolding unat_drop_bit by (simp_all add: div_less_iff_less_mult)
  have w: "x < 128 \<longleftrightarrow> unat x < 128" "x < 65536 \<longleftrightarrow> unat x < 65536" "x < 16777216 \<longleftrightarrow> unat x < 16777216" for x :: u_long
    by (simp_all add: word_less_nat_alt)
  consider "\<not> bit i 31" | "bit i 31" "\<not> bit i 30" | "bit i 31" "bit i 30" by blast
  then show ?thesis
  proof cases
    case 1
    then show ?thesis using assms A a rejoin [of 24 i] unfolding inet_makeaddr_def inet_netof_def inet_lnaof_def i_def [symmetric] Let_def w
      by (simp add: documented_def drop_and_not_mask del: drop_bit_and)
  next
    case 2
    then show ?thesis using assms A B a rejoin [of 16 i] unfolding inet_makeaddr_def inet_netof_def inet_lnaof_def i_def [symmetric] Let_def w
      by (simp add: documented_def drop_and_not_mask del: drop_bit_and)
  next
    case 3
    then have "\<not> unat (drop_bit 8 i) < 128" using C by simp
    then show ?thesis using 3 assms C a rejoin [of 8 i] unfolding inet_makeaddr_def inet_netof_def inet_lnaof_def i_def [symmetric] Let_def w
      by (simp add: documented_def drop_and_not_mask del: drop_bit_and)
  qed
qed

section \<open>Properties\<close>

text \<open>
  C26: an address printed by \<open>inet_ntoa\<close> is read back by \<open>inet_aton\<close> and \<open>inet_addr\<close> as the same address,
  and the text fits into the static buffer.
\<close>

theorem inet_text_roundtrip:
  "inet_aton DefaultRuneLocale (inet_ntoa a) = Some a \<and> inet_addr DefaultRuneLocale (inet_ntoa a) = a
   \<and> length (inet_ntoa a) < 18"
proof (intro conjI)
  let ?ts = "[utoa (UC a 0), utoa (UC a 1), utoa (UC a 2), utoa (UC a 3)]"
  have v: "map value_of ?ts = [UC a 0, UC a 1, UC a 2, UC a 3]" using utoa_numeral by simp
  have ok: "addr_ok (map value_of ?ts)" unfolding v using UC_less by (simp add: addr_ok_def)
  have "addr_of (map value_of ?ts) = UC a 3 + UC a 2 * 2 ^ 8 + UC a 1 * 2 ^ 16 + UC a 0 * 2 ^ 24"
    unfolding v by (simp add: addr_of_def)
  then have "htonl (of_nat (addr_of (map value_of ?ts))) = a" by (simp only: htonl_UC htonl_htonl)
  moreover have "list_all numeral_ok ?ts" using utoa_numeral by simp
  moreover have "\<forall>t \<in> set ?ts. value_of t < 2 ^ 32" using utoa_numeral UC_less by (auto intro: less_trans [of _ 256])
  ultimately show r: "inet_aton DefaultRuneLocale (inet_ntoa a) = Some a"
    using inet_aton_dotted [of ?ts "[]"] ok unfolding inet_ntoa_dotted by (simp add: stops_def del: dotted.simps)
  then show "inet_addr DefaultRuneLocale (inet_ntoa a) = a" by (simp add: inet_addr_def)
qed (simp add: inet_ntoa_def)

text \<open>
  \<open>inet_aton\<close> on one or more numbers with dots between them, in decimal, octal or hexadecimal, at the end
  of the string or before white space: the address of one to four numbers whose last fills the remaining
  bytes, and failure exactly when there are too many numbers or one of them is too large for its place.
\<close>

theorem inet_aton_numbers:
  assumes "ts \<noteq> []" "list_all numeral_ok ts" "\<forall>t \<in> set ts. value_of t < 2 ^ 32" "stops r" "deref r \<noteq> 46"
  shows "inet_aton DefaultRuneLocale (dotted ts @ r) =
    (if length ts \<le> 4 \<and> (\<forall>t \<in> set (butlast ts). value_of t < 256) \<and> value_of (last ts) < 256 ^ (5 - length ts)
     then Some (htonl (of_nat (addr_of (map value_of ts)))) else None)"
  using inet_aton_dotted [OF assms] assms(1) by (simp add: addr_ok_def map_butlast [symmetric] last_map)

theorem inet_aton_numbers_witness:
  "inet_aton DefaultRuneLocale [48, 120, 55, 102, 46, 49] = Some (htonl 0x7F000001)"
proof -
  have t: "dotted [[48, 120, 55, 102], [49]] @ [] = [48, 120, 55, 102, 46, 49]" by simp
  have "dig 55 = 7" "dig 102 = 15" "dig 49 = 1" by (simp_all add: dig_def isdigit_C islower_C)
  then have v: "value_of [48, 120, 55, 102] = 127" "value_of [49] = 1" by (simp_all add: value_of_def)
  have ok: "list_all numeral_ok [[48, 120, 55, 102], [49]]"
    by (simp add: numeral_ok_def dig_ok_def isdigit_C isxdigit_C)
  show ?thesis
    using inet_aton_numbers [of "[[48, 120, 55, 102], [49]]" "[]"] ok t v by (simp add: stops_def addr_of_def)
qed

text \<open>
  \<open>inet_network\<close> on numbers with dots between them: up to four give one byte each, six or more give
  \<open>INADDR_NONE\<close>, and exactly five make the routine store behind the end of its array of four parts.
\<close>

theorem inet_network_numbers:
  assumes "ts \<noteq> []" "list_all numeral_ok ts" "stops r" "deref r \<noteq> 46"
  shows "inet_network DefaultRuneLocale (dotted ts @ r) =
    (if length ts \<le> 4 then Some (of_nat (foldl (\<lambda>a v. a * 256 + v mod 256) 0 (map value_of ts)))
     else if length ts = 5 then None else Some INADDR_NONE)"
proof -
  have trail: "\<not> (deref r \<noteq> 0 \<and> \<not> isspace DefaultRuneLocale (sint (deref r)))"
    using assms(3,4) by (auto simp: stops_def)
  have vs: "map (\<lambda>t. of_nat (value_of t)) (butlast ts) @ [of_nat (value_of (last ts))] = map of_nat (map value_of ts)"
    using assms(1) by (induction ts) auto
  have f: "foldl (\<lambda>val p. push_bit 8 val OR (p AND 0xFF)) (0 :: u_long) (map of_nat (map value_of ts))
      = of_nat (foldl (\<lambda>a v. a * 256 + v mod 256) 0 (map value_of ts))"
    using foldl_shift_in [of 0 "map value_of ts"] by simp
  have one: "length ts = 1 \<Longrightarrow> length ts \<le> 5" by simp
  show ?thesis
    unfolding inet_network_def network_parts_dotted [OF assms]
    using trail assms(1) one by (auto simp: Let_def vs f simp del: map_map foldl_append)
qed

theorem inet_network_numbers_witness:
  "inet_network DefaultRuneLocale [49, 46, 50] = Some 258
   \<and> inet_network DefaultRuneLocale [49, 46, 50, 46, 51, 46, 52, 46, 53] = None"
proof -
  have ok: "list_all numeral_ok [[49], [50], [51], [52], [53]]" by (simp add: numeral_ok_def dig_ok_def isdigit_C)
  have "dig 49 = 1" "dig 50 = 2" by (simp_all add: dig_def isdigit_C)
  then have "value_of [49] = 1" "value_of [50] = 2" by (simp_all add: value_of_def)
  then show ?thesis
    using inet_network_numbers [of "[[49], [50]]" "[]"] inet_network_numbers [of "[[49], [50], [51], [52], [53]]" "[]"] ok
    by (simp add: stops_def)
qed

text \<open>
  \<open>inet_netof\<close> and \<open>inet_lnaof\<close> split every address into network and host number, and \<open>inet_makeaddr\<close> puts
  them together again.
\<close>

theorem inet_parts_roundtrip:
  assumes "documented h"
  shows "inet_makeaddr h (inet_netof h a) (inet_lnaof h a) = a"
  using assms by (rule makeaddr_parts)

theorem inet_parts_roundtrip_witness:
  "inet_makeaddr netinet_in (inet_netof netinet_in 0x0100007F) (inet_lnaof netinet_in 0x0100007F) = 0x0100007F"
  using inet_parts_roundtrip [OF documented_netinet_in] .

end
