(* ===== verification/XdrMem.thy ===== *)
theory XdrMem
  imports XdrHeap Inet
begin

unbundle bit_operations_syntax

text \<open>
  The stream over a buffer in memory, \<open>lib/librpc/rpc/xdr_mem.c\<close>, as an interpretation of the contract
  \<open>xdr_stream\<close>, and what the filters do on it.
\<close>

section \<open>Definitions\<close>

text \<open>The private words of the handle: the next byte, the first byte and the number of bytes left.\<close>

record xdr_mem =
  x_private :: ptr
  x_base :: ptr
  x_handy :: u_int

definition xdrmem_create :: "ptr \<Rightarrow> u_int \<Rightarrow> xdr_mem" where
  "xdrmem_create addr size0 = \<lparr>x_private = addr, x_base = addr, x_handy = size0\<rparr>"

definition xdrmem_getlong :: "xdr_mem \<Rightarrow> mem \<Rightarrow> (u_long option \<times> xdr_mem \<times> mem) option" where
  "xdrmem_getlong xdrs m = (
     let xdrs = xdrs\<lparr>x_handy := x_handy xdrs - 4\<rparr> in
     if sint (x_handy xdrs) < 0 then Some (None, xdrs, m)
     else do {
       w \<leftarrow> load32 m (x_private xdrs);
       Some (Some (ntohl w), xdrs\<lparr>x_private := x_private xdrs + 4\<rparr>, m) })"

definition xdrmem_putlong :: "xdr_mem \<Rightarrow> mem \<Rightarrow> u_long \<Rightarrow> (bool \<times> xdr_mem \<times> mem) option" where
  "xdrmem_putlong xdrs m l = (
     let xdrs = xdrs\<lparr>x_handy := x_handy xdrs - 4\<rparr> in
     if sint (x_handy xdrs) < 0 then Some (False, xdrs, m)
     else do {
       m \<leftarrow> store32 m (x_private xdrs) (htonl l);
       Some (True, xdrs\<lparr>x_private := x_private xdrs + 4\<rparr>, m) })"

definition xdrmem_getbytes :: "xdr_mem \<Rightarrow> mem \<Rightarrow> ptr \<Rightarrow> u_int \<Rightarrow> (bool \<times> xdr_mem \<times> mem) option" where
  "xdrmem_getbytes xdrs m addr len = (
     let xdrs = xdrs\<lparr>x_handy := x_handy xdrs - len\<rparr> in
     if sint (x_handy xdrs) < 0 then Some (False, xdrs, m)
     else do {
       m \<leftarrow> bcopy m (x_private xdrs) addr len;
       Some (True, xdrs\<lparr>x_private := x_private xdrs + unat len\<rparr>, m) })"

definition xdrmem_putbytes :: "xdr_mem \<Rightarrow> mem \<Rightarrow> ptr \<Rightarrow> u_int \<Rightarrow> (bool \<times> xdr_mem \<times> mem) option" where
  "xdrmem_putbytes xdrs m addr len = (
     let xdrs = xdrs\<lparr>x_handy := x_handy xdrs - len\<rparr> in
     if sint (x_handy xdrs) < 0 then Some (False, xdrs, m)
     else do {
       m \<leftarrow> bcopy m addr (x_private xdrs) len;
       Some (True, xdrs\<lparr>x_private := x_private xdrs + unat len\<rparr>, m) })"

definition xdrmem_getpos :: "xdr_mem \<Rightarrow> u_int" where
  "xdrmem_getpos xdrs = of_nat (x_private xdrs) - of_nat (x_base xdrs)"

text \<open>Addresses are compared as long integers; \<open>lastaddr\<close> is the end of the buffer while \<open>x_handy\<close> is not negative.\<close>

definition xdrmem_setpos :: "xdr_mem \<Rightarrow> u_int \<Rightarrow> bool \<times> xdr_mem" where
  "xdrmem_setpos xdrs pos = (
     let newaddr = of_nat (x_base xdrs) + pos;
         lastaddr = of_nat (x_private xdrs) + x_handy xdrs :: u_long in
     if sint newaddr > sint lastaddr then (False, xdrs)
     else (True, xdrs\<lparr>x_private := unat newaddr, x_handy := lastaddr - newaddr\<rparr>))"

definition xdrmem_inline :: "xdr_mem \<Rightarrow> u_int \<Rightarrow> ptr \<times> xdr_mem" where
  "xdrmem_inline xdrs len =
     (if sint (x_handy xdrs) \<ge> sint len then
        (x_private xdrs,
         xdrs\<lparr>x_handy := x_handy xdrs - len, x_private := unat (of_nat (x_private xdrs) + len)\<rparr>)
      else (0, xdrs))"

definition xdrmem_ops :: "xdr_mem xdr_ops" where
  "xdrmem_ops = \<lparr>x_getlong = xdrmem_getlong, x_putlong = xdrmem_putlong, x_getbytes = xdrmem_getbytes,
     x_putbytes = xdrmem_putbytes, x_getpostn = \<lambda>xop. xdrmem_getpos, x_setpostn = \<lambda>xop. xdrmem_setpos,
     x_inline = \<lambda>xop. xdrmem_inline\<rparr>"

section \<open>The contract\<close>

definition left :: "xdr_mem \<Rightarrow> nat" where
  "left s = nat (sint (x_handy s))"

definition mem_view :: "xdr_mem view" where
  "mem_view = \<lparr>
     v_wf = (\<lambda>s m. x_base s \<le> x_private s \<and> 0 \<le> sint (x_handy s) \<and> x_private s + left s \<le> length m),
     v_own = (\<lambda>s. {x_base s..<x_private s + left s}),
     v_inp = (\<lambda>s m. slice m (x_private s) (left s)),
     v_out = (\<lambda>s m. slice m (x_base s) (x_private s - x_base s)),
     v_room = (\<lambda>s. left s)\<rparr>"

lemma bytes_htonl: "le32 (htonl l) = be32 l"
proof -
  have "ucast (drop_bit 24 (htonl l)) = (ucast l :: byte)" "ucast (drop_bit 16 (htonl l)) = (ucast (drop_bit 8 l) :: byte)"
    "ucast (drop_bit 8 (htonl l)) = (ucast (drop_bit 16 l) :: byte)" "ucast (htonl l) = (ucast (drop_bit 24 l) :: byte)"
    by (rule bit_word_eqI, auto simp: bit_simps bit_htonl)+
  then show ?thesis by (simp add: be32_def le32_def)
qed

lemma handy_sub:
  assumes "unat n \<le> left s" "0 \<le> sint (x_handy s)"
  shows "0 \<le> sint (x_handy s - n)" "nat (sint (x_handy s - n)) = left s - unat n"
proof -
  let ?h = "x_handy s"
  have "uint ?h < 2 ^ 32" using uint_lt2p [of ?h] by simp
  then have h: "sint ?h = uint ?h" "uint ?h < 2 ^ 31" using assms(2) by (auto simp: sint_conv_uint split: if_splits)
  have "int (unat n) \<le> int (left s)" using assms(1) by linarith
  then have n: "uint n \<le> uint ?h" using h(1) assms(2) by (simp add: left_def)
  then have "uint (?h - n) = uint ?h - uint n" by (simp add: uint_sub_if')
  moreover have "uint ?h - uint n < 2 ^ 31" using h(2) uint_ge_0 [of n] by linarith
  ultimately have "sint (?h - n) = uint ?h - uint n" by (simp add: sint_conv_uint)
  then show "0 \<le> sint (?h - n)" "nat (sint (?h - n)) = left s - unat n"
    using n h(1) by (simp_all add: left_def nat_diff_distrib)
qed

lemma slice_be32: "slice m p n = be32 l @ bs \<Longrightarrow> p + n \<le> length m \<Longrightarrow> load32 m p = Some (htonl l) \<and> 4 \<le> n"
proof -
  assume a: "slice m p n = be32 l @ bs" "p + n \<le> length m"
  then have n: "n = 4 + length bs" using length_slice [of p n m] by simp
  then have "slice m p 4 = le32 (htonl l)" using a slice_append [of m p "be32 l" bs] by (simp add: bytes_htonl)
  then show ?thesis using a n load32_slice by simp
qed

lemma slice_skip: "slice m p n = xs @ bs \<Longrightarrow> p + n \<le> length m \<Longrightarrow> slice m (p + length xs) (n - length xs) = bs \<and> length xs \<le> n \<and> slice m p (length xs) = xs"
proof -
  assume a: "slice m p n = xs @ bs" "p + n \<le> length m"
  then have n: "n = length xs + length bs" using length_slice [of p n m] by simp
  then show ?thesis using slice_append [of m p xs bs] a by simp
qed

definition advance :: "xdr_mem \<Rightarrow> u_int \<Rightarrow> xdr_mem" where
  "advance s n = s\<lparr>x_handy := x_handy s - n, x_private := x_private s + unat n\<rparr>"

lemma mem_advance:
  assumes "v_wf mem_view s m" "unat n \<le> v_room mem_view s"
  shows "0 \<le> sint (x_handy s - n)" "left (advance s n) = left s - unat n" "x_private s + unat n \<le> length m"
    "unat n \<le> left s" "x_private (advance s n) = x_private s + unat n" "x_base (advance s n) = x_base s" "x_handy (advance s n) = x_handy s - n"
  using assms handy_sub [of n s] by (auto simp: mem_view_def advance_def left_def [of "advance s n"] left_def [of "s\<lparr>x_handy := x_handy s - n, x_private := x_private s + unat n\<rparr>"])

lemma mem_wrote:
  assumes "v_wf mem_view s m" "unat n \<le> v_room mem_view s" "length bs = unat n"
  shows "wrote mem_view s m (advance s n) (put m (x_private s) bs) bs"
proof -
  note h = mem_advance [OF assms(1,2)]
  have b: "x_base s \<le> x_private s" "x_private s + left s \<le> length m" using assms(1) by (simp_all add: mem_view_def)
  have "slice (put m (x_private s) bs) (x_base s) (x_private s - x_base s + unat n)
      = slice m (x_base s) (x_private s - x_base s) @ bs"
    using slice_put_same [of "x_private s" bs m] slice_put_disjoint [of "x_private s" bs m "x_base s" "x_private s - x_base s"] h(3) b assms(3)
    unfolding slice_add by simp
  then show ?thesis
    using h assms(3) b by (simp add: wrote_def mem_view_def same_off_def nth_put)
qed

lemma mem_took:
  assumes "v_wf mem_view s m" "v_inp mem_view s m = xs @ bs" "length xs = unat n" "same_off A m m'" "A \<inter> v_own mem_view s = {}"
  shows "took mem_view A s m (advance s n) m' bs" "unat n \<le> v_room mem_view s" "slice m (x_private s) (unat n) = xs"
proof -
  have a: "slice m (x_private s) (left s) = xs @ bs" "x_private s + left s \<le> length m" "x_base s \<le> x_private s" "0 \<le> sint (x_handy s)"
    using assms(1,2) by (auto simp: mem_view_def)
  note sk = slice_skip [OF a(1,2)]
  show r: "unat n \<le> v_room mem_view s" "slice m (x_private s) (unat n) = xs" using sk assms(3) by (auto simp: mem_view_def)
  note h = mem_advance [OF assms(1) r(1)]
  have "blk (x_private s + unat n) (left s - unat n) \<inter> A = {}" using assms(5) a(3) by (auto simp: mem_view_def blk_def disjoint_iff)
  then have "slice m' (x_private s + unat n) (left s - unat n) = bs"
    using slice_same_off [OF assms(4)] sk assms(3) by simp
  then show "took mem_view A s m (advance s n) m' bs"
    using h a assms(4) same_off_length [OF assms(4)] by (auto simp: took_def mem_view_def intro: same_off_mono)
qed

interpretation xm: xdr_stream xdrmem_ops mem_view
proof (standard, goal_cases)
  case (1 s m l)
  then show ?case
    using mem_wrote [of s m 4 "be32 l"] mem_advance [of s m 4]
    by (auto simp: xdrmem_ops_def xdrmem_putlong_def store32_put bytes_htonl advance_def)
next
  case (2 s m n p)
  then show ?case
    using mem_wrote [of s m n "slice m p (unat n)"] mem_advance [of s m n]
    by (auto simp: xdrmem_ops_def xdrmem_putbytes_def bcopy_put advance_def)
next
  case (3 s m l bs)
  then have "load32 m (x_private s) = Some (htonl l)" using slice_be32 by (simp add: mem_view_def)
  then show ?case
    using 3 mem_took [of s m "be32 l" bs 4 "{}" m] mem_advance [of s m 4]
    by (auto simp: xdrmem_ops_def xdrmem_getlong_def advance_def)
next
  case (4 s m xs bs n p)
  let ?m = "put m p xs"
  have so: "same_off (blk p (unat n)) m ?m" using same_off_put [of p xs m] 4(3,4) by simp
  note t = mem_took [OF 4(1,2,3) so 4(5)]
  have "slice ?m p (unat n) = xs" using slice_put_same [of p xs m] 4(3,4) by simp
  then show ?case
    using t mem_advance [OF 4(1) t(2)] 4 by (auto simp: xdrmem_ops_def xdrmem_getbytes_def bcopy_put advance_def)
next
  case (5 s m A m')
  then have "blk (x_private s) (left s) \<inter> A = {}" "blk (x_base s) (x_private s - x_base s) \<inter> A = {}"
    by (auto simp: mem_view_def blk_def disjoint_iff)
  then show ?case
    using 5 slice_same_off [OF 5(2)] same_off_length [OF 5(2)] by (simp add: mem_view_def)
qed

section \<open>Writing and reading back\<close>

text \<open>A buffer of \<open>n\<close> bytes at \<open>buf\<close>, for a new stream.\<close>

definition buffer_ok :: "mem \<Rightarrow> ptr \<Rightarrow> u_int \<Rightarrow> bool" where
  "buffer_ok m buf n \<longleftrightarrow> 0 < unat n \<and> unat n < 2 ^ 31 \<and> buf + unat n \<le> length m"

lemma xdrmem_create_view:
  assumes "buffer_ok m buf n"
  shows "v_wf mem_view (xdrmem_create buf n) m" "v_own mem_view (xdrmem_create buf n) = blk buf (unat n)"
    "v_inp mem_view (xdrmem_create buf n) m = slice m buf (unat n)" "v_out mem_view (xdrmem_create buf n) m = []"
    "v_room mem_view (xdrmem_create buf n) = unat n"
proof -
  have "uint n < 2 ^ 31" using assms unfolding buffer_ok_def by (metis uint_nat of_nat_less_iff of_nat_numeral of_nat_power)
  then have "sint n = uint n" by (simp add: sint_conv_uint)
  then have l: "left (xdrmem_create buf n) = unat n" "0 \<le> sint n" by (simp_all add: left_def xdrmem_create_def)
  show "v_wf mem_view (xdrmem_create buf n) m" "v_own mem_view (xdrmem_create buf n) = blk buf (unat n)"
    "v_inp mem_view (xdrmem_create buf n) m = slice m buf (unat n)" "v_out mem_view (xdrmem_create buf n) m = []"
    "v_room mem_view (xdrmem_create buf n) = unat n"
    using l assms by (simp_all add: mem_view_def blk_def buffer_ok_def) (simp_all add: xdrmem_create_def)
qed

lemma mem_rewind:
  assumes "buffer_ok m buf n" "wrote mem_view (xdrmem_create buf n) m s m1 bs"
  shows "buffer_ok m1 buf n" "x_private s = buf + length bs" "slice m1 buf (length bs) = bs" "length m1 = length m"
    "\<exists>rest. v_inp mem_view (xdrmem_create buf n) m1 = bs @ rest"
proof -
  note c = xdrmem_create_view [OF assms(1)]
  have w: "v_wf mem_view s m1" "v_own mem_view s = blk buf (unat n)"
      "v_out mem_view s m1 = bs" "same_off (blk buf (unat n)) m m1"
    using assms(2) c by (auto simp: wrote_def)
  show l: "length m1 = length m" using same_off_length [OF w(4)] .
  show ok: "buffer_ok m1 buf n" using assms(1) l by (simp add: buffer_ok_def)
  have i: "{x_base s..<x_private s + left s} = {buf..<buf + unat n}" "x_base s \<le> x_private s" "x_private s + left s \<le> length m1"
    using w(1,2) by (auto simp: mem_view_def blk_def)
  have "buf < buf + unat n" using assms(1) by (simp add: buffer_ok_def)
  then have "buf \<in> {x_base s..<x_private s + left s}" unfolding i(1) by simp
  then have "x_base s < x_private s + left s" by simp
  then have "x_base s = buf \<and> x_private s + left s = buf + unat n"
    using atLeastLessThan_inj [OF i(1)] \<open>buf < buf + unat n\<close> by blast
  moreover have "length bs = x_private s - x_base s" unfolding w(3) [symmetric] using i(2,3) by (simp add: mem_view_def)
  ultimately have b: "x_base s = buf" and p: "x_private s = buf + length bs" and k: "left s + length bs = unat n" using i(2) by auto
  show "x_private s = buf + length bs" using p .
  show sl: "slice m1 buf (length bs) = bs" using w(3) b p by (simp add: mem_view_def)
  then have "slice m1 buf (unat n) = bs @ slice m1 (buf + length bs) (left s)"
    using k slice_add [of m1 buf "length bs" "left s"] by (simp add: add.commute)
  then show "\<exists>rest. v_inp mem_view (xdrmem_create buf n) m1 = bs @ rest" using xdrmem_create_view(3) [OF ok] by auto
qed

lemma env_ok_buffer:
  assumes "env_ok E (blk buf (unat n)) m" "same_off (blk buf (unat n)) m m1"
  shows "env_ok E (blk buf (unat n)) m1"
  using assms by (intro env_ok_same_off [OF assms]) (auto simp: env_ok_def statics_def)

lemma allocates_same_off:
  assumes "allocates E H m n b" "same_off A m m1" "A \<inter> H = {}"
  shows "allocates E H m1 n b"
  unfolding allocates_def
proof (intro conjI allI impI)
  fix m' assume "same_off (- H) m1 m'"
  then have "same_off (- H) m m'" using same_off_trans [OF assms(2)] assms(3) by (metis Un_absorb1 disjoint_eq_subset_Compl)
  then show "\<exists>m''. mem_alloc E m' n = (b, m'') \<and> same_off H m' m''" using assms(1) unfolding allocates_def by blast
qed (use assms(1) same_off_length [OF assms(2)] in \<open>simp_all add: allocates_def\<close>)

lemma handy_left: "0 \<le> sint (x_handy s) \<Longrightarrow> uint (x_handy s) = int (left s) \<and> int (left s) < 2 ^ 31 \<and> x_handy s = of_nat (left s)"
proof -
  assume h: "0 \<le> sint (x_handy s)"
  have "uint (x_handy s) < 2 ^ 32" using uint_lt2p [of "x_handy s"] by simp
  then have u: "sint (x_handy s) = uint (x_handy s)" "uint (x_handy s) < 2 ^ 31" using h by (auto simp: sint_conv_uint split: if_splits)
  then have l: "left s = unat (x_handy s)" by (simp add: left_def)
  show ?thesis unfolding l using u by simp
qed

lemma handy_wrap:
  assumes "0 \<le> sint (x_handy s)"
  shows "sint (x_handy s - len) < 0 \<longleftrightarrow> left s < unat len \<and> unat len \<le> left s + 2 ^ 31"
proof -
  define k where "k = unat len"
  have h: "uint (x_handy s) = int (left s)" "int (left s) < 2 ^ 31" using handy_left [OF assms] by auto
  have n: "uint len = int k" "int k < 2 ^ 32" using uint_lt2p [of len] by (simp_all add: k_def)
  have neg: "sint w < 0 \<longleftrightarrow> 2 ^ 31 \<le> uint w" for w :: u_int using uint_lt2p [of w] by (simp add: sint_conv_uint)
  have "uint (x_handy s - len) = (if k \<le> left s then int (left s) - int k else int (left s) - int k + 2 ^ 32)"
    unfolding uint_sub_if' n h by simp
  then show ?thesis unfolding neg k_def [symmetric] using h(2) n(2) by auto
qed

lemma sint_addr: "a < 2 ^ 31 \<Longrightarrow> sint (of_nat a :: u_int) = int a"
  by (simp add: sint_conv_uint uint_nat unat_of_nat)

lemma xdrmem_setpos_addr:
  assumes "v_wf mem_view s m" "length m < 2 ^ 31" "x_base s + unat pos < 2 ^ 31"
  shows "xdrmem_setpos s pos = (if x_base s + unat pos \<le> x_private s + left s
    then (True, s\<lparr>x_private := x_base s + unat pos, x_handy := of_nat (x_private s + left s - (x_base s + unat pos))\<rparr>)
    else (False, s))"
proof -
  define k where "k = unat pos"
  let ?e = "x_private s + left s" and ?a = "x_base s + k"
  have lt: "?a < 2 ^ 31" using assms(3) by (simp add: k_def)
  have pos: "pos = of_nat k" by (simp add: k_def)
  have w: "x_handy s = of_nat (left s)" "?e < 2 ^ 31" using assms(1,2) handy_left [of s] by (auto simp: mem_view_def)
  have a: "of_nat (x_base s) + pos = (of_nat ?a :: u_int)" "of_nat (x_private s) + x_handy s = (of_nat ?e :: u_int)"
    unfolding w(1) pos by simp_all
  have "unat (of_nat ?a :: u_int) = ?a" using lt by (intro unat_ptr) simp
  moreover have "of_nat ?e - of_nat ?a = (of_nat (?e - ?a) :: u_int)" if "?a \<le> ?e" using that by (simp only: of_nat_diff)
  ultimately show ?thesis
    unfolding xdrmem_setpos_def Let_def a sint_addr [OF lt] sint_addr [OF w(2)] k_def [symmetric] by (auto simp del: of_nat_add)
qed

section \<open>Properties\<close>

text \<open>
  C7: on a memory stream every number is written as four bytes, the most significant first, opaque data as its bytes
  with zeros up to a multiple of four, and each is read back to the same object; short and char, signed or not, are
  extended to a long, and \<open>xdr_u_char\<close> extends the sign as \<open>xdr_char\<close> does.
\<close>

theorem xdrmem_codecs:
  "codec xdrmem_ops mem_view E (\<lambda>x m p u. xdr_long x m p) 4 UNIV le32 be32
    \<and> codec xdrmem_ops mem_view E (\<lambda>x m p u. xdr_int x m p) 4 UNIV le32 be32
    \<and> codec xdrmem_ops mem_view E (\<lambda>x m p u. xdr_u_int x m p) 4 UNIV le32 be32
    \<and> codec xdrmem_ops mem_view E (\<lambda>x m p u. xdr_enum x m p) 4 UNIV le32 be32
    \<and> codec xdrmem_ops mem_view E (\<lambda>x m p u. xdr_bool x m p) 4 {0, 1} le32 be32
    \<and> codec xdrmem_ops mem_view E (\<lambda>x m p u. xdr_short x m p) 2 UNIV le16 (\<lambda>h. be32 (scast h))
    \<and> codec xdrmem_ops mem_view E (\<lambda>x m p u. xdr_u_short x m p) 2 UNIV le16 (\<lambda>h. be32 (ucast h))
    \<and> codec xdrmem_ops mem_view E (\<lambda>x m p u. xdr_char x m p) 1 UNIV (\<lambda>c. [c]) (\<lambda>c. be32 (scast c))
    \<and> codec xdrmem_ops mem_view E (\<lambda>x m p u. xdr_u_char x m p) 1 UNIV (\<lambda>c. [c]) (\<lambda>c. be32 (scast c))
    \<and> codec xdrmem_ops mem_view E (\<lambda>x m p u. xdr_opaque E x m p cnt) (unat cnt) {xs. length xs = unat cnt} (\<lambda>xs. xs) pad"
  unfolding xdr_int_def xdr_u_int_def xdr_enum_def
  by (intro conjI xm.xdr_long_codec xm.xdr_u_long_codec xm.xdr_bool_codec xm.xdr_short_codec xm.xdr_u_short_codec
    xm.xdr_char_codec xm.xdr_u_char_codec xm.xdr_opaque_codec)


text \<open>An array of two short integers, written to a buffer of eight bytes and read back beside it.\<close>

definition demo_env :: xdr_env where
  "demo_env = \<lparr>crud = 0, xdr_zero = 4, mem_alloc = (\<lambda>m n. (24, m)), mem_free = (\<lambda>m p n. m)\<rparr>"

definition demo_mem :: mem where
  "demo_mem = [0, 0, 0, 0, 0, 0, 0, 0, 0x34, 0x12, 0xFE, 0xFF] @ replicate 28 0"


text \<open>
  C19: a string written to a memory buffer is there as its length and its characters, filled up with zeros to a multiple of
  four, and is read back into storage from the allocator as the same string.
\<close>

theorem xdrmem_string_roundtrip:
  assumes buf: "buffer_ok m buf n" "env_ok E (blk buf (unat n)) m" "4 + length (pad str) \<le> unat n"
    and str: "slice m cpp 4 = le32 (of_nat sp)" "cpp + 4 \<le> length m" "sp < 2 ^ 32" "cstr m sp str" "length str < 2 ^ 32 - 1"
      "of_nat (length str) \<le> maxsize" "blk sp (length str + 1) \<inter> blk buf (unat n) = {}"
    and new: "slice m cqq 4 = le32 0" "cqq + 4 \<le> length m" "allocates E H m (of_nat (length str + 1)) b"
      "spread E (blk buf (unat n)) H (blk cqq 4) (blk b (length str + 1))"
  shows "\<exists>s m1 s' m2. xdr_string E (handle xdrmem_ops XDR_ENCODE (xdrmem_create buf n)) m cpp maxsize = Some (True, handle xdrmem_ops XDR_ENCODE s, m1)
    \<and> slice m1 buf (4 + length (pad str)) = be32 (of_nat (length str)) @ pad str
    \<and> xdr_string E (handle xdrmem_ops XDR_DECODE (xdrmem_create buf n)) m1 cqq maxsize = Some (True, handle xdrmem_ops XDR_DECODE s', m2)
    \<and> slice m2 cqq 4 = le32 (of_nat b) \<and> cstr m2 b str"
proof -
  let ?s = "xdrmem_create buf n" and ?w = "be32 (of_nat (length str)) @ pad str"
  note c = xdrmem_create_view [OF buf(1)]
  obtain s m1 where 1: "xdr_string E (handle xdrmem_ops XDR_ENCODE ?s) m cpp maxsize = Some (True, handle xdrmem_ops XDR_ENCODE s, m1)"
      "wrote mem_view ?s m s m1 ?w"
    using xm.xdr_string_encode [OF c(1) _ str(1-4) _ str(6), of E] c buf str(5,7) by auto
  note r = mem_rewind [OF buf(1) 1(2)]
  have so: "same_off (blk buf (unat n)) m m1" using 1(2) c(2) by (simp add: wrote_def)
  obtain rest where rest: "v_inp mem_view ?s m1 = ?w @ rest" using r(5) by blast
  have d: "blk cqq 4 \<inter> blk buf (unat n) = {}" "blk buf (unat n) \<inter> H = {}" using new(4) by (auto simp: spread_def)
  have z: "slice m1 cqq 4 = le32 0" using slice_same_off [OF so d(1)] new(1) by simp
  obtain s' m2 where "xdr_string E (handle xdrmem_ops XDR_DECODE ?s) m1 cqq maxsize = Some (True, handle xdrmem_ops XDR_DECODE s', m2)"
      "slice m2 cqq 4 = le32 (of_nat b)" "cstr m2 b str"
    using xm.xdr_string_decode [OF xdrmem_create_view(1) [OF r(1)] _ z, of E str rest maxsize H b] rest c(2) env_ok_buffer [OF buf(2) so]
      allocates_same_off [OF new(3) so d(2)] new(2,4) r(4) str(4-6) by (auto simp: cstr_def)
  then show ?thesis using 1(1) r(3) by auto
qed


text \<open>
  A memory stream refuses to move \<open>len\<close> bytes when fewer are left, without touching the memory, as long as \<open>len\<close> is at
  most \<open>2 ^ 31\<close> above what is left; beyond that the counter wraps around and the bytes are moved.
\<close>

theorem xdrmem_guard:
  assumes "v_wf mem_view s m"
  shows "xdrmem_getbytes s m addr len = (if left s < unat len \<and> unat len \<le> left s + 2 ^ 31
      then Some (False, s\<lparr>x_handy := x_handy s - len\<rparr>, m)
      else map_option (\<lambda>m'. (True, advance s len, m')) (bcopy m (x_private s) addr len))
    \<and> xdrmem_putbytes s m addr len = (if left s < unat len \<and> unat len \<le> left s + 2 ^ 31
      then Some (False, s\<lparr>x_handy := x_handy s - len\<rparr>, m)
      else map_option (\<lambda>m'. (True, advance s len, m')) (bcopy m addr (x_private s) len))"
proof -
  have "sint (x_handy s - len) < 0 \<longleftrightarrow> left s < unat len \<and> unat len \<le> left s + 2 ^ 31" using handy_wrap assms by (simp add: mem_view_def)
  then show ?thesis
    by (auto simp: xdrmem_getbytes_def xdrmem_putbytes_def advance_def Let_def map_option_case split: option.splits)
qed

text \<open>
  The position a memory stream reports can be set again, and no position beyond the end of the buffer can; the buffer
  stays the same.
\<close>

theorem xdrmem_position:
  assumes "v_wf mem_view s m" "length m < 2 ^ 31"
  shows "(unat pos \<le> x_private s + left s - x_base s \<longrightarrow>
      (\<exists>s'. xdrmem_setpos s pos = (True, s') \<and> xdrmem_getpos s' = pos \<and> v_wf mem_view s' m \<and> v_own mem_view s' = v_own mem_view s))
    \<and> (x_private s + left s - x_base s < unat pos \<and> unat pos < 2 ^ 31 - x_base s \<longrightarrow> xdrmem_setpos s pos = (False, s))
    \<and> xdrmem_setpos s (xdrmem_getpos s) = (True, s)"
proof (intro conjI impI)
  let ?e = "x_private s + left s" and ?a = "x_base s + unat pos"
  have w: "x_base s \<le> x_private s" "0 \<le> sint (x_handy s)" "?e \<le> length m" using assms(1) by (auto simp: mem_view_def)
  show "\<exists>s'. xdrmem_setpos s pos = (True, s') \<and> xdrmem_getpos s' = pos \<and> v_wf mem_view s' m \<and> v_own mem_view s' = v_own mem_view s"
    if "unat pos \<le> ?e - x_base s"
  proof -
    have a: "?a \<le> ?e" "?a < 2 ^ 31" "?e - ?a < 2 ^ 31" using that w assms(2) by auto
    define d where "d = ?e - ?a"
    define s' where "s' = s\<lparr>x_private := ?a, x_handy := of_nat d\<rparr>"
    have "xdrmem_setpos s pos = (True, s')" using xdrmem_setpos_addr [OF assms a(2)] a(1) by (simp add: s'_def d_def)
    moreover have "sint (of_nat d :: u_int) = int d" using a(3) by (intro sint_addr) (simp add: d_def)
    then have "left s' = d" "0 \<le> sint (x_handy s')" "x_private s' = ?a" "x_base s' = x_base s" by (simp_all add: left_def s'_def)
    moreover have "xdrmem_getpos s' = pos" by (simp add: xdrmem_getpos_def s'_def)
    ultimately show ?thesis using a(1) w(3) by (auto simp: mem_view_def d_def)
  qed
  show "xdrmem_setpos s pos = (False, s)" if "?e - x_base s < unat pos \<and> unat pos < 2 ^ 31 - x_base s"
  proof -
    have "?a < 2 ^ 31" "\<not> ?a \<le> ?e" using that by linarith+
    then show ?thesis using xdrmem_setpos_addr [OF assms, of pos] by simp
  qed
  have g: "xdrmem_getpos s = of_nat (x_private s - x_base s)" using w(1) by (simp add: xdrmem_getpos_def of_nat_diff)
  have "unat (of_nat (x_private s - x_base s) :: u_int) = x_private s - x_base s" using w assms(2) by (intro unat_ptr) simp
  then show "xdrmem_setpos s (xdrmem_getpos s) = (True, s)"
    using xdrmem_setpos_addr [OF assms, of "xdrmem_getpos s"] w assms(2) handy_left [OF w(2)] unfolding g by simp
qed

theorem xdrmem_position_witness:
  "\<exists>s'. xdrmem_setpos (xdrmem_create 2 8) 4 = (True, s') \<and> xdrmem_getpos s' = 4"
proof -
  have "v_wf mem_view (xdrmem_create 2 8) (replicate 10 0)" "left (xdrmem_create 2 8) = 8"
    by (simp_all add: mem_view_def xdrmem_create_def left_def)
  then show ?thesis using xdrmem_position [of "xdrmem_create 2 8" "replicate 10 0" 4] by (auto simp: xdrmem_create_def)
qed

theorem xdrmem_guard_witness:
  "xdrmem_getbytes (xdrmem_create 0 4) [1, 2, 3, 4] 0 8 = Some (False, xdrmem_create 0 4\<lparr>x_handy := - 4\<rparr>, [1, 2, 3, 4])"
proof -
  have "v_wf mem_view (xdrmem_create 0 4) [1, 2, 3, 4]" "left (xdrmem_create 0 4) = 4"
    by (simp_all add: mem_view_def xdrmem_create_def left_def)
  then show ?thesis using xdrmem_guard [of "xdrmem_create 0 4" "[1, 2, 3, 4]" 0 8] by (simp add: xdrmem_create_def)
qed

definition demo_strings :: mem where
  "demo_strings = [0, 0, 0, 0, 0, 0, 0, 0, 12, 0, 0, 0, 97, 98, 0, 0, 0, 0, 0, 0, 0, 0, 0, 0] @ replicate 16 0"

theorem xdrmem_string_roundtrip_witness:
  "\<exists>s m1 s' m2. xdr_string demo_env (handle xdrmem_ops XDR_ENCODE (xdrmem_create 28 8)) demo_strings 8 10 = Some (True, handle xdrmem_ops XDR_ENCODE s, m1)
    \<and> slice m1 28 (4 + length (pad [97, 98])) = be32 (of_nat (length [97, 98 :: byte])) @ pad [97, 98]
    \<and> xdr_string demo_env (handle xdrmem_ops XDR_DECODE (xdrmem_create 28 8)) m1 20 10 = Some (True, handle xdrmem_ops XDR_DECODE s', m2)
    \<and> slice m2 20 4 = le32 (of_nat 24) \<and> cstr m2 24 [97, 98]"
proof (rule xdrmem_string_roundtrip)
  show "allocates demo_env {} demo_strings (of_nat (length [97, 98 :: byte] + 1)) 24"
    by (simp add: allocates_def demo_env_def demo_strings_def)
  show "slice demo_strings 8 4 = le32 (of_nat 12)" by code_simp
  show "slice demo_strings 20 4 = le32 0" by code_simp
  show "cstr demo_strings 12 [97, 98]" by code_simp
qed (auto simp: demo_strings_def demo_env_def buffer_ok_def env_ok_def statics_def spread_def blk_def slice_def fill_def word_le_nat_alt)

definition demo_array :: mem where
  "demo_array = [0, 0, 0, 0, 0, 0, 0, 0, 16, 0, 0, 0, 2, 0, 0, 0, 1, 0, 0, 0, 0xFF, 0xFF, 0xFF, 0xFF, 0, 0, 0, 0, 0, 0, 0, 0] @ replicate 20 0"


end
