(* ===== verification/XdrRec.thy ===== *)
theory XdrRec
  imports XdrMem
begin

unbundle bit_operations_syntax

text \<open>
  Streams of records over a connection, \<open>lib/librpc/rpc/xdr_rec.c\<close>: records are cut into fragments with a header each, and
  buffers stand between the stream and the routines that read from and write to the connection. A loop that does not end,
  as when the reading routine returns 0 for ever, has the value \<open>None\<close>, like an access outside the memory.
\<close>

section \<open>Definitions\<close>

definition LAST_FRAG :: u_long where "LAST_FRAG = 0x80000000"

text \<open>
  The structure, with the connection in the place of its handle. \<open>readit\<close> gives the bytes it stores, or \<open>None\<close> for the value
  \<open>- 1\<close>; \<open>writeit\<close> gives its value.
\<close>

record 't RECSTREAM =
  rs_addr :: ptr
  tcp_handle :: 't
  the_buffer :: ptr
  writeit :: "'t \<Rightarrow> byte list \<Rightarrow> int \<times> 't"
  out_base :: ptr
  out_finger :: ptr
  out_boundry :: ptr
  frag_header :: ptr
  frag_sent :: bool
  readit :: "'t \<Rightarrow> nat \<Rightarrow> byte list option \<times> 't"
  in_size :: u_long
  in_base :: ptr
  in_finger :: ptr
  in_boundry :: ptr
  fbtbc :: u_long
  last_frag :: bool
  sendsize :: u_int
  recvsize :: u_int

subsection \<open>Buffers\<close>

definition flush_out :: "'t RECSTREAM \<Rightarrow> mem \<Rightarrow> bool \<Rightarrow> (bool \<times> 't RECSTREAM \<times> mem) option" where
  "flush_out rstrm m eor = do {
     let eormask = (if eor then LAST_FRAG else 0);
     let len = of_nat (out_finger rstrm) - of_nat (frag_header rstrm) - 4;
     m \<leftarrow> store32 m (frag_header rstrm) (htonl (len OR eormask));
     let len = (of_nat (out_finger rstrm) - of_nat (out_base rstrm) :: u_long);
     (if out_base rstrm + unat len \<le> length m then
        (let (i, t) = writeit rstrm (tcp_handle rstrm) (slice m (out_base rstrm) (unat len));
             rstrm = rstrm\<lparr>tcp_handle := t\<rparr> in
         if i \<noteq> sint len then Some (False, rstrm, m)
         else Some (True, rstrm\<lparr>frag_header := out_base rstrm, out_finger := out_base rstrm + 4\<rparr>, m))
      else None) }"

definition fill_input_buf :: "'t RECSTREAM \<Rightarrow> mem \<Rightarrow> (bool \<times> 't RECSTREAM \<times> mem) option" where
  "fill_input_buf rstrm m = (
     let i = in_boundry rstrm mod 4;
         wher = in_base rstrm + i;
         len = in_size rstrm - of_nat i;
         (r, t) = readit rstrm (tcp_handle rstrm) (nat (sint len));
         rstrm = rstrm\<lparr>tcp_handle := t\<rparr> in
     case r of
       None \<Rightarrow> Some (False, rstrm, m)
     | Some bs \<Rightarrow>
         if wher + length bs \<le> length m
         then Some (True, rstrm\<lparr>in_finger := wher, in_boundry := wher + length bs\<rparr>, put m wher bs) else None)"

text \<open>Where the bytes go: to an address, or to a variable of the caller, that holds those before.\<close>

datatype sink = Addr ptr | Var "byte list"

definition copy_in :: "mem \<Rightarrow> ptr \<Rightarrow> sink \<Rightarrow> nat \<Rightarrow> (mem \<times> sink) option" where
  "copy_in m p d n =
     (case d of
       Addr addr \<Rightarrow> do { m \<leftarrow> bcopy m p addr (of_nat n); Some (m, Addr (addr + n)) }
     | Var bs \<Rightarrow> if p + n \<le> length m then Some (m, Var (bs @ slice m p n)) else None)"

partial_function (option) get_input_bytes ::
    "'t RECSTREAM \<Rightarrow> mem \<Rightarrow> sink \<Rightarrow> nat \<Rightarrow> (bool \<times> sink \<times> 't RECSTREAM \<times> mem) option" where
  "get_input_bytes rstrm m d len =
     (if len = 0 then Some (True, d, rstrm, m)
      else if in_boundry rstrm - in_finger rstrm = 0 then
        Option.bind (fill_input_buf rstrm m) (\<lambda>x.
          if fst x then get_input_bytes (fst (snd x)) (snd (snd x)) d len else Some (False, d, snd x))
      else
        let current = min len (in_boundry rstrm - in_finger rstrm) in
        Option.bind (copy_in m (in_finger rstrm) d current) (\<lambda>y.
          get_input_bytes (rstrm\<lparr>in_finger := in_finger rstrm + current\<rparr>) (fst y) (snd y) (len - current)))"

definition set_input_fragment :: "'t RECSTREAM \<Rightarrow> mem \<Rightarrow> (bool \<times> 't RECSTREAM \<times> mem) option" where
  "set_input_fragment rstrm m = do {
     (ok, d, rstrm, m) \<leftarrow> get_input_bytes rstrm m (Var []) 4;
     (if \<not> ok then Some (False, rstrm, m)
      else case d of
        Addr addr \<Rightarrow> None
      | Var bs \<Rightarrow> do {
          w \<leftarrow> load32 bs 0;
          let header = ntohl w;
          Some (True, rstrm\<lparr>last_frag := header AND LAST_FRAG \<noteq> 0, fbtbc := header AND NOT LAST_FRAG\<rparr>, m) }) }"

partial_function (option) skip_input_bytes :: "'t RECSTREAM \<Rightarrow> mem \<Rightarrow> nat \<Rightarrow> (bool \<times> 't RECSTREAM \<times> mem) option" where
  "skip_input_bytes rstrm m cnt =
     (if cnt = 0 then Some (True, rstrm, m)
      else if in_boundry rstrm - in_finger rstrm = 0 then
        Option.bind (fill_input_buf rstrm m) (\<lambda>x.
          if fst x then skip_input_bytes (fst (snd x)) (snd (snd x)) cnt else Some (False, snd x))
      else
        let current = min cnt (in_boundry rstrm - in_finger rstrm) in
        skip_input_bytes (rstrm\<lparr>in_finger := in_finger rstrm + current\<rparr>) m (cnt - current))"

subsection \<open>The operations of the stream\<close>

text \<open>The counts are of type \<open>int\<close>; the length of a fragment, that has 31 bits, is one of them.\<close>

partial_function (option) getbytes_loop ::
    "'t RECSTREAM \<Rightarrow> mem \<Rightarrow> sink \<Rightarrow> nat \<Rightarrow> (bool \<times> sink \<times> 't RECSTREAM \<times> mem) option" where
  "getbytes_loop rstrm m d len =
     (if len = 0 then Some (True, d, rstrm, m)
      else if fbtbc rstrm = 0 then
        (if last_frag rstrm then Some (False, d, rstrm, m)
         else Option.bind (set_input_fragment rstrm m) (\<lambda>x.
           if fst x then getbytes_loop (fst (snd x)) (snd (snd x)) d len else Some (False, d, snd x)))
      else
        let current = min len (unat (fbtbc rstrm)) in
        Option.bind (get_input_bytes rstrm m d current) (\<lambda>x.
          if fst x then
            getbytes_loop ((fst (snd (snd x)))\<lparr>fbtbc := fbtbc (fst (snd (snd x))) - of_nat current\<rparr>) (snd (snd (snd x))) (fst (snd x)) (len - current)
          else Some (False, fst (snd x), snd (snd x))))"

definition xdrrec_getbytes :: "'t RECSTREAM \<Rightarrow> mem \<Rightarrow> ptr \<Rightarrow> u_int \<Rightarrow> (bool \<times> 't RECSTREAM \<times> mem) option" where
  "xdrrec_getbytes rstrm m addr len = do {
     (ok, d, rstrm, m) \<leftarrow> getbytes_loop rstrm m (Addr addr) (unat len); Some (ok, rstrm, m) }"

definition xdrrec_getlong :: "'t RECSTREAM \<Rightarrow> mem \<Rightarrow> (u_long option \<times> 't RECSTREAM \<times> mem) option" where
  "xdrrec_getlong rstrm m =
     (if 4 \<le> fbtbc rstrm \<and> 4 \<le> in_boundry rstrm - in_finger rstrm then do {
        w \<leftarrow> load32 m (in_finger rstrm);
        Some (Some (ntohl w), rstrm\<lparr>fbtbc := fbtbc rstrm - 4, in_finger := in_finger rstrm + 4\<rparr>, m) }
      else do {
        (ok, d, rstrm, m) \<leftarrow> getbytes_loop rstrm m (Var []) 4;
        (if \<not> ok then Some (None, rstrm, m)
         else case d of
           Addr addr \<Rightarrow> None
         | Var bs \<Rightarrow> do { w \<leftarrow> load32 bs 0; Some (Some (ntohl w), rstrm, m) }) })"

definition xdrrec_putlong :: "'t RECSTREAM \<Rightarrow> mem \<Rightarrow> u_long \<Rightarrow> (bool \<times> 't RECSTREAM \<times> mem) option" where
  "xdrrec_putlong rstrm m l =
     (if out_finger rstrm + 4 > out_boundry rstrm then do {
        (ok, rstrm, m) \<leftarrow> flush_out (rstrm\<lparr>frag_sent := True\<rparr>) m False;
        (if \<not> ok then Some (False, rstrm, m)
         else do { m \<leftarrow> store32 m (out_finger rstrm) (htonl l); Some (True, rstrm\<lparr>out_finger := out_finger rstrm + 4\<rparr>, m) }) }
      else do { m \<leftarrow> store32 m (out_finger rstrm) (htonl l); Some (True, rstrm\<lparr>out_finger := out_finger rstrm + 4\<rparr>, m) })"

partial_function (option) putbytes_loop :: "'t RECSTREAM \<Rightarrow> mem \<Rightarrow> ptr \<Rightarrow> nat \<Rightarrow> (bool \<times> 't RECSTREAM \<times> mem) option" where
  "putbytes_loop rstrm m addr len =
     (if len = 0 then Some (True, rstrm, m)
      else
        let current = min len (out_boundry rstrm - out_finger rstrm) in
        Option.bind (bcopy m addr (out_finger rstrm) (of_nat current)) (\<lambda>m.
          let rstrm = rstrm\<lparr>out_finger := out_finger rstrm + current\<rparr> in
          if out_finger rstrm = out_boundry rstrm then
            Option.bind (flush_out (rstrm\<lparr>frag_sent := True\<rparr>) m False) (\<lambda>x.
              if fst x then putbytes_loop (fst (snd x)) (snd (snd x)) (addr + current) (len - current) else Some (False, snd x))
          else putbytes_loop rstrm m (addr + current) (len - current)))"

definition xdrrec_putbytes :: "'t RECSTREAM \<Rightarrow> mem \<Rightarrow> ptr \<Rightarrow> u_int \<Rightarrow> (bool \<times> 't RECSTREAM \<times> mem) option" where
  "xdrrec_putbytes rstrm m addr len = putbytes_loop rstrm m addr (unat len)"

text \<open>\<open>seek\<close> is \<open>lseek\<close> on the handle, by 0 from the current position.\<close>

definition xdrrec_getpos :: "('t \<Rightarrow> u_long) \<Rightarrow> xdr_op \<Rightarrow> 't RECSTREAM \<Rightarrow> u_int" where
  "xdrrec_getpos seek xop rstrm = (
     let pos = seek (tcp_handle rstrm) in
     if pos \<noteq> - 1 then
       (case xop of
         XDR_ENCODE \<Rightarrow> pos + (of_nat (out_finger rstrm) - of_nat (out_base rstrm))
       | XDR_DECODE \<Rightarrow> pos - (of_nat (in_boundry rstrm) - of_nat (in_finger rstrm))
       | XDR_FREE \<Rightarrow> - 1)
     else pos)"

definition xdrrec_setpos :: "('t \<Rightarrow> u_long) \<Rightarrow> xdr_op \<Rightarrow> 't RECSTREAM \<Rightarrow> u_int \<Rightarrow> bool \<times> 't RECSTREAM" where
  "xdrrec_setpos seek xop rstrm pos = (
     let currpos = xdrrec_getpos seek xop rstrm;
         delta = currpos - pos in
     if currpos \<noteq> - 1 then
       (case xop of
         XDR_ENCODE \<Rightarrow>
           (let newpos = of_nat (out_finger rstrm) - delta in
            if newpos > of_nat (frag_header rstrm) \<and> newpos < of_nat (out_boundry rstrm)
            then (True, rstrm\<lparr>out_finger := unat newpos\<rparr>) else (False, rstrm))
       | XDR_DECODE \<Rightarrow>
           (let newpos = of_nat (in_finger rstrm) - delta in
            if sint delta < sint (fbtbc rstrm) \<and> newpos \<le> of_nat (in_boundry rstrm) \<and> newpos \<ge> of_nat (in_base rstrm)
            then (True, rstrm\<lparr>in_finger := unat newpos, fbtbc := fbtbc rstrm - delta\<rparr>) else (False, rstrm))
       | XDR_FREE \<Rightarrow> (False, rstrm))
     else (False, rstrm))"

definition xdrrec_inline :: "xdr_op \<Rightarrow> 't RECSTREAM \<Rightarrow> u_int \<Rightarrow> ptr \<times> 't RECSTREAM" where
  "xdrrec_inline xop rstrm len =
     (case xop of
       XDR_ENCODE \<Rightarrow>
         (let fin = of_nat (out_finger rstrm) + len in
          if fin \<le> of_nat (out_boundry rstrm) then (out_finger rstrm, rstrm\<lparr>out_finger := unat fin\<rparr>) else (0, rstrm))
     | XDR_DECODE \<Rightarrow>
         (let fin = of_nat (in_finger rstrm) + len in
          if sint len \<le> sint (fbtbc rstrm) \<and> fin \<le> of_nat (in_boundry rstrm)
          then (in_finger rstrm, rstrm\<lparr>fbtbc := fbtbc rstrm - len, in_finger := unat fin\<rparr>) else (0, rstrm))
     | XDR_FREE \<Rightarrow> (0, rstrm))"

definition xdrrec_ops :: "('t \<Rightarrow> u_long) \<Rightarrow> 't RECSTREAM xdr_ops" where
  "xdrrec_ops seek = \<lparr>x_getlong = xdrrec_getlong, x_putlong = xdrrec_putlong, x_getbytes = xdrrec_getbytes,
     x_putbytes = xdrrec_putbytes, x_getpostn = xdrrec_getpos seek, x_setpostn = xdrrec_setpos seek, x_inline = xdrrec_inline\<rparr>"

subsection \<open>Creating and destroying\<close>

definition RNDUP :: "u_int \<Rightarrow> u_int" where
  "RNDUP x = (x + BYTES_PER_XDR_UNIT - 1) div BYTES_PER_XDR_UNIT * BYTES_PER_XDR_UNIT"

definition fix_buf_size :: "u_int \<Rightarrow> u_int" where
  "fix_buf_size s = RNDUP (if s < 100 then 4000 else s)"

lemma mod4_step: "p mod 4 \<noteq> 0 \<Longrightarrow> (4 - (p + 1) mod 4) mod 4 < (4 - p mod 4) mod (4 :: nat)"
proof -
  assume "p mod 4 \<noteq> 0"
  moreover have "p mod 4 < 4" by simp
  ultimately consider "p mod 4 = 1" | "p mod 4 = 2" | "p mod 4 = 3" by linarith
  then show ?thesis by cases (simp_all add: mod_Suc)
qed

function align_up :: "ptr \<Rightarrow> ptr" where
  "align_up p = (if p mod 4 \<noteq> 0 then align_up (p + 1) else p)"
  by pat_completeness auto
termination
  by (relation "measure (\<lambda>p. (4 - p mod 4) mod 4)") (use mod4_step in auto)

declare align_up.simps [simp del]

text \<open>The value is \<open>None\<close> where storage is missing and the handle is left as it was.\<close>

definition xdrrec_create ::
    "xdr_env \<Rightarrow> mem \<Rightarrow> u_int \<Rightarrow> u_int \<Rightarrow> 't \<Rightarrow> ('t \<Rightarrow> nat \<Rightarrow> byte list option \<times> 't) \<Rightarrow> ('t \<Rightarrow> byte list \<Rightarrow> int \<times> 't) \<Rightarrow>
     't RECSTREAM option \<times> mem" where
  "xdrrec_create E m sendsize0 recvsize0 handle0 rd wr = (
     let (a, m) = mem_alloc E m 68 in
     if a = 0 then (None, m)
     else
       let ss = fix_buf_size sendsize0; rs = fix_buf_size recvsize0;
           (b, m) = mem_alloc E m (ss + rs + BYTES_PER_XDR_UNIT) in
       if b = 0 then (None, m)
       else
         let ob = align_up b; ib = ob + unat ss in
         (Some \<lparr>rs_addr = a, tcp_handle = handle0, the_buffer = b, writeit = wr, out_base = ob, out_finger = ob + 4,
            out_boundry = ob + unat ss, frag_header = ob, frag_sent = False, readit = rd, in_size = rs, in_base = ib,
            in_finger = ib + unat rs, in_boundry = ib + unat rs, fbtbc = 0, last_frag = True, sendsize = ss, recvsize = rs\<rparr>, m))"

definition xdrrec_destroy :: "xdr_env \<Rightarrow> 't RECSTREAM \<Rightarrow> mem \<Rightarrow> mem" where
  "xdrrec_destroy E rstrm m =
     mem_free E (mem_free E m (the_buffer rstrm) (sendsize rstrm + recvsize rstrm + BYTES_PER_XDR_UNIT)) (rs_addr rstrm) 68"

subsection \<open>Records\<close>

text \<open>The loop of \<open>xdrrec_skiprecord\<close> and \<open>xdrrec_eof\<close>: whether it came to the end of the record.\<close>

partial_function (option) skip_rest :: "'t RECSTREAM \<Rightarrow> mem \<Rightarrow> (bool \<times> 't RECSTREAM \<times> mem) option" where
  "skip_rest rstrm m =
     (if sint (fbtbc rstrm) > 0 \<or> \<not> last_frag rstrm then
        Option.bind (skip_input_bytes rstrm m (nat (sint (fbtbc rstrm)))) (\<lambda>x.
          if fst x then
            let rstrm = (fst (snd x))\<lparr>fbtbc := 0\<rparr> in
            if \<not> last_frag rstrm then
              Option.bind (set_input_fragment rstrm (snd (snd x))) (\<lambda>y.
                if fst y then skip_rest (fst (snd y)) (snd (snd y)) else Some (False, snd y))
            else skip_rest rstrm (snd (snd x))
          else Some (False, snd x))
      else Some (True, rstrm, m))"

definition xdrrec_skiprecord :: "'t RECSTREAM \<Rightarrow> mem \<Rightarrow> (bool \<times> 't RECSTREAM \<times> mem) option" where
  "xdrrec_skiprecord rstrm m = do {
     (ok, rstrm, m) \<leftarrow> skip_rest rstrm m;
     (if ok then Some (True, rstrm\<lparr>last_frag := False\<rparr>, m) else Some (False, rstrm, m)) }"

definition xdrrec_eof :: "'t RECSTREAM \<Rightarrow> mem \<Rightarrow> (bool \<times> 't RECSTREAM \<times> mem) option" where
  "xdrrec_eof rstrm m = do {
     (ok, rstrm, m) \<leftarrow> skip_rest rstrm m;
     Some (\<not> ok \<or> in_finger rstrm = in_boundry rstrm, rstrm, m) }"

definition xdrrec_endofrecord :: "'t RECSTREAM \<Rightarrow> mem \<Rightarrow> bool \<Rightarrow> (bool \<times> 't RECSTREAM \<times> mem) option" where
  "xdrrec_endofrecord rstrm m sendnow =
     (if sendnow \<or> frag_sent rstrm \<or> out_finger rstrm + 4 \<ge> out_boundry rstrm then
        flush_out (rstrm\<lparr>frag_sent := False\<rparr>) m True
      else do {
        let len = of_nat (out_finger rstrm) - of_nat (frag_header rstrm) - 4;
        m \<leftarrow> store32 m (frag_header rstrm) (htonl (len OR LAST_FRAG));
        Some (True, rstrm\<lparr>frag_header := out_finger rstrm, out_finger := out_finger rstrm + 4\<rparr>, m) })"

end
