(* ===== verification/RecConn.thy ===== *)
theory RecConn
  imports XdrRec
begin

unbundle bit_operations_syntax

text \<open>
  Record streams keep the contract of the filters. What is on the wire is a sequence of fragments; what a stream has written
  of its record and what it has still to read of one are functions of the buffers and of the bytes the connection has sent
  and will bring. The locale \<open>rec_conn\<close> is what the stream needs of the connection, and gives the contract \<open>xdr_stream\<close>.
\<close>

section \<open>Fragments\<close>

definition frag_head :: "bool \<Rightarrow> nat \<Rightarrow> u_long" where
  "frag_head l n = of_nat n OR (if l then LAST_FRAG else 0)"

definition frag :: "bool \<Rightarrow> byte list \<Rightarrow> byte list" where
  "frag l bs = be32 (frag_head l (length bs)) @ bs"

definition header :: "byte list \<Rightarrow> u_long" where
  "header w = (case load32 w 0 of None \<Rightarrow> 0 | Some x \<Rightarrow> ntohl x)"

definition h_last :: "u_long \<Rightarrow> bool" where "h_last h \<longleftrightarrow> h AND LAST_FRAG \<noteq> 0"
definition h_len :: "u_long \<Rightarrow> nat" where "h_len h = unat (h AND NOT LAST_FRAG)"

text \<open>The fragments of a sequence of bytes.\<close>

function frags :: "byte list \<Rightarrow> (bool \<times> byte list) list option" where
  "frags w =
     (if w = [] then Some []
      else if length w < 4 \<or> length w < 4 + h_len (header w) then None
      else map_option (Cons (h_last (header w), take (h_len (header w)) (drop 4 w))) (frags (drop (4 + h_len (header w)) w)))"
  by pat_completeness auto
termination
  by (relation "measure length") auto

declare frags.simps [simp del]

text \<open>What is left of a record, and what follows it, when \<open>n\<close> bytes of a fragment are left, the last one or not.\<close>

function rest_rec :: "nat \<Rightarrow> bool \<Rightarrow> byte list \<Rightarrow> (byte list \<times> byte list) option" where
  "rest_rec n l w =
     (if length w < n then None
      else if l then Some (take n w, drop n w)
      else if length w < n + 4 then None
      else map_option (apfst (append (take n w)))
        (rest_rec (h_len (header (drop n w))) (h_last (header (drop n w))) (drop (n + 4) w)))"
  by pat_completeness auto
termination
  by (relation "measure (\<lambda>(n, l, w). length w)") auto

declare rest_rec.simps [simp del]

lemma load32_le32: "load32 (le32 w @ xs) 0 = Some w"
  by (rule load32_slice) (simp_all add: slice_def)

lemma header_be32 [simp]: "header (be32 h @ xs) = h"
proof -
  have "load32 (be32 h @ xs) 0 = Some (htonl h)" using load32_le32 [of "htonl h" xs] by (simp add: bytes_htonl)
  then show ?thesis by (simp add: header_def ntohl_htonl)
qed

lemma bit_LAST_FRAG: "bit LAST_FRAG k \<longleftrightarrow> k = 31"
proof -
  have m: "LAST_FRAG = push_bit 31 1" by (simp add: LAST_FRAG_def push_bit_eq_mult)
  show ?thesis unfolding m by (auto simp only: bit_push_bit_iff bit_1_iff) auto
qed

lemma frag_head_fields:
  assumes "n < 2 ^ 31"
  shows "h_last (frag_head l n) = l" "h_len (frag_head l n) = n"
proof -
  let ?w = "of_nat n :: u_long"
  have "unat ?w = n" using assms by (simp add: unat_of_nat)
  then have t: "take_bit 31 ?w = ?w" using assms by (simp add: word_unat_eq_iff unsigned_take_bit_eq take_bit_nat_eq_self)
  have w: "\<not> bit ?w k" if "31 \<le> k" for k using t that by (metis bit_take_bit_iff not_le)
  have low: "k < 31" if "bit ?w k" for k using that w [of k] by (meson not_le)
  have "frag_head l n AND NOT LAST_FRAG = ?w"
    by (rule bit_word_eqI) (auto simp: frag_head_def bit_or_iff bit_and_iff bit_not_iff bit_LAST_FRAG dest: low)
  then show "h_len (frag_head l n) = n" using \<open>unat ?w = n\<close> by (simp add: h_len_def)
  have "frag_head l n AND LAST_FRAG = (if l then LAST_FRAG else 0)"
    by (rule bit_word_eqI) (auto simp: frag_head_def bit_or_iff bit_and_iff bit_LAST_FRAG dest: low)
  then show "h_last (frag_head l n) = l" by (simp add: h_last_def LAST_FRAG_def)
qed

lemma be32_ne [simp]: "be32 h \<noteq> []"
  by (simp add: be32_def le32_def)

lemma frags_cons: "length bs < 2 ^ 31 \<Longrightarrow> frags (frag l bs @ w) = map_option (Cons (l, bs)) (frags w)"
  by (subst frags.simps) (simp add: frag_def frag_head_fields)

lemma frags_Nil [simp]: "frags [] = Some []"
  by (simp add: frags.simps)

lemma header_append: "4 \<le> length u \<Longrightarrow> header (u @ w) = header u"
  by (cases "u = []") (auto simp: header_def load32_def load_def nth_append)

lemma frags_append: "frags u = Some fs \<Longrightarrow> frags (u @ w) = map_option (append fs) (frags w)"
proof (induction u arbitrary: fs rule: frags.induct)
  case (1 u)
  show ?case
  proof (cases "u = []")
    case False
    let ?h = "header u"
    have u: "4 \<le> length u" "4 + h_len ?h \<le> length u" using 1(2) False by (auto simp: frags.simps [of u] not_less split: if_splits)
    obtain gs where gs: "frags (drop (4 + h_len ?h) u) = Some gs" "fs = (h_last ?h, take (h_len ?h) (drop 4 u)) # gs"
      using 1(2) False u by (auto simp: frags.simps [of u])
    have h: "header (u @ w) = ?h" by (rule header_append [OF u(1)])
    have "frags (u @ w) = map_option (Cons (h_last ?h, take (h_len ?h) (drop 4 u))) (frags (drop (4 + h_len ?h) u @ w))"
      using False u by (subst frags.simps) (simp add: h)
    also have "\<dots> = map_option (append fs) (frags w)"
      using 1(1) [OF False _ gs(1)] u gs(2) by (cases "frags w") simp_all
    finally show ?thesis .
  qed (use 1 in \<open>simp add: option.map_id [unfolded id_def]\<close>)
qed

lemma frags_snoc: "frags u = Some fs \<Longrightarrow> length bs < 2 ^ 31 \<Longrightarrow> frags (u @ frag l bs) = Some (fs @ [(l, bs)])"
  using frags_append [of u fs "frag l bs"] frags_cons [of bs l "[]"] by simp

text \<open>A whole record of fragments is read as what they hold.\<close>

lemma frags_empty: "frags w = Some [] \<Longrightarrow> w = []"
  by (subst (asm) frags.simps) (auto split: if_splits)

lemma rest_rec_head: "4 \<le> length w \<Longrightarrow> rest_rec 0 False w = rest_rec (h_len (header w)) (h_last (header w)) (drop 4 w)"
  by (subst rest_rec.simps) (simp add: apfst_def map_prod_def option.map_id0)

lemma rest_rec_next: "n \<le> length v \<Longrightarrow> rest_rec n False v = map_option (apfst (append (take n v))) (rest_rec 0 False (drop n v))"
  by (subst rest_rec.simps, subst rest_rec.simps) (auto simp: option.map_comp comp_def apfst_def map_prod_def add.commute less_diff_conv split_def)

lemma rest_rec_frags:
  "frags u = Some (fs @ [(True, bs)]) \<Longrightarrow> \<forall>f \<in> set fs. \<not> fst f \<Longrightarrow> rest_rec 0 False (u @ w) = Some (concat (map snd fs) @ bs, w)"
proof (induction u arbitrary: fs rule: frags.induct)
  case (1 u)
  have ne: "u \<noteq> []" using 1(2) by auto
  let ?n = "h_len (header u)" and ?l = "h_last (header u)"
  have u: "4 \<le> length u" "4 + ?n \<le> length u" using 1(2) ne by (auto simp: frags.simps [of u] not_less split: if_splits)
  then obtain gs where gs: "frags (drop (4 + ?n) u) = Some gs" "fs @ [(True, bs)] = (?l, take ?n (drop 4 u)) # gs"
    using 1(2) ne by (auto simp: frags.simps [of u])
  have r: "rest_rec 0 False (u @ w) = rest_rec ?n ?l (drop 4 u @ w)"
    using rest_rec_head [of "u @ w"] u(1) by (simp add: header_append)
  show ?case
  proof (cases fs)
    case Nil
    have "drop (4 + ?n) u = []" using Nil gs by (intro frags_empty) auto
    moreover have "?l" "bs = take ?n (drop 4 u)" using Nil gs by auto
    ultimately have "?l" "bs = take ?n (drop 4 u)" "drop (4 + ?n) u = []" by blast+
    then show ?thesis using u Nil unfolding r by (subst rest_rec.simps) auto
  next
    case (Cons f fs')
    then have g: "gs = fs' @ [(True, bs)]" "f = (?l, take ?n (drop 4 u))" "\<not> ?l" using gs(2) 1(3) by auto
    have "rest_rec 0 False (drop (4 + ?n) u @ w) = Some (concat (map snd fs') @ bs, w)"
      using 1(1) [OF ne _ gs(1) [unfolded g(1)]] u 1(3) Cons by auto
    then show ?thesis using rest_rec_next [of ?n "drop 4 u @ w"] u g Cons unfolding r by (simp add: add.commute)
  qed
qed

section \<open>The state of a stream\<close>

definition out_wire :: "('t \<Rightarrow> byte list) \<Rightarrow> 't RECSTREAM \<Rightarrow> mem \<Rightarrow> byte list" where
  "out_wire sent s m = sent (tcp_handle s) @ slice m (out_base s) (frag_header s - out_base s)"

definition out_cur :: "'t RECSTREAM \<Rightarrow> mem \<Rightarrow> byte list" where
  "out_cur s m = slice m (frag_header s + 4) (out_finger s - (frag_header s + 4))"

definition in_wire :: "('t \<Rightarrow> byte list) \<Rightarrow> 't RECSTREAM \<Rightarrow> mem \<Rightarrow> byte list" where
  "in_wire pending s m = slice m (in_finger s) (in_boundry s - in_finger s) @ pending (tcp_handle s)"

definition out_area :: "'t RECSTREAM \<Rightarrow> ptr set" where
  "out_area s = {out_base s..<out_boundry s}"

definition in_area :: "'t RECSTREAM \<Rightarrow> ptr set" where
  "in_area s = {in_base s..<in_base s + unat (in_size s)}"

text \<open>The pointers are in order and in their buffers, and the buffers are apart and in memory.\<close>

definition out_ok :: "'t RECSTREAM \<Rightarrow> bool" where
  "out_ok s \<longleftrightarrow> out_base s \<le> frag_header s \<and> frag_header s + 4 \<le> out_finger s \<and> out_finger s \<le> out_boundry s
     \<and> out_base s + 8 \<le> out_boundry s \<and> out_boundry s - out_base s < 2 ^ 31 \<and> out_boundry s \<le> in_base s"

definition in_ok :: "'t RECSTREAM \<Rightarrow> mem \<Rightarrow> bool" where
  "in_ok s m \<longleftrightarrow> in_base s \<le> in_finger s \<and> in_finger s \<le> in_boundry s \<and> in_boundry s \<le> in_base s + unat (in_size s)
     \<and> 4 \<le> unat (in_size s) \<and> unat (in_size s) < 2 ^ 31 \<and> in_base s + unat (in_size s) \<le> length m \<and> unat (fbtbc s) < 2 ^ 31"

locale rec_conn =
  fixes rd :: "'t \<Rightarrow> nat \<Rightarrow> byte list option \<times> 't"
    and wr :: "'t \<Rightarrow> byte list \<Rightarrow> int \<times> 't"
    and live :: "'t \<Rightarrow> bool"
    and pending :: "'t \<Rightarrow> byte list"
    and sent :: "'t \<Rightarrow> byte list"
  assumes reads: "live t \<Longrightarrow> pending t \<noteq> [] \<Longrightarrow> 0 < n \<Longrightarrow>
      \<exists>bs t'. rd t n = (Some bs, t') \<and> bs \<noteq> [] \<and> length bs \<le> n \<and> pending t = bs @ pending t' \<and> sent t' = sent t \<and> live t'"
    and writes: "live t \<Longrightarrow> \<exists>t'. wr t bs = (int (length bs), t') \<and> sent t' = sent t @ bs \<and> pending t' = pending t \<and> live t'"

definition rec_base :: "('t \<Rightarrow> nat \<Rightarrow> byte list option \<times> 't) \<Rightarrow> ('t \<Rightarrow> byte list \<Rightarrow> int \<times> 't) \<Rightarrow> ('t \<Rightarrow> bool) \<Rightarrow>
    't RECSTREAM \<Rightarrow> mem \<Rightarrow> bool" where
  "rec_base rd wr live s m \<longleftrightarrow> out_ok s \<and> in_ok s m \<and> readit s = rd \<and> writeit s = wr \<and> live (tcp_handle s)"

text \<open>The part of a record still to be read, and what follows it.\<close>

definition in_rest :: "('t \<Rightarrow> byte list) \<Rightarrow> 't RECSTREAM \<Rightarrow> mem \<Rightarrow> (byte list \<times> byte list) option" where
  "in_rest pending s m = rest_rec (unat (fbtbc s)) (last_frag s) (in_wire pending s m)"

text \<open>What the fragments after \<open>z\<close> hold, when none is the last of a record.\<close>

definition open_rec :: "byte list \<Rightarrow> byte list \<Rightarrow> byte list option" where
  "open_rec z w =
     (if take (length z) w \<noteq> z then None
      else case frags (drop (length z) w) of
        None \<Rightarrow> None
      | Some fs \<Rightarrow> if list_ex fst fs then None else Some (concat (map snd fs)))"

text \<open>
  The filters see the bytes of one record: those written since \<open>z\<close> was, and those to be read before \<open>a\<close>, where \<open>a\<close> is given.
\<close>

definition rec_view :: "('t \<Rightarrow> nat \<Rightarrow> byte list option \<times> 't) \<Rightarrow> ('t \<Rightarrow> byte list \<Rightarrow> int \<times> 't) \<Rightarrow> ('t \<Rightarrow> bool) \<Rightarrow>
    ('t \<Rightarrow> byte list) \<Rightarrow> ('t \<Rightarrow> byte list) \<Rightarrow> byte list \<Rightarrow> byte list option \<Rightarrow> 't RECSTREAM view" where
  "rec_view rd wr live pending sent z a = \<lparr>
     v_wf = (\<lambda>s m. rec_base rd wr live s m \<and> open_rec z (out_wire sent s m) \<noteq> None \<and> (a = None \<or> map_option snd (in_rest pending s m) = a)),
     v_own = (\<lambda>s. out_area s \<union> in_area s),
     v_inp = (\<lambda>s m. case in_rest pending s m of None \<Rightarrow> [] | Some (r, e) \<Rightarrow> r),
     v_out = (\<lambda>s m. the (open_rec z (out_wire sent s m)) @ out_cur s m),
     v_room = (\<lambda>s. 2 ^ 32)\<rparr>"

lemma open_rec_eq: "open_rec z w = Some bs \<longleftrightarrow> (\<exists>u fs. w = z @ u \<and> frags u = Some fs \<and> (\<forall>f \<in> set fs. \<not> fst f) \<and> bs = concat (map snd fs))"
proof
  assume "open_rec z w = Some bs"
  then show "\<exists>u fs. w = z @ u \<and> frags u = Some fs \<and> (\<forall>f \<in> set fs. \<not> fst f) \<and> bs = concat (map snd fs)"
    by (intro exI [of _ "drop (length z) w"]) (auto simp: open_rec_def list_ex_iff split: if_splits option.splits, metis append_take_drop_id)
qed (auto simp: open_rec_def list_ex_iff)

lemma open_rec_self [simp]: "open_rec z z = Some []"
  by (auto simp: open_rec_eq)

lemma open_rec_snoc: "open_rec z w = Some bs \<Longrightarrow> length cs < 2 ^ 31 \<Longrightarrow> open_rec z (w @ frag False cs) = Some (bs @ cs)"
  unfolding open_rec_eq by (auto intro!: exI [of _ "_ @ [(False, cs)]"] simp: frags_snoc)

section \<open>Writing\<close>

text \<open>The output side changes only: what is read stays as it is.\<close>

lemma slice_range: "same_off A m m' \<Longrightarrow> A \<inter> {a..<b} = {} \<Longrightarrow> slice m' a (b - a) = slice m a (b - a)"
proof (cases "a \<le> b")
  case True
  assume "same_off A m m'" "A \<inter> {a..<b} = {}"
  then show ?thesis using True by (intro slice_same_off) (auto simp: blk_def)
qed simp

lemma slice_join: "a \<le> b \<Longrightarrow> b \<le> c \<Longrightarrow> slice m a (c - a) = slice m a (b - a) @ slice m b (c - b)"
  using slice_add [of m a "b - a" "c - b"] by simp

lemma in_wire_cong: "in_finger s' = in_finger s \<Longrightarrow> in_boundry s' = in_boundry s \<Longrightarrow> pending (tcp_handle s') = pending (tcp_handle s) \<Longrightarrow>
    same_off A m m' \<Longrightarrow> A \<inter> {in_finger s..<in_boundry s} = {} \<Longrightarrow> in_wire pending s' m' = in_wire pending s m"
  using slice_range [of A m m' "in_finger s" "in_boundry s"] by (simp add: in_wire_def)

lemma out_wire_cong: "out_base s' = out_base s \<Longrightarrow> frag_header s' = frag_header s \<Longrightarrow> sent (tcp_handle s') = sent (tcp_handle s) \<Longrightarrow>
    same_off A m m' \<Longrightarrow> A \<inter> {out_base s..<frag_header s} = {} \<Longrightarrow> out_wire sent s' m' = out_wire sent s m"
  using slice_range [of A m m' "out_base s" "frag_header s"] by (simp add: out_wire_def)

context rec_conn
begin

abbreviation "base \<equiv> rec_base rd wr live"
abbreviation "V z a \<equiv> rec_view rd wr live pending sent z a"

lemma base_facts:
  assumes "base s m"
  shows "out_base s \<le> frag_header s" "frag_header s + 4 \<le> out_finger s" "out_finger s \<le> out_boundry s" "out_base s + 8 \<le> out_boundry s"
    "out_boundry s - out_base s < 2 ^ 31" "out_boundry s \<le> in_base s" "in_base s \<le> in_finger s" "in_finger s \<le> in_boundry s"
    "in_boundry s \<le> in_base s + unat (in_size s)" "4 \<le> unat (in_size s)" "unat (in_size s) < 2 ^ 31" "in_base s + unat (in_size s) \<le> length m"
    "out_boundry s \<le> length m" "unat (fbtbc s) < 2 ^ 31"
  using assms by (auto simp: rec_base_def out_ok_def in_ok_def)

lemma put_wrote:
  assumes "v_wf (V z a) s m" "out_finger s + length bs \<le> out_boundry s"
  shows "wrote (V z a) s m (s\<lparr>out_finger := out_finger s + length bs\<rparr>) (put m (out_finger s) bs) bs"
proof -
  let ?s = "s\<lparr>out_finger := out_finger s + length bs\<rparr>" and ?m = "put m (out_finger s) bs"
  have b: "base s m" using assms(1) by (simp add: rec_view_def)
  note f = base_facts [OF b]
  have so: "same_off (blk (out_finger s) (length bs)) m ?m" using f assms(2) by (intro same_off_put) simp
  have "same_off (out_area s) m ?m" by (rule same_off_mono [OF so]) (use f assms(2) in \<open>auto simp: blk_def out_area_def\<close>)
  moreover have iw: "in_wire pending ?s ?m = in_wire pending s m"
    by (rule in_wire_cong [OF _ _ _ so]) (use f assms(2) in \<open>auto simp: blk_def\<close>)
  moreover have ow: "out_wire sent ?s ?m = out_wire sent s m"
    by (rule out_wire_cong [OF _ _ _ so]) (use f in \<open>auto simp: blk_def\<close>)
  moreover have "out_cur ?s ?m = out_cur s m @ bs"
  proof -
    have "slice ?m (frag_header s + 4) (out_finger s - (frag_header s + 4)) = slice m (frag_header s + 4) (out_finger s - (frag_header s + 4))"
      by (rule slice_range [OF so]) (use f in \<open>auto simp: blk_def\<close>)
    moreover have "slice ?m (out_finger s) (length bs) = bs" using f assms(2) by (intro slice_put_same) simp
    moreover note slice_join [of "frag_header s + 4" "out_finger s" "out_finger s + length bs" ?m]
    ultimately show ?thesis using f by (simp add: out_cur_def)
  qed
  moreover have "base ?s ?m" using b assms(2) f so by (auto simp: rec_base_def out_ok_def in_ok_def same_off_def)
  ultimately show ?thesis using assms(1) same_off_mono [of "out_area s" m ?m "out_area s \<union> in_area s"]
    by (auto simp: wrote_def rec_view_def in_rest_def out_area_def in_area_def)
qed

lemma length_out_cur: "base s m \<Longrightarrow> length (out_cur s m) = out_finger s - (frag_header s + 4)"
  using base_facts [of s m] by (auto simp: out_cur_def)

text \<open>The header of the fragment in the buffer is filled in.\<close>

lemma header_spec:
  fixes l :: bool
  assumes "base s m"
  defines "m' \<equiv> put m (frag_header s) (be32 (frag_head l (length (out_cur s m))))"
  shows "store32 m (frag_header s) (htonl ((of_nat (out_finger s) - of_nat (frag_header s) - 4) OR (if l then LAST_FRAG else 0))) = Some m'"
    "same_off (blk (frag_header s) 4) m m'"
    "slice m' (out_base s) (out_finger s - out_base s) = slice m (out_base s) (frag_header s - out_base s) @ frag l (out_cur s m)"
proof -
  note f = base_facts [OF assms(1)]
  let ?k = "out_finger s - (frag_header s + 4)" and ?h = "be32 (frag_head l (length (out_cur s m)))"
  have w: "of_nat (out_finger s) - of_nat (frag_header s) - 4 = (of_nat ?k :: u_long)" using f(2) by (simp add: of_nat_diff)
  show "store32 m (frag_header s) (htonl ((of_nat (out_finger s) - of_nat (frag_header s) - 4) OR (if l then LAST_FRAG else 0))) = Some m'"
    unfolding w using f length_out_cur [OF assms(1)] by (simp add: store32_put bytes_htonl m'_def frag_head_def)
  show so: "same_off (blk (frag_header s) 4) m m'" using same_off_put [of "frag_header s" ?h m] f by (simp add: m'_def)
  have "slice m' (out_base s) (frag_header s - out_base s) = slice m (out_base s) (frag_header s - out_base s)"
    by (rule slice_range [OF so]) (auto simp: blk_def)
  moreover have "slice m' (frag_header s) 4 = ?h" using slice_put_same [of "frag_header s" ?h m] f by (simp add: m'_def)
  moreover have "slice m' (frag_header s + 4) ?k = slice m (frag_header s + 4) ?k" by (rule slice_range [OF so]) (auto simp: blk_def)
  ultimately show "slice m' (out_base s) (out_finger s - out_base s) = slice m (out_base s) (frag_header s - out_base s) @ frag l (out_cur s m)"
    using slice_join [of "out_base s" "frag_header s" "out_finger s" m'] slice_join [of "frag_header s" "frag_header s + 4" "out_finger s" m'] f
    by (simp add: frag_def out_cur_def)
qed

lemma flush_spec:
  assumes "base s m"
  shows "\<exists>t' m'. flush_out s m eor = Some (True, s\<lparr>tcp_handle := t', frag_header := out_base s, out_finger := out_base s + 4\<rparr>, m')
    \<and> same_off (out_area s) m m' \<and> sent t' = out_wire sent s m @ frag eor (out_cur s m) \<and> pending t' = pending (tcp_handle s) \<and> live t'"
proof -
  note f = base_facts [OF assms] and h = header_spec [OF assms, of eor]
  let ?n = "out_finger s - out_base s" and ?m = "put m (frag_header s) (be32 (frag_head eor (length (out_cur s m))))"
  have l: "of_nat (out_finger s) - of_nat (out_base s) = (of_nat ?n :: u_long)" using f by (simp add: of_nat_diff)
  have "?n < 2 ^ 31" using f by linarith
  then have u: "unat (of_nat ?n :: u_long) = ?n" "sint (of_nat ?n :: u_long) = int ?n" by (auto intro: unat_ptr sint_addr)
  have len: "out_base s + ?n \<le> length ?m" using f h(2) by (simp add: same_off_def)
  obtain t' where t': "wr (tcp_handle s) (slice ?m (out_base s) ?n) = (int ?n, t')"
      "sent t' = sent (tcp_handle s) @ slice ?m (out_base s) ?n" "pending t' = pending (tcp_handle s)" "live t'"
    using writes [of "tcp_handle s" "slice ?m (out_base s) ?n"] assms length_slice [OF len] by (auto simp: rec_base_def)
  then have "flush_out s m eor = Some (True, s\<lparr>tcp_handle := t', frag_header := out_base s, out_finger := out_base s + 4\<rparr>, ?m)"
    using assms h(1) u len unfolding flush_out_def l by (simp add: rec_base_def Let_def)
  moreover have "same_off (out_area s) m ?m" by (rule same_off_mono [OF h(2)]) (use f in \<open>auto simp: blk_def out_area_def\<close>)
  ultimately show ?thesis using t'(2-4) h(3) by (auto simp: out_wire_def)
qed

lemma flush_wrote:
  assumes "v_wf (V z a) s m"
  shows "\<exists>s' m'. flush_out (s\<lparr>frag_sent := True\<rparr>) m False = Some (True, s', m') \<and> wrote (V z a) s m s' m' []
    \<and> out_finger s' = out_base s + 4 \<and> out_boundry s' = out_boundry s \<and> out_base s' = out_base s"
proof -
  let ?s = "s\<lparr>frag_sent := True\<rparr>"
  have b: "base ?s m" using assms by (simp add: rec_view_def rec_base_def out_ok_def in_ok_def)
  note f = base_facts [OF b]
  obtain t' m' where t': "flush_out ?s m False = Some (True, ?s\<lparr>tcp_handle := t', frag_header := out_base s, out_finger := out_base s + 4\<rparr>, m')"
      "same_off (out_area s) m m'" "sent t' = out_wire sent s m @ frag False (out_cur s m)" "pending t' = pending (tcp_handle s)" "live t'"
    using flush_spec [OF b, of False] by (auto simp: out_area_def out_wire_def out_cur_def)
  let ?s' = "?s\<lparr>tcp_handle := t', frag_header := out_base s, out_finger := out_base s + 4\<rparr>"
  obtain bs where bs: "open_rec z (out_wire sent s m) = Some bs" using assms by (auto simp: rec_view_def)
  have "length (out_cur s m) < 2 ^ 31" using length_out_cur [OF b] f by (simp add: out_cur_def)
  then have "open_rec z (out_wire sent ?s' m') = Some (bs @ out_cur s m)"
    using open_rec_snoc [OF bs] t'(3) by (simp add: out_wire_def)
  moreover have "out_cur ?s' m' = []" by (simp add: out_cur_def)
  moreover have "in_wire pending ?s' m' = in_wire pending s m"
    by (rule in_wire_cong [OF _ _ _ t'(2)]) (use f t'(4) in \<open>auto simp: out_area_def\<close>)
  moreover have "base ?s' m'" using b t'(2,5) f by (auto simp: rec_base_def out_ok_def in_ok_def same_off_def)
  ultimately have "wrote (V z a) s m ?s' m' []"
    using assms bs same_off_mono [OF t'(2), of "out_area s \<union> in_area s"]
    by (auto simp: wrote_def rec_view_def in_rest_def out_area_def in_area_def)
  then show ?thesis using t'(1) by auto
qed

lemma putlong_fits:
  assumes "v_wf (V z a) s m" "out_finger s + 4 \<le> out_boundry s"
  shows "\<exists>s' m'. do { m \<leftarrow> store32 m (out_finger s) (htonl l); Some (True, s\<lparr>out_finger := out_finger s + 4\<rparr>, m) } = Some (True, s', m')
    \<and> wrote (V z a) s m s' m' (be32 l)"
proof -
  have "out_finger s + 4 \<le> length m" using base_facts [of s m] assms by (simp add: rec_view_def)
  then show ?thesis using put_wrote [OF assms(1), of "be32 l"] assms(2) by (simp add: store32_put bytes_htonl)
qed

lemma putlong_spec:
  assumes "v_wf (V z a) s m"
  shows "\<exists>s' m'. xdrrec_putlong s m l = Some (True, s', m') \<and> wrote (V z a) s m s' m' (be32 l)"
proof (cases "out_finger s + 4 > out_boundry s")
  case True
  obtain s1 m1 where 1: "flush_out (s\<lparr>frag_sent := True\<rparr>) m False = Some (True, s1, m1)" "wrote (V z a) s m s1 m1 []"
      "out_finger s1 = out_base s + 4" "out_boundry s1 = out_boundry s"
    using flush_wrote [OF assms] by blast
  have "v_wf (V z a) s1 m1" "out_finger s1 + 4 \<le> out_boundry s1" using 1 assms base_facts [of s m] by (auto simp: wrote_def rec_view_def)
  then show ?thesis
    using putlong_fits [of z a s1 m1 l] 1(1) True wrote_trans [OF 1(2)] by (fastforce simp: xdrrec_putlong_def)
next
  case False
  then show ?thesis using putlong_fits [OF assms, of l] by (simp add: xdrrec_putlong_def)
qed

lemma putbytes_spec:
  "v_wf (V z a) s m \<Longrightarrow> n < 2 ^ 32 \<Longrightarrow> p + n \<le> length m \<Longrightarrow> blk p n \<inter> v_own (V z a) s = {} \<Longrightarrow>
   \<exists>s' m'. putbytes_loop s m p n = Some (True, s', m') \<and> wrote (V z a) s m s' m' (slice m p n)"
proof (induction "2 * n + (if out_finger s = out_boundry s then 1 else 0)" arbitrary: n p s m rule: less_induct)
  case less
  show ?case
  proof (cases "n = 0")
    case True
    then show ?thesis using less.prems(1) by (subst putbytes_loop.simps) (simp add: wrote_def)
  next
    case False
    define k where "k = min n (out_boundry s - out_finger s)"
    have b: "base s m" using less.prems(1) by (simp add: rec_view_def)
    note f = base_facts [OF b]
    define m1 where "m1 = put m (out_finger s) (slice m p k)"
    define s1 where "s1 = s\<lparr>out_finger := out_finger s + k\<rparr>"
    have k: "k \<le> n" "out_finger s + k \<le> out_boundry s" "length (slice m p k) = k" "k < 2 ^ 32"
      using f less.prems(2,3) by (auto simp: k_def)
    have bc: "bcopy m p (out_finger s) (of_nat k) = Some m1"
      using k less.prems(3) f by (subst bcopy_put) (auto simp: unat_of_nat m1_def)
    have w1: "wrote (V z a) s m s1 m1 (slice m p k)" using put_wrote [OF less.prems(1), of "slice m p k"] k by (simp add: m1_def s1_def)
    have next_spec: "\<exists>s' m'. putbytes_loop s2 m2 (p + k) (n - k) = Some (True, s', m') \<and> wrote (V z a) s m s' m' (slice m p n)"
      if w2: "wrote (V z a) s m s2 m2 (slice m p k)" and less2: "2 * (n - k) + (if out_finger s2 = out_boundry s2 then 1 else 0) <
        2 * n + (if out_finger s = out_boundry s then 1 else (0 :: nat))" for s2 m2
    proof -
      have so: "same_off (v_own (V z a) s) m m2" "v_own (V z a) s2 = v_own (V z a) s" "v_wf (V z a) s2 m2" using w2 by (auto simp: wrote_def)
      have bl: "blk (p + k) (n - k) \<subseteq> blk p n" using k by (auto simp: blk_def)
      have "slice m2 (p + k) (n - k) = slice m (p + k) (n - k)" using bl less.prems(4) by (intro slice_same_off [OF so(1)]) auto
      moreover have "\<exists>s' m'. putbytes_loop s2 m2 (p + k) (n - k) = Some (True, s', m') \<and> wrote (V z a) s2 m2 s' m' (slice m2 (p + k) (n - k))"
      proof (rule less.hyps [OF less2 so(3)])
        show "p + k + (n - k) \<le> length m2" using less.prems(3) k(1) same_off_length [OF so(1)] by simp
        show "blk (p + k) (n - k) \<inter> v_own (V z a) s2 = {}" using bl less.prems(4) so(2) by auto
      qed (use less.prems(2) in simp)
      moreover have "slice m p n = slice m p k @ slice m (p + k) (n - k)" using slice_add [of m p k "n - k"] k by simp
      ultimately show ?thesis using wrote_trans [OF w2] by auto
    qed
    have step: "putbytes_loop s m p n = (if out_finger s1 = out_boundry s1 then
        Option.bind (flush_out (s1\<lparr>frag_sent := True\<rparr>) m1 False) (\<lambda>x.
          if fst x then putbytes_loop (fst (snd x)) (snd (snd x)) (p + k) (n - k) else Some (False, snd x))
      else putbytes_loop s1 m1 (p + k) (n - k))"
      using False bc by (subst putbytes_loop.simps) (simp only: k_def [symmetric] s1_def [symmetric] Let_def bind.bind_lunit if_False)
    show ?thesis
    proof (cases "out_finger s1 = out_boundry s1")
      case True
      obtain s2 m2 where 2: "flush_out (s1\<lparr>frag_sent := True\<rparr>) m1 False = Some (True, s2, m2)" "wrote (V z a) s1 m1 s2 m2 []"
          "out_finger s2 = out_base s1 + 4" "out_boundry s2 = out_boundry s1"
        using flush_wrote [of z a s1 m1] w1 by (auto simp: wrote_def)
      have "wrote (V z a) s m s2 m2 (slice m p k)" using wrote_trans [OF w1 2(2)] by simp
      moreover have "out_finger s2 \<noteq> out_boundry s2" using 2(3,4) f by (simp add: s1_def)
      moreover have "k = 0 \<Longrightarrow> out_finger s = out_boundry s" using False f(3) by (auto simp: k_def)
      ultimately show ?thesis
        using next_spec [of s2 m2] k(1) 2(1) True False unfolding step by (cases "k = 0") auto
    next
      case nf: False
      then have "0 < k" using False f(3) by (auto simp: k_def s1_def)
      then show ?thesis
        using next_spec [OF w1] nf k(1) False unfolding step by simp
    qed
  qed
qed

end

end
