(* ===== verification/RecRead.thy ===== *)
theory RecRead
  imports RecConn
begin

unbundle bit_operations_syntax

text \<open>
  Reading from record streams: the bytes of the input buffer and of the connection, fragment by fragment, up to the end of a
  record, and with the lemmas on writing the contract \<open>xdr_stream\<close> for the streams over any connection \<open>rec_conn\<close>.
\<close>

section \<open>Reading\<close>

text \<open>The input side moves on: what is written stays as it is, and memory changes in the input buffer and in \<open>A\<close>.\<close>

definition in_move :: "('t RECSTREAM \<Rightarrow> mem \<Rightarrow> bool) \<Rightarrow> ('t \<Rightarrow> byte list) \<Rightarrow> ptr set \<Rightarrow> 't RECSTREAM \<Rightarrow> mem \<Rightarrow> 't RECSTREAM \<Rightarrow> mem \<Rightarrow> bool" where
  "in_move B sent A s m s' m' \<longleftrightarrow> B s' m' \<and> out_base s' = out_base s \<and> out_finger s' = out_finger s \<and> out_boundry s' = out_boundry s
     \<and> frag_header s' = frag_header s \<and> in_base s' = in_base s \<and> in_size s' = in_size s \<and> sent (tcp_handle s') = sent (tcp_handle s)
     \<and> same_off (in_area s \<union> A) m m'"

lemma in_move_trans: "in_move B sent A s m s' m' \<Longrightarrow> in_move B sent A' s' m' s'' m'' \<Longrightarrow> in_move B sent (A \<union> A') s m s'' m''"
  unfolding in_move_def in_area_def by (auto simp: same_off_def)

lemma in_move_mono: "in_move B sent A s m s' m' \<Longrightarrow> A \<subseteq> A' \<Longrightarrow> in_move B sent A' s m s' m'"
  unfolding in_move_def by (auto intro: same_off_mono)

text \<open>Where bytes are put, and that they came there.\<close>

definition sink_area :: "sink \<Rightarrow> nat \<Rightarrow> ptr set" where
  "sink_area d n = (case d of Addr p \<Rightarrow> blk p n | Var bs \<Rightarrow> {})"

definition sink_ok :: "sink \<Rightarrow> nat \<Rightarrow> mem \<Rightarrow> bool" where
  "sink_ok d n m \<longleftrightarrow> (case d of Addr p \<Rightarrow> p + n \<le> length m | Var bs \<Rightarrow> True)"

definition sink_got :: "sink \<Rightarrow> mem \<Rightarrow> byte list \<Rightarrow> sink \<Rightarrow> bool" where
  "sink_got d m xs d' \<longleftrightarrow> (case d of Addr p \<Rightarrow> d' = Addr (p + length xs) \<and> slice m p (length xs) = xs | Var bs \<Rightarrow> d' = Var (bs @ xs))"

lemma sink_got_Nil [simp]: "sink_got d m [] d' \<longleftrightarrow> d' = d"
  by (auto simp: sink_got_def split: sink.splits)

lemma copy_in_spec:
  assumes "p + n \<le> length m" "n < 2 ^ 32" "sink_ok d n m"
  shows "\<exists>m' d'. copy_in m p d n = Some (m', d') \<and> same_off (sink_area d n) m m' \<and> sink_got d m' (slice m p n) d'"
proof (cases d)
  case (Addr q)
  have "bcopy m p q (of_nat n) = Some (put m q (slice m p n))"
    using assms Addr by (subst bcopy_put) (auto simp: unat_of_nat sink_ok_def)
  moreover have "slice (put m q (slice m p n)) q n = slice m p n" using slice_put_same [of q "slice m p n" m] assms Addr by (simp add: sink_ok_def)
  ultimately show ?thesis using Addr assms same_off_put [of q "slice m p n" m]
    by (simp add: copy_in_def sink_area_def sink_got_def sink_ok_def)
next
  case (Var bs)
  then show ?thesis using assms by (simp add: copy_in_def sink_area_def sink_got_def)
qed

lemma sink_split:
  "k \<le> n \<Longrightarrow> sink_area d n = sink_area d k \<union> (case d of Addr p \<Rightarrow> blk (p + k) (n - k) | Var bs \<Rightarrow> {})"
  using blk_add [of _ k "n - k"] by (auto simp: sink_area_def split: sink.splits)

lemma sink_later:
  assumes "sink_got d m xs d1" "length xs \<le> n"
  shows "sink_area d1 (n - length xs) \<subseteq> sink_area d n" "sink_ok d n m \<Longrightarrow> sink_ok d1 (n - length xs) m"
    "sink_area d1 (n - length xs) \<inter> sink_area d (length xs) = {}"
  using assms by (auto simp: sink_got_def sink_area_def sink_ok_def blk_def split: sink.splits)

lemma sink_got_append:
  assumes "sink_got d m xs d1" "sink_got d1 m' ys d2" "same_off A m m'" "A \<inter> sink_area d (length xs) = {}"
  shows "sink_got d m' (xs @ ys) d2"
proof (cases d)
  case (Addr p)
  then have "slice m' p (length xs) = xs" using assms slice_same_off [of A m m' p "length xs"] by (auto simp: sink_got_def sink_area_def)
  then show ?thesis using Addr assms(1,2) by (auto simp: sink_got_def slice_add add.assoc)
qed (use assms(1,2) in \<open>auto simp: sink_got_def\<close>)

context rec_conn
begin

lemma fill_spec:
  assumes "base s m" "in_finger s = in_boundry s" "pending (tcp_handle s) \<noteq> []"
  shows "\<exists>s' m'. fill_input_buf s m = Some (True, s', m') \<and> in_move base sent {} s m s' m' \<and> in_wire pending s' m' = in_wire pending s m
    \<and> in_finger s' < in_boundry s' \<and> fbtbc s' = fbtbc s \<and> last_frag s' = last_frag s"
proof -
  note f = base_facts [OF assms(1)]
  let ?i = "in_boundry s mod 4" and ?w = "in_base s + in_boundry s mod 4"
  have i: "?i < 4" by simp
  have sz: "in_size s - of_nat ?i = of_nat (unat (in_size s) - ?i)" using i f(10) by (simp add: of_nat_diff)
  have "unat (in_size s) - ?i < 2 ^ 31" using f(11) by linarith
  then have n: "nat (sint (in_size s - of_nat ?i)) = unat (in_size s) - ?i" unfolding sz by (simp add: sint_addr)
  have "0 < unat (in_size s) - ?i" using i f(10) by linarith
  moreover have "live (tcp_handle s)" using assms(1) by (simp add: rec_base_def)
  ultimately obtain bs t' where t': "rd (tcp_handle s) (unat (in_size s) - ?i) = (Some bs, t')" "bs \<noteq> []" "length bs \<le> unat (in_size s) - ?i"
      "pending (tcp_handle s) = bs @ pending t'" "sent t' = sent (tcp_handle s)" "live t'"
    using reads [of "tcp_handle s" "unat (in_size s) - ?i"] assms(3) by blast
  let ?s = "s\<lparr>tcp_handle := t', in_finger := ?w, in_boundry := ?w + length bs\<rparr>" and ?m = "put m ?w bs"
  have w: "?w + length bs \<le> in_base s + unat (in_size s)" using t'(3) i f(10) by linarith
  have so: "same_off (blk ?w (length bs)) m ?m" using w f by (intro same_off_put) simp
  have "fill_input_buf s m = Some (True, ?s, ?m)"
    using n t'(1) w f assms(1) by (simp add: fill_input_buf_def Let_def rec_base_def)
  moreover have "same_off (in_area s) m ?m" by (rule same_off_mono [OF so]) (use w in \<open>auto simp: blk_def in_area_def\<close>)
  moreover have "base ?s ?m" using assms(1) t'(6) w f so by (auto simp: rec_base_def out_ok_def in_ok_def same_off_def)
  moreover have "in_wire pending ?s ?m = in_wire pending s m"
    using t'(4) slice_put_same [of ?w bs m] w f assms(2) by (simp add: in_wire_def)
  ultimately show ?thesis using t'(2,5) by (auto simp: in_move_def)
qed

lemma copy_step:
  assumes b: "base s m" and w: "in_wire pending s m = ys @ w" and k: "k = length ys" "in_finger s + k \<le> in_boundry s"
    and ok: "k < 2 ^ 32" "sink_ok d k m" "sink_area d k \<inter> in_area s = {}"
  shows "\<exists>m1 d1. copy_in m (in_finger s) d k = Some (m1, d1) \<and> in_move base sent (sink_area d k) s m (s\<lparr>in_finger := in_finger s + k\<rparr>) m1
    \<and> in_wire pending (s\<lparr>in_finger := in_finger s + k\<rparr>) m1 = w \<and> sink_got d m1 ys d1 \<and> same_off (sink_area d k) m m1"
proof -
  note f = base_facts [OF b]
  let ?s = "s\<lparr>in_finger := in_finger s + k\<rparr>"
  have "slice m (in_finger s) (in_boundry s - in_finger s) = slice m (in_finger s) k @ slice m (in_finger s + k) (in_boundry s - (in_finger s + k))"
    using slice_join [of "in_finger s" "in_finger s + k" "in_boundry s" m] k(2) by simp
  moreover have "length (slice m (in_finger s) k) = k" using k(2) f by (intro length_slice) simp
  ultimately have ys: "slice m (in_finger s) k = ys"
      and rest: "slice m (in_finger s + k) (in_boundry s - (in_finger s + k)) @ pending (tcp_handle s) = w"
    using w k(1) unfolding in_wire_def by (auto simp: append_eq_append_conv)
  obtain m1 d1 where 1: "copy_in m (in_finger s) d k = Some (m1, d1)" "same_off (sink_area d k) m m1" "sink_got d m1 ys d1"
    using copy_in_spec [of "in_finger s" k m d] k f ok ys by auto
  have "same_off (in_area s \<union> sink_area d k) m m1" by (rule same_off_mono [OF 1(2)]) simp
  then have "in_move base sent (sink_area d k) s m ?s m1"
    using b k f by (auto simp: in_move_def rec_base_def out_ok_def in_ok_def same_off_def)
  moreover have "{in_finger s + k..<in_boundry s} \<subseteq> in_area s" using f by (auto simp: in_area_def)
  then have "sink_area d k \<inter> {in_finger s + k..<in_boundry s} = {}" using ok(3) by blast
  then have "in_wire pending ?s m1 = w" using slice_range [OF 1(2)] rest by (simp add: in_wire_def)
  ultimately show ?thesis using 1 by blast
qed

lemma get_input_spec:
  "base s m \<Longrightarrow> in_wire pending s m = xs @ w \<Longrightarrow> length xs < 2 ^ 32 \<Longrightarrow> sink_ok d (length xs) m \<Longrightarrow>
   sink_area d (length xs) \<inter> in_area s = {} \<Longrightarrow>
   \<exists>d' s' m'. get_input_bytes s m d (length xs) = Some (True, d', s', m') \<and> in_move base sent (sink_area d (length xs)) s m s' m'
     \<and> in_wire pending s' m' = w \<and> sink_got d m' xs d' \<and> fbtbc s' = fbtbc s \<and> last_frag s' = last_frag s"
proof (induction "2 * length xs + (if in_finger s = in_boundry s then 1 else 0)" arbitrary: xs s m d rule: less_induct)
  case less
  let ?A = "sink_area d (length xs)"
  consider "xs = []" | (fill) "xs \<noteq> []" "in_finger s = in_boundry s" | (copy) "xs \<noteq> []" "in_finger s < in_boundry s"
    using base_facts(8) [OF less.prems(1)] by fastforce
  then show ?case
  proof cases
    case 1
    then show ?thesis using less.prems(1,2) by (subst get_input_bytes.simps) (simp add: in_move_def)
  next
    case fill
    then have "pending (tcp_handle s) \<noteq> []" using less.prems(2) by (auto simp: in_wire_def)
    then obtain s1 m1 where 1: "fill_input_buf s m = Some (True, s1, m1)" "in_move base sent {} s m s1 m1"
        "in_wire pending s1 m1 = in_wire pending s m" "in_finger s1 < in_boundry s1" "fbtbc s1 = fbtbc s" "last_frag s1 = last_frag s"
      using fill_spec [OF less.prems(1) fill(2)] by blast
    have a: "base s1 m1" "in_area s1 = in_area s" "sink_ok d (length xs) m1"
      using 1(2) less.prems(4) by (auto simp: in_move_def in_area_def sink_ok_def same_off_def split: sink.splits)
    obtain d' s' m' where 2: "get_input_bytes s1 m1 d (length xs) = Some (True, d', s', m')" "in_move base sent ?A s1 m1 s' m'"
        "in_wire pending s' m' = w" "sink_got d m' xs d'" "fbtbc s' = fbtbc s1" "last_frag s' = last_frag s1"
      using less.hyps [of xs s1 m1 d] less.prems 1(3,4) a fill by auto
    have "get_input_bytes s m d (length xs) = Some (True, d', s', m')"
      using fill 1(1) 2(1) by (subst get_input_bytes.simps) simp
    then show ?thesis using in_move_trans [OF 1(2) 2(2)] 2 1 by auto
  next
    case copy
    define k ys zs where "k = min (length xs) (in_boundry s - in_finger s)" and "ys = take k xs" and "zs = drop k xs"
    have k: "0 < k" "k \<le> length xs" "k = length ys" "in_finger s + k \<le> in_boundry s" "xs = ys @ zs" "length xs - k = length zs"
      using copy by (auto simp: k_def ys_def zs_def)
    have ka: "sink_area d k \<subseteq> ?A" "sink_ok d k m"
      using sink_split [OF k(2), of d] less.prems(4) k(2) by (auto simp: sink_ok_def split: sink.splits)
    define s1 where "s1 = s\<lparr>in_finger := in_finger s + k\<rparr>"
    obtain m1 d1 where 1: "copy_in m (in_finger s) d k = Some (m1, d1)" "in_move base sent (sink_area d k) s m s1 m1"
        "in_wire pending s1 m1 = zs @ w" "sink_got d m1 ys d1" "same_off (sink_area d k) m m1"
      using copy_step [OF less.prems(1) _ k(3,4), of "zs @ w" d] ka k less.prems(2,3,5) unfolding s1_def by auto
    have l1: "sink_area d1 (length zs) \<subseteq> ?A" "sink_ok d1 (length zs) m1" "sink_area d1 (length zs) \<inter> sink_area d k = {}"
      using sink_later [OF 1(4), of "length xs"] k less.prems(4) same_off_length [OF 1(5)] by (auto simp: sink_ok_def split: sink.splits)
    have "sink_area d1 (length zs) \<inter> in_area s1 = {}" using l1(1) less.prems(5) by (auto simp: s1_def in_area_def)
    moreover have "2 * length zs + (if in_finger s1 = in_boundry s1 then 1 else 0) < 2 * length xs + (if in_finger s = in_boundry s then 1 else 0)"
      using k(1,2,6) by auto
    moreover have "base s1 m1" "length zs < 2 ^ 32" using 1(2) less.prems(3) k(5) by (auto simp: in_move_def)
    ultimately obtain d' s' m' where 2: "get_input_bytes s1 m1 d1 (length zs) = Some (True, d', s', m')"
        "in_move base sent (sink_area d1 (length zs)) s1 m1 s' m'" "in_wire pending s' m' = w" "sink_got d1 m' zs d'"
        "fbtbc s' = fbtbc s1" "last_frag s' = last_frag s1"
      using less.hyps [of zs s1 m1 d1] 1(3) l1(2) by blast
    have "get_input_bytes s m d (length xs) = Some (True, d', s', m')"
      using copy 1(1) 2(1) k(6) by (subst get_input_bytes.simps) (simp add: k_def [symmetric] s1_def [symmetric] Let_def)
    moreover have "in_move base sent ?A s m s' m'" using in_move_mono [OF in_move_trans [OF 1(2) 2(2)], of ?A] l1(1) ka by auto
    moreover have "sink_got d m' (ys @ zs) d'"
    proof (rule sink_got_append [OF 1(4) 2(4)])
      show "same_off (in_area s1 \<union> sink_area d1 (length zs)) m1 m'" using 2(2) by (simp add: in_move_def)
      show "(in_area s1 \<union> sink_area d1 (length zs)) \<inter> sink_area d (length ys) = {}"
        using l1(3) ka(1) less.prems(5) k(3) by (auto simp: s1_def in_area_def)
    qed
    ultimately show ?thesis using 2 k(5) by (auto simp: s1_def)
  qed
qed

end

section \<open>Fragments and records\<close>

lemma le32_bytes:
  "le32 (ucast a OR push_bit 8 (ucast b) OR push_bit 16 (ucast c) OR push_bit 24 (ucast d)) = [a, b, c, d]" for a b c d :: byte
  unfolding le32_def by (intro list.inject [THEN iffD2] conjI refl; rule bit_word_eqI; auto simp: bit_simps dest: bit_imp_le_length)

lemma header_split: "4 \<le> length w \<Longrightarrow> w = be32 (header w) @ drop 4 w"
proof -
  assume "4 \<le> length w"
  then obtain a b c d v where w: "w = a # b # c # d # v" by (auto simp: numeral_eq_Suc Suc_le_length_iff)
  have "load32 w 0 = Some (ucast a OR push_bit 8 (ucast b) OR push_bit 16 (ucast c) OR push_bit 24 (ucast d))"
    by (simp add: w load32_def load_def numeral_eq_Suc)
  then have "be32 (header w) = [a, b, c, d]" using le32_bytes [of a b c d] bytes_htonl [of "header w"] by (simp add: header_def)
  then show ?thesis by (simp add: w)
qed

lemma rest_rec_len: "rest_rec n l w = Some r \<Longrightarrow> n \<le> length w"
  by (subst (asm) rest_rec.simps) (auto split: if_splits)

lemma rest_rec_0: "rest_rec 0 l w = Some (r, a) \<Longrightarrow> r \<noteq> [] \<Longrightarrow> \<not> l \<and> 4 \<le> length w"
  by (subst (asm) rest_rec.simps) (auto split: if_splits)

lemma rest_rec_take:
  assumes "rest_rec n l w = Some (r, a)" "k \<le> n"
  shows "k \<le> length w \<and> take k r = take k w \<and> rest_rec (n - k) l (drop k w) = Some (drop k r, a)"
proof -
  have n: "n \<le> length w" by (rule rest_rec_len [OF assms(1)])
  show ?thesis
  proof (cases l)
    case True
    then show ?thesis using assms n rest_rec.simps [of n True w] rest_rec.simps [of "n - k" True "drop k w"] by (auto simp: take_drop min_def)
  next
    case False
    obtain r' where r: "rest_rec 0 False (drop n w) = Some (r', a)" "r = take n w @ r'"
      using assms(1) n rest_rec_next [of n w] False by auto
    have "rest_rec (n - k) False (drop k w) = Some (take (n - k) (drop k w) @ r', a)"
      using rest_rec_next [of "n - k" "drop k w"] assms(2) n r(1) by simp
    moreover have "drop k r = take (n - k) (drop k w) @ r'" using r(2) assms(2) n by (simp add: drop_take)
    ultimately show ?thesis using assms(2) n r(2) False by (auto simp: min_def)
  qed
qed

lemma h_len_bound: "h_len h < 2 ^ 31"
proof -
  have "h AND NOT LAST_FRAG = take_bit 31 h"
    by (rule bit_word_eqI) (auto simp: bit_and_iff bit_not_iff bit_LAST_FRAG bit_take_bit_iff)
  then show ?thesis by (simp add: h_len_def unsigned_take_bit_eq take_bit_nat_less_exp [where n = 31, simplified])
qed

lemma in_move_fields:
  "unat n < 2 ^ 31 \<Longrightarrow> in_move (rec_base rd wr live) sent A s m s' m' \<Longrightarrow> in_move (rec_base rd wr live) sent A s m (s'\<lparr>last_frag := l, fbtbc := n\<rparr>) m'"
  "unat n < 2 ^ 31 \<Longrightarrow> in_move (rec_base rd wr live) sent A s m s' m' \<Longrightarrow> in_move (rec_base rd wr live) sent A s m (s'\<lparr>fbtbc := n\<rparr>) m'"
  by (auto simp: in_move_def rec_base_def out_ok_def in_ok_def)

context rec_conn
begin

lemma set_frag_spec:
  assumes "base s m" "in_wire pending s m = be32 h @ w"
  shows "\<exists>s' m'. set_input_fragment s m = Some (True, s', m') \<and> in_move base sent {} s m s' m' \<and> in_wire pending s' m' = w
    \<and> last_frag s' = h_last h \<and> unat (fbtbc s') = h_len h"
proof -
  obtain d' s' m' where 1: "get_input_bytes s m (Var []) 4 = Some (True, d', s', m')" "in_move base sent {} s m s' m'"
      "in_wire pending s' m' = w" "sink_got (Var []) m' (be32 h) d'"
    using get_input_spec [OF assms, of "Var []"] by (auto simp: sink_ok_def sink_area_def)
  let ?s = "s'\<lparr>last_frag := h AND LAST_FRAG \<noteq> 0, fbtbc := h AND NOT LAST_FRAG\<rparr>"
  have "load32 (be32 h) 0 = Some (htonl h)" using load32_le32 [of "htonl h" "[]"] by (simp add: bytes_htonl)
  then have "set_input_fragment s m = Some (True, ?s, m')"
    using 1(1,4) by (simp add: set_input_fragment_def sink_got_def ntohl_htonl)
  moreover have "in_move base sent {} s m ?s m'" using h_len_bound [of h] by (intro in_move_fields 1(2)) (simp add: h_len_def)
  moreover have "in_wire pending ?s m' = w" using 1(3) by (simp add: in_wire_def)
  ultimately show ?thesis by (auto simp: h_last_def h_len_def)
qed

lemma next_frag_spec:
  assumes "base s m" "in_rest pending s m = Some (r, a)" "fbtbc s = 0" "\<not> last_frag s"
  shows "\<exists>s' m'. set_input_fragment s m = Some (True, s', m') \<and> in_move base sent {} s m s' m' \<and> in_rest pending s' m' = Some (r, a)
    \<and> length (in_wire pending s m) = length (in_wire pending s' m') + 4"
proof -
  let ?w = "in_wire pending s m"
  have r: "rest_rec 0 False ?w = Some (r, a)" using assms by (simp add: in_rest_def)
  then have l: "4 \<le> length ?w" by (subst (asm) rest_rec.simps) (auto split: if_splits)
  obtain s' m' where 1: "set_input_fragment s m = Some (True, s', m')" "in_move base sent {} s m s' m'" "in_wire pending s' m' = drop 4 ?w"
      "last_frag s' = h_last (header ?w)" "unat (fbtbc s') = h_len (header ?w)"
    using set_frag_spec [OF assms(1) header_split [OF l]] by blast
  then have "in_rest pending s' m' = Some (r, a)" using rest_rec_head [OF l] r by (simp add: in_rest_def)
  then show ?thesis using 1 l by auto
qed

text \<open>A step of the loop within a fragment.\<close>

lemma frag_step:
  assumes b: "base s m" and r: "in_rest pending s m = Some (ys @ r, a)" and k: "k = length ys" "k \<le> unat (fbtbc s)" "k < 2 ^ 32"
    and d: "sink_ok d k m" "sink_area d k \<inter> in_area s = {}"
  shows "\<exists>d1 s0 m1. get_input_bytes s m d k = Some (True, d1, s0, m1)
    \<and> in_move base sent (sink_area d k) s m (s0\<lparr>fbtbc := fbtbc s0 - of_nat k\<rparr>) m1 \<and> sink_got d m1 ys d1
    \<and> in_rest pending (s0\<lparr>fbtbc := fbtbc s0 - of_nat k\<rparr>) m1 = Some (r, a)
    \<and> length (in_wire pending s m) = length (in_wire pending (s0\<lparr>fbtbc := fbtbc s0 - of_nat k\<rparr>) m1) + k"
proof -
  let ?w = "in_wire pending s m" and ?n = "unat (fbtbc s)"
  have q: "k \<le> length ?w" "ys = take k ?w" "rest_rec (?n - k) (last_frag s) (drop k ?w) = Some (r, a)"
    using rest_rec_take [OF r [unfolded in_rest_def] k(2)] k(1) by auto
  have w: "?w = ys @ drop k ?w" using q(2) append_take_drop_id [of k ?w] by argo
  obtain d1 s0 m1 where 0: "get_input_bytes s m d k = Some (True, d1, s0, m1)" "in_move base sent (sink_area d k) s m s0 m1"
      "in_wire pending s0 m1 = drop k ?w" "sink_got d m1 ys d1" "fbtbc s0 = fbtbc s" "last_frag s0 = last_frag s"
    using get_input_spec [OF b w, of d, folded k(1)] k(3) d by blast
  have u: "unat (fbtbc s0 - of_nat k) = ?n - k" using k(2,3) 0(5) by (simp add: unat_sub_if_size unat_of_nat word_le_nat_alt)
  have "unat (fbtbc s0 - of_nat k) < 2 ^ 31" unfolding u using base_facts(14) [OF b] by simp
  then have "in_move base sent (sink_area d k) s m (s0\<lparr>fbtbc := fbtbc s0 - of_nat k\<rparr>) m1" by (rule in_move_fields [OF _ 0(2)])
  moreover have "in_wire pending (s0\<lparr>fbtbc := fbtbc s0 - of_nat k\<rparr>) m1 = drop k ?w" using 0(3) by (simp add: in_wire_def)
  ultimately show ?thesis using 0(1,4,6) u q(1,3) by (auto simp: in_rest_def)
qed

lemma getbytes_spec:
  "base s m \<Longrightarrow> in_rest pending s m = Some (xs @ bs, a) \<Longrightarrow> length xs < 2 ^ 32 \<Longrightarrow> sink_ok d (length xs) m \<Longrightarrow>
   sink_area d (length xs) \<inter> in_area s = {} \<Longrightarrow>
   \<exists>d' s' m'. getbytes_loop s m d (length xs) = Some (True, d', s', m') \<and> in_move base sent (sink_area d (length xs)) s m s' m'
     \<and> in_rest pending s' m' = Some (bs, a) \<and> sink_got d m' xs d'"
proof (induction "length xs + length (in_wire pending s m)" arbitrary: xs s m d rule: less_induct)
  case less
  let ?A = "sink_area d (length xs)" and ?n = "unat (fbtbc s)"
  consider "xs = []" | (head) "xs \<noteq> []" "fbtbc s = 0" | (copy) "xs \<noteq> []" "fbtbc s \<noteq> 0" by blast
  then show ?case
  proof cases
    case 1
    then show ?thesis using less.prems(1,2) by (subst getbytes_loop.simps) (simp add: in_move_def)
  next
    case head
    then have nl: "\<not> last_frag s" using rest_rec_0 less.prems(2) by (auto simp: in_rest_def)
    then obtain s1 m1 where 1: "set_input_fragment s m = Some (True, s1, m1)" "in_move base sent {} s m s1 m1"
        "in_rest pending s1 m1 = Some (xs @ bs, a)" "length (in_wire pending s m) = length (in_wire pending s1 m1) + 4"
      using next_frag_spec [OF less.prems(1,2) head(2)] by blast
    have "base s1 m1" "in_area s1 = in_area s" "sink_ok d (length xs) m1"
      using 1(2) less.prems(4) by (auto simp: in_move_def in_area_def sink_ok_def same_off_def split: sink.splits)
    then obtain d' s' m' where 2: "getbytes_loop s1 m1 d (length xs) = Some (True, d', s', m')" "in_move base sent ?A s1 m1 s' m'"
        "in_rest pending s' m' = Some (bs, a)" "sink_got d m' xs d'"
      using less.hyps [of xs s1 m1 d] less.prems(3,5) 1(3,4) by auto
    have "getbytes_loop s m d (length xs) = Some (True, d', s', m')"
      using head nl 1(1) 2(1) by (subst getbytes_loop.simps) simp
    then show ?thesis using in_move_trans [OF 1(2) 2(2)] 2 by auto
  next
    case copy
    define k ys zs where "k = min (length xs) ?n" and "ys = take k xs" and "zs = drop k xs"
    have k: "0 < k" "k \<le> length xs" "k \<le> ?n" "k = length ys" "xs = ys @ zs" "length xs - k = length zs"
      using copy by (auto simp: k_def ys_def zs_def unat_gt_0)
    have ka: "sink_area d k \<subseteq> ?A" "sink_ok d k m" "k < 2 ^ 32"
      using sink_split [OF k(2), of d] less.prems(3,4) k(2) by (auto simp: sink_ok_def split: sink.splits)
    have "sink_area d k \<inter> in_area s = {}" "in_rest pending s m = Some (ys @ zs @ bs, a)" using ka(1) less.prems(2,5) k(5) by auto
    then obtain d1 s0 m1 where 0: "get_input_bytes s m d k = Some (True, d1, s0, m1)"
        "in_move base sent (sink_area d k) s m (s0\<lparr>fbtbc := fbtbc s0 - of_nat k\<rparr>) m1" "sink_got d m1 ys d1"
        "in_rest pending (s0\<lparr>fbtbc := fbtbc s0 - of_nat k\<rparr>) m1 = Some (zs @ bs, a)"
        "length (in_wire pending s m) = length (in_wire pending (s0\<lparr>fbtbc := fbtbc s0 - of_nat k\<rparr>) m1) + k"
      using frag_step [OF less.prems(1) _ k(4,3) ka(3,2), of "zs @ bs" a] by blast
    define s1 where "s1 = s0\<lparr>fbtbc := fbtbc s0 - of_nat k\<rparr>"
    note mv = 0(2) [folded s1_def] and in1 = 0(4,5) [folded s1_def]
    have l1: "sink_area d1 (length zs) \<subseteq> ?A" "sink_ok d1 (length zs) m1" "sink_area d1 (length zs) \<inter> sink_area d k = {}"
      using sink_later [OF 0(3), of "length xs"] k less.prems(4) mv by (auto simp: sink_ok_def in_move_def same_off_def split: sink.splits)
    have ar: "in_area s1 = in_area s" using mv by (simp add: in_move_def in_area_def)
    then have "sink_area d1 (length zs) \<inter> in_area s1 = {}" using l1(1) less.prems(5) by auto
    then obtain d' s' m' where 2: "getbytes_loop s1 m1 d1 (length zs) = Some (True, d', s', m')"
        "in_move base sent (sink_area d1 (length zs)) s1 m1 s' m'" "in_rest pending s' m' = Some (bs, a)" "sink_got d1 m' zs d'"
      using less.hyps [of zs s1 m1 d1] in1 l1(2) mv k(1,5) less.prems(3) by (auto simp: in_move_def [of _ _ _ s m s1])
    have "getbytes_loop s m d (length xs) = Some (True, d', s', m')"
      using copy 0(1) 2(1) k(6) by (subst getbytes_loop.simps) (simp add: k_def [symmetric] s1_def [symmetric] Let_def)
    moreover have "in_move base sent ?A s m s' m'" using in_move_mono [OF in_move_trans [OF mv 2(2)], of ?A] l1(1) ka by auto
    moreover have "sink_got d m' (ys @ zs) d'"
    proof (rule sink_got_append [OF 0(3) 2(4)])
      show "same_off (in_area s1 \<union> sink_area d1 (length zs)) m1 m'" using 2(2) by (simp add: in_move_def)
      show "(in_area s1 \<union> sink_area d1 (length zs)) \<inter> sink_area d (length ys) = {}"
        using l1(3) ka(1) less.prems(5) k(4) ar by auto
    qed
    ultimately show ?thesis using 2 k(5) by auto
  qed
qed

lemma getlong_spec:
  assumes b: "base s m" and r: "in_rest pending s m = Some (be32 l @ bs, a)"
  shows "\<exists>s' m'. xdrrec_getlong s m = Some (Some l, s', m') \<and> in_move base sent {} s m s' m' \<and> in_rest pending s' m' = Some (bs, a)"
proof (cases "4 \<le> fbtbc s \<and> 4 \<le> in_boundry s - in_finger s")
  case True
  have n: "4 \<le> unat (fbtbc s)" using True by (simp add: word_le_nat_alt)
  let ?w = "in_wire pending s m" and ?s = "s\<lparr>fbtbc := fbtbc s - 4, in_finger := in_finger s + 4\<rparr>"
  have q: "take 4 ?w = be32 l" "rest_rec (unat (fbtbc s) - 4) (last_frag s) (drop 4 ?w) = Some (bs, a)"
    using rest_rec_take [OF r [unfolded in_rest_def] n] by auto
  then have w: "?w = be32 l @ drop 4 ?w" using append_take_drop_id [of 4 ?w] by argo
  have le: "in_finger s + 4 \<le> in_boundry s" "in_boundry s \<le> length m" using True base_facts [OF b] by auto
  have c: "slice m (in_finger s) 4 = be32 l" "in_move base sent {} s m (s\<lparr>in_finger := in_finger s + 4\<rparr>) m"
      "in_wire pending (s\<lparr>in_finger := in_finger s + 4\<rparr>) m = drop 4 ?w"
    using copy_step [OF b w _ le(1), of "Var []"] le(2)
    by (auto simp: sink_ok_def sink_area_def sink_got_def copy_in_def split: if_splits)
  have u: "unat (fbtbc s - 4) = unat (fbtbc s) - 4" using True by (simp add: unat_sub)
  have e: "?s = s\<lparr>in_finger := in_finger s + 4\<rparr>\<lparr>fbtbc := fbtbc s - 4\<rparr>" by (cases s) simp
  have "in_move base sent {} s m ?s m"
    unfolding e using u base_facts(14) [OF b] by (intro in_move_fields c(2)) simp
  moreover have "load32 m (in_finger s) = Some (htonl l)"
    using c(1) le by (intro load32_slice) (auto simp: bytes_htonl)
  then have "xdrrec_getlong s m = Some (Some l, ?s, m)" using True by (simp add: xdrrec_getlong_def)
  moreover have "in_rest pending ?s m = Some (bs, a)" using q(2) c(3) u by (simp add: in_rest_def in_wire_def)
  ultimately show ?thesis by auto
next
  case False
  obtain d' s' m' where 1: "getbytes_loop s m (Var []) 4 = Some (True, d', s', m')" "in_move base sent {} s m s' m'"
      "in_rest pending s' m' = Some (bs, a)" "sink_got (Var []) m' (be32 l) d'"
    using getbytes_spec [OF b r, of "Var []"] by (auto simp: sink_ok_def sink_area_def)
  have "load32 (be32 l) 0 = Some (htonl l)" using load32_le32 [of "htonl l" "[]"] by (simp add: bytes_htonl)
  then have "xdrrec_getlong s m = Some (Some l, s', m')" using 1(1,4) False by (auto simp: xdrrec_getlong_def sink_got_def)
  then show ?thesis using 1(2,3) by blast
qed

lemma skip_input_spec:
  "base s m \<Longrightarrow> in_wire pending s m = xs @ w \<Longrightarrow> length xs < 2 ^ 32 \<Longrightarrow>
   \<exists>s' m'. skip_input_bytes s m (length xs) = Some (True, s', m') \<and> in_move base sent {} s m s' m'
     \<and> in_wire pending s' m' = w \<and> fbtbc s' = fbtbc s \<and> last_frag s' = last_frag s"
proof (induction "2 * length xs + (if in_finger s = in_boundry s then 1 else 0)" arbitrary: xs s m rule: less_induct)
  case less
  consider "xs = []" | (fill) "xs \<noteq> []" "in_finger s = in_boundry s" | (copy) "xs \<noteq> []" "in_finger s < in_boundry s"
    using base_facts(8) [OF less.prems(1)] by fastforce
  then show ?case
  proof cases
    case 1
    then show ?thesis using less.prems(1,2) by (subst skip_input_bytes.simps) (simp add: in_move_def)
  next
    case fill
    then have "pending (tcp_handle s) \<noteq> []" using less.prems(2) by (auto simp: in_wire_def)
    then obtain s1 m1 where 1: "fill_input_buf s m = Some (True, s1, m1)" "in_move base sent {} s m s1 m1"
        "in_wire pending s1 m1 = in_wire pending s m" "in_finger s1 < in_boundry s1" "fbtbc s1 = fbtbc s" "last_frag s1 = last_frag s"
      using fill_spec [OF less.prems(1) fill(2)] by blast
    obtain s' m' where 2: "skip_input_bytes s1 m1 (length xs) = Some (True, s', m')" "in_move base sent {} s1 m1 s' m'"
        "in_wire pending s' m' = w" "fbtbc s' = fbtbc s1" "last_frag s' = last_frag s1"
      using less.hyps [of xs s1 m1] less.prems 1(2,3,4) fill by (auto simp: in_move_def [of _ _ _ s m s1])
    have "skip_input_bytes s m (length xs) = Some (True, s', m')"
      using fill 1(1) 2(1) by (subst skip_input_bytes.simps) simp
    then show ?thesis using in_move_trans [OF 1(2) 2(2)] 2 1 by auto
  next
    case copy
    define k ys zs where "k = min (length xs) (in_boundry s - in_finger s)" and "ys = take k xs" and "zs = drop k xs"
    have k: "0 < k" "k \<le> length xs" "k = length ys" "in_finger s + k \<le> in_boundry s" "xs = ys @ zs" "length xs - k = length zs"
      using copy by (auto simp: k_def ys_def zs_def)
    define s1 where "s1 = s\<lparr>in_finger := in_finger s + k\<rparr>"
    have 1: "in_move base sent {} s m s1 m" "in_wire pending s1 m = zs @ w"
      using copy_step [OF less.prems(1) _ k(3,4), of "zs @ w" "Var []"] base_facts [OF less.prems(1)] k(2,4,5) less.prems(2,3)
      unfolding s1_def by (auto simp: sink_ok_def sink_area_def copy_in_def)
    have b1: "base s1 m" "length zs < 2 ^ 32" using 1(1) less.prems(3) k(5) by (auto simp: in_move_def)
    have "2 * length zs + (if in_finger s1 = in_boundry s1 then 1 else 0) < 2 * length xs + (if in_finger s = in_boundry s then 1 else 0)"
      using k(1,2,6) by auto
    then obtain s' m' where 2: "skip_input_bytes s1 m (length zs) = Some (True, s', m')" "in_move base sent {} s1 m s' m'"
        "in_wire pending s' m' = w" "fbtbc s' = fbtbc s1" "last_frag s' = last_frag s1"
      using less.hyps [OF _ _ 1(2)] b1 by blast
    have "skip_input_bytes s m (length xs) = Some (True, s', m')"
      using copy 2(1) k(6) by (subst skip_input_bytes.simps) (simp add: k_def [symmetric] s1_def [symmetric] Let_def)
    then show ?thesis using in_move_trans [OF 1(1) 2(2)] 2 by (auto simp: s1_def)
  qed
qed

lemma skip_rest_spec:
  "base s m \<Longrightarrow> in_rest pending s m = Some (r, a) \<Longrightarrow>
   \<exists>s' m'. skip_rest s m = Some (True, s', m') \<and> in_move base sent {} s m s' m' \<and> in_wire pending s' m' = a
     \<and> fbtbc s' = 0 \<and> last_frag s'"
proof (induction "length (in_wire pending s m)" arbitrary: s m r rule: less_induct)
  case less
  let ?n = "unat (fbtbc s)" and ?w = "in_wire pending s m"
  have n: "?n < 2 ^ 31" by (rule base_facts(14) [OF less.prems(1)])
  have si: "nat (sint (fbtbc s)) = ?n" "0 < sint (fbtbc s) \<longleftrightarrow> fbtbc s \<noteq> 0"
    using n sint_addr [of ?n] by (auto simp: uint_0_iff order.strict_iff_order)
  have q: "?n \<le> length ?w" "rest_rec 0 (last_frag s) (drop ?n ?w) = Some (drop ?n r, a)"
    using rest_rec_take [OF less.prems(2) [unfolded in_rest_def] order_refl] by auto
  show ?case
  proof (cases "fbtbc s = 0 \<and> last_frag s")
    case True
    then have "skip_rest s m = Some (True, s, m)" by (subst skip_rest.simps) simp
    then show ?thesis using True less.prems q(2) rest_rec.simps [of 0 True ?w] by (auto simp: in_move_def)
  next
    case False
    obtain s0 m1 where 0: "skip_input_bytes s m ?n = Some (True, s0, m1)" "in_move base sent {} s m s0 m1"
        "in_wire pending s0 m1 = drop ?n ?w" "last_frag s0 = last_frag s"
      using skip_input_spec [OF less.prems(1), of "take ?n ?w" "drop ?n ?w"] q(1) n by auto
    define s1 where "s1 = s0\<lparr>fbtbc := 0\<rparr>"
    have mv: "in_move base sent {} s m s1 m1" unfolding s1_def by (rule in_move_fields [OF _ 0(2)]) simp
    then have b1: "base s1 m1" by (simp add: in_move_def)
    have r1: "in_rest pending s1 m1 = Some (drop ?n r, a)" "length (in_wire pending s1 m1) = length ?w - ?n"
      using q(2) 0(3,4) by (auto simp: in_rest_def s1_def in_wire_def)
    have step: "skip_rest s m = (if \<not> last_frag s then Option.bind (set_input_fragment s1 m1) (\<lambda>y.
        if fst y then skip_rest (fst (snd y)) (snd (snd y)) else Some (False, snd y)) else skip_rest s1 m1)"
      using False 0(1,4) by (subst skip_rest.simps) (auto simp: s1_def si)
    show ?thesis
    proof (cases "last_frag s")
      case True
      then have "0 < ?n" using False by (simp add: unat_gt_0)
      then show ?thesis using less.hyps [OF _ b1 r1(1)] r1(2) q(1) True in_move_trans [OF mv] unfolding step by fastforce
    next
      case nl: False
      obtain s2 m2 where 2: "set_input_fragment s1 m1 = Some (True, s2, m2)" "in_move base sent {} s1 m1 s2 m2"
          "in_rest pending s2 m2 = Some (drop ?n r, a)" "length (in_wire pending s1 m1) = length (in_wire pending s2 m2) + 4"
        using next_frag_spec [OF b1 r1(1)] nl 0(4) by (auto simp: s1_def)
      have "base s2 m2" "length (in_wire pending s2 m2) < length ?w" using 2(2,4) r1(2) by (auto simp: in_move_def)
      then show ?thesis
        using less.hyps [OF _ _ 2(3)] 2(1) nl in_move_trans [OF in_move_trans [OF mv 2(2)]] unfolding step by fastforce
    qed
  qed
qed

lemma skiprecord_spec:
  assumes "base s m" "in_rest pending s m = Some (r, a)"
  shows "\<exists>s' m'. xdrrec_skiprecord s m = Some (True, s', m') \<and> in_move base sent {} s m s' m' \<and> in_wire pending s' m' = a
    \<and> fbtbc s' = 0 \<and> \<not> last_frag s'"
proof -
  obtain s' m' where 1: "skip_rest s m = Some (True, s', m')" "in_move base sent {} s m s' m'" "in_wire pending s' m' = a" "fbtbc s' = 0"
    using skip_rest_spec [OF assms] by blast
  then have "in_move base sent {} s m (s'\<lparr>last_frag := False\<rparr>) m'" "in_wire pending (s'\<lparr>last_frag := False\<rparr>) m' = a"
    by (auto simp: in_move_def rec_base_def out_ok_def in_ok_def in_wire_def)
  then show ?thesis using 1 by (auto simp: xdrrec_skiprecord_def)
qed

text \<open>The contract of the filters.\<close>

lemma view_simps:
  "v_wf (V z a) s m \<longleftrightarrow> base s m \<and> open_rec z (out_wire sent s m) \<noteq> None \<and> (a = None \<or> map_option snd (in_rest pending s m) = a)"
  "v_own (V z a) s = out_area s \<union> in_area s" "v_inp (V z a) s m = (case in_rest pending s m of None \<Rightarrow> [] | Some (r, e) \<Rightarrow> r)"
  by (simp_all add: rec_view_def)

lemma move_took:
  assumes "v_wf (V z a) s m" "in_move base sent A s m s' m'" "A \<inter> v_own (V z a) s = {}" "in_rest pending s m = Some (r, e)"
    "in_rest pending s' m' = Some (bs, e)"
  shows "took (V z a) A s m s' m' bs"
proof -
  have b: "base s m" using assms(1) by (simp add: view_simps)
  note f = base_facts [OF b]
  have so: "same_off (in_area s \<union> A) m m'" using assms(2) by (simp add: in_move_def)
  have "{out_base s..<frag_header s} \<subseteq> out_area s" "out_area s \<inter> in_area s = {}" using f by (auto simp: out_area_def in_area_def)
  then have "(in_area s \<union> A) \<inter> {out_base s..<frag_header s} = {}" using assms(3) by (auto simp: view_simps)
  then have "out_wire sent s' m' = out_wire sent s m" using assms(2) by (intro out_wire_cong [OF _ _ _ so]) (auto simp: in_move_def)
  moreover have "same_off (v_own (V z a) s \<union> A) m m'" by (rule same_off_mono [OF so]) (auto simp: view_simps)
  ultimately show ?thesis using assms by (auto simp: took_def view_simps in_move_def out_area_def in_area_def)
qed

lemma frame_spec:
  assumes "v_wf (V z a) s m" "same_off A m m'" "A \<inter> v_own (V z a) s = {}"
  shows "v_wf (V z a) s m' \<and> v_inp (V z a) s m' = v_inp (V z a) s m \<and> v_out (V z a) s m' = v_out (V z a) s m"
proof -
  have b: "base s m" using assms(1) by (simp add: view_simps)
  note f = base_facts [OF b]
  have "A \<inter> {out_base s..<out_boundry s} = {}" "A \<inter> in_area s = {}" using assms(3) by (auto simp: view_simps out_area_def)
  then have d: "A \<inter> {out_base s..<frag_header s} = {}" "A \<inter> {frag_header s + 4..<out_finger s} = {}" "A \<inter> {in_finger s..<in_boundry s} = {}"
    using f by (auto simp: in_area_def disjoint_iff)
  have "out_wire sent s m' = out_wire sent s m" by (rule out_wire_cong [OF _ _ _ assms(2) d(1)]) simp_all
  moreover have "in_wire pending s m' = in_wire pending s m" by (rule in_wire_cong [OF _ _ _ assms(2) d(3)]) simp_all
  moreover have "out_cur s m' = out_cur s m" using slice_range [OF assms(2) d(2)] by (simp add: out_cur_def)
  moreover have "base s m'" using b same_off_length [OF assms(2)] by (auto simp: rec_base_def out_ok_def in_ok_def)
  ultimately show ?thesis using assms(1) by (simp add: rec_view_def in_rest_def)
qed

end

sublocale rec_conn \<subseteq> rs: xdr_stream "xdrrec_ops seek" "rec_view rd wr live pending sent z a" for seek z a
proof
  fix s m l
  assume "v_wf (V z a) s m"
  then show "\<exists>s' m'. x_putlong (xdrrec_ops seek) s m l = Some (True, s', m') \<and> wrote (V z a) s m s' m' (be32 l)"
    using putlong_spec by (simp add: xdrrec_ops_def)
next
  fix s m and n :: u_int and p
  assume a: "v_wf (V z a) s m" "p + unat n \<le> length m" "blk p (unat n) \<inter> v_own (V z a) s = {}"
  have "unat n < 2 ^ 32" using unsigned_less [of n] by simp
  then show "\<exists>s' m'. x_putbytes (xdrrec_ops seek) s m p n = Some (True, s', m') \<and> wrote (V z a) s m s' m' (slice m p (unat n))"
    using putbytes_spec [OF a(1) _ a(2,3)] by (simp add: xdrrec_ops_def xdrrec_putbytes_def)
next
  fix s m l bs
  assume a: "v_wf (V z a) s m" "v_inp (V z a) s m = be32 l @ bs"
  then obtain e where "in_rest pending s m = Some (be32 l @ bs, e)" by (auto simp: view_simps split: option.splits)
  then show "\<exists>s' m'. x_getlong (xdrrec_ops seek) s m = Some (Some l, s', m') \<and> took (V z a) {} s m s' m' bs"
    using getlong_spec [of s m l bs e] move_took [OF a(1), of "{}"] a(1) by (fastforce simp: xdrrec_ops_def view_simps)
next
  fix s m xs bs p and n :: u_int
  assume a: "v_wf (V z a) s m" "v_inp (V z a) s m = xs @ bs" "length xs = unat n" "p + unat n \<le> length m" "blk p (unat n) \<inter> v_own (V z a) s = {}"
  show "\<exists>s' m'. x_getbytes (xdrrec_ops seek) s m p n = Some (True, s', m') \<and> took (V z a) (blk p (unat n)) s m s' m' bs
      \<and> slice m' p (unat n) = xs"
  proof (cases "xs = []")
    case True
    then have "xdrrec_getbytes s m p n = Some (True, s, m)" using a(3) by (simp add: xdrrec_getbytes_def getbytes_loop.simps)
    then show ?thesis using a True by (auto simp: xdrrec_ops_def took_def)
  next
    case False
    then obtain e where r: "in_rest pending s m = Some (xs @ bs, e)" and b: "base s m" using a(1,2) by (auto simp: view_simps split: option.splits)
    have "length xs < 2 ^ 32" using unsigned_less [of n] a(3) by simp
    moreover have "blk p (unat n) \<inter> in_area s = {}" using a(5) by (auto simp: view_simps)
    ultimately obtain d' s' m' where 1: "getbytes_loop s m (Addr p) (unat n) = Some (True, d', s', m')"
        "in_move base sent (blk p (unat n)) s m s' m'" "in_rest pending s' m' = Some (bs, e)" "sink_got (Addr p) m' xs d'"
      using getbytes_spec [OF b r, of "Addr p"] a(3,4) by (auto simp: sink_ok_def sink_area_def)
    then have "took (V z a) (blk p (unat n)) s m s' m' bs" using move_took [OF a(1) _ a(5) r] by blast
    then show ?thesis using 1(1,4) a(3) by (auto simp: xdrrec_ops_def xdrrec_getbytes_def sink_got_def)
  qed
next
  fix s m A m'
  assume "v_wf (V z a) s m" "same_off A m m'" "A \<inter> v_own (V z a) s = {}"
  then show "v_wf (V z a) s m' \<and> v_inp (V z a) s m' = v_inp (V z a) s m \<and> v_out (V z a) s m' = v_out (V z a) s m" by (rule frame_spec)
qed

end
