(* ===== verification/RecTrip.thy ===== *)
theory RecTrip
  imports RecRead
begin

unbundle bit_operations_syntax

text \<open>
  Records: what the end of one leaves on the connection, an object sent as a record and received from one, that nothing is read
  beyond the end of one, and that a new stream is sound.
\<close>

section \<open>Records\<close>

lemma rest_rec_open:
  assumes "open_rec z w = Some bs" "length cs < 2 ^ 31"
  shows "\<exists>u. w @ frag True cs = z @ u \<and> (\<forall>v. rest_rec 0 False (u @ v) = Some (bs @ cs, v))"
proof -
  obtain u fs where u: "w = z @ u" "frags u = Some fs" "\<forall>f \<in> set fs. \<not> fst f" "bs = concat (map snd fs)"
    using assms(1) by (auto simp: open_rec_eq)
  have "\<forall>v. rest_rec 0 False ((u @ frag True cs) @ v) = Some (bs @ cs, v)"
    using rest_rec_frags [OF frags_snoc [OF u(2) assms(2)] u(3)] u(4) by simp
  then show ?thesis using u(1) by (metis append.assoc)
qed

context rec_conn
begin

text \<open>The end of a record: its last fragment is marked, in the buffer or on the connection.\<close>

lemma endofrecord_spec:
  assumes "v_wf (V z None) s m"
  shows "\<exists>s' m' u. xdrrec_endofrecord s m now = Some (True, s', m') \<and> base s' m' \<and> out_cur s' m' = []
    \<and> out_wire sent s' m' = z @ u \<and> (\<forall>v. rest_rec 0 False (u @ v) = Some (v_out (V z None) s m, v))
    \<and> (now \<longrightarrow> sent (tcp_handle s') = z @ u) \<and> same_off (out_area s) m m' \<and> v_own (V z None) s' = v_own (V z None) s
    \<and> in_rest pending s' m' = in_rest pending s m"
proof -
  have b: "base s m" using assms by (simp add: view_simps)
  note f = base_facts [OF b]
  have l: "length (out_cur s m) < 2 ^ 31" using length_out_cur [OF b] f by simp
  obtain u where u: "out_wire sent s m @ frag True (out_cur s m) = z @ u" "\<forall>v. rest_rec 0 False (u @ v) = Some (v_out (V z None) s m, v)"
    using rest_rec_open [OF _ l, of z "out_wire sent s m"] assms by (auto simp: rec_view_def)
  show ?thesis
  proof (cases "now \<or> frag_sent s \<or> out_boundry s \<le> out_finger s + 4")
    case True
    let ?s = "s\<lparr>frag_sent := False\<rparr>"
    have b': "base ?s m" using b by (simp add: rec_base_def out_ok_def in_ok_def)
    obtain t' m' where t': "flush_out ?s m True = Some (True, ?s\<lparr>tcp_handle := t', frag_header := out_base s, out_finger := out_base s + 4\<rparr>, m')"
        "same_off (out_area s) m m'" "sent t' = z @ u" "pending t' = pending (tcp_handle s)" "live t'"
      using flush_spec [OF b', of True] u(1) by (auto simp: out_area_def out_wire_def out_cur_def)
    let ?s' = "?s\<lparr>tcp_handle := t', frag_header := out_base s, out_finger := out_base s + 4\<rparr>"
    have "in_wire pending ?s' m' = in_wire pending s m"
      by (rule in_wire_cong [OF _ _ _ t'(2)]) (use f t'(4) in \<open>auto simp: out_area_def\<close>)
    moreover have "base ?s' m'" using b t'(2,5) f by (auto simp: rec_base_def out_ok_def in_ok_def same_off_def)
    moreover have "xdrrec_endofrecord s m now = Some (True, ?s', m')" using True t'(1) by (simp add: xdrrec_endofrecord_def)
    ultimately show ?thesis using t' u(2) by (auto simp: out_cur_def out_wire_def in_rest_def view_simps out_area_def in_area_def)
  next
    case False
    note h = header_spec [OF b, of True]
    let ?s' = "s\<lparr>frag_header := out_finger s, out_finger := out_finger s + 4\<rparr>"
    let ?m = "put m (frag_header s) (be32 (frag_head True (length (out_cur s m))))"
    have "xdrrec_endofrecord s m now = Some (True, ?s', ?m)" using False h(1) by (simp add: xdrrec_endofrecord_def)
    moreover have "out_wire sent ?s' ?m = z @ u" using u(1) h(3) by (simp add: out_wire_def)
    moreover have "in_wire pending ?s' ?m = in_wire pending s m"
      by (rule in_wire_cong [OF _ _ _ h(2)]) (use f in \<open>auto simp: blk_def\<close>)
    moreover have "base ?s' ?m" using b False f h(2) by (auto simp: rec_base_def out_ok_def in_ok_def same_off_def)
    moreover have "same_off (out_area s) m ?m" by (rule same_off_mono [OF h(2)]) (use f in \<open>auto simp: blk_def out_area_def\<close>)
    ultimately show ?thesis using u(2) False by (auto simp: out_cur_def in_rest_def view_simps out_area_def in_area_def)
  qed
qed

text \<open>An object sent as a record, and an object received from one.\<close>

lemma send_record:
  assumes f: "encodes (xdrrec_ops seek) (V (out_wire sent s m) None) E f k D lay wire" "v \<in> D" "length (wire v) \<le> 2 ^ 32"
    and s: "base s m" "out_cur s m = []" "env_ok E (out_area s \<union> in_area s) m"
    and p: "p + k \<le> length m" "slice m p k = lay v" "blk p k \<inter> (out_area s \<union> in_area s \<union> statics E) = {}"
  shows "\<exists>s1 m1 s2 m2 u. f (handle (xdrrec_ops seek) XDR_ENCODE s) m p LASTUNSIGNED = Some (True, handle (xdrrec_ops seek) XDR_ENCODE s1, m1)
    \<and> xdrrec_endofrecord s1 m1 now = Some (True, s2, m2) \<and> base s2 m2 \<and> out_cur s2 m2 = [] \<and> out_wire sent s2 m2 = out_wire sent s m @ u
    \<and> (now \<longrightarrow> sent (tcp_handle s2) = out_wire sent s m @ u) \<and> (\<forall>w. rest_rec 0 False (u @ w) = Some (wire v, w))"
proof -
  let ?V = "V (out_wire sent s m) None"
  have wf: "v_wf ?V s m" using s(1) by (simp add: view_simps)
  have o: "v_out ?V s m = []" "v_room ?V s = 2 ^ 32" using s(2) by (simp_all add: rec_view_def)
  obtain s1 m1 where 1: "f (handle (xdrrec_ops seek) XDR_ENCODE s) m p LASTUNSIGNED = Some (True, handle (xdrrec_ops seek) XDR_ENCODE s1, m1)"
      "wrote ?V s m s1 m1 (wire v)"
    using f(1) [unfolded encodes_def, rule_format, of s m p v] wf s(3) p f(2,3) o(2) by (auto simp: view_simps)
  then have "v_wf ?V s1 m1" "v_out ?V s1 m1 = wire v" using o(1) by (auto simp: wrote_def)
  then show ?thesis using endofrecord_spec [of "out_wire sent s m" s1 m1 now] 1(1) by fastforce
qed

lemma receive_record:
  assumes f: "decodes (xdrrec_ops seek) (V (out_wire sent s m) (Some w)) E f k D lay wire" "v \<in> D"
    and s: "base s m" "in_rest pending s m = Some (r, u @ w)" "env_ok E (out_area s \<union> in_area s) m"
    and u: "rest_rec 0 False (u @ w) = Some (wire v, w)"
    and q: "q + k \<le> length m" "blk q k \<inter> (out_area s \<union> in_area s \<union> statics E) = {}"
  shows "\<exists>s1 m1 s2 m2. xdrrec_skiprecord s m = Some (True, s1, m1)
    \<and> f (handle (xdrrec_ops seek) XDR_DECODE s1) m1 q LASTUNSIGNED = Some (True, handle (xdrrec_ops seek) XDR_DECODE s2, m2)
    \<and> slice m2 q k = lay v \<and> base s2 m2 \<and> in_rest pending s2 m2 = Some ([], w)"
proof -
  let ?V = "V (out_wire sent s m) (Some w)" and ?W = "V (out_wire sent s m) None"
  obtain s1 m1 where 1: "xdrrec_skiprecord s m = Some (True, s1, m1)" "in_move base sent {} s m s1 m1" "in_wire pending s1 m1 = u @ w"
      "fbtbc s1 = 0" "\<not> last_frag s1"
    using skiprecord_spec [OF s(1,2)] by blast
  have r1: "in_rest pending s1 m1 = Some (wire v, w)" using 1(3-5) u by (simp add: in_rest_def)
  have "took ?W {} s m s1 m1 (wire v)"
  proof -
    have so: "same_off (in_area s) m m1" using 1(2) by (simp add: in_move_def)
    have "out_wire sent s1 m1 = out_wire sent s m"
      using 1(2) base_facts [OF s(1)] by (intro out_wire_cong [OF _ _ _ so]) (auto simp: in_move_def in_area_def)
    moreover have "same_off (v_own ?W s) m m1" by (rule same_off_mono [OF so]) (auto simp: view_simps)
    ultimately show ?thesis using 1(2) r1 by (auto simp: took_def view_simps in_move_def out_area_def in_area_def)
  qed
  then have t: "v_wf ?V s1 m1" "v_own ?V s1 = out_area s \<union> in_area s" "v_inp ?V s1 m1 = wire v @ []" "same_off (out_area s \<union> in_area s) m m1"
    using r1 by (auto simp: took_def view_simps)
  have "(out_area s \<union> in_area s) \<inter> blk (xdr_zero E) 4 = {}" using s(3) by (auto simp: env_ok_def statics_def)
  then have "env_ok E (v_own ?V s1) m1" unfolding t(2) by (rule env_ok_same_off [OF s(3) t(4)])
  then obtain s2 m2 where "f (handle (xdrrec_ops seek) XDR_DECODE s1) m1 q LASTUNSIGNED = Some (True, handle (xdrrec_ops seek) XDR_DECODE s2, m2)"
      "took ?V (blk q k \<union> blk (crud E) 4) s1 m1 s2 m2 []" "slice m2 q k = lay v"
    using f(1) [unfolded decodes_def, rule_format, of s1 m1 q v "[]"] f(2) t q same_off_length [OF t(4)] by auto
  then show ?thesis using 1(1) by (auto simp: took_def view_simps)
qed

text \<open>Nothing is read beyond the end of a record.\<close>

lemma getbytes_short:
  "base s m \<Longrightarrow> in_rest pending s m = Some (r, a) \<Longrightarrow> length r < n \<Longrightarrow> n < 2 ^ 32 \<Longrightarrow> sink_ok d n m \<Longrightarrow> sink_area d n \<inter> in_area s = {} \<Longrightarrow>
   \<exists>d' s' m'. getbytes_loop s m d n = Some (False, d', s', m') \<and> in_move base sent (sink_area d n) s m s' m' \<and> in_rest pending s' m' = Some ([], a)"
proof (induction "length (in_wire pending s m)" arbitrary: n s m d r rule: less_induct)
  case less
  let ?A = "sink_area d n" and ?n = "unat (fbtbc s)"
  consider (last) "fbtbc s = 0" "last_frag s" | (head) "fbtbc s = 0" "\<not> last_frag s" | (copy) "fbtbc s \<noteq> 0" by blast
  then show ?case
  proof cases
    case last
    then have "r = []" using less.prems(2) by (auto simp: in_rest_def rest_rec.simps)
    then show ?thesis using last less.prems by (subst getbytes_loop.simps) (simp add: in_move_def)
  next
    case head
    then obtain s1 m1 where 1: "set_input_fragment s m = Some (True, s1, m1)" "in_move base sent {} s m s1 m1"
        "in_rest pending s1 m1 = Some (r, a)" "length (in_wire pending s m) = length (in_wire pending s1 m1) + 4"
      using next_frag_spec [OF less.prems(1,2)] by blast
    have "base s1 m1" "in_area s1 = in_area s" "sink_ok d n m1"
      using 1(2) less.prems(5) by (auto simp: in_move_def in_area_def sink_ok_def same_off_def split: sink.splits)
    then obtain d' s' m' where 2: "getbytes_loop s1 m1 d n = Some (False, d', s', m')" "in_move base sent ?A s1 m1 s' m'"
        "in_rest pending s' m' = Some ([], a)"
      using less.hyps [of s1 m1 r n d] less.prems(3,4,6) 1(3,4) by auto
    have "getbytes_loop s m d n = Some (False, d', s', m')"
      using head 1(1) 2(1) less.prems(3) by (subst getbytes_loop.simps) simp
    then show ?thesis using in_move_trans [OF 1(2) 2(2)] 2 by auto
  next
    case copy
    have l: "?n \<le> length r" using rest_rec_take [OF less.prems(2) [unfolded in_rest_def] order_refl] by (auto dest!: arg_cong [where f = length])
    then have n: "min n ?n = ?n" "?n < 2 ^ 32" "?n \<le> n" "0 < ?n" using less.prems(3,4) copy by (auto simp: unat_gt_0)
    have ka: "sink_area d ?n \<subseteq> ?A" "sink_ok d ?n m"
      using sink_split [OF n(3), of d] less.prems(5) n(3) by (auto simp: sink_ok_def split: sink.splits)
    have ys: "in_rest pending s m = Some (take ?n r @ drop ?n r, a)" "?n = length (take ?n r)" using less.prems(2) l by auto
    have "sink_area d ?n \<inter> in_area s = {}" using ka(1) less.prems(6) by auto
    then obtain d1 s0 m1 where 0: "get_input_bytes s m d ?n = Some (True, d1, s0, m1)"
        "in_move base sent (sink_area d ?n) s m (s0\<lparr>fbtbc := fbtbc s0 - of_nat ?n\<rparr>) m1" "sink_got d m1 (take ?n r) d1"
        "in_rest pending (s0\<lparr>fbtbc := fbtbc s0 - of_nat ?n\<rparr>) m1 = Some (drop ?n r, a)"
        "length (in_wire pending s m) = length (in_wire pending (s0\<lparr>fbtbc := fbtbc s0 - of_nat ?n\<rparr>) m1) + ?n"
      using frag_step [OF less.prems(1) ys order_refl n(2) ka(2)] by blast
    define s1 where "s1 = s0\<lparr>fbtbc := fbtbc s0 - of_nat ?n\<rparr>"
    note mv = 0(2) [folded s1_def] and in1 = 0(4,5) [folded s1_def]
    have l1: "sink_area d1 (n - ?n) \<subseteq> ?A" "sink_ok d1 (n - ?n) m1"
      using sink_later(1,2) [OF 0(3), of n] ys(2) n(3) less.prems(5) mv by (auto simp: sink_ok_def in_move_def same_off_def split: sink.splits)
    have "sink_area d1 (n - ?n) \<inter> in_area s1 = {}" using l1(1) less.prems(6) mv by (auto simp: in_move_def in_area_def)
    moreover have "base s1 m1" "length (in_wire pending s1 m1) < length (in_wire pending s m)" "length (drop ?n r) < n - ?n" "n - ?n < 2 ^ 32"
      using mv in1(2) n less.prems(3,4) l by (auto simp: in_move_def)
    ultimately obtain d' s' m' where 2: "getbytes_loop s1 m1 d1 (n - ?n) = Some (False, d', s', m')"
        "in_move base sent (sink_area d1 (n - ?n)) s1 m1 s' m'" "in_rest pending s' m' = Some ([], a)"
      using less.hyps [OF _ _ in1(1)] l1(2) by blast
    have "getbytes_loop s m d n = Some (False, d', s', m')"
      using copy 0(1) 2(1) less.prems(3) by (subst getbytes_loop.simps) (simp add: n(1) s1_def Let_def)
    moreover have "in_move base sent ?A s m s' m'" using in_move_mono [OF in_move_trans [OF mv 2(2)], of ?A] l1(1) ka by auto
    ultimately show ?thesis using 2(3) by blast
  qed
qed

end

section \<open>New streams\<close>

lemma fix_buf_size_bounds:
  assumes "unat s \<le> 2 ^ 30"
  shows "100 \<le> unat (fix_buf_size s)" "unat s \<le> unat (fix_buf_size s)" "unat (fix_buf_size s) < 2 ^ 30 + 4" "unat (fix_buf_size s) mod 4 = 0"
proof -
  define x where "x = (if s < 100 then 4000 else s)"
  have x: "100 \<le> unat x" "unat s \<le> unat x" "unat x \<le> 2 ^ 30" using assms by (auto simp: x_def word_less_nat_alt)
  have "unat (x + 4 - 1) = unat x + 3" using x(3) by (simp add: unat_word_ariths)
  then have u: "unat (fix_buf_size s) = (unat x + 3) div 4 * 4"
    unfolding fix_buf_size_def RNDUP_def x_def [symmetric] BYTES_PER_XDR_UNIT_def using x(3) by (simp add: unat_word_ariths unat_div)
  have "unat x \<le> (unat x + 3) div 4 * 4" "(unat x + 3) div 4 * 4 \<le> unat x + 3" by linarith+
  then show "100 \<le> unat (fix_buf_size s)" "unat s \<le> unat (fix_buf_size s)" "unat (fix_buf_size s) < 2 ^ 30 + 4" "unat (fix_buf_size s) mod 4 = 0"
    using x unfolding u by simp_all
qed

lemma align_up_bounds: "p \<le> align_up p \<and> align_up p \<le> p + (4 - p mod 4) mod 4 \<and> align_up p mod 4 = 0"
proof (induction p rule: align_up.induct)
  case (1 p)
  show ?case
  proof (cases "p mod 4 = 0")
    case False
    then show ?thesis using 1 [OF False] mod4_step [OF False] mod_less_divisor [of 4 p] by (subst (1 2 3) align_up.simps) (auto, linarith)
  qed (simp add: align_up.simps)
qed

lemma create_spec:
  assumes al: "mem_alloc E m 68 = (a, m1)" "a \<noteq> 0"
      "mem_alloc E m1 (fix_buf_size ss + fix_buf_size rs + BYTES_PER_XDR_UNIT) = (b, m2)" "b \<noteq> 0"
    and sz: "unat ss \<le> 2 ^ 30" "unat rs \<le> 2 ^ 30" "b + unat (fix_buf_size ss) + unat (fix_buf_size rs) + 4 \<le> length m2"
    and l: "live h"
  shows "\<exists>s. xdrrec_create E m ss rs h rd wr = (Some s, m2) \<and> rec_base rd wr live s m2 \<and> tcp_handle s = h \<and> out_cur s m2 = []
    \<and> out_wire sent s m2 = sent h \<and> in_rest pending s m2 = Some ([], pending h)
    \<and> out_area s \<union> in_area s \<subseteq> blk b (unat (fix_buf_size ss) + unat (fix_buf_size rs) + 4)"
proof -
  have "align_up b \<le> b + 3" "b \<le> align_up b" using align_up_bounds [of b] by (auto intro: order_trans)
  then show ?thesis using assms fix_buf_size_bounds [OF sz(1)] fix_buf_size_bounds [OF sz(2)]
    by (auto simp: xdrrec_create_def Let_def rec_base_def out_ok_def in_ok_def out_cur_def out_wire_def in_rest_def in_wire_def rest_rec.simps
      out_area_def in_area_def blk_def)
qed

end
