(* ===== verification/RpcTcp.thy ===== *)
theory RpcTcp
  imports RecTrip
begin

unbundle bit_operations_syntax

text \<open>
  The routines that read from and write to a TCP connection for the record streams: \<open>readtcp\<close> and \<open>writetcp\<close> of the client,
  \<open>lib/librpc/rpc/clnt_tcp.c\<close>, and of the server, \<open>svc_tcp.c\<close>. The socket carries what the system calls will do:
  the bytes that will arrive and the outcomes of the next calls, in order; when no outcome is listed the call succeeds at once.
\<close>

section \<open>Definitions\<close>

datatype errno = EINTR | ECONNRESET | Eother nat

datatype sel = Ready | Timeout | SelFails errno
datatype xfer = Upto nat | Fails errno

record sock =
  sk_in :: "byte list"
  sk_out :: "byte list"
  sk_sel :: "sel list"
  sk_rd :: "xfer list"
  sk_wr :: "xfer list"
  errno :: errno

text \<open>\<open>select\<close> on the one socket: its value, whether the socket is in the set after it, and \<open>errno\<close> where it fails.\<close>

definition sys_select :: "sock \<Rightarrow> int \<times> bool \<times> sock" where
  "sys_select sk =
     (case sk_sel sk of
       [] \<Rightarrow> (1, True, sk)
     | Ready # es \<Rightarrow> (1, True, sk\<lparr>sk_sel := es\<rparr>)
     | Timeout # es \<Rightarrow> (0, False, sk\<lparr>sk_sel := es\<rparr>)
     | SelFails e # es \<Rightarrow> (- 1, True, sk\<lparr>sk_sel := es, errno := e\<rparr>))"

text \<open>\<open>read\<close> and \<open>write\<close>: at least one byte is moved where there is one. No bytes read is the end of the input.\<close>

definition sys_read :: "sock \<Rightarrow> nat \<Rightarrow> byte list option \<times> sock" where
  "sys_read sk n =
     (case sk_rd sk of
       [] \<Rightarrow> (Some (take n (sk_in sk)), sk\<lparr>sk_in := drop n (sk_in sk)\<rparr>)
     | Upto k # es \<Rightarrow> (let i = min n (Suc k) in (Some (take i (sk_in sk)), sk\<lparr>sk_rd := es, sk_in := drop i (sk_in sk)\<rparr>))
     | Fails e # es \<Rightarrow> (None, sk\<lparr>sk_rd := es, errno := e\<rparr>))"

definition sys_write :: "sock \<Rightarrow> byte list \<Rightarrow> nat option \<times> sock" where
  "sys_write sk bs =
     (case sk_wr sk of
       [] \<Rightarrow> (Some (length bs), sk\<lparr>sk_out := sk_out sk @ bs\<rparr>)
     | Upto k # es \<Rightarrow> (let i = min (length bs) (Suc k) in (Some i, sk\<lparr>sk_wr := es, sk_out := sk_out sk @ take i bs\<rparr>))
     | Fails e # es \<Rightarrow> (None, sk\<lparr>sk_wr := es, errno := e\<rparr>))"

lemma sys_write_progress: "sys_write sk bs = (Some i, sk') \<Longrightarrow> bs \<noteq> [] \<Longrightarrow> 0 < i"
  by (auto simp: sys_write_def Let_def split: list.splits xfer.splits)

subsection \<open>The client\<close>

datatype clnt_stat =
    RPC_SUCCESS | RPC_CANTENCODEARGS | RPC_CANTDECODERES | RPC_CANTSEND | RPC_CANTRECV | RPC_TIMEDOUT
  | RPC_VERSMISMATCH | RPC_AUTHERROR | RPC_PROGUNAVAIL | RPC_PROGVERSMISMATCH | RPC_PROCUNAVAIL | RPC_CANTDECODEARGS | RPC_SYSTEMERROR
  | RPC_UNKNOWNHOST | RPC_UNKNOWNPROTO | RPC_PMAPFAILURE | RPC_PROGNOTREGISTERED | RPC_FAILED

text \<open>Of the structures, the fields that these routines use; the two of the error are those of \<open>ct_error\<close>.\<close>

record ct_data =
  ct_sock :: sock
  re_status :: clnt_stat
  re_errno :: errno

function clnt_wait :: "ct_data \<Rightarrow> bool \<times> ct_data" where
  "clnt_wait ct = (
     let (r, isset, sk) = sys_select (ct_sock ct); ct = ct\<lparr>ct_sock := sk\<rparr> in
     if r = 0 then (False, ct\<lparr>re_status := RPC_TIMEDOUT\<rparr>)
     else if r = - 1 then
       (if errno sk = EINTR then clnt_wait ct else (False, ct\<lparr>re_status := RPC_CANTRECV, re_errno := errno sk\<rparr>))
     else (True, ct))"
  by pat_completeness auto
termination
  by (relation "measure (\<lambda>ct. length (sk_sel (ct_sock ct)))") (auto simp: sys_select_def split: list.splits sel.splits)

definition clnt_readtcp :: "ct_data \<Rightarrow> nat \<Rightarrow> byte list option \<times> ct_data" where
  "clnt_readtcp ct len =
     (if len = 0 then (Some [], ct)
      else
        let (ok, ct) = clnt_wait ct in
        if \<not> ok then (None, ct)
        else
          let (r, sk) = sys_read (ct_sock ct) len; ct = ct\<lparr>ct_sock := sk\<rparr> in
          case r of
            Some [] \<Rightarrow> (None, ct\<lparr>re_errno := ECONNRESET, re_status := RPC_CANTRECV\<rparr>)
          | None \<Rightarrow> (None, ct\<lparr>re_errno := errno sk, re_status := RPC_CANTRECV\<rparr>)
          | Some bs \<Rightarrow> (Some bs, ct))"

text \<open>The loop of both \<open>writetcp\<close>: whether everything was written.\<close>

function write_loop :: "sock \<Rightarrow> byte list \<Rightarrow> bool \<times> sock" where
  "write_loop sk bs =
     (if bs = [] then (True, sk)
      else case sys_write sk bs of
        (None, sk) \<Rightarrow> (False, sk)
      | (Some i, sk) \<Rightarrow> write_loop sk (drop i bs))"
  by pat_completeness auto
termination
  by (relation "measure (\<lambda>(sk, bs). length bs)") (auto dest: sys_write_progress [OF sym])

definition clnt_writetcp :: "ct_data \<Rightarrow> byte list \<Rightarrow> int \<times> ct_data" where
  "clnt_writetcp ct bs = (
     let (ok, sk) = write_loop (ct_sock ct) bs; ct = ct\<lparr>ct_sock := sk\<rparr> in
     if \<not> ok then (- 1, ct\<lparr>re_errno := errno sk, re_status := RPC_CANTSEND\<rparr>) else (int (length bs), ct))"

subsection \<open>The server\<close>

datatype xprt_stat = XPRT_DIED | XPRT_MOREREQS | XPRT_IDLE

record SVCXPRT =
  xp_sock :: sock
  strm_stat :: xprt_stat

text \<open>A \<open>continue\<close> goes to the condition of the loop, and a \<open>select\<close> that fails leaves the socket in the set.\<close>

function svc_wait :: "SVCXPRT \<Rightarrow> bool \<times> SVCXPRT" where
  "svc_wait xprt = (
     let (r, isset, sk) = sys_select (xp_sock xprt); xprt = xprt\<lparr>xp_sock := sk\<rparr> in
     if r \<le> 0 \<and> errno sk \<noteq> EINTR then (False, xprt)
     else if \<not> isset then svc_wait xprt
     else (True, xprt))"
  by pat_completeness auto
termination
  by (relation "measure (\<lambda>x. length (sk_sel (xp_sock x)))") (auto simp: sys_select_def split: list.splits sel.splits)

definition svc_readtcp :: "SVCXPRT \<Rightarrow> nat \<Rightarrow> byte list option \<times> SVCXPRT" where
  "svc_readtcp xprt len = (
     let (ok, xprt) = svc_wait xprt in
     if \<not> ok then (None, xprt\<lparr>strm_stat := XPRT_DIED\<rparr>)
     else
       let (r, sk) = sys_read (xp_sock xprt) len; xprt = xprt\<lparr>xp_sock := sk\<rparr> in
       case r of
         Some [] \<Rightarrow> (None, xprt\<lparr>strm_stat := XPRT_DIED\<rparr>)
       | None \<Rightarrow> (None, xprt\<lparr>strm_stat := XPRT_DIED\<rparr>)
       | Some bs \<Rightarrow> (Some bs, xprt))"

definition svc_writetcp :: "SVCXPRT \<Rightarrow> byte list \<Rightarrow> int \<times> SVCXPRT" where
  "svc_writetcp xprt bs = (
     let (ok, sk) = write_loop (xp_sock xprt) bs; xprt = xprt\<lparr>xp_sock := sk\<rparr> in
     if \<not> ok then (- 1, xprt\<lparr>strm_stat := XPRT_DIED\<rparr>) else (int (length bs), xprt))"

text \<open>The state of a connection, from what its stream holds.\<close>

definition svctcp_stat :: "SVCXPRT RECSTREAM \<Rightarrow> mem \<Rightarrow> (xprt_stat \<times> SVCXPRT RECSTREAM \<times> mem) option" where
  "svctcp_stat cd m =
     (if strm_stat (tcp_handle cd) = XPRT_DIED then Some (XPRT_DIED, cd, m)
      else do {
        (e, cd, m) \<leftarrow> xdrrec_eof cd m;
        Some (if \<not> e then XPRT_MOREREQS else XPRT_IDLE, cd, m) })"

section \<open>Connections\<close>

declare clnt_wait.simps [simp del] write_loop.simps [simp del] svc_wait.simps [simp del]

text \<open>No call fails but by interruption, and no \<open>select\<close> times out.\<close>

definition sock_live :: "sock \<Rightarrow> bool" where
  "sock_live sk \<longleftrightarrow> set (sk_sel sk) \<subseteq> {Ready, SelFails EINTR} \<and> (\<forall>x \<in> set (sk_rd sk) \<union> set (sk_wr sk). \<exists>k. x = Upto k)"

lemma select_live:
  assumes "sock_live sk"
  obtains (ready) sk' where "sys_select sk = (1, True, sk')" "sock_live sk'" "sk_in sk' = sk_in sk" "sk_out sk' = sk_out sk"
  | (intr) sk' where "sys_select sk = (- 1, True, sk')" "sock_live sk'" "errno sk' = EINTR" "sk_in sk' = sk_in sk" "sk_out sk' = sk_out sk"
      "length (sk_sel sk) = Suc (length (sk_sel sk'))"
  using assms by (cases "sk_sel sk") (auto simp: sys_select_def sock_live_def)

lemma read_live:
  assumes "sock_live sk" "sk_in sk \<noteq> []" "0 < n"
  shows "\<exists>b bs sk'. sys_read sk n = (Some (b # bs), sk') \<and> length (b # bs) \<le> n \<and> sk_in sk = b # bs @ sk_in sk' \<and> sk_out sk' = sk_out sk
    \<and> sock_live sk'"
proof -
  have *: "\<exists>b bs. take i (sk_in sk) = b # bs \<and> length (b # bs) \<le> n \<and> sk_in sk = b # bs @ drop i (sk_in sk)" if "0 < i" "i \<le> n" for i
    using that assms(2) append_take_drop_id [of i "sk_in sk"] length_take [of i "sk_in sk"] by (cases "take i (sk_in sk)") auto
  show ?thesis
  proof (cases "sk_rd sk")
    case Nil
    then show ?thesis using * [of n] assms by (auto simp: sys_read_def sock_live_def)
  next
    case (Cons x es)
    then obtain k where "x = Upto k" using assms(1) by (auto simp: sock_live_def)
    then show ?thesis using * [of "min n (Suc k)"] assms Cons by (auto simp: sys_read_def sock_live_def Let_def)
  qed
qed

lemma write_live: "sock_live sk \<Longrightarrow> \<exists>sk'. write_loop sk bs = (True, sk') \<and> sk_out sk' = sk_out sk @ bs \<and> sk_in sk' = sk_in sk \<and> sock_live sk'"
proof (induction sk bs rule: write_loop.induct)
  case (1 sk bs)
  show ?case
  proof (cases "bs = []")
    case False
    obtain i sk1 where i: "sys_write sk bs = (Some i, sk1)" "sk_out sk1 = sk_out sk @ take i bs" "sk_in sk1 = sk_in sk" "sock_live sk1"
      using 1(2) by (cases "sk_wr sk") (auto simp: sys_write_def sock_live_def Let_def)
    then obtain sk' where "write_loop sk1 (drop i bs) = (True, sk')" "sk_out sk' = sk_out sk1 @ drop i bs" "sk_in sk' = sk_in sk1" "sock_live sk'"
      using 1(1) [OF False i(1) [symmetric]] by auto
    then show ?thesis using i False by (simp add: write_loop.simps [of sk])
  qed (use 1 in \<open>simp add: write_loop.simps\<close>)
qed

lemma clnt_wait_live:
  "sock_live (ct_sock ct) \<Longrightarrow> \<exists>ct'. clnt_wait ct = (True, ct') \<and> sock_live (ct_sock ct') \<and> sk_in (ct_sock ct') = sk_in (ct_sock ct)
     \<and> sk_out (ct_sock ct') = sk_out (ct_sock ct)"
proof (induction "length (sk_sel (ct_sock ct))" arbitrary: ct rule: less_induct)
  case less
  from less.prems show ?case
  proof (cases rule: select_live)
    case (ready sk')
    then show ?thesis by (subst clnt_wait.simps) simp
  next
    case (intr sk')
    then show ?thesis using less.hyps [of "ct\<lparr>ct_sock := sk'\<rparr>"] by (subst clnt_wait.simps) simp
  qed
qed

lemma svc_wait_live:
  "sock_live (xp_sock x) \<Longrightarrow> \<exists>x'. svc_wait x = (True, x') \<and> sock_live (xp_sock x') \<and> sk_in (xp_sock x') = sk_in (xp_sock x)
     \<and> sk_out (xp_sock x') = sk_out (xp_sock x)"
  by (erule select_live) (subst svc_wait.simps, simp)+

interpretation cl: rec_conn clnt_readtcp clnt_writetcp "\<lambda>ct. sock_live (ct_sock ct)" "\<lambda>ct. sk_in (ct_sock ct)" "\<lambda>ct. sk_out (ct_sock ct)"
proof
  fix ct :: ct_data and n :: nat
  assume a: "sock_live (ct_sock ct)" "sk_in (ct_sock ct) \<noteq> []" "0 < n"
  obtain ct1 where 1: "clnt_wait ct = (True, ct1)" "sock_live (ct_sock ct1)" "sk_in (ct_sock ct1) = sk_in (ct_sock ct)" "sk_out (ct_sock ct1) = sk_out (ct_sock ct)"
    using clnt_wait_live [OF a(1)] by blast
  then show "\<exists>bs t'. clnt_readtcp ct n = (Some bs, t') \<and> bs \<noteq> [] \<and> length bs \<le> n \<and> sk_in (ct_sock ct) = bs @ sk_in (ct_sock t')
      \<and> sk_out (ct_sock t') = sk_out (ct_sock ct) \<and> sock_live (ct_sock t')"
    using read_live [of "ct_sock ct1" n] a(2,3) by (auto simp: clnt_readtcp_def)
next
  fix ct :: ct_data and bs
  assume "sock_live (ct_sock ct)"
  then show "\<exists>t'. clnt_writetcp ct bs = (int (length bs), t') \<and> sk_out (ct_sock t') = sk_out (ct_sock ct) @ bs
      \<and> sk_in (ct_sock t') = sk_in (ct_sock ct) \<and> sock_live (ct_sock t')"
    using write_live [of "ct_sock ct" bs] by (auto simp: clnt_writetcp_def)
qed

interpretation sv: rec_conn svc_readtcp svc_writetcp "\<lambda>x. sock_live (xp_sock x)" "\<lambda>x. sk_in (xp_sock x)" "\<lambda>x. sk_out (xp_sock x)"
proof
  fix x :: SVCXPRT and n :: nat
  assume a: "sock_live (xp_sock x)" "sk_in (xp_sock x) \<noteq> []" "0 < n"
  obtain x1 where 1: "svc_wait x = (True, x1)" "sock_live (xp_sock x1)" "sk_in (xp_sock x1) = sk_in (xp_sock x)" "sk_out (xp_sock x1) = sk_out (xp_sock x)"
    using svc_wait_live [OF a(1)] by blast
  then show "\<exists>bs t'. svc_readtcp x n = (Some bs, t') \<and> bs \<noteq> [] \<and> length bs \<le> n \<and> sk_in (xp_sock x) = bs @ sk_in (xp_sock t')
      \<and> sk_out (xp_sock t') = sk_out (xp_sock x) \<and> sock_live (xp_sock t')"
    using read_live [of "xp_sock x1" n] a(2,3) by (auto simp: svc_readtcp_def)
next
  fix x :: SVCXPRT and bs
  assume "sock_live (xp_sock x)"
  then show "\<exists>t'. svc_writetcp x bs = (int (length bs), t') \<and> sk_out (xp_sock t') = sk_out (xp_sock x) @ bs
      \<and> sk_in (xp_sock t') = sk_in (xp_sock x) \<and> sock_live (xp_sock t')"
    using write_live [of "xp_sock x" bs] by (auto simp: svc_writetcp_def)
qed

section \<open>Properties\<close>

abbreviation clnt_live :: "ct_data \<Rightarrow> bool" where "clnt_live ct \<equiv> sock_live (ct_sock ct)"
abbreviation clnt_in :: "ct_data \<Rightarrow> byte list" where "clnt_in ct \<equiv> sk_in (ct_sock ct)"
abbreviation clnt_out :: "ct_data \<Rightarrow> byte list" where "clnt_out ct \<equiv> sk_out (ct_sock ct)"
abbreviation svc_live :: "SVCXPRT \<Rightarrow> bool" where "svc_live x \<equiv> sock_live (xp_sock x)"
abbreviation svc_in :: "SVCXPRT \<Rightarrow> byte list" where "svc_in x \<equiv> sk_in (xp_sock x)"
abbreviation svc_out :: "SVCXPRT \<Rightarrow> byte list" where "svc_out x \<equiv> sk_out (xp_sock x)"

text \<open>
  C8: an object that the client encodes on a record stream and ends with \<open>xdrrec_endofrecord\<close> is on the connection as one
  record, cut into fragments as the buffer filled up; the server that skips to it decodes the same object, and stands
  at the end of that record, whatever the sizes of the buffers, however many bytes each \<open>read\<close> and \<open>write\<close> moved,
  and with a \<open>select\<close> interrupted.
\<close>

theorem tcp_record_roundtrip:
  assumes f: "\<forall>z a. codec (xdrrec_ops seek) (rec_view clnt_readtcp clnt_writetcp clnt_live clnt_in clnt_out z a) E f k D lay wire"
    and g: "\<forall>z a. codec (xdrrec_ops seek') (rec_view svc_readtcp svc_writetcp svc_live svc_in svc_out z a) E' g k D lay wire"
    and v: "v \<in> D" "length (wire v) \<le> 2 ^ 32"
    and s: "rec_base clnt_readtcp clnt_writetcp clnt_live s m" "out_cur s m = []" "env_ok E (out_area s \<union> in_area s) m"
    and p: "p + k \<le> length m" "slice m p k = lay v" "blk p k \<inter> (out_area s \<union> in_area s \<union> statics E) = {}"
  shows "\<exists>s1 m1 s2 m2 u. f (handle (xdrrec_ops seek) XDR_ENCODE s) m p LASTUNSIGNED = Some (True, handle (xdrrec_ops seek) XDR_ENCODE s1, m1)
    \<and> xdrrec_endofrecord s1 m1 True = Some (True, s2, m2) \<and> clnt_out (tcp_handle s2) = out_wire clnt_out s m @ u
    \<and> (\<forall>r n x w q. rec_base svc_readtcp svc_writetcp svc_live r n \<and> in_rest svc_in r n = Some (x, u @ w)
        \<and> env_ok E' (out_area r \<union> in_area r) n \<and> q + k \<le> length n \<and> blk q k \<inter> (out_area r \<union> in_area r \<union> statics E') = {} \<longrightarrow>
      (\<exists>r1 n1 r2 n2. xdrrec_skiprecord r n = Some (True, r1, n1)
        \<and> g (handle (xdrrec_ops seek') XDR_DECODE r1) n1 q LASTUNSIGNED = Some (True, handle (xdrrec_ops seek') XDR_DECODE r2, n2)
        \<and> slice n2 q k = lay v \<and> rec_base svc_readtcp svc_writetcp svc_live r2 n2 \<and> in_rest svc_in r2 n2 = Some ([], w)))"
proof -
  have e: "encodes (xdrrec_ops seek) (rec_view clnt_readtcp clnt_writetcp clnt_live clnt_in clnt_out z a) E f k D lay wire" for z a
    using f by (simp add: codec_def)
  have d: "decodes (xdrrec_ops seek') (rec_view svc_readtcp svc_writetcp svc_live svc_in svc_out z a) E' g k D lay wire" for z a
    using g by (simp add: codec_def)
  obtain s1 m1 s2 m2 u where 1: "f (handle (xdrrec_ops seek) XDR_ENCODE s) m p LASTUNSIGNED = Some (True, handle (xdrrec_ops seek) XDR_ENCODE s1, m1)"
      "xdrrec_endofrecord s1 m1 True = Some (True, s2, m2)" "clnt_out (tcp_handle s2) = out_wire clnt_out s m @ u"
      "\<forall>w. rest_rec 0 False (u @ w) = Some (wire v, w)"
    using cl.send_record [OF e v s p, of True] by blast
  moreover have "\<exists>r1 n1 r2 n2. xdrrec_skiprecord r n = Some (True, r1, n1)
        \<and> g (handle (xdrrec_ops seek') XDR_DECODE r1) n1 q LASTUNSIGNED = Some (True, handle (xdrrec_ops seek') XDR_DECODE r2, n2)
        \<and> slice n2 q k = lay v \<and> rec_base svc_readtcp svc_writetcp svc_live r2 n2 \<and> in_rest svc_in r2 n2 = Some ([], w)"
    if "rec_base svc_readtcp svc_writetcp svc_live r n" "in_rest svc_in r n = Some (x, u @ w)"
      "env_ok E' (out_area r \<union> in_area r) n" "q + k \<le> length n" "blk q k \<inter> (out_area r \<union> in_area r \<union> statics E') = {}" for r n x w q
    using sv.receive_record [OF d v(1) that(1-3) _ that(4,5)] 1(4) by blast
  ultimately show ?thesis by blast
qed

text \<open>Forty longs are sent in buffers of a hundred bytes, by short reads and writes, and arrive before three other bytes.\<close>

definition demo_longs :: "u_int list" where "demo_longs = map of_nat [0..<40]"

definition demo_rec_mem :: "byte list \<Rightarrow> mem" where "demo_rec_mem obj = replicate 8 0 @ obj @ replicate 300 0"

definition demo_rec_env :: xdr_env where
  "demo_rec_env = \<lparr>crud = 0, xdr_zero = 4, mem_alloc = (\<lambda>m n. (if n = 68 then 400 else 168, m)), mem_free = (\<lambda>m p n. m)\<rparr>"

definition demo_ct :: ct_data where
  "demo_ct = \<lparr>ct_sock = \<lparr>sk_in = [], sk_out = [], sk_sel = [], sk_rd = [], sk_wr = [Upto 9, Upto 0], errno = Eother 0\<rparr>,
     re_status = RPC_SUCCESS, re_errno = Eother 0\<rparr>"

definition demo_xprt :: "byte list \<Rightarrow> SVCXPRT" where
  "demo_xprt bs = \<lparr>xp_sock = \<lparr>sk_in = bs, sk_out = [], sk_sel = [SelFails EINTR, Ready], sk_rd = [Upto 2, Upto 30], sk_wr = [], errno = Eother 0\<rparr>,
     strm_stat = XPRT_IDLE\<rparr>"

abbreviation demo_filter :: "'s xdrproc_t" where
  "demo_filter \<equiv> (\<lambda>x m p u. xdr_vector x m p 40 4 (\<lambda>x m p u. xdr_long x m p))"

lemma demo_codec:
  assumes "xdr_stream ops V"
  shows "codec ops V E demo_filter 160 {vs. length vs = 40} (wires le32) (wires be32)"
proof -
  have "codec ops V E demo_filter (unat (40 :: u_int) * unat (4 :: u_int)) {vs. length vs = unat (40 :: u_int) \<and> set vs \<subseteq> UNIV} (wires le32) (wires be32)"
    by (rule xdr_vector_codec) (use xdr_stream.xdr_long_codec [OF assms] in simp_all)
  then show ?thesis by simp
qed

lemma demo_create:
  assumes "length obj = 160" "live h"
  shows "\<exists>s. xdrrec_create demo_rec_env (demo_rec_mem obj) 100 100 h rd wr = (Some s, demo_rec_mem obj) \<and> rec_base rd wr live s (demo_rec_mem obj)
    \<and> tcp_handle s = h \<and> out_cur s (demo_rec_mem obj) = [] \<and> out_wire sent s (demo_rec_mem obj) = sent h \<and> in_rest pending s (demo_rec_mem obj) = Some ([], pending h)
    \<and> env_ok demo_rec_env (out_area s \<union> in_area s) (demo_rec_mem obj)
    \<and> blk 8 160 \<inter> (out_area s \<union> in_area s \<union> statics demo_rec_env) = {}"
proof -
  have z: "fix_buf_size 100 = 100" "unat (100 :: u_int) = 100" by (simp_all add: fix_buf_size_def RNDUP_def BYTES_PER_XDR_UNIT_def)
  have l: "length (demo_rec_mem obj) = 468" using assms(1) by (simp add: demo_rec_mem_def)
  obtain s where s: "xdrrec_create demo_rec_env (demo_rec_mem obj) 100 100 h rd wr = (Some s, demo_rec_mem obj)" "rec_base rd wr live s (demo_rec_mem obj)"
      "tcp_handle s = h" "out_cur s (demo_rec_mem obj) = []" "out_wire sent s (demo_rec_mem obj) = sent h" "in_rest pending s (demo_rec_mem obj) = Some ([], pending h)"
      "out_area s \<union> in_area s \<subseteq> blk 168 204"
    using create_spec [of demo_rec_env "demo_rec_mem obj" 400 "demo_rec_mem obj" 100 100 168 "demo_rec_mem obj" live h rd wr sent pending] assms(2) l z
    by (auto simp: demo_rec_env_def BYTES_PER_XDR_UNIT_def)
  have "blk 168 204 \<inter> (blk 8 160 \<union> statics demo_rec_env) = {}" "blk 8 160 \<inter> statics demo_rec_env = {}"
    by (auto simp: blk_def statics_def demo_rec_env_def)
  then have d: "(out_area s \<union> in_area s) \<inter> (blk 8 160 \<union> statics demo_rec_env) = {}" "blk 8 160 \<inter> statics demo_rec_env = {}" using s(7) by auto
  have "slice (demo_rec_mem obj) 4 4 = [0, 0, 0, 0]" by (simp add: demo_rec_mem_def slice_def numeral_eq_Suc)
  then have "env_ok demo_rec_env (out_area s \<union> in_area s) (demo_rec_mem obj)"
    using d l by (auto simp: env_ok_def demo_rec_env_def statics_def blk_def)
  then show ?thesis using s d by blast
qed

theorem tcp_record_roundtrip_witness:
  "\<exists>s s1 m1 s2 m2 r r1 n1 r2 n2.
    xdrrec_create demo_rec_env (demo_rec_mem (wires le32 demo_longs)) 100 100 demo_ct clnt_readtcp clnt_writetcp = (Some s, demo_rec_mem (wires le32 demo_longs))
    \<and> demo_filter (handle (xdrrec_ops (\<lambda>_. - 1)) XDR_ENCODE s) (demo_rec_mem (wires le32 demo_longs)) 8 LASTUNSIGNED
      = Some (True, handle (xdrrec_ops (\<lambda>_. - 1)) XDR_ENCODE s1, m1)
    \<and> xdrrec_endofrecord s1 m1 True = Some (True, s2, m2)
    \<and> xdrrec_create demo_rec_env (demo_rec_mem (replicate 160 0)) 100 100 (demo_xprt (clnt_out (tcp_handle s2) @ [1, 2, 3])) svc_readtcp svc_writetcp
      = (Some r, demo_rec_mem (replicate 160 0))
    \<and> xdrrec_skiprecord r (demo_rec_mem (replicate 160 0)) = Some (True, r1, n1)
    \<and> demo_filter (handle (xdrrec_ops (\<lambda>_. - 1)) XDR_DECODE r1) n1 8 LASTUNSIGNED = Some (True, handle (xdrrec_ops (\<lambda>_. - 1)) XDR_DECODE r2, n2)
    \<and> slice n2 8 160 = wires le32 demo_longs \<and> in_rest svc_in r2 n2 = Some ([], [1, 2, 3])"
proof -
  let ?m = "demo_rec_mem (wires le32 demo_longs)" and ?n = "demo_rec_mem (replicate 160 0)"
  have lv: "length demo_longs = 40" "length (wires le32 demo_longs) = 160" "length (wires be32 demo_longs) \<le> 2 ^ 32"
    using length_wires [of demo_longs le32 4] length_wires [of demo_longs be32 4] by (simp_all add: demo_longs_def)
  have live: "clnt_live demo_ct" "svc_live (demo_xprt bs)" for bs by (auto simp: demo_ct_def demo_xprt_def sock_live_def)
  obtain s where s: "xdrrec_create demo_rec_env ?m 100 100 demo_ct clnt_readtcp clnt_writetcp = (Some s, ?m)"
      "rec_base clnt_readtcp clnt_writetcp clnt_live s ?m" "out_cur s ?m = []" "out_wire clnt_out s ?m = []"
      "env_ok demo_rec_env (out_area s \<union> in_area s) ?m" "blk 8 160 \<inter> (out_area s \<union> in_area s \<union> statics demo_rec_env) = {}"
    using demo_create [of "wires le32 demo_longs" clnt_live demo_ct clnt_readtcp clnt_writetcp clnt_out clnt_in] lv(2) live(1) by (auto simp: demo_ct_def)
  have "8 + 160 \<le> length ?m" "slice ?m 8 160 = wires le32 demo_longs" "8 + 160 \<le> length ?n" using lv(2) by (simp_all add: demo_rec_mem_def slice_def)
  then obtain s1 m1 s2 m2 u where 1: "demo_filter (handle (xdrrec_ops (\<lambda>_. - 1)) XDR_ENCODE s) ?m 8 LASTUNSIGNED
        = Some (True, handle (xdrrec_ops (\<lambda>_. - 1)) XDR_ENCODE s1, m1)"
      "xdrrec_endofrecord s1 m1 True = Some (True, s2, m2)" "clnt_out (tcp_handle s2) = u"
      "\<forall>r n x w q. rec_base svc_readtcp svc_writetcp svc_live r n \<and> in_rest svc_in r n = Some (x, u @ w)
        \<and> env_ok demo_rec_env (out_area r \<union> in_area r) n \<and> q + 160 \<le> length n \<and> blk q 160 \<inter> (out_area r \<union> in_area r \<union> statics demo_rec_env) = {} \<longrightarrow>
      (\<exists>r1 n1 r2 n2. xdrrec_skiprecord r n = Some (True, r1, n1)
        \<and> demo_filter (handle (xdrrec_ops (\<lambda>_. - 1)) XDR_DECODE r1) n1 q LASTUNSIGNED = Some (True, handle (xdrrec_ops (\<lambda>_. - 1)) XDR_DECODE r2, n2)
        \<and> slice n2 q 160 = wires le32 demo_longs \<and> rec_base svc_readtcp svc_writetcp svc_live r2 n2 \<and> in_rest svc_in r2 n2 = Some ([], w))"
    using tcp_record_roundtrip [of "\<lambda>_. - 1" demo_rec_env demo_filter 160 "{vs. length vs = 40}" "wires le32" "wires be32" "\<lambda>_. - 1" demo_rec_env
        demo_filter demo_longs s ?m 8] demo_codec [OF cl.rs.xdr_stream_axioms] demo_codec [OF sv.rs.xdr_stream_axioms] lv s by auto
  obtain r where r: "xdrrec_create demo_rec_env ?n 100 100 (demo_xprt (u @ [1, 2, 3])) svc_readtcp svc_writetcp = (Some r, ?n)"
      "rec_base svc_readtcp svc_writetcp svc_live r ?n" "in_rest svc_in r ?n = Some ([], u @ [1, 2, 3])"
      "env_ok demo_rec_env (out_area r \<union> in_area r) ?n" "blk 8 160 \<inter> (out_area r \<union> in_area r \<union> statics demo_rec_env) = {}"
    using demo_create [of "replicate 160 0" svc_live "demo_xprt (u @ [1, 2, 3])" svc_readtcp svc_writetcp svc_out svc_in] live(2) by (auto simp: demo_xprt_def)
  have "8 + 160 \<le> length ?n" by (simp add: demo_rec_mem_def)
  then show ?thesis using 1(4) [rule_format, of r ?n "[]" "[1, 2, 3]" 8] r s(1) 1(1-3) by blast
qed

text \<open>
  C21: a stream does not read beyond the end of a record: a request for more bytes than the record has left fails, and
  leaves the stream at the end of the record, before the one that follows.
\<close>

theorem record_end:
  assumes "rec_base svc_readtcp svc_writetcp svc_live s m" "in_rest svc_in s m = Some (r, a)"
  shows "(length r < unat n \<and> p + unat n \<le> length m \<and> blk p (unat n) \<inter> in_area s = {} \<longrightarrow>
      (\<exists>s' m'. xdrrec_getbytes s m p n = Some (False, s', m') \<and> rec_base svc_readtcp svc_writetcp svc_live s' m' \<and> in_rest svc_in s' m' = Some ([], a)))
    \<and> (length r < 4 \<longrightarrow>
      (\<exists>s' m'. xdrrec_getlong s m = Some (None, s', m') \<and> rec_base svc_readtcp svc_writetcp svc_live s' m' \<and> in_rest svc_in s' m' = Some ([], a)))"
proof (intro conjI impI)
  assume a: "length r < unat n \<and> p + unat n \<le> length m \<and> blk p (unat n) \<inter> in_area s = {}"
  have "unat n < 2 ^ 32" using unsigned_less [of n] by simp
  then show "\<exists>s' m'. xdrrec_getbytes s m p n = Some (False, s', m') \<and> rec_base svc_readtcp svc_writetcp svc_live s' m' \<and> in_rest svc_in s' m' = Some ([], a)"
    using sv.getbytes_short [OF assms, of "unat n" "Addr p"] a by (auto simp: sink_ok_def sink_area_def xdrrec_getbytes_def in_move_def)
next
  assume a: "length r < 4"
  have "unat (fbtbc s) \<le> length r"
    using rest_rec_take [OF assms(2) [unfolded in_rest_def] order_refl] by (auto dest!: arg_cong [where f = length])
  then have "\<not> 4 \<le> fbtbc s" using a by (simp add: word_le_nat_alt)
  then show "\<exists>s' m'. xdrrec_getlong s m = Some (None, s', m') \<and> rec_base svc_readtcp svc_writetcp svc_live s' m' \<and> in_rest svc_in s' m' = Some ([], a)"
    using sv.getbytes_short [OF assms a, of "Var []"] by (auto simp: sink_ok_def sink_area_def xdrrec_getlong_def in_move_def)
qed

theorem record_end_witness:
  "\<exists>s s' m'. xdrrec_create demo_rec_env (demo_rec_mem (replicate 160 0)) 100 100 (demo_xprt [7, 8, 0x80, 0, 0, 1, 9]) svc_readtcp svc_writetcp
      = (Some s, demo_rec_mem (replicate 160 0))
    \<and> xdrrec_getlong (s\<lparr>fbtbc := 2\<rparr>) (demo_rec_mem (replicate 160 0)) = Some (None, s', m')
    \<and> in_rest svc_in s' m' = Some ([], [0x80, 0, 0, 1, 9])"
proof -
  let ?bs = "[7, 8, 0x80, 0, 0, 1, 9] :: byte list" and ?n = "demo_rec_mem (replicate 160 0)"
  have "svc_live (demo_xprt ?bs)" by (auto simp: demo_xprt_def sock_live_def)
  then obtain s where s: "xdrrec_create demo_rec_env ?n 100 100 (demo_xprt ?bs) svc_readtcp svc_writetcp = (Some s, ?n)"
      "rec_base svc_readtcp svc_writetcp svc_live s ?n" "in_rest svc_in s ?n = Some ([], ?bs)"
    using demo_create [of "replicate 160 0" svc_live "demo_xprt ?bs" svc_readtcp svc_writetcp svc_out svc_in] by (auto simp: demo_xprt_def)
  have "last_frag s" "fbtbc s = 0" using s(1) by (auto simp: xdrrec_create_def Let_def split: prod.splits if_splits)
  then have "in_rest svc_in (s\<lparr>fbtbc := 2\<rparr>) ?n = Some ([7, 8], [0x80, 0, 0, 1, 9])"
    using s(3) by (auto simp: in_rest_def in_wire_def rest_rec.simps)
  moreover have "rec_base svc_readtcp svc_writetcp svc_live (s\<lparr>fbtbc := 2\<rparr>) ?n" using s(2) by (simp add: rec_base_def out_ok_def in_ok_def)
  ultimately show ?thesis using record_end [of "s\<lparr>fbtbc := 2\<rparr>" ?n "[7, 8]" "[0x80, 0, 0, 1, 9]" 0 0] s(1) by auto
qed

lemma write_loop_cases:
  "\<exists>i. i \<le> length bs \<and> sk_out (snd (write_loop sk bs)) = sk_out sk @ take i bs \<and> sk_in (snd (write_loop sk bs)) = sk_in sk
    \<and> (fst (write_loop sk bs) \<longrightarrow> i = length bs)"
proof (induction sk bs rule: write_loop.induct)
  case (1 sk bs)
  show ?case
  proof (cases "bs = []")
    case False
    obtain o1 sk1 where w: "sys_write sk bs = (o1, sk1)" by fastforce
    show ?thesis
    proof (cases o1)
      case None
      then have "sk_out sk1 = sk_out sk" "sk_in sk1 = sk_in sk" using w by (auto simp: sys_write_def Let_def split: list.splits xfer.splits)
      then show ?thesis using w None False by (subst (1 2 3) write_loop.simps) (auto intro!: exI [of _ 0])
    next
      case (Some j)
      then have j: "j \<le> length bs" "sk_out sk1 = sk_out sk @ take j bs" "sk_in sk1 = sk_in sk"
        using w by (auto simp: sys_write_def Let_def split: list.splits xfer.splits)
      obtain i where i: "i \<le> length (drop j bs)" "sk_out (snd (write_loop sk1 (drop j bs))) = sk_out sk1 @ take i (drop j bs)"
          "sk_in (snd (write_loop sk1 (drop j bs))) = sk_in sk1" "fst (write_loop sk1 (drop j bs)) \<longrightarrow> i = length (drop j bs)"
        using 1 [OF False w [symmetric] Some] by blast
      have "write_loop sk bs = write_loop sk1 (drop j bs)" using w Some False by (simp add: write_loop.simps [of sk])
      then show ?thesis using i j by (intro exI [of _ "j + i"]) (auto simp: take_add)
    qed
  qed (simp add: write_loop.simps)
qed

lemma clnt_wait_cases:
  "clnt_in (snd (clnt_wait ct)) = clnt_in ct \<and> clnt_out (snd (clnt_wait ct)) = clnt_out ct
    \<and> (fst (clnt_wait ct) \<longrightarrow> re_status (snd (clnt_wait ct)) = re_status ct)
    \<and> (\<not> fst (clnt_wait ct) \<longrightarrow> re_status (snd (clnt_wait ct)) \<in> {RPC_TIMEDOUT, RPC_CANTRECV})"
proof (induction ct rule: clnt_wait.induct)
  case (1 ct)
  show ?case
  proof (cases "sk_sel (ct_sock ct)")
    case Nil
    then show ?thesis by (simp add: clnt_wait.simps [of ct] sys_select_def)
  next
    case (Cons e es)
    then show ?thesis using 1 by (cases e) (auto simp: clnt_wait.simps [of ct] sys_select_def Let_def)
  qed
qed

lemma sys_read_cases:
  "(case sys_read sk n of (None, sk') \<Rightarrow> sk_in sk' = sk_in sk \<and> sk_out sk' = sk_out sk
    | (Some bs, sk') \<Rightarrow> length bs \<le> n \<and> sk_in sk = bs @ sk_in sk' \<and> sk_out sk' = sk_out sk)"
  by (auto simp: sys_read_def Let_def split: list.splits xfer.splits)

text \<open>
  C30: what the client's routines do in every case. A read gives between one and \<open>len\<close> bytes, the first of the input, or fails,
  takes nothing and reports a time-out or that nothing could be received; a write sends all the bytes, or fails after some of the
  first and reports that it could not send.
\<close>

theorem clnt_transfers:
  "(case clnt_readtcp ct len of
      (None, ct') \<Rightarrow> clnt_in ct' = clnt_in ct \<and> clnt_out ct' = clnt_out ct \<and> re_status ct' \<in> {RPC_TIMEDOUT, RPC_CANTRECV}
    | (Some bs, ct') \<Rightarrow> (bs = [] \<longleftrightarrow> len = 0) \<and> length bs \<le> len \<and> clnt_in ct = bs @ clnt_in ct' \<and> clnt_out ct' = clnt_out ct
        \<and> re_status ct' = re_status ct)
    \<and> (let (r, ct') = clnt_writetcp ct out in
        clnt_in ct' = clnt_in ct
        \<and> (if r = int (length out) then clnt_out ct' = clnt_out ct @ out \<and> re_status ct' = re_status ct
           else r = - 1 \<and> re_status ct' = RPC_CANTSEND \<and> re_errno ct' = errno (ct_sock ct')
             \<and> (\<exists>i. i \<le> length out \<and> clnt_out ct' = clnt_out ct @ take i out)))"
proof
  show "case clnt_readtcp ct len of
      (None, ct') \<Rightarrow> clnt_in ct' = clnt_in ct \<and> clnt_out ct' = clnt_out ct \<and> re_status ct' \<in> {RPC_TIMEDOUT, RPC_CANTRECV}
    | (Some bs, ct') \<Rightarrow> (bs = [] \<longleftrightarrow> len = 0) \<and> length bs \<le> len \<and> clnt_in ct = bs @ clnt_in ct' \<and> clnt_out ct' = clnt_out ct
        \<and> re_status ct' = re_status ct"
    using clnt_wait_cases [of ct] sys_read_cases [of "ct_sock (snd (clnt_wait ct))" len]
    by (auto simp: clnt_readtcp_def Let_def split_def split: prod.splits option.splits list.splits)
  show "let (r, ct') = clnt_writetcp ct out in
        clnt_in ct' = clnt_in ct
        \<and> (if r = int (length out) then clnt_out ct' = clnt_out ct @ out \<and> re_status ct' = re_status ct
           else r = - 1 \<and> re_status ct' = RPC_CANTSEND \<and> re_errno ct' = errno (ct_sock ct')
             \<and> (\<exists>i. i \<le> length out \<and> clnt_out ct' = clnt_out ct @ take i out))"
    using write_loop_cases [of out "ct_sock ct"] by (auto simp: clnt_writetcp_def Let_def split: prod.splits)
qed

text \<open>
  C34: a \<open>select\<close> that is interrupted does not make the server wait again: it goes on to \<open>read\<close> without waiting; and as long as
  \<open>errno\<close> is left at \<open>EINTR\<close> by an earlier call, time-outs are ignored, where otherwise the first of them ends the connection.
\<close>

theorem svc_interrupted:
  "svc_wait (x\<lparr>xp_sock := xp_sock x\<lparr>sk_sel := SelFails EINTR # es\<rparr>\<rparr>) = (True, x\<lparr>xp_sock := xp_sock x\<lparr>sk_sel := es, errno := EINTR\<rparr>\<rparr>)
    \<and> (errno (xp_sock x) = EINTR \<longrightarrow>
        svc_wait (x\<lparr>xp_sock := xp_sock x\<lparr>sk_sel := replicate k Timeout @ Ready # es\<rparr>\<rparr>) = (True, x\<lparr>xp_sock := xp_sock x\<lparr>sk_sel := es\<rparr>\<rparr>))
    \<and> (errno (xp_sock x) \<noteq> EINTR \<longrightarrow>
        svc_wait (x\<lparr>xp_sock := xp_sock x\<lparr>sk_sel := Timeout # es\<rparr>\<rparr>) = (False, x\<lparr>xp_sock := xp_sock x\<lparr>sk_sel := es\<rparr>\<rparr>))"
proof (intro conjI impI)
  assume e: "errno (xp_sock x) = EINTR"
  show "svc_wait (x\<lparr>xp_sock := xp_sock x\<lparr>sk_sel := replicate k Timeout @ Ready # es\<rparr>\<rparr>) = (True, x\<lparr>xp_sock := xp_sock x\<lparr>sk_sel := es\<rparr>\<rparr>)"
  proof (induction k)
    case (Suc k)
    then show ?case using e by (subst svc_wait.simps) (simp add: sys_select_def)
  qed (use e in \<open>simp add: svc_wait.simps sys_select_def\<close>)
qed (auto simp: svc_wait.simps sys_select_def)

text \<open>
  Moving a stream that decodes \<open>k\<close> bytes forward in its buffer takes them off the buffer but adds them to the bytes left of
  the fragment, from which they should be taken.
\<close>

theorem setpos_forward:
  assumes "xdrrec_getpos seek XDR_DECODE s \<noteq> - 1" "0 < k" "in_base s \<le> in_finger s" "in_finger s + k \<le> in_boundry s" "in_boundry s < 2 ^ 31"
    "unat (fbtbc s) < 2 ^ 31"
  shows "xdrrec_setpos seek XDR_DECODE s (xdrrec_getpos seek XDR_DECODE s + of_nat k)
    = (True, s\<lparr>in_finger := in_finger s + k, fbtbc := fbtbc s + of_nat k\<rparr>)"
proof -
  let ?c = "xdrrec_getpos seek XDR_DECODE s"
  have k: "k < 2 ^ 31" "in_finger s + k < 2 ^ 32" "in_boundry s < 2 ^ 32" "in_base s < 2 ^ 32" using assms(3-5) by auto
  have n: "of_nat (in_finger s) - (?c - (?c + of_nat k)) = of_nat (in_finger s + k)" by simp
  have "sint (- of_nat k :: u_int) = - int k"
    using k(1) signed_take_bit_int_eq_self [of 31 "- int k"] signed_of_int [of "- int k", where 'b = 32 and 'a = int] by simp
  moreover have "sint (fbtbc s) = int (unat (fbtbc s))" using assms(6) sint_addr [of "unat (fbtbc s)"] by simp
  moreover have "?c - (?c + of_nat k) = - of_nat k" by simp
  ultimately have "sint (?c - (?c + of_nat k)) < sint (fbtbc s)" using assms(2) by presburger
  moreover have "of_nat (in_finger s + k) \<le> (of_nat (in_boundry s) :: u_int)" "of_nat (in_base s) \<le> (of_nat (in_finger s + k) :: u_int)"
    "unat (of_nat (in_finger s + k) :: u_int) = in_finger s + k"
    using assms(3,4) k by (simp_all add: word_le_nat_alt unat_ptr del: of_nat_add)
  ultimately show ?thesis using assms(1) unfolding xdrrec_setpos_def Let_def n by simp
qed

theorem svc_interrupted_witness:
  "svc_wait \<lparr>xp_sock = \<lparr>sk_in = [1], sk_out = [], sk_sel = [Timeout, Timeout, Timeout, Ready], sk_rd = [], sk_wr = [], errno = EINTR\<rparr>, strm_stat = XPRT_IDLE\<rparr>
    = (True, \<lparr>xp_sock = \<lparr>sk_in = [1], sk_out = [], sk_sel = [], sk_rd = [], sk_wr = [], errno = EINTR\<rparr>, strm_stat = XPRT_IDLE\<rparr>)"
  using svc_interrupted [where x = "\<lparr>xp_sock = \<lparr>sk_in = [1], sk_out = [], sk_sel = [], sk_rd = [], sk_wr = [], errno = EINTR\<rparr>, strm_stat = XPRT_IDLE\<rparr>" and es = "[]" and k = 3]
  by (simp add: numeral_eq_Suc)

theorem setpos_forward_witness:
  "\<exists>s. xdrrec_create demo_rec_env (demo_rec_mem (replicate 160 0)) 100 100 demo_ct clnt_readtcp clnt_writetcp = (Some s, demo_rec_mem (replicate 160 0))
    \<and> xdrrec_setpos (\<lambda>_. 8) XDR_DECODE (s\<lparr>in_finger := 300, in_boundry := 308, fbtbc := 8\<rparr>) 4
      = (True, s\<lparr>in_finger := 304, in_boundry := 308, fbtbc := 12\<rparr>)"
proof -
  have "clnt_live demo_ct" by (auto simp: demo_ct_def sock_live_def)
  then obtain s where s: "xdrrec_create demo_rec_env (demo_rec_mem (replicate 160 0)) 100 100 demo_ct clnt_readtcp clnt_writetcp
        = (Some s, demo_rec_mem (replicate 160 0))"
    using demo_create [of "replicate 160 0" clnt_live demo_ct clnt_readtcp clnt_writetcp clnt_out clnt_in] by auto
  have "align_up 168 = 168" by (simp add: align_up.simps)
  then have "in_base s = 268" using s by (auto simp: xdrrec_create_def demo_rec_env_def Let_def fix_buf_size_def RNDUP_def BYTES_PER_XDR_UNIT_def)
  then show ?thesis
    using setpos_forward [of "\<lambda>_. 8" "s\<lparr>in_finger := 300, in_boundry := 308, fbtbc := 8\<rparr>" 4] s by (auto simp: xdrrec_getpos_def)
qed

end
