(* ===== verification/RpcMsg.thy ===== *)
theory RpcMsg
  imports RpcTcp
begin

unbundle bit_operations_syntax

text \<open>
  The messages of remote procedure calls, \<open>lib/librpc/rpc/rpc_prot.c\<close> and \<open>rpc_callmsg.c\<close>: filters for the structures of
  \<open>rpc_msg.h\<close> and \<open>auth.h\<close>, which lie in memory as there, and what the client makes of a reply. An address plus a number
  is that field of the structure: of \<open>rpc_msg\<close>, \<open>rm_xid\<close> at 0 and \<open>rm_direction\<close> at 4, then of a call \<open>cb_rpcvers\<close>, \<open>cb_prog\<close>,
  \<open>cb_vers\<close>, \<open>cb_proc\<close>, \<open>cb_cred\<close> at 24 and \<open>cb_verf\<close> at 36, and of a reply \<open>rp_stat\<close> at 8 and the union at 12.
\<close>

section \<open>Definitions\<close>

definition MAX_AUTH_BYTES :: u_int where "MAX_AUTH_BYTES = 400"
definition RPC_MSG_VERSION :: u_long where "RPC_MSG_VERSION = 2"

definition CALL :: u_int where "CALL = 0"
definition REPLY :: u_int where "REPLY = 1"
definition MSG_ACCEPTED :: u_int where "MSG_ACCEPTED = 0"
definition MSG_DENIED :: u_int where "MSG_DENIED = 1"
definition SUCCESS :: u_int where "SUCCESS = 0"
definition PROG_UNAVAIL :: u_int where "PROG_UNAVAIL = 1"
definition PROG_MISMATCH :: u_int where "PROG_MISMATCH = 2"
definition PROC_UNAVAIL :: u_int where "PROC_UNAVAIL = 3"
definition GARBAGE_ARGS :: u_int where "GARBAGE_ARGS = 4"
definition SYSTEM_ERR :: u_int where "SYSTEM_ERR = 5"
definition RPC_MISMATCH :: u_int where "RPC_MISMATCH = 0"
definition AUTH_ERROR :: u_int where "AUTH_ERROR = 1"

text \<open>The conjunction of two filters: the second is not called when the first fails.\<close>

definition and_then :: "(bool \<times> 's XDR \<times> mem) option \<Rightarrow> ('s XDR \<Rightarrow> mem \<Rightarrow> (bool \<times> 's XDR \<times> mem) option) \<Rightarrow> (bool \<times> 's XDR \<times> mem) option" where
  "and_then r k = do { (ok, xdrs, m) \<leftarrow> r; (if ok then k xdrs m else Some (False, xdrs, m)) }"

subsection \<open>Authentication\<close>

text \<open>\<open>oa_flavor\<close> is at 0, \<open>oa_base\<close> at 4, \<open>oa_length\<close> at 8.\<close>

definition xdr_opaque_auth :: "xdr_env \<Rightarrow> 's XDR \<Rightarrow> mem \<Rightarrow> ptr \<Rightarrow> (bool \<times> 's XDR \<times> mem) option" where
  "xdr_opaque_auth E xdrs m ap =
     and_then (xdr_enum xdrs m ap) (\<lambda>xdrs m. xdr_bytes E xdrs m (ap + 4) (ap + 8) MAX_AUTH_BYTES)"

definition xdr_des_block :: "xdr_env \<Rightarrow> 's XDR \<Rightarrow> mem \<Rightarrow> ptr \<Rightarrow> (bool \<times> 's XDR \<times> mem) option" where
  "xdr_des_block E xdrs m blkp = xdr_opaque E xdrs m blkp 8"

subsection \<open>Replies\<close>

text \<open>\<open>procs\<close> gives the filter at an address. Of an accepted reply \<open>ar_verf\<close> is at 0, \<open>ar_stat\<close> at 12, the union at 16; of a rejected
  one \<open>rj_stat\<close> is at 0 and the union at 4.\<close>

definition xdr_accepted_reply :: "xdr_env \<Rightarrow> (u_int \<Rightarrow> 's xdrproc_t) \<Rightarrow> 's XDR \<Rightarrow> mem \<Rightarrow> ptr \<Rightarrow> (bool \<times> 's XDR \<times> mem) option" where
  "xdr_accepted_reply E procs xdrs m ar =
     and_then (xdr_opaque_auth E xdrs m ar) (\<lambda>xdrs m.
     and_then (xdr_enum xdrs m (ar + 12)) (\<lambda>xdrs m. do {
       stat \<leftarrow> load32 m (ar + 12);
       (if stat = SUCCESS then do {
          wher \<leftarrow> load32 m (ar + 16);
          proc \<leftarrow> load32 m (ar + 20);
          procs proc xdrs m (unat wher) LASTUNSIGNED }
        else if stat = PROG_MISMATCH then
          and_then (xdr_u_long xdrs m (ar + 16)) (\<lambda>xdrs m. xdr_u_long xdrs m (ar + 20))
        else Some (True, xdrs, m)) }))"

definition xdr_rejected_reply :: "'s XDR \<Rightarrow> mem \<Rightarrow> ptr \<Rightarrow> (bool \<times> 's XDR \<times> mem) option" where
  "xdr_rejected_reply xdrs m rr =
     and_then (xdr_enum xdrs m rr) (\<lambda>xdrs m. do {
       stat \<leftarrow> load32 m rr;
       (if stat = RPC_MISMATCH then and_then (xdr_u_long xdrs m (rr + 4)) (\<lambda>xdrs m. xdr_u_long xdrs m (rr + 8))
        else if stat = AUTH_ERROR then xdr_enum xdrs m (rr + 4)
        else Some (False, xdrs, m)) })"

definition reply_dscrm :: "xdr_env \<Rightarrow> (u_int \<Rightarrow> 's xdrproc_t) \<Rightarrow> (u_int \<times> 's xdrproc_t) list" where
  "reply_dscrm E procs = [(MSG_ACCEPTED, \<lambda>x m p u. xdr_accepted_reply E procs x m p), (MSG_DENIED, \<lambda>x m p u. xdr_rejected_reply x m p)]"

definition xdr_replymsg :: "xdr_env \<Rightarrow> (u_int \<Rightarrow> 's xdrproc_t) \<Rightarrow> 's XDR \<Rightarrow> mem \<Rightarrow> ptr \<Rightarrow> (bool \<times> 's XDR \<times> mem) option" where
  "xdr_replymsg E procs xdrs m rmsg =
     and_then (xdr_u_long xdrs m rmsg) (\<lambda>xdrs m.
     and_then (xdr_enum xdrs m (rmsg + 4)) (\<lambda>xdrs m. do {
       dir \<leftarrow> load32 m (rmsg + 4);
       (if dir = REPLY then xdr_union xdrs m (rmsg + 8) (rmsg + 12) (reply_dscrm E procs) None
        else Some (False, xdrs, m)) }))"

subsection \<open>Calls\<close>

definition xdr_callhdr :: "'s XDR \<Rightarrow> mem \<Rightarrow> ptr \<Rightarrow> (bool \<times> 's XDR \<times> mem) option" where
  "xdr_callhdr xdrs m cmsg = do {
     m \<leftarrow> store32 m (cmsg + 4) CALL;
     m \<leftarrow> store32 m (cmsg + 8) RPC_MSG_VERSION;
     (if x_op xdrs \<noteq> XDR_ENCODE then Some (False, xdrs, m)
      else
        and_then (xdr_u_long xdrs m cmsg) (\<lambda>xdrs m.
        and_then (xdr_enum xdrs m (cmsg + 4)) (\<lambda>xdrs m.
        and_then (xdr_u_long xdrs m (cmsg + 8)) (\<lambda>xdrs m.
        and_then (xdr_u_long xdrs m (cmsg + 12)) (\<lambda>xdrs m. xdr_u_long xdrs m (cmsg + 16)))))) }"

definition XDR_INLINE :: "'s XDR \<Rightarrow> u_int \<Rightarrow> ptr \<times> 's XDR" where
  "XDR_INLINE xdrs len = (let (buf, s) = x_inline (x_ops xdrs) (x_op xdrs) (x_stream xdrs) len in (buf, xdrs\<lparr>x_stream := s\<rparr>))"

definition IXDR_GET_LONG :: "mem \<Rightarrow> ptr \<Rightarrow> (u_long \<times> ptr) option" where
  "IXDR_GET_LONG m buf = do { w \<leftarrow> load32 m buf; Some (ntohl w, buf + 4) }"

definition IXDR_PUT_LONG :: "mem \<Rightarrow> ptr \<Rightarrow> u_long \<Rightarrow> (ptr \<times> mem) option" where
  "IXDR_PUT_LONG m buf v = do { m \<leftarrow> store32 m buf (htonl v); Some (buf + 4, m) }"

text \<open>The two structures for authentication, written in line and read.\<close>

definition put_auth :: "mem \<Rightarrow> ptr \<Rightarrow> ptr \<Rightarrow> (ptr \<times> mem) option" where
  "put_auth m buf oa = do {
     flavor \<leftarrow> load32 m oa;
     (buf, m) \<leftarrow> IXDR_PUT_LONG m buf flavor;
     len \<leftarrow> load32 m (oa + 8);
     (buf, m) \<leftarrow> IXDR_PUT_LONG m buf len;
     len \<leftarrow> load32 m (oa + 8);
     (if len \<noteq> 0 then do {
        b \<leftarrow> load32 m (oa + 4);
        m \<leftarrow> bcopy m (unat b) buf len;
        len \<leftarrow> load32 m (oa + 8);
        Some (buf + unat (RNDUP len), m) }
      else Some (buf, m)) }"

definition get_auth_body :: "xdr_env \<Rightarrow> 's XDR \<Rightarrow> mem \<Rightarrow> ptr \<Rightarrow> (bool \<times> 's XDR \<times> mem) option" where
  "get_auth_body E xdrs m oa = do {
     len \<leftarrow> load32 m (oa + 8);
     (if len = 0 then Some (True, xdrs, m)
      else if len > MAX_AUTH_BYTES then Some (False, xdrs, m)
      else do {
        b \<leftarrow> load32 m (oa + 4);
        m \<leftarrow> (if b = 0 then (let (b, m) = mem_alloc E m len in store32 m (oa + 4) (of_nat b)) else Some m);
        len \<leftarrow> load32 m (oa + 8);
        b \<leftarrow> load32 m (oa + 4);
        (let (buf, xdrs) = XDR_INLINE xdrs (RNDUP len) in
         if buf = 0 then xdr_opaque E xdrs m (unat b) len
         else do { m \<leftarrow> bcopy m buf (unat b) len; Some (True, xdrs, m) }) }) }"

definition get_verf_head :: "'s XDR \<Rightarrow> mem \<Rightarrow> ptr \<Rightarrow> (bool \<times> 's XDR \<times> mem) option" where
  "get_verf_head xdrs m oa = (
     let (buf, xdrs) = XDR_INLINE xdrs (2 * BYTES_PER_XDR_UNIT) in
     if buf = 0 then and_then (xdr_enum xdrs m oa) (\<lambda>xdrs m. xdr_u_int xdrs m (oa + 8))
     else do {
       (w, buf) \<leftarrow> IXDR_GET_LONG m buf;
       m \<leftarrow> store32 m oa w;
       (w, buf) \<leftarrow> IXDR_GET_LONG m buf;
       m \<leftarrow> store32 m (oa + 8) w;
       Some (True, xdrs, m) })"

definition put_call :: "'s XDR \<Rightarrow> mem \<Rightarrow> ptr \<Rightarrow> ptr \<Rightarrow> (bool \<times> 's XDR \<times> mem) option" where
  "put_call xdrs m cmsg buf = do {
     w \<leftarrow> load32 m cmsg;
     (buf, m) \<leftarrow> IXDR_PUT_LONG m buf w;
     w \<leftarrow> load32 m (cmsg + 4);
     (buf, m) \<leftarrow> IXDR_PUT_LONG m buf w;
     w \<leftarrow> load32 m (cmsg + 4);
     (if w \<noteq> CALL then Some (False, xdrs, m)
      else do {
        w \<leftarrow> load32 m (cmsg + 8);
        (buf, m) \<leftarrow> IXDR_PUT_LONG m buf w;
        w \<leftarrow> load32 m (cmsg + 8);
        (if w \<noteq> RPC_MSG_VERSION then Some (False, xdrs, m)
         else do {
           w \<leftarrow> load32 m (cmsg + 12);
           (buf, m) \<leftarrow> IXDR_PUT_LONG m buf w;
           w \<leftarrow> load32 m (cmsg + 16);
           (buf, m) \<leftarrow> IXDR_PUT_LONG m buf w;
           w \<leftarrow> load32 m (cmsg + 20);
           (buf, m) \<leftarrow> IXDR_PUT_LONG m buf w;
           (buf, m) \<leftarrow> put_auth m buf (cmsg + 24);
           (buf, m) \<leftarrow> put_auth m buf (cmsg + 36);
           Some (True, xdrs, m) }) }) }"

definition get_call :: "xdr_env \<Rightarrow> 's XDR \<Rightarrow> mem \<Rightarrow> ptr \<Rightarrow> ptr \<Rightarrow> (bool \<times> 's XDR \<times> mem) option" where
  "get_call E xdrs m cmsg buf = do {
     (w, buf) \<leftarrow> IXDR_GET_LONG m buf;
     m \<leftarrow> store32 m cmsg w;
     (w, buf) \<leftarrow> IXDR_GET_LONG m buf;
     m \<leftarrow> store32 m (cmsg + 4) w;
     (if w \<noteq> CALL then Some (False, xdrs, m)
      else do {
        (w, buf) \<leftarrow> IXDR_GET_LONG m buf;
        m \<leftarrow> store32 m (cmsg + 8) w;
        (if w \<noteq> RPC_MSG_VERSION then Some (False, xdrs, m)
         else do {
           (w, buf) \<leftarrow> IXDR_GET_LONG m buf;
           m \<leftarrow> store32 m (cmsg + 12) w;
           (w, buf) \<leftarrow> IXDR_GET_LONG m buf;
           m \<leftarrow> store32 m (cmsg + 16) w;
           (w, buf) \<leftarrow> IXDR_GET_LONG m buf;
           m \<leftarrow> store32 m (cmsg + 20) w;
           (w, buf) \<leftarrow> IXDR_GET_LONG m buf;
           m \<leftarrow> store32 m (cmsg + 24) w;
           (w, buf) \<leftarrow> IXDR_GET_LONG m buf;
           m \<leftarrow> store32 m (cmsg + 32) w;
           and_then (get_auth_body E xdrs m (cmsg + 24)) (\<lambda>xdrs m.
           and_then (get_verf_head xdrs m (cmsg + 36)) (\<lambda>xdrs m. get_auth_body E xdrs m (cmsg + 36))) }) }) }"

definition each_call :: "xdr_env \<Rightarrow> 's XDR \<Rightarrow> mem \<Rightarrow> ptr \<Rightarrow> (bool \<times> 's XDR \<times> mem) option" where
  "each_call E xdrs m cmsg =
     and_then (xdr_u_long xdrs m cmsg) (\<lambda>xdrs m.
     and_then (xdr_enum xdrs m (cmsg + 4)) (\<lambda>xdrs m. do {
       dir \<leftarrow> load32 m (cmsg + 4);
       (if dir \<noteq> CALL then Some (False, xdrs, m)
        else and_then (xdr_u_long xdrs m (cmsg + 8)) (\<lambda>xdrs m. do {
          vers \<leftarrow> load32 m (cmsg + 8);
          (if vers \<noteq> RPC_MSG_VERSION then Some (False, xdrs, m)
           else
             and_then (xdr_u_long xdrs m (cmsg + 12)) (\<lambda>xdrs m.
             and_then (xdr_u_long xdrs m (cmsg + 16)) (\<lambda>xdrs m.
             and_then (xdr_u_long xdrs m (cmsg + 20)) (\<lambda>xdrs m.
             and_then (xdr_opaque_auth E xdrs m (cmsg + 24)) (\<lambda>xdrs m. xdr_opaque_auth E xdrs m (cmsg + 36)))))) })) }))"

definition xdr_callmsg :: "xdr_env \<Rightarrow> 's XDR \<Rightarrow> mem \<Rightarrow> ptr \<Rightarrow> (bool \<times> 's XDR \<times> mem) option" where
  "xdr_callmsg E xdrs m cmsg =
     (case x_op xdrs of
       XDR_ENCODE \<Rightarrow> do {
         cl \<leftarrow> load32 m (cmsg + 32);
         (if cl > MAX_AUTH_BYTES then Some (False, xdrs, m)
          else do {
            vl \<leftarrow> load32 m (cmsg + 44);
            (if vl > MAX_AUTH_BYTES then Some (False, xdrs, m)
             else
               let (buf, xdrs) = XDR_INLINE xdrs (8 * BYTES_PER_XDR_UNIT + RNDUP cl + 2 * BYTES_PER_XDR_UNIT + RNDUP vl) in
               if buf \<noteq> 0 then put_call xdrs m cmsg buf else each_call E xdrs m cmsg) }) }
     | XDR_DECODE \<Rightarrow>
         (let (buf, xdrs) = XDR_INLINE xdrs (8 * BYTES_PER_XDR_UNIT) in
          if buf \<noteq> 0 then get_call E xdrs m cmsg buf else each_call E xdrs m cmsg)
     | XDR_FREE \<Rightarrow> each_call E xdrs m cmsg)"

subsection \<open>Errors\<close>

text \<open>The values of the enumeration, and the error with the two words of its union.\<close>

fun clnt_stat_no :: "clnt_stat \<Rightarrow> u_int" where
  "clnt_stat_no RPC_SUCCESS = 0"
| "clnt_stat_no RPC_CANTENCODEARGS = 1"
| "clnt_stat_no RPC_CANTDECODERES = 2"
| "clnt_stat_no RPC_CANTSEND = 3"
| "clnt_stat_no RPC_CANTRECV = 4"
| "clnt_stat_no RPC_TIMEDOUT = 5"
| "clnt_stat_no RPC_VERSMISMATCH = 6"
| "clnt_stat_no RPC_AUTHERROR = 7"
| "clnt_stat_no RPC_PROGUNAVAIL = 8"
| "clnt_stat_no RPC_PROGVERSMISMATCH = 9"
| "clnt_stat_no RPC_PROCUNAVAIL = 10"
| "clnt_stat_no RPC_CANTDECODEARGS = 11"
| "clnt_stat_no RPC_SYSTEMERROR = 12"
| "clnt_stat_no RPC_UNKNOWNHOST = 13"
| "clnt_stat_no RPC_UNKNOWNPROTO = 17"
| "clnt_stat_no RPC_PMAPFAILURE = 14"
| "clnt_stat_no RPC_PROGNOTREGISTERED = 15"
| "clnt_stat_no RPC_FAILED = 16"

record rpc_err =
  err_status :: clnt_stat
  ru1 :: u_long
  ru2 :: u_long

definition accepted :: "u_int \<Rightarrow> rpc_err \<Rightarrow> rpc_err" where
  "accepted acpt_stat error =
     (if acpt_stat = PROG_UNAVAIL then error\<lparr>err_status := RPC_PROGUNAVAIL\<rparr>
      else if acpt_stat = PROG_MISMATCH then error\<lparr>err_status := RPC_PROGVERSMISMATCH\<rparr>
      else if acpt_stat = PROC_UNAVAIL then error\<lparr>err_status := RPC_PROCUNAVAIL\<rparr>
      else if acpt_stat = GARBAGE_ARGS then error\<lparr>err_status := RPC_CANTDECODEARGS\<rparr>
      else if acpt_stat = SYSTEM_ERR then error\<lparr>err_status := RPC_SYSTEMERROR\<rparr>
      else if acpt_stat = SUCCESS then error\<lparr>err_status := RPC_SUCCESS\<rparr>
      else error\<lparr>err_status := RPC_FAILED, ru1 := MSG_ACCEPTED, ru2 := acpt_stat\<rparr>)"

definition rejected :: "u_int \<Rightarrow> rpc_err \<Rightarrow> rpc_err" where
  "rejected rjct_stat error =
     (if rjct_stat = clnt_stat_no RPC_VERSMISMATCH then error\<lparr>err_status := RPC_VERSMISMATCH\<rparr>
      else if rjct_stat = AUTH_ERROR then error\<lparr>err_status := RPC_AUTHERROR\<rparr>
      else error\<lparr>err_status := RPC_FAILED, ru1 := MSG_DENIED, ru2 := rjct_stat\<rparr>)"

definition reply_detail :: "mem \<Rightarrow> ptr \<Rightarrow> rpc_err \<Rightarrow> rpc_err option" where
  "reply_detail m msg error =
     (case err_status error of
       RPC_VERSMISMATCH \<Rightarrow> do { low \<leftarrow> load32 m (msg + 16); high \<leftarrow> load32 m (msg + 20); Some (error\<lparr>ru1 := low, ru2 := high\<rparr>) }
     | RPC_AUTHERROR \<Rightarrow> do { why \<leftarrow> load32 m (msg + 16); Some (error\<lparr>ru1 := why\<rparr>) }
     | RPC_PROGVERSMISMATCH \<Rightarrow> do { low \<leftarrow> load32 m (msg + 28); high \<leftarrow> load32 m (msg + 32); Some (error\<lparr>ru1 := low, ru2 := high\<rparr>) }
     | _ \<Rightarrow> Some error)"

definition seterr_reply :: "mem \<Rightarrow> ptr \<Rightarrow> rpc_err \<Rightarrow> rpc_err option" where
  "seterr_reply m msg error = do {
     rp_stat \<leftarrow> load32 m (msg + 8);
     (if rp_stat = MSG_ACCEPTED then do {
        ar_stat \<leftarrow> load32 m (msg + 24);
        (if ar_stat = SUCCESS then Some (error\<lparr>err_status := RPC_SUCCESS\<rparr>) else reply_detail m msg (accepted ar_stat error)) }
      else if rp_stat = MSG_DENIED then do { rj_stat \<leftarrow> load32 m (msg + 12); reply_detail m msg (rejected rj_stat error) }
      else reply_detail m msg (error\<lparr>err_status := RPC_FAILED, ru1 := rp_stat\<rparr>)) }"

end
