(* ===== verification/RpcTrip.thy ===== *)
theory RpcTrip
  imports RpcMsg
begin

unbundle bit_operations_syntax

text \<open>
  Messages of remote procedure calls there and back: filters in sequence are codecs when their parts are, which gives the
  rejected replies on any stream; calls in line are written to and read from memory word by word.
\<close>

section \<open>Filters in sequence\<close>

lemma and_then_True [simp]: "r = Some (True, x, m) \<Longrightarrow> and_then r k = k x m"
  by (simp add: and_then_def)

lemma slice_split: "slice m p (k + j) = as @ bs \<Longrightarrow> length as = k \<Longrightarrow> p + k \<le> length m \<Longrightarrow> slice m p k = as \<and> slice m (p + k) j = bs"
  using slice_add [of m p k j] by (simp add: append_eq_append_conv)

lemma encodes_seq:
  assumes f: "encodes ops V E f k D lay wr" and g: "encodes ops V E g j D' lay' wr'" and len: "\<forall>v \<in> D. length (lay v) = k"
    and h: "\<And>x m p x' m' v. f x m p LASTUNSIGNED = Some (True, x', m') \<Longrightarrow> v \<in> D \<Longrightarrow> p + k + j \<le> length m' \<Longrightarrow> slice m' p k = lay v \<Longrightarrow>
      h x m p LASTUNSIGNED = g x' m' (p + k) LASTUNSIGNED"
  shows "encodes ops V E h (k + j) (D \<times> D') (\<lambda>(v, w). lay v @ lay' w) (\<lambda>(v, w). wr v @ wr' w)"
proof (rule encodesI)
  fix s m p vw
  assume a: "v_wf V s m" "env_ok E (v_own V s) m" "p + (k + j) \<le> length m" "blk p (k + j) \<inter> (v_own V s \<union> statics E) = {}"
    "vw \<in> D \<times> D'" "slice m p (k + j) = (case vw of (v, w) \<Rightarrow> lay v @ lay' w)" "length (case vw of (v, w) \<Rightarrow> wr v @ wr' w) \<le> v_room V s"
  obtain v w where vw: "vw = (v, w)" "v \<in> D" "w \<in> D'" using a(5) by auto
  have sl: "slice m p k = lay v" "slice m (p + k) j = lay' w" using slice_split [of m p k j "lay v" "lay' w"] a(3,6) vw len by auto
  have d: "blk p k \<inter> (v_own V s \<union> statics E) = {}" "blk (p + k) j \<inter> (v_own V s \<union> statics E) = {}" using a(4) blk_add [of p k j] by auto
  obtain s1 m1 where 1: "f (handle ops XDR_ENCODE s) m p LASTUNSIGNED = Some (True, handle ops XDR_ENCODE s1, m1)" "wrote V s m s1 m1 (wr v)"
    using f [unfolded encodes_def, rule_format, of s m p v] a(1-3,7) vw sl(1) d(1) by auto
  have so: "same_off (v_own V s) m m1" and w1: "v_wf V s1 m1" "v_own V s1 = v_own V s" "v_room V s \<le> v_room V s1 + length (wr v)"
    using 1(2) by (auto simp: wrote_def)
  have "v_own V s \<inter> blk (xdr_zero E) 4 = {}" using a(2) by (auto simp: env_ok_def statics_def)
  then have e1: "env_ok E (v_own V s1) m1" unfolding w1(2) by (rule env_ok_same_off [OF a(2) so])
  have sl1: "slice m1 p k = lay v" "slice m1 (p + k) j = lay' w" using slice_same_off [OF so, of p k] slice_same_off [OF so, of "p + k" j] sl d by auto
  obtain s2 m2 where 2: "g (handle ops XDR_ENCODE s1) m1 (p + k) LASTUNSIGNED = Some (True, handle ops XDR_ENCODE s2, m2)" "wrote V s1 m1 s2 m2 (wr' w)"
    using g [unfolded encodes_def, rule_format, of s1 m1 "p + k" w] w1 e1 a(3,7) vw sl1(2) d(2) same_off_length [OF so] by auto
  have "h (handle ops XDR_ENCODE s) m p LASTUNSIGNED = Some (True, handle ops XDR_ENCODE s2, m2)"
    using h [OF 1(1) vw(2) _ sl1(1)] 2(1) a(3) same_off_length [OF so] by simp
  then show "\<exists>s' m'. h (handle ops XDR_ENCODE s) m p LASTUNSIGNED = Some (True, handle ops XDR_ENCODE s', m')
      \<and> wrote V s m s' m' (case vw of (v, w) \<Rightarrow> wr v @ wr' w)"
    using wrote_trans [OF 1(2) 2(2)] vw(1) by auto
qed

lemma decodes_seq:
  assumes f: "decodes ops V E f k D lay wr" and g: "decodes ops V E g j D' lay' wr'"
    and h: "\<And>x m p x' m' v. f x m p LASTUNSIGNED = Some (True, x', m') \<Longrightarrow> v \<in> D \<Longrightarrow> p + k + j \<le> length m' \<Longrightarrow> slice m' p k = lay v \<Longrightarrow>
      h x m p LASTUNSIGNED = g x' m' (p + k) LASTUNSIGNED"
  shows "decodes ops V E h (k + j) (D \<times> D') (\<lambda>(v, w). lay v @ lay' w) (\<lambda>(v, w). wr v @ wr' w)"
proof (rule decodesI)
  fix s m p vw bs
  assume a: "v_wf V s m" "env_ok E (v_own V s) m" "p + (k + j) \<le> length m" "blk p (k + j) \<inter> (v_own V s \<union> statics E) = {}"
    "vw \<in> D \<times> D'" "v_inp V s m = (case vw of (v, w) \<Rightarrow> wr v @ wr' w) @ bs"
  obtain v w where vw: "vw = (v, w)" "v \<in> D" "w \<in> D'" using a(5) by auto
  let ?c = "blk (crud E) 4"
  have d: "blk p k \<inter> (v_own V s \<union> statics E) = {}" "blk (p + k) j \<inter> (v_own V s \<union> statics E) = {}" "blk p k \<inter> blk (p + k) j = {}"
    using a(4) blk_add [of p k j] blk_add_disjoint [of p k j] by auto
  obtain s1 m1 where 1: "f (handle ops XDR_DECODE s) m p LASTUNSIGNED = Some (True, handle ops XDR_DECODE s1, m1)"
      "took V (blk p k \<union> ?c) s m s1 m1 (wr' w @ bs)" "slice m1 p k = lay v"
    using f [unfolded decodes_def, rule_format, of s m p v "wr' w @ bs"] a(1-3,6) vw d(1) by auto
  have so: "same_off (v_own V s \<union> (blk p k \<union> ?c)) m m1" and w1: "v_wf V s1 m1" "v_own V s1 = v_own V s" "v_inp V s1 m1 = wr' w @ bs"
    using 1(2) by (auto simp: took_def)
  have "(v_own V s \<union> (blk p k \<union> ?c)) \<inter> blk (xdr_zero E) 4 = {}" using a(2) d(1) by (auto simp: env_ok_def statics_def)
  then have e1: "env_ok E (v_own V s1) m1" unfolding w1(2) by (rule env_ok_same_off [OF a(2) so])
  obtain s2 m2 where 2: "g (handle ops XDR_DECODE s1) m1 (p + k) LASTUNSIGNED = Some (True, handle ops XDR_DECODE s2, m2)"
      "took V (blk (p + k) j \<union> ?c) s1 m1 s2 m2 bs" "slice m2 (p + k) j = lay' w"
    using g [unfolded decodes_def, rule_format, of s1 m1 "p + k" w bs] w1 e1 a(3) vw d(2) same_off_length [OF so] by auto
  have "h (handle ops XDR_DECODE s) m p LASTUNSIGNED = Some (True, handle ops XDR_DECODE s2, m2)"
    using h [OF 1(1) vw(2) _ 1(3)] 2(1) a(3) same_off_length [OF so] by simp
  moreover have "blk p k \<inter> (v_own V s1 \<union> (blk (p + k) j \<union> ?c)) = {}" using d w1(2) by (auto simp: statics_def)
  then have "slice m2 p k = lay v" using slice_same_off [of "v_own V s1 \<union> (blk (p + k) j \<union> ?c)" m1 m2 p k] 1(3) 2(2) by (simp add: took_def)
  then have "slice m2 p (k + j) = lay v @ lay' w" using 2(3) by (simp add: slice_add)
  moreover have "took V (blk p (k + j) \<union> ?c) s m s2 m2 bs"
    using took_mono [OF took_trans [OF 1(2) 2(2)], of "blk p (k + j) \<union> ?c"] blk_add [of p k j] by auto
  ultimately show "\<exists>s' m'. h (handle ops XDR_DECODE s) m p LASTUNSIGNED = Some (True, handle ops XDR_DECODE s', m')
      \<and> took V (blk p (k + j) \<union> ?c) s m s' m' bs \<and> slice m' p (k + j) = (case vw of (v, w) \<Rightarrow> lay v @ lay' w)"
    using vw(1) by auto
qed

lemma codec_seq:
  assumes "codec ops V E f k D lay wr" "codec ops V E g j D' lay' wr'" "\<forall>v \<in> D. length (lay v) = k"
    and "\<And>x m p x' m' v. f x m p LASTUNSIGNED = Some (True, x', m') \<Longrightarrow> v \<in> D \<Longrightarrow> p + k + j \<le> length m' \<Longrightarrow> slice m' p k = lay v \<Longrightarrow>
      h x m p LASTUNSIGNED = g x' m' (p + k) LASTUNSIGNED"
  shows "codec ops V E h (k + j) (D \<times> D') (\<lambda>(v, w). lay v @ lay' w) (\<lambda>(v, w). wr v @ wr' w)"
proof -
  have e: "encodes ops V E f k D lay wr" "encodes ops V E g j D' lay' wr'" and d: "decodes ops V E f k D lay wr" "decodes ops V E g j D' lay' wr'"
    using assms(1,2) by (auto simp: codec_def)
  show ?thesis unfolding codec_def
  proof
    show "encodes ops V E h (k + j) (D \<times> D') (\<lambda>(v, w). lay v @ lay' w) (\<lambda>(v, w). wr v @ wr' w)"
      by (rule encodes_seq [OF e assms(3)]) (rule assms(4))
    show "decodes ops V E h (k + j) (D \<times> D') (\<lambda>(v, w). lay v @ lay' w) (\<lambda>(v, w). wr v @ wr' w)"
      by (rule decodes_seq [OF d]) (rule assms(4))
  qed
qed

lemma codec_map: "codec ops V E f k D lay wr \<Longrightarrow> \<phi> ` X \<subseteq> D \<Longrightarrow> codec ops V E f k X (\<lambda>x. lay (\<phi> x)) (\<lambda>x. wr (\<phi> x))"
  unfolding codec_def encodes_def decodes_def by blast

text \<open>A word of a given value, and a filter that goes on to another.\<close>

lemma word_then:
  assumes "codec ops V E f 4 UNIV le32 be32" "codec ops V E g j D lay wr"
    and "\<And>x m p x' m' v. f x m p LASTUNSIGNED = Some (True, x', m') \<Longrightarrow> v \<in> A \<Longrightarrow> load32 m' p = Some v \<Longrightarrow>
      h x m p LASTUNSIGNED = g x' m' (p + 4) LASTUNSIGNED"
  shows "codec ops V E h (4 + j) (A \<times> D) (\<lambda>(v, w). le32 v @ lay w) (\<lambda>(v, w). be32 v @ wr w)"
proof (rule codec_seq [OF _ assms(2)])
  show "codec ops V E f 4 A le32 be32" using codec_map [OF assms(1), of "\<lambda>v. v" A] by simp
qed (use assms(3) load32_slice in auto)

section \<open>Denied replies\<close>

context xdr_stream
begin

lemma xdr_enum_codec: "codec ops V E (\<lambda>x m p u. xdr_enum x m p) 4 UNIV le32 be32"
  unfolding xdr_enum_def by (rule xdr_long_codec)

lemma two_longs:
  "codec ops V E (\<lambda>x m p u. and_then (xdr_u_long x m p) (\<lambda>x m. xdr_u_long x m (p + 4))) 8 UNIV
    (\<lambda>(v, w). le32 v @ le32 w) (\<lambda>(v, w). be32 v @ be32 w)"
proof -
  have "codec ops V E (\<lambda>x m p u. and_then (xdr_u_long x m p) (\<lambda>x m. xdr_u_long x m (p + 4))) (4 + 4) (UNIV \<times> UNIV)
      (\<lambda>(v, w). le32 v @ le32 w) (\<lambda>(v, w). be32 v @ be32 w)"
    by (rule word_then [OF xdr_u_long_codec xdr_u_long_codec]) simp
  then show ?thesis by simp
qed

lemma rejected_mismatch:
  "codec ops V E (\<lambda>x m p u. xdr_rejected_reply x m p) 12 ({RPC_MISMATCH} \<times> UNIV)
    (\<lambda>(s, v, w). le32 s @ le32 v @ le32 w) (\<lambda>(s, v, w). be32 s @ be32 v @ be32 w)"
proof -
  have "codec ops V E (\<lambda>x m p u. xdr_rejected_reply x m p) (4 + 8) ({RPC_MISMATCH} \<times> UNIV)
      (\<lambda>(s, vw). le32 s @ (case vw of (v, w) \<Rightarrow> le32 v @ le32 w)) (\<lambda>(s, vw). be32 s @ (case vw of (v, w) \<Rightarrow> be32 v @ be32 w))"
    by (rule word_then [OF xdr_enum_codec two_longs]) (simp add: xdr_rejected_reply_def add.commute)
  then show ?thesis by (simp add: split_def)
qed

lemma rejected_auth:
  "codec ops V E (\<lambda>x m p u. xdr_rejected_reply x m p) 8 ({AUTH_ERROR} \<times> UNIV) (\<lambda>(s, v). le32 s @ le32 v) (\<lambda>(s, v). be32 s @ be32 v)"
proof -
  have "codec ops V E (\<lambda>x m p u. xdr_rejected_reply x m p) (4 + 4) ({AUTH_ERROR} \<times> UNIV)
      (\<lambda>(s, v). le32 s @ le32 v) (\<lambda>(s, v). be32 s @ be32 v)"
    by (rule word_then [OF xdr_enum_codec xdr_enum_codec]) (simp add: xdr_rejected_reply_def AUTH_ERROR_def RPC_MISMATCH_def)
  then show ?thesis by simp
qed

lemma denied_reply:
  assumes "codec ops V E (\<lambda>x m p u. xdr_rejected_reply x m p) k D lay wr"
  shows "codec ops V E (\<lambda>x m p u. xdr_replymsg E procs x m p) (12 + k) (UNIV \<times> D)
    (\<lambda>(x, v). le32 x @ le32 REPLY @ le32 MSG_DENIED @ lay v) (\<lambda>(x, v). be32 x @ be32 REPLY @ be32 MSG_DENIED @ wr v)"
proof -
  let ?u = "\<lambda>x m p (u :: u_int). xdr_union x m p (p + 4) (reply_dscrm E procs) None"
  let ?d = "\<lambda>x m p (u :: u_int). and_then (xdr_enum x m p) (\<lambda>xdrs m. do {
       dir \<leftarrow> load32 m p;
       (if dir = REPLY then xdr_union xdrs m (p + 4) (p + 8) (reply_dscrm E procs) None else Some (False, xdrs, m)) })"
  have "codec ops V E ?u (4 + k) ({MSG_DENIED} \<times> D) (\<lambda>(v, w). le32 v @ lay w) (\<lambda>(v, w). be32 v @ wr w)"
    by (rule word_then [OF xdr_enum_codec assms]) (simp add: xdr_union_def reply_dscrm_def MSG_DENIED_def MSG_ACCEPTED_def)
  then have "codec ops V E ?d (4 + (4 + k)) ({REPLY} \<times> {MSG_DENIED} \<times> D) (\<lambda>(v, w). le32 v @ (case w of (v, w) \<Rightarrow> le32 v @ lay w))
      (\<lambda>(v, w). be32 v @ (case w of (v, w) \<Rightarrow> be32 v @ wr w))"
    by (rule word_then [OF xdr_enum_codec]) (simp add: add.assoc)
  then have "codec ops V E (\<lambda>x m p u. xdr_replymsg E procs x m p) (4 + (4 + (4 + k))) (UNIV \<times> {REPLY} \<times> {MSG_DENIED} \<times> D)
      (\<lambda>(v, w). le32 v @ (case w of (v, w) \<Rightarrow> le32 v @ (case w of (v, w) \<Rightarrow> le32 v @ lay w)))
      (\<lambda>(v, w). be32 v @ (case w of (v, w) \<Rightarrow> be32 v @ (case w of (v, w) \<Rightarrow> be32 v @ wr w)))"
    by (rule word_then [OF xdr_u_long_codec]) (simp add: xdr_replymsg_def add.assoc cong: if_cong)
  from codec_map [OF this, of "\<lambda>(x, v). (x, REPLY, MSG_DENIED, v)" "UNIV \<times> D"] show ?thesis by (auto simp: split_def image_subset_iff)
qed

end

section \<open>Calls in line\<close>

lemma slice_wires:
  "slice m p (length ws * 4) = wires f ws \<Longrightarrow> \<forall>w. length (f w) = 4 \<Longrightarrow> p + length ws * 4 \<le> length m \<Longrightarrow> i < length ws \<Longrightarrow>
   slice m (p + 4 * i) 4 = f (ws ! i)"
proof (induction ws arbitrary: p i)
  case (Cons w ws)
  have s: "slice m p 4 = f w" "slice m (p + 4) (length ws * 4) = wires f ws"
    using slice_split [of m p 4 "length ws * 4" "f w" "wires f ws"] Cons.prems(1-3) by auto
  show ?case
  proof (cases i)
    case 0
    then show ?thesis using s(1) by simp
  next
    case (Suc j)
    then show ?thesis using Cons.IH [OF s(2) Cons.prems(2), of j] Cons.prems(3,4) by (simp add: add.assoc)
  qed
qed simp

lemma field_load:
  assumes "slice m c (length ws * 4) = wires le32 ws" "c + length ws * 4 \<le> length m" "i < length ws"
    "same_off A m m'" "blk c (length ws * 4) \<inter> A = {}"
  shows "load32 m' (c + 4 * i) = Some (ws ! i)"
proof -
  have "slice m' c (length ws * 4) = wires le32 ws" using slice_same_off [OF assms(4,5)] assms(1) by simp
  then have "slice m' (c + 4 * i) 4 = le32 (ws ! i)" using assms(2,3) same_off_length [OF assms(4)] by (intro slice_wires) auto
  then show ?thesis using assms(2,3) same_off_length [OF assms(4)] by (intro load32_slice) auto
qed

lemma ixdr_get:
  assumes "slice m b (length ws * 4) = wires be32 ws" "b + length ws * 4 \<le> length m" "i < length ws"
    "same_off A m m'" "blk b (length ws * 4) \<inter> A = {}"
  shows "IXDR_GET_LONG m' (b + 4 * i) = Some (ws ! i, b + 4 * Suc i)"
proof -
  have "slice m' b (length ws * 4) = wires be32 ws" using slice_same_off [OF assms(4,5)] assms(1) by simp
  then have "slice m' (b + 4 * i) 4 = be32 (ws ! i)" using assms(2,3) same_off_length [OF assms(4)] by (intro slice_wires) auto
  then have "load32 m' (b + 4 * i) = Some (htonl (ws ! i))"
    using assms(2,3) same_off_length [OF assms(4)] by (intro load32_slice) (auto simp: bytes_htonl)
  then show ?thesis by (simp add: IXDR_GET_LONG_def)
qed

text \<open>The words written so far.\<close>

lemma ixdr_put:
  "b + 4 * Suc (length vs) \<le> length m \<Longrightarrow>
   IXDR_PUT_LONG (put m b (wires be32 vs)) (b + 4 * length vs) v = Some (b + 4 * Suc (length vs), put m b (wires be32 (vs @ [v])))"
proof -
  assume b: "b + 4 * Suc (length vs) \<le> length m"
  have l: "length (wires be32 vs) = 4 * length vs" using length_wires [of vs be32 4] by simp
  have "put m b (wires be32 vs @ be32 v) = put (put m b (wires be32 vs)) (b + 4 * length vs) (be32 v)"
    using put_append [of b "wires be32 vs" "be32 v" m] b l by simp
  then show ?thesis using b l by (simp add: IXDR_PUT_LONG_def store32_put bytes_htonl wires_def)
qed

lemma wires_put_off: "b + 4 * length vs \<le> length m \<Longrightarrow> length vs \<le> k \<Longrightarrow> same_off (blk b (4 * k)) m (put m b (wires be32 vs))"
  using same_off_put [of b "wires be32 vs" m] length_wires [of vs be32 4] by (auto simp: blk_def elim!: same_off_mono)

lemma put_call_spec:
  assumes ws: "ws = [xid, CALL, RPC_MSG_VERSION, prog, vers, proc, cf, cb, 0, vf, vb, 0]" "slice m c 48 = wires le32 ws" "c + 48 \<le> length m"
    and b: "b + 40 \<le> length m" "blk c 48 \<inter> blk b 40 = {}"
  shows "put_call x m c b = Some (True, x, put m b (wires be32 [xid, CALL, RPC_MSG_VERSION, prog, vers, proc, cf, 0, vf, 0]))"
proof -
  define P B where "P vs = put m b (wires be32 vs)" and "B n = b + 4 * n" for vs :: "u_long list" and n :: nat
  have ld: "load32 (P vs) (c + 4 * i) = Some (ws ! i)" if "length vs \<le> 10" "i < 12" for vs i
    using field_load [of m c ws i "blk b 40"] wires_put_off [of b vs m 10] that ws b by (simp add: P_def)
  have l: "load32 (P vs) c = Some xid" "load32 (P vs) (c + 4) = Some CALL" "load32 (P vs) (c + 8) = Some RPC_MSG_VERSION"
    "load32 (P vs) (c + 12) = Some prog" "load32 (P vs) (c + 16) = Some vers" "load32 (P vs) (c + 20) = Some proc" "load32 (P vs) (c + 24) = Some cf"
    "load32 (P vs) (c + 32) = Some 0" "load32 (P vs) (c + 36) = Some vf" "load32 (P vs) (c + 44) = Some 0" if "length vs \<le> 10" for vs
    using ld [OF that, of 0] ld [OF that, of 1] ld [OF that, of 2] ld [OF that, of 3] ld [OF that, of 4] ld [OF that, of 5] ld [OF that, of 6]
      ld [OF that, of 8] ld [OF that, of 9] ld [OF that, of 11] by (simp_all add: ws(1))
  have p: "IXDR_PUT_LONG (P vs) (B n) v = Some (B (Suc n), P (vs @ [v]))" if "n = length vs" "n < 10" for vs n v
    using ixdr_put [of b vs m v] that b(1) by (simp add: P_def B_def)
  have "put_call x m c b = put_call x (P []) c (B 0)" by (simp add: P_def B_def)
  also have "\<dots> = Some (True, x, P [xid, CALL, RPC_MSG_VERSION, prog, vers, proc, cf, 0, vf, 0])"
    unfolding put_call_def put_auth_def by (simp add: l l [unfolded add.commute [of c]] p)
  finally show ?thesis by (simp only: P_def)
qed

text \<open>The memory after words were stored in the fields of a structure at \<open>d\<close>.\<close>

definition set_fields :: "ptr \<Rightarrow> mem \<Rightarrow> (nat \<times> u_long) list \<Rightarrow> mem" where
  "set_fields d m fs = foldl (\<lambda>m (i, w). put m (d + 4 * i) (le32 w)) m fs"

lemma set_fields_off:
  "\<forall>(i, w) \<in> set fs. i < n \<Longrightarrow> d + 4 * n \<le> length m \<Longrightarrow> same_off (blk d (4 * n)) m (set_fields d m fs)"
proof (induction fs rule: rev_induct)
  case (snoc f fs)
  obtain i w where f: "f = (i, w)" by fastforce
  have so: "same_off (blk d (4 * n)) m (set_fields d m fs)" using snoc by auto
  have "same_off (blk (d + 4 * i) 4) (set_fields d m fs) (put (set_fields d m fs) (d + 4 * i) (le32 w))"
    using same_off_put [of "d + 4 * i" "le32 w" "set_fields d m fs"] snoc.prems f same_off_length [OF so] by simp
  then show ?case
    using same_off_mono [OF same_off_trans [OF so], of _ _ "blk d (4 * n)"] snoc.prems f by (auto simp: set_fields_def blk_def)
qed (simp add: set_fields_def)

lemma slice_set_fields:
  "\<forall>(i, w) \<in> set fs. i < n \<Longrightarrow> j < n \<Longrightarrow> d + 4 * n \<le> length m \<Longrightarrow>
   slice (set_fields d m fs) (d + 4 * j) 4 = (case map_of (rev fs) j of None \<Rightarrow> slice m (d + 4 * j) 4 | Some w \<Rightarrow> le32 w)"
proof (induction fs rule: rev_induct)
  case (snoc f fs)
  obtain i w where f: "f = (i, w)" by fastforce
  let ?m = "set_fields d m fs"
  have l: "length ?m = length m" using set_fields_off [of fs n d m] snoc.prems by (auto simp: same_off_def)
  have e: "set_fields d m (fs @ [f]) = put ?m (d + 4 * i) (le32 w)" by (simp add: set_fields_def f)
  show ?case
  proof (cases "i = j")
    case True
    then show ?thesis unfolding e using slice_put_same [of "d + 4 * j" "le32 w" ?m] snoc.prems f l by simp
  next
    case False
    then have "slice (put ?m (d + 4 * i) (le32 w)) (d + 4 * j) 4 = slice ?m (d + 4 * j) 4"
      using snoc.prems f l by (intro slice_put_disjoint) auto
    then show ?thesis unfolding e using snoc f False by auto
  qed
qed (simp add: set_fields_def)

lemma get_call_spec:
  assumes ws: "ws = [xid, CALL, RPC_MSG_VERSION, prog, vers, proc, cf, 0, vf, 0]" "slice m b 40 = wires be32 ws" "b + 40 \<le> length m" "0 < b"
    and d: "d + 48 \<le> length m" "blk b 40 \<inter> blk d 48 = {}" and x: "XDR_INLINE x (2 * BYTES_PER_XDR_UNIT) = (b + 32, x')"
  shows "get_call E x m d b = Some (True, x', set_fields d m
    [(0, xid), (1, CALL), (2, RPC_MSG_VERSION), (3, prog), (4, vers), (5, proc), (6, cf), (8, 0), (9, vf), (11, 0)])"
proof -
  define S B where "S = set_fields d m" and "B n = b + 4 * n" for n :: nat
  have so: "same_off (blk d 48) m (S fs)" if "\<forall>(i, w) \<in> set fs. i < 12" for fs
    using set_fields_off [OF that, of d m] d(1) by (simp add: S_def)
  have g: "IXDR_GET_LONG (S fs) (B i) = Some (ws ! i, B (Suc i))" if "\<forall>(i, w) \<in> set fs. i < 12" "i < 10" for fs i
    using ixdr_get [of m b ws i "blk d 48"] so [OF that(1)] that(2) ws d(2) by (simp add: B_def)
  have st: "store32 (S fs) (d + 4 * i) w = Some (S (fs @ [(i, w)]))" if "\<forall>(i, w) \<in> set fs. i < 12" "i < 12" for fs i w
    using store32_put [of "d + 4 * i" "S fs" w] same_off_length [OF so [OF that(1)]] that(2) d(1) by (simp add: S_def set_fields_def)
  have s: "store32 (S fs) d w = Some (S (fs @ [(0, w)]))" "store32 (S fs) (d + 4) w = Some (S (fs @ [(1, w)]))"
    "store32 (S fs) (d + 8) w = Some (S (fs @ [(2, w)]))" "store32 (S fs) (d + 12) w = Some (S (fs @ [(3, w)]))"
    "store32 (S fs) (d + 16) w = Some (S (fs @ [(4, w)]))" "store32 (S fs) (d + 20) w = Some (S (fs @ [(5, w)]))"
    "store32 (S fs) (d + 24) w = Some (S (fs @ [(6, w)]))" "store32 (S fs) (d + 32) w = Some (S (fs @ [(8, w)]))"
    "store32 (S fs) (d + 36) w = Some (S (fs @ [(9, w)]))" "store32 (S fs) (d + 44) w = Some (S (fs @ [(11, w)]))"
    if "\<forall>(i, w) \<in> set fs. i < 12" for fs w
    using st [OF that, of 0] st [OF that, of 1] st [OF that, of 2] st [OF that, of 3] st [OF that, of 4] st [OF that, of 5] st [OF that, of 6]
      st [OF that, of 8] st [OF that, of 9] st [OF that, of 11] by simp_all
  have ld: "load32 (S fs) (d + 4 * j) = Some w" if "\<forall>(i, w) \<in> set fs. i < 12" "j < 12" "map_of (rev fs) j = Some w" for fs j w
    using slice_set_fields [OF that(1,2), of d m] that(3) d(1) same_off_length [OF so [OF that(1)]] that(2) by (intro load32_slice) (auto simp: S_def)
  have l: "load32 (S fs) (32 + d) = Some w" if "\<forall>(i, w) \<in> set fs. i < 12" "map_of (rev fs) 8 = Some w" for fs w
    using ld [OF that(1) _ that(2)] by (simp add: add.commute)
  have l': "load32 (S fs) (44 + d) = Some w" if "\<forall>(i, w) \<in> set fs. i < 12" "map_of (rev fs) 11 = Some w" for fs w
    using ld [OF that(1) _ that(2)] by (simp add: add.commute)
  have xi: "XDR_INLINE x (2 * BYTES_PER_XDR_UNIT) = (B 8, x')" "B n \<noteq> 0" for n using x ws(4) by (simp_all add: B_def)
  have "get_call E x m d b = get_call E x (S []) d (B 0)" by (simp add: S_def B_def set_fields_def)
  also have "\<dots> = Some (True, x', S [(0, xid), (1, CALL), (2, RPC_MSG_VERSION), (3, prog), (4, vers), (5, proc), (6, cf), (8, 0), (9, vf), (11, 0)])"
    unfolding get_call_def get_auth_body_def get_verf_head_def xi(1)
    by (simp add: g s s [unfolded add.commute [of d]] l l' xi ws(1) and_then_def)
  finally show ?thesis by (simp only: S_def)
qed

lemma mem_inline:
  assumes "sint len \<le> sint (x_handy s)" "x_private s + unat len < 2 ^ 32"
  shows "XDR_INLINE (handle xdrmem_ops xop s) len
    = (x_private s, handle xdrmem_ops xop (s\<lparr>x_handy := x_handy s - len, x_private := x_private s + unat len\<rparr>))"
proof -
  have "of_nat (x_private s) + len = of_nat (x_private s + unat len)" by simp
  then have "unat (of_nat (x_private s) + len) = x_private s + unat len" using assms(2) by (simp only: unat_ptr)
  then show ?thesis using assms(1) by (simp add: XDR_INLINE_def xdrmem_ops_def xdrmem_inline_def handle_def)
qed

lemma create_inline:
  assumes "buffer_ok m buf n" "40 \<le> unat n" "buf + 40 < 2 ^ 32" "unat len \<le> 40"
  shows "XDR_INLINE (handle xdrmem_ops xop (xdrmem_create buf n)) len
    = (buf, handle xdrmem_ops xop \<lparr>x_private = buf + unat len, x_base = buf, x_handy = n - len\<rparr>)"
proof -
  have "sint n = int (unat n)" using assms(1) sint_addr [of "unat n"] by (simp add: buffer_ok_def)
  moreover have "sint len = int (unat len)" using assms(4) sint_addr [of "unat len"] by simp
  ultimately have "sint len \<le> sint n" using assms(2,4) by linarith
  then show ?thesis using mem_inline [of len "xdrmem_create buf n" xop] assms(3,4) by (simp add: xdrmem_create_def)
qed

text \<open>The fields of a call that was read.\<close>

lemma call_fields:
  assumes "d + 48 \<le> length m"
    and m2: "m2 = set_fields d m [(0, xid), (1, CALL), (2, RPC_MSG_VERSION), (3, prog), (4, vers), (5, proc), (6, cf), (8, 0), (9, vf), (11, 0)]"
  shows "slice m2 d 28 = wires le32 [xid, CALL, RPC_MSG_VERSION, prog, vers, proc, cf]"
    "slice m2 (d + 32) 4 = le32 0" "slice m2 (d + 36) 4 = le32 vf" "slice m2 (d + 44) 4 = le32 0"
proof -
  let ?fs = "[(0, xid), (1, CALL), (2, RPC_MSG_VERSION), (3, prog), (4, vers), (5, proc), (6, cf), (8, 0), (9, vf), (11, 0)] :: (nat \<times> u_long) list"
  have f: "slice m2 (d + 4 * j) 4 = (case map_of (rev ?fs) j of None \<Rightarrow> slice m (d + 4 * j) 4 | Some w \<Rightarrow> le32 w)" if "j < 12" for j
    unfolding m2 using slice_set_fields [of ?fs 12 j d m] that assms(1) by simp
  have "slice m2 d 28 = slice m2 d 4 @ slice m2 (d + 4) 4 @ slice m2 (d + 8) 4 @ slice m2 (d + 12) 4 @ slice m2 (d + 16) 4 @ slice m2 (d + 20) 4
      @ slice m2 (d + 24) 4"
    using slice_add [of m2 d 4 24] slice_add [of m2 "d + 4" 4 20] slice_add [of m2 "d + 8" 4 16] slice_add [of m2 "d + 12" 4 12]
      slice_add [of m2 "d + 16" 4 8] slice_add [of m2 "d + 20" 4 4] by (simp add: add.commute)
  then show "slice m2 d 28 = wires le32 [xid, CALL, RPC_MSG_VERSION, prog, vers, proc, cf]"
    using f [of 0] f [of 1] f [of 2] f [of 3] f [of 4] f [of 5] f [of 6] by simp
  show "slice m2 (d + 32) 4 = le32 0" "slice m2 (d + 36) 4 = le32 vf" "slice m2 (d + 44) 4 = le32 0" using f [of 8] f [of 9] f [of 11] by simp_all
qed

section \<open>Headers and replies\<close>

context xdr_stream
begin

text \<open>The fixed part of a call: five words, two of which are filled in first.\<close>

lemma header_words:
  "codec ops V E (\<lambda>x m p u. and_then (xdr_u_long x m p) (\<lambda>x m. and_then (xdr_enum x m (p + 4)) (\<lambda>x m. and_then (xdr_u_long x m (p + 8)) (\<lambda>x m.
      and_then (xdr_u_long x m (p + 12)) (\<lambda>x m. xdr_u_long x m (p + 16)))))) 20 UNIV
    (\<lambda>(a, b, c, d, e). wires le32 [a, b, c, d, e]) (\<lambda>(a, b, c, d, e). wires be32 [a, b, c, d, e])"
proof -
  have "codec ops V E (\<lambda>x m p u. and_then (xdr_u_long x m p) (\<lambda>x m. and_then (xdr_u_long x m (p + 4)) (\<lambda>x m. xdr_u_long x m (p + 8)))) (4 + 8) (UNIV \<times> UNIV)
      (\<lambda>(a, b). le32 a @ (case b of (c, d) \<Rightarrow> le32 c @ le32 d)) (\<lambda>(a, b). be32 a @ (case b of (c, d) \<Rightarrow> be32 c @ be32 d))"
    by (rule word_then [OF xdr_u_long_codec two_longs]) (simp add: add.assoc)
  then have "codec ops V E (\<lambda>x m p u. and_then (xdr_enum x m p) (\<lambda>x m. and_then (xdr_u_long x m (p + 4)) (\<lambda>x m. and_then (xdr_u_long x m (p + 8)) (\<lambda>x m.
        xdr_u_long x m (p + 12))))) (4 + (4 + 8)) (UNIV \<times> UNIV \<times> UNIV)
      (\<lambda>(a, b). le32 a @ (case b of (a, b) \<Rightarrow> le32 a @ (case b of (c, d) \<Rightarrow> le32 c @ le32 d)))
      (\<lambda>(a, b). be32 a @ (case b of (a, b) \<Rightarrow> be32 a @ (case b of (c, d) \<Rightarrow> be32 c @ be32 d)))"
    by (rule word_then [OF xdr_enum_codec]) (simp add: add.assoc)
  then have "codec ops V E (\<lambda>x m p u. and_then (xdr_u_long x m p) (\<lambda>x m. and_then (xdr_enum x m (p + 4)) (\<lambda>x m. and_then (xdr_u_long x m (p + 8)) (\<lambda>x m.
        and_then (xdr_u_long x m (p + 12)) (\<lambda>x m. xdr_u_long x m (p + 16)))))) (4 + (4 + (4 + 8))) (UNIV \<times> UNIV \<times> UNIV \<times> UNIV)
      (\<lambda>(a, b). le32 a @ (case b of (a, b) \<Rightarrow> le32 a @ (case b of (a, b) \<Rightarrow> le32 a @ (case b of (c, d) \<Rightarrow> le32 c @ le32 d))))
      (\<lambda>(a, b). be32 a @ (case b of (a, b) \<Rightarrow> be32 a @ (case b of (a, b) \<Rightarrow> be32 a @ (case b of (c, d) \<Rightarrow> be32 c @ be32 d))))"
    by (rule word_then [OF xdr_u_long_codec]) (simp add: add.assoc)
  then show ?thesis by (simp add: split_def)
qed

lemma callhdr_encodes:
  assumes s: "v_wf V s m" "env_ok E (v_own V s) m" "20 \<le> v_room V s"
    and c: "c + 20 \<le> length m" "blk c 20 \<inter> (v_own V s \<union> statics E) = {}"
      "slice m c 4 = le32 xid" "slice m (c + 12) 4 = le32 prog" "slice m (c + 16) 4 = le32 vers"
  shows "\<exists>s' m'. xdr_callhdr (handle ops XDR_ENCODE s) m c = Some (True, handle ops XDR_ENCODE s', m')
    \<and> v_out V s' m' = v_out V s m @ wires be32 [xid, CALL, RPC_MSG_VERSION, prog, vers]"
proof -
  define m2 where "m2 = put m (c + 4) (le32 CALL @ le32 RPC_MSG_VERSION)"
  have so: "same_off (blk (c + 4) 8) m m2" using same_off_put [of "c + 4" "le32 CALL @ le32 RPC_MSG_VERSION" m] c(1) by (simp add: m2_def)
  have st: "Option.bind (store32 m (c + 4) CALL) (\<lambda>m. store32 m (c + 8) RPC_MSG_VERSION) = Some m2"
    using put_append [of "c + 4" "le32 CALL" "le32 RPC_MSG_VERSION" m] c(1) by (simp add: store32_put m2_def add.commute)
  have b: "blk (c + 4) 8 \<subseteq> blk c 20" by (auto simp: blk_def)
  have fr: "v_wf V s m2" "v_out V s m2 = v_out V s m" using frame [OF s(1) so] b c(2) by blast+
  have "blk (c + 4) 8 \<inter> blk (xdr_zero E) 4 = {}" using b c(2) by (auto simp: statics_def)
  then have e2: "env_ok E (v_own V s) m2" by (rule env_ok_same_off [OF s(2) so])
  have "slice m2 (c + 4) 8 = le32 CALL @ le32 RPC_MSG_VERSION"
    using slice_put_same [of "c + 4" "le32 CALL @ le32 RPC_MSG_VERSION" m] c(1) by (simp add: m2_def)
  moreover have "slice m2 c 4 = le32 xid" "slice m2 (c + 12) 4 = le32 prog" "slice m2 (c + 16) 4 = le32 vers"
    using slice_same_off [OF so] c(3-5) by (auto simp: blk_def)
  moreover have "slice m2 c 20 = slice m2 c 4 @ slice m2 (c + 4) 8 @ slice m2 (c + 12) 4 @ slice m2 (c + 16) 4"
    using slice_add [of m2 c 4 16] slice_add [of m2 "c + 4" 8 8] slice_add [of m2 "c + 12" 4 4] by (simp add: add.commute)
  ultimately have sl: "slice m2 c 20 = wires le32 [xid, CALL, RPC_MSG_VERSION, prog, vers]" by simp
  have w: "length (wires be32 [xid, CALL, RPC_MSG_VERSION, prog, vers]) \<le> v_room V s" using s(3) by simp
  obtain s' m' where "and_then (xdr_u_long (handle ops XDR_ENCODE s) m2 c) (\<lambda>x m. and_then (xdr_enum x m (c + 4)) (\<lambda>x m. and_then (xdr_u_long x m (c + 8)) (\<lambda>x m.
      and_then (xdr_u_long x m (c + 12)) (\<lambda>x m. xdr_u_long x m (c + 16))))) = Some (True, handle ops XDR_ENCODE s', m')"
      "wrote V s m2 s' m' (wires be32 [xid, CALL, RPC_MSG_VERSION, prog, vers])"
    using header_words [of E, unfolded codec_def encodes_def, THEN conjunct1, rule_format, of s m2 c "(xid, CALL, RPC_MSG_VERSION, prog, vers)"]
      fr(1) e2 c(1,2) sl w same_off_length [OF so] by auto
  moreover have "xdr_callhdr (handle ops XDR_ENCODE s) m c = and_then (xdr_u_long (handle ops XDR_ENCODE s) m2 c) (\<lambda>x m. and_then (xdr_enum x m (c + 4)) (\<lambda>x m. and_then (xdr_u_long x m (c + 8)) (\<lambda>x m.
      and_then (xdr_u_long x m (c + 12)) (\<lambda>x m. xdr_u_long x m (c + 16)))))"
    using st by (auto simp: xdr_callhdr_def split: bind_splits)
  ultimately show ?thesis using fr(2) by (auto simp: wrote_def)
qed

lemma denied_mismatch:
  "codec ops V E (\<lambda>x m p u. xdr_replymsg E procs x m p) 24 UNIV
    (\<lambda>(x, l, h). wires le32 [x, REPLY, MSG_DENIED, RPC_MISMATCH, l, h]) (\<lambda>(x, l, h). wires be32 [x, REPLY, MSG_DENIED, RPC_MISMATCH, l, h])"
  using codec_map [OF denied_reply [OF rejected_mismatch], of "\<lambda>(x, l, h). (x, RPC_MISMATCH, l, h)" UNIV E procs] by (auto simp: split_def)

lemma denied_auth:
  "codec ops V E (\<lambda>x m p u. xdr_replymsg E procs x m p) 20 UNIV
    (\<lambda>(x, w). wires le32 [x, REPLY, MSG_DENIED, AUTH_ERROR, w]) (\<lambda>(x, w). wires be32 [x, REPLY, MSG_DENIED, AUTH_ERROR, w])"
  using codec_map [OF denied_reply [OF rejected_auth], of "\<lambda>(x, w). (x, AUTH_ERROR, w)" UNIV E procs] by (auto simp: split_def)

end

lemma seterr_denied:
  assumes "slice m msg 20 = wires le32 [xid, REPLY, MSG_DENIED, stat, w]" "msg + 20 \<le> length m" "stat \<noteq> clnt_stat_no RPC_VERSMISMATCH"
  shows "seterr_reply m msg e = Some (if stat = AUTH_ERROR then e\<lparr>err_status := RPC_AUTHERROR, ru1 := w\<rparr>
    else e\<lparr>err_status := RPC_FAILED, ru1 := MSG_DENIED, ru2 := stat\<rparr>)"
proof -
  let ?ws = "[xid, REPLY, MSG_DENIED, stat, w]"
  have "load32 m (msg + 8) = Some MSG_DENIED" "load32 m (msg + 12) = Some stat" "load32 m (msg + 16) = Some w"
    using field_load [of m msg ?ws 2 "{}" m] field_load [of m msg ?ws 3 "{}" m] field_load [of m msg ?ws 4 "{}" m] assms(1,2) by simp_all
  then show ?thesis using assms(3) by (simp add: seterr_reply_def rejected_def reply_detail_def MSG_DENIED_def MSG_ACCEPTED_def)
qed

section \<open>Properties\<close>

text \<open>
  C22: a call message with empty credentials and verifier that \<open>xdr_callmsg\<close> encodes in line into a memory buffer is there as ten
  words, the most significant byte first, and is decoded from it, in line, as the same call.
\<close>

theorem callmsg_roundtrip:
  assumes m: "slice m c 48 = wires le32 [xid, CALL, RPC_MSG_VERSION, prog, vers, proc, cf, cb, 0, vf, vb, 0]" "c + 48 \<le> length m"
    and b: "buffer_ok m buf n" "40 \<le> unat n" "0 < buf" "buf + 40 < 2 ^ 32" "blk c 48 \<inter> blk buf 40 = {}"
    and d: "d + 48 \<le> length m" "blk buf 40 \<inter> blk d 48 = {}"
  shows "\<exists>s m1 s' m2. xdr_callmsg E (handle xdrmem_ops XDR_ENCODE (xdrmem_create buf n)) m c = Some (True, handle xdrmem_ops XDR_ENCODE s, m1)
    \<and> x_private s = buf + 40 \<and> slice m1 buf 40 = wires be32 [xid, CALL, RPC_MSG_VERSION, prog, vers, proc, cf, 0, vf, 0]
    \<and> xdr_callmsg E (handle xdrmem_ops XDR_DECODE (xdrmem_create buf n)) m1 d = Some (True, handle xdrmem_ops XDR_DECODE s', m2)
    \<and> slice m2 d 28 = wires le32 [xid, CALL, RPC_MSG_VERSION, prog, vers, proc, cf]
    \<and> slice m2 (d + 32) 4 = le32 0 \<and> slice m2 (d + 36) 4 = le32 vf \<and> slice m2 (d + 44) 4 = le32 0"
proof -
  let ?ws = "[xid, CALL, RPC_MSG_VERSION, prog, vers, proc, cf, cb, 0, vf, vb, 0]" and ?us = "[xid, CALL, RPC_MSG_VERSION, prog, vers, proc, cf, 0, vf, 0]"
  let ?s = "xdrmem_create buf n" and ?m1 = "put m buf (wires be32 ?us)"
  have bm: "buf + 40 \<le> length m" using b(1,2) by (simp add: buffer_ok_def)
  have l: "load32 m (c + 32) = Some 0" "load32 m (c + 44) = Some 0"
    using field_load [of m c ?ws 8 "{}" m] field_load [of m c ?ws 11 "{}" m] m by simp_all
  have z: "RNDUP 0 = 0" "8 * BYTES_PER_XDR_UNIT = 32" "2 * BYTES_PER_XDR_UNIT = 8"
    by (simp_all add: RNDUP_def BYTES_PER_XDR_UNIT_def)
  have e: "xdr_callmsg E (handle xdrmem_ops XDR_ENCODE ?s) m c
      = Some (True, handle xdrmem_ops XDR_ENCODE \<lparr>x_private = buf + 40, x_base = buf, x_handy = n - 40\<rparr>, ?m1)"
    using create_inline [OF b(1,2,4), of 40 XDR_ENCODE] b(3) l put_call_spec [OF refl m bm b(5)] by (simp add: xdr_callmsg_def z MAX_AUTH_BYTES_def)
  have len: "length (wires be32 ?us) = 40" using length_wires [of ?us be32 4] by simp
  have sl: "slice ?m1 buf 40 = wires be32 ?us" "length ?m1 = length m" using slice_put_same [of buf "wires be32 ?us" m] bm len by simp_all
  let ?r = "\<lparr>x_private = buf + 32, x_base = buf, x_handy = n - 32\<rparr>"
  have u: "unat (n - 32) = unat n - 32" using b(2) by (simp add: unat_sub word_le_nat_alt)
  then have "unat (n - 32) < 2 ^ 31" using b(1) unfolding buffer_ok_def by linarith
  then have "sint (n - 32) = int (unat (n - 32))" using sint_addr [of "unat (n - 32)"] by simp
  then have "8 \<le> sint (n - 32)" using b(2) unfolding u by linarith
  then have "sint (8 :: u_int) \<le> sint (x_handy ?r)" by simp
  then have x: "XDR_INLINE (handle xdrmem_ops XDR_DECODE ?r) (2 * BYTES_PER_XDR_UNIT)
      = (buf + 32, handle xdrmem_ops XDR_DECODE (?r\<lparr>x_handy := n - 32 - 8, x_private := buf + 32 + 8\<rparr>))"
    using mem_inline [of 8 ?r XDR_DECODE] b(4) by (simp add: z)
  let ?fs = "[(0, xid), (1, CALL), (2, RPC_MSG_VERSION), (3, prog), (4, vers), (5, proc), (6, cf), (8, 0), (9, vf), (11, 0)]"
  let ?m2 = "set_fields d ?m1 ?fs"
  have g: "xdr_callmsg E (handle xdrmem_ops XDR_DECODE ?s) ?m1 d
      = Some (True, handle xdrmem_ops XDR_DECODE (?r\<lparr>x_handy := n - 32 - 8, x_private := buf + 32 + 8\<rparr>), ?m2)"
    using create_inline [OF b(1,2,4), of 32 XDR_DECODE] b(3) get_call_spec [OF refl sl(1) _ b(3) _ d(2) x, of E] sl(2) bm d(1) by (simp add: xdr_callmsg_def z)
  show ?thesis using e g sl call_fields [of d ?m1] d(1) by (intro exI conjI) (assumption | simp)+
qed

text \<open>
  C27: rejected replies are sent and received as they are on both ends of a connection, as six words for a mismatch of versions and
  five for an error of authentication. The client reports the latter as such, with its reason; but a mismatch, and every
  rejection it does not know, as a failure, with the numbers of the reply and not the versions it carries.
\<close>

theorem denied_replies:
  "codec (xdrrec_ops seek) (rec_view svc_readtcp svc_writetcp svc_live svc_in svc_out z a) E (\<lambda>x m p u. xdr_replymsg E procs x m p) 24 UNIV
      (\<lambda>(x, l, h). wires le32 [x, REPLY, MSG_DENIED, RPC_MISMATCH, l, h]) (\<lambda>(x, l, h). wires be32 [x, REPLY, MSG_DENIED, RPC_MISMATCH, l, h])
    \<and> codec (xdrrec_ops seek) (rec_view svc_readtcp svc_writetcp svc_live svc_in svc_out z a) E (\<lambda>x m p u. xdr_replymsg E procs x m p) 20 UNIV
      (\<lambda>(x, w). wires le32 [x, REPLY, MSG_DENIED, AUTH_ERROR, w]) (\<lambda>(x, w). wires be32 [x, REPLY, MSG_DENIED, AUTH_ERROR, w])
    \<and> codec (xdrrec_ops seek') (rec_view clnt_readtcp clnt_writetcp clnt_live clnt_in clnt_out z a) E (\<lambda>x m p u. xdr_replymsg E procs' x m p) 24 UNIV
      (\<lambda>(x, l, h). wires le32 [x, REPLY, MSG_DENIED, RPC_MISMATCH, l, h]) (\<lambda>(x, l, h). wires be32 [x, REPLY, MSG_DENIED, RPC_MISMATCH, l, h])
    \<and> codec (xdrrec_ops seek') (rec_view clnt_readtcp clnt_writetcp clnt_live clnt_in clnt_out z a) E (\<lambda>x m p u. xdr_replymsg E procs' x m p) 20 UNIV
      (\<lambda>(x, w). wires le32 [x, REPLY, MSG_DENIED, AUTH_ERROR, w]) (\<lambda>(x, w). wires be32 [x, REPLY, MSG_DENIED, AUTH_ERROR, w])
    \<and> (slice m msg 20 = wires le32 [xid, REPLY, MSG_DENIED, stat, w] \<and> msg + 20 \<le> length m \<and> stat \<noteq> clnt_stat_no RPC_VERSMISMATCH \<longrightarrow>
      seterr_reply m msg e = Some (if stat = AUTH_ERROR then e\<lparr>err_status := RPC_AUTHERROR, ru1 := w\<rparr>
        else e\<lparr>err_status := RPC_FAILED, ru1 := MSG_DENIED, ru2 := stat\<rparr>))"
  by (intro conjI impI sv.rs.denied_mismatch sv.rs.denied_auth cl.rs.denied_mismatch cl.rs.denied_auth) (blast intro: seterr_denied)

text \<open>A reply that the server's version is between 2 and 3.\<close>

theorem denied_replies_witness:
  "seterr_reply (wires le32 [7, REPLY, MSG_DENIED, RPC_MISMATCH, 2, 3]) 0 \<lparr>err_status = RPC_SUCCESS, ru1 = 0, ru2 = 0\<rparr>
    = Some \<lparr>err_status = RPC_FAILED, ru1 = MSG_DENIED, ru2 = RPC_MISMATCH\<rparr>"
proof -
  let ?m = "wires le32 [7, REPLY, MSG_DENIED, RPC_MISMATCH, 2, 3]"
  have "slice ?m 0 20 = wires le32 [7, REPLY, MSG_DENIED, RPC_MISMATCH, 2]" "length ?m = 24" by (simp_all add: slice_def)
  then show ?thesis
    using denied_replies [where m = ?m and msg = 0 and xid = 7 and stat = RPC_MISMATCH and w = 2
        and e = "\<lparr>err_status = RPC_SUCCESS, ru1 = 0, ru2 = 0\<rparr>"]
    by (simp add: RPC_MISMATCH_def AUTH_ERROR_def)
qed

definition demo_call :: mem where
  "demo_call = wires le32 [7, CALL, RPC_MSG_VERSION, 100003, 2, 1, 0, 0, 0, 0, 0, 0] @ replicate 88 0"

theorem callmsg_roundtrip_witness:
  "\<exists>s m1 s' m2. xdr_callmsg demo_rec_env (handle xdrmem_ops XDR_ENCODE (xdrmem_create 48 40)) demo_call 0
      = Some (True, handle xdrmem_ops XDR_ENCODE s, m1)
    \<and> slice m1 48 40 = wires be32 [7, CALL, RPC_MSG_VERSION, 100003, 2, 1, 0, 0, 0, 0]
    \<and> xdr_callmsg demo_rec_env (handle xdrmem_ops XDR_DECODE (xdrmem_create 48 40)) m1 88 = Some (True, handle xdrmem_ops XDR_DECODE s', m2)
    \<and> slice m2 88 28 = wires le32 [7, CALL, RPC_MSG_VERSION, 100003, 2, 1, 0]"
proof -
  let ?ws = "[7, CALL, RPC_MSG_VERSION, 100003, 2, 1, 0, 0, 0, 0, 0, 0]"
  have l: "length (wires le32 ?ws) = 48" using length_wires [of ?ws le32 4] by simp
  have "slice demo_call 0 48 = wires le32 ?ws" "length demo_call = 136" using l by (simp_all add: demo_call_def slice_def del: wires_simps)
  moreover have "buffer_ok demo_call 48 40" using calculation(2) by (simp add: buffer_ok_def)
  moreover have "blk 0 48 \<inter> blk 48 40 = {}" "blk 48 40 \<inter> blk 88 48 = {}" by (auto simp: blk_def)
  ultimately show ?thesis
    using callmsg_roundtrip [of demo_call 0 7 100003 2 1 0 0 0 0 48 40 88 demo_rec_env] by (auto simp del: wires_simps)
qed

end
