(* ===== verification/Setmode.thy ===== *)
theory Setmode
  imports Strto
begin

unbundle bit_operations_syntax

text \<open>
  Symbolic file modes, \<open>lib/libc/gen/setmode.c\<close>: a mode string is compiled to an array of commands on mode bits, the
  array is compressed in place, and the commands are run on the mode of a file. The array is a list of structures whose
  length is the number allocated; \<open>None\<close> is an access outside of it. A string is the list of its characters, without the
  null character at its end.
\<close>

section \<open>Definitions\<close>

text \<open>The bits of a mode as \<open>chmod(2)\<close> gives them; \<open>mode_t\<close> has 16 bits.\<close>

type_synonym mode_t = "16 word"

definition S_IRWXU :: mode_t where "S_IRWXU = 0x1C0"
definition S_IRWXG :: mode_t where "S_IRWXG = 0x038"
definition S_IRWXO :: mode_t where "S_IRWXO = 0x007"
definition S_IFDIR :: mode_t where "S_IFDIR = 0x4000"
definition S_ISUID :: mode_t where "S_ISUID = 0x800"
definition S_ISGID :: mode_t where "S_ISGID = 0x400"
definition S_ISTXT :: mode_t where "S_ISTXT = 0x200"
definition S_IRALL :: mode_t where "S_IRALL = 0x124"
definition S_IWALL :: mode_t where "S_IWALL = 0x092"
definition S_IXALL :: mode_t where "S_IXALL = 0x049"

definition STANDARD_BITS :: mode_t where
  "STANDARD_BITS = S_ISUID OR S_ISGID OR S_IRWXU OR S_IRWXG OR S_IRWXO"

definition SET_LEN :: nat where "SET_LEN = 6"
definition SET_LEN_INCR :: nat where "SET_LEN_INCR = 4"

record BITCMD =
  cmd :: byte
  cmd2 :: byte
  bits :: mode_t

definition CMD2_CLR :: byte where "CMD2_CLR = 0x01"
definition CMD2_SET :: byte where "CMD2_SET = 0x02"
definition CMD2_GBITS :: byte where "CMD2_GBITS = 0x04"
definition CMD2_OBITS :: byte where "CMD2_OBITS = 0x08"
definition CMD2_UBITS :: byte where "CMD2_UBITS = 0x10"

subsection \<open>Running the commands\<close>

text \<open>The code at \<open>common\<close>: three bits \<open>val\<close> are copied to the places \<open>cmd2\<close> names.\<close>

definition copy_bits :: "BITCMD \<Rightarrow> mode_t \<Rightarrow> mode_t \<Rightarrow> mode_t" where
  "copy_bits c val newmode = (
     let has = (\<lambda>f. cmd2 c AND f \<noteq> 0);
         clrval = (if has CMD2_SET then S_IRWXO else val);
         clr = (\<lambda>f n m. if has CMD2_CLR \<and> has f then m AND NOT (push_bit n clrval AND bits c) else m);
         st = (\<lambda>f n m. if has CMD2_SET \<and> has f then m OR (push_bit n val AND bits c) else m) in
     st CMD2_OBITS 0 (st CMD2_GBITS 3 (st CMD2_UBITS 6 (clr CMD2_OBITS 0 (clr CMD2_GBITS 3 (clr CMD2_UBITS 6 newmode))))))"

fun getmode_loop :: "BITCMD list \<Rightarrow> mode_t \<Rightarrow> mode_t \<Rightarrow> mode_t option" where
  "getmode_loop [] omode newmode = None"
| "getmode_loop (c # cs) omode newmode =
     (if cmd c = 117 then getmode_loop cs omode (copy_bits c (drop_bit 6 (newmode AND S_IRWXU)) newmode)
      else if cmd c = 103 then getmode_loop cs omode (copy_bits c (drop_bit 3 (newmode AND S_IRWXG)) newmode)
      else if cmd c = 111 then getmode_loop cs omode (copy_bits c (newmode AND S_IRWXO) newmode)
      else if cmd c = 43 then getmode_loop cs omode (newmode OR bits c)
      else if cmd c = 45 then getmode_loop cs omode (newmode AND NOT (bits c))
      else if cmd c = 88 then getmode_loop cs omode (if omode AND (S_IFDIR OR S_IXALL) \<noteq> 0 then newmode OR bits c else newmode)
      else Some newmode)"

definition getmode :: "BITCMD list \<Rightarrow> mode_t \<Rightarrow> mode_t option" where
  "getmode bbox omode = getmode_loop bbox omode omode"

subsection \<open>Adding a command\<close>

definition update_at :: "'a list \<Rightarrow> nat \<Rightarrow> ('a \<Rightarrow> 'a) \<Rightarrow> 'a list option" where
  "update_at a i f = (if i < length a then Some (a[i := f (a ! i)]) else None)"

text \<open>The array and the index of the next free entry.\<close>

type_synonym cmds = "BITCMD list \<times> nat"

definition addcmd :: "cmds \<Rightarrow> byte \<Rightarrow> mode_t \<Rightarrow> mode_t \<Rightarrow> mode_t \<Rightarrow> cmds option" where
  "addcmd st xop who oparg umsk = (
     let (a, pos) = st in
     if xop = 61 then do {
       a \<leftarrow> update_at a pos (\<lambda>c. c\<lparr>cmd := 45, bits := if who \<noteq> 0 then who else STANDARD_BITS\<rparr>);
       a \<leftarrow> update_at a (pos + 1) (\<lambda>c. c\<lparr>cmd := 43, bits := (if who \<noteq> 0 then who else umsk) AND oparg\<rparr>);
       Some (a, pos + 2) }
     else if xop = 43 \<or> xop = 45 \<or> xop = 88 then do {
       a \<leftarrow> update_at a pos (\<lambda>c. c\<lparr>cmd := xop, bits := (if who \<noteq> 0 then who else umsk) AND oparg\<rparr>);
       Some (a, pos + 1) }
     else Some (a, pos + 1))"

text \<open>The same for \<open>u\<close>, \<open>g\<close> and \<open>o\<close>, where the argument is the operator.\<close>

definition addcopy :: "cmds \<Rightarrow> byte \<Rightarrow> mode_t \<Rightarrow> byte \<Rightarrow> mode_t \<Rightarrow> cmds option" where
  "addcopy st xop who oparg umsk = (
     let (a, pos) = st;
         places = (if who \<noteq> 0 then (if who AND 0x100 \<noteq> 0 then CMD2_UBITS else 0) OR (if who AND 0x20 \<noteq> 0 then CMD2_GBITS else 0)
             OR (if who AND 4 \<noteq> 0 then CMD2_OBITS else 0)
           else CMD2_UBITS OR CMD2_GBITS OR CMD2_OBITS);
         how = (if oparg = 43 then CMD2_SET else if oparg = 45 then CMD2_CLR else if oparg = 61 then CMD2_SET OR CMD2_CLR else 0) in
     do {
       a \<leftarrow> update_at a pos (\<lambda>c. c\<lparr>cmd := xop, cmd2 := places OR how, bits := if who \<noteq> 0 then - 1 else umsk\<rparr>);
       Some (a, pos + 1) })"

text \<open>
  What is around the compiler: the file creation mask, what \<open>malloc\<close> and \<open>realloc\<close> do, and what new storage holds.
  The macro \<open>ADDCMD\<close> looks at the old pointer after \<open>realloc\<close>; where there is no new storage it goes on with addresses from 0 on.
\<close>

record mode_env =
  e_umask :: mode_t
  e_malloc :: bool
  e_realloc :: "nat \<Rightarrow> bool"
  e_junk :: "nat \<Rightarrow> BITCMD"

definition make_room :: "mode_env \<Rightarrow> cmds \<Rightarrow> cmds option" where
  "make_room E st = (
     let (a, pos) = st in
     if pos \<ge> length a - 2 then
       (if e_realloc E (length a + SET_LEN_INCR) then Some (a @ map (e_junk E) [length a..<length a + SET_LEN_INCR], pos) else None)
     else Some (a, pos))"

definition ADDCMD :: "mode_env \<Rightarrow> cmds \<Rightarrow> byte \<Rightarrow> mode_t \<Rightarrow> mode_t \<Rightarrow> cmds option" where
  "ADDCMD E st xop who oparg = do { st \<leftarrow> make_room E st; addcmd st xop who oparg (NOT (e_umask E)) }"

definition ADDCOPY :: "mode_env \<Rightarrow> cmds \<Rightarrow> byte \<Rightarrow> mode_t \<Rightarrow> byte \<Rightarrow> cmds option" where
  "ADDCOPY E st xop who oparg = do { st \<leftarrow> make_room E st; addcopy st xop who oparg (NOT (e_umask E)) }"

subsection \<open>Compressing\<close>

fun gather :: "BITCMD list \<Rightarrow> nat \<Rightarrow> mode_t \<Rightarrow> mode_t \<Rightarrow> mode_t \<Rightarrow> (mode_t \<times> mode_t \<times> mode_t \<times> nat) option" where
  "gather [] nset setbits clrbits Xbits = None"
| "gather (c # cs) nset setbits clrbits Xbits =
     (if cmd c = 45 then gather cs (nset + 1) (setbits AND NOT (bits c)) (clrbits OR bits c) (Xbits AND NOT (bits c))
      else if cmd c = 43 then gather cs (nset + 1) (setbits OR bits c) (clrbits AND NOT (bits c)) (Xbits AND NOT (bits c))
      else if cmd c = 88 then gather cs (nset + 1) setbits clrbits (Xbits OR (bits c AND NOT setbits))
      else Some (setbits, clrbits, Xbits, nset))"

definition emit_cmd :: "byte \<Rightarrow> mode_t \<Rightarrow> cmds \<Rightarrow> cmds option" where
  "emit_cmd xop b st = (
     let (a, pos) = st in
     if b \<noteq> 0 then do { a \<leftarrow> update_at a pos (\<lambda>c. c\<lparr>cmd := xop, cmd2 := 0, bits := b\<rparr>); Some (a, pos + 1) } else Some (a, pos))"

definition mergeable :: "BITCMD \<Rightarrow> bool" where
  "mergeable c \<longleftrightarrow> cmd c = 43 \<or> cmd c = 45 \<or> cmd c = 88"

lemma gather_nset: "gather cs nset s c x = Some (s', c', x', nset') \<Longrightarrow> nset \<le> nset' \<and> (cs \<noteq> [] \<and> mergeable (hd cs) \<longrightarrow> nset < nset')"
proof (induction cs nset s c x rule: gather.induct)
  case (2 a cs nset s c x)
  then show ?case by (auto simp: mergeable_def split: if_splits)
qed simp

lemma update_at_length: "update_at a i f = Some a' \<Longrightarrow> length a' = length a"
  by (auto simp: update_at_def split: if_splits)

lemma emit_cmd_length: "emit_cmd xop b (a, pos) = Some (a', pos') \<Longrightarrow> length a' = length a"
  by (auto simp: emit_cmd_def bind_eq_Some_conv dest: update_at_length split: if_splits)

function compress_loop :: "BITCMD list \<Rightarrow> nat \<Rightarrow> nat \<Rightarrow> BITCMD list option" where
  "compress_loop a pos nset =
     (if nset < length a then
        (if \<not> mergeable (a ! nset) then do {
           let c = a ! nset;
           a \<leftarrow> update_at a pos (\<lambda>_. c);
           (if cmd c = 0 then Some a else compress_loop a (pos + 1) (nset + 1)) }
         else do {
           (setbits, clrbits, Xbits, nset') \<leftarrow> gather (drop nset a) nset 0 0 0;
           (a1, pos) \<leftarrow> emit_cmd 45 clrbits (a, pos);
           (a2, pos) \<leftarrow> emit_cmd 43 setbits (a1, pos);
           (a3, pos) \<leftarrow> emit_cmd 88 Xbits (a2, pos);
           compress_loop a3 pos nset' })
      else None)"
  by pat_completeness auto
termination
  by (relation "measure (\<lambda>(a, pos, nset). length a - nset)")
    (auto dest!: gather_nset update_at_length emit_cmd_length simp: hd_drop_conv_nth)

declare compress_loop.simps [simp del]

definition compress_mode :: "BITCMD list \<Rightarrow> BITCMD list option" where
  "compress_mode a = compress_loop a 0 0"

subsection \<open>Compiling\<close>

fun who_loop :: "mode_t \<Rightarrow> byte list \<Rightarrow> mode_t \<times> byte list" where
  "who_loop who [] = (who, [])"
| "who_loop who (c # p) =
     (if c = 97 then who_loop (who OR STANDARD_BITS) p
      else if c = 117 then who_loop (who OR (S_ISUID OR S_IRWXU)) p
      else if c = 103 then who_loop (who OR (S_ISGID OR S_IRWXG)) p
      else if c = 111 then who_loop (who OR S_IRWXO) p
      else (who, c # p))"

text \<open>The default case of the loop over the permissions: what is left is added.\<close>

definition perm_end :: "mode_env \<Rightarrow> byte \<Rightarrow> bool \<Rightarrow> cmds \<Rightarrow> mode_t \<Rightarrow> mode_t \<Rightarrow> mode_t \<Rightarrow> (cmds \<times> bool) option" where
  "perm_end E xop equalopdone st who perm permXbits = do {
     (st, equalopdone) \<leftarrow>
       (if perm \<noteq> 0 \<or> xop = 61 \<and> \<not> equalopdone then do { st \<leftarrow> ADDCMD E st xop who perm; Some (st, equalopdone \<or> xop = 61) }
        else Some (st, equalopdone));
     st \<leftarrow> (if permXbits \<noteq> 0 then ADDCMD E st 88 who permXbits else Some st);
     Some (st, equalopdone) }"

fun perm_loop :: "mode_env \<Rightarrow> byte \<Rightarrow> bool \<Rightarrow> cmds \<Rightarrow> mode_t \<Rightarrow> mode_t \<Rightarrow> mode_t \<Rightarrow> byte list \<Rightarrow>
    (cmds \<times> bool \<times> mode_t \<times> byte list) option" where
  "perm_loop E xop equalopdone st who perm permXbits [] = do {
     (st, equalopdone) \<leftarrow> perm_end E xop equalopdone st who perm permXbits; Some (st, equalopdone, who, []) }"
| "perm_loop E xop equalopdone st who perm permXbits (c # p) =
     (if c = 114 then perm_loop E xop equalopdone st who (perm OR S_IRALL) permXbits p
      else if c = 115 then perm_loop E xop equalopdone st who
        (if who AND NOT S_IRWXO \<noteq> 0 then perm OR (S_ISUID OR S_ISGID) else perm) permXbits p
      else if c = 116 then perm_loop E xop equalopdone st (who OR S_ISTXT) (perm OR S_ISTXT) permXbits p
      else if c = 119 then perm_loop E xop equalopdone st who (perm OR S_IWALL) permXbits p
      else if c = 88 then perm_loop E xop equalopdone st who perm S_IXALL p
      else if c = 120 then perm_loop E xop equalopdone st who (perm OR S_IXALL) permXbits p
      else if c = 117 \<or> c = 103 \<or> c = 111 then do {
        st \<leftarrow> (if perm \<noteq> 0 then ADDCMD E st xop who perm else Some st);
        (st, permXbits) \<leftarrow>
          (if xop = 43 \<and> permXbits \<noteq> 0 then do { st \<leftarrow> ADDCMD E st 88 who permXbits; Some (st, 0) } else Some (st, permXbits));
        st \<leftarrow> ADDCOPY E st c who xop;
        perm_loop E xop (equalopdone \<or> xop = 61) st who 0 permXbits p }
      else do {
        (st, equalopdone) \<leftarrow> perm_end E xop equalopdone st who perm permXbits;
        Some (st, equalopdone, who, c # p) })"

lemma perm_loop_length: "perm_loop E xop eqd st who perm px p = Some (st', eqd', who', p') \<Longrightarrow> length p' \<le> length p"
proof (induction p arbitrary: xop eqd st who perm px)
  case Nil
  then show ?case by (auto simp: bind_eq_Some_conv)
next
  case (Cons c p)
  from Cons.prems show ?case
    by (auto simp: bind_eq_Some_conv dest!: Cons.IH split: if_splits)
qed

lemma who_loop_length: "length (snd (who_loop who p)) \<le> length p"
  by (induction who p rule: who_loop.induct) auto

text \<open>From \<open>getop\<close> on: an operator and its permissions, until the string ends; \<open>Some None\<close> is the return of \<open>NULL\<close>.\<close>

function op_loop :: "mode_env \<Rightarrow> bool \<Rightarrow> cmds \<Rightarrow> mode_t \<Rightarrow> byte list \<Rightarrow> cmds option option" where
  "op_loop E equalopdone st who p =
     (if p = [] \<or> hd p \<noteq> 43 \<and> hd p \<noteq> 45 \<and> hd p \<noteq> 61 then Some None
      else do {
        let xop = hd p;
        (st, equalopdone, who, p') \<leftarrow> perm_loop E xop (if xop = 61 then False else equalopdone) st (who AND NOT S_ISTXT) 0 0 (tl p);
        (if p' = [] then Some (Some st)
         else if hd p' \<noteq> 44 then op_loop E equalopdone st who p'
         else op_loop E equalopdone st (fst (who_loop 0 (tl p'))) (snd (who_loop 0 (tl p')))) })"
  by pat_completeness auto
termination
proof (relation "measure (\<lambda>(E, eqd, st, who, p). length p)", goal_cases)
  case (2 E eqd st who p xop x st' y eqd' z who' p')
  then show ?case by (cases p) (auto dest!: perm_loop_length)
next
  case (3 E eqd st who p xop x st' y eqd' z who' p')
  then show ?case using who_loop_length [of 0 "tl p'"] by (cases p; cases "who_loop 0 (tl p')") (auto dest!: perm_loop_length)
qed simp

declare op_loop.simps [simp del]

definition setmode :: "RuneLocale \<Rightarrow> mode_env \<Rightarrow> byte list \<Rightarrow> BITCMD list option option" where
  "setmode rl E p =
     (if p = [] then Some None
      else if \<not> e_malloc E then Some None
      else do {
        let a = map (e_junk E) [0..<SET_LEN + 2];
        (if isdigit (sint (hd p)) then do {
           (l, endp, err) \<leftarrow> strtol rl (p @ [0]) 0 8;
           (let perm = ucast l :: mode_t in
            if perm AND NOT (STANDARD_BITS OR S_ISTXT) \<noteq> 0 then Some None
            else if (\<exists>c \<in> set (tl p). sint c < 48 \<or> sint c > 55) then Some None
            else do {
              (a, n) \<leftarrow> ADDCMD E (a, 0) 61 (STANDARD_BITS OR S_ISTXT) perm;
              Some (Some a) }) }
         else do {
           r \<leftarrow> op_loop E False (a, 0) (fst (who_loop 0 p)) (snd (who_loop 0 p));
           (case r of
             None \<Rightarrow> Some None
           | Some (a, n) \<Rightarrow> do {
               a \<leftarrow> update_at a n (\<lambda>c. c\<lparr>cmd := 0\<rparr>);
               a \<leftarrow> compress_mode a;
               Some (Some a) }) }) })"

section \<open>The meaning of a command\<close>

definition may_exec :: "mode_t \<Rightarrow> bool" where
  "may_exec omode \<longleftrightarrow> omode AND (S_IFDIR OR S_IXALL) \<noteq> 0"

definition run_cmd :: "mode_t \<Rightarrow> BITCMD \<Rightarrow> mode_t \<Rightarrow> mode_t" where
  "run_cmd omode c m =
     (if cmd c = 117 then copy_bits c (drop_bit 6 (m AND S_IRWXU)) m
      else if cmd c = 103 then copy_bits c (drop_bit 3 (m AND S_IRWXG)) m
      else if cmd c = 111 then copy_bits c (m AND S_IRWXO) m
      else if cmd c = 43 then m OR bits c
      else if cmd c = 45 then m AND NOT (bits c)
      else if may_exec omode then m OR bits c else m)"

definition known :: "BITCMD \<Rightarrow> bool" where
  "known c \<longleftrightarrow> cmd c \<in> {117, 103, 111, 43, 45, 88}"

lemma getmode_run:
  "\<forall>c \<in> set cs. known c \<Longrightarrow> \<not> known t \<Longrightarrow> getmode_loop (cs @ t # rest) omode m = Some (fold (run_cmd omode) cs m)"
  by (induction cs arbitrary: m) (auto simp: known_def run_cmd_def may_exec_def)

section \<open>Compressing keeps the meaning\<close>

text \<open>What three sets of bits, cleared, set, and set when something is executable, do together.\<close>

definition effect :: "mode_t \<Rightarrow> mode_t \<Rightarrow> mode_t \<Rightarrow> mode_t \<Rightarrow> mode_t \<Rightarrow> mode_t" where
  "effect k s x omode m = (let m = (m AND NOT k) OR s in if may_exec omode then m OR x else m)"

lemma effect_minus: "cmd c = 45 \<Longrightarrow> run_cmd om c (effect k s x om m) = effect (k OR bits c) (s AND NOT (bits c)) (x AND NOT (bits c)) om m"
  by (rule bit_word_eqI) (auto simp: effect_def run_cmd_def Let_def bit_simps)

lemma effect_plus: "cmd c = 43 \<Longrightarrow> run_cmd om c (effect k s x om m) = effect (k AND NOT (bits c)) (s OR bits c) (x AND NOT (bits c)) om m"
  by (rule bit_word_eqI) (auto simp: effect_def run_cmd_def Let_def bit_simps)

lemma effect_X: "cmd c = 88 \<Longrightarrow> run_cmd om c (effect k s x om m) = effect k s (x OR (bits c AND NOT s)) om m"
  by (rule bit_word_eqI) (auto simp: effect_def run_cmd_def Let_def bit_simps)

definition nz :: "mode_t \<Rightarrow> nat" where
  "nz b = (if b \<noteq> 0 then 1 else 0)"

lemma nz_and: "nz (a AND b) \<le> nz a"
  by (auto simp: nz_def)

lemma nz_or: "nz (a OR b) \<le> Suc (nz a)"
  by (auto simp: nz_def)

lemma gather_run:
  "\<forall>c \<in> set run. mergeable c \<Longrightarrow> \<not> mergeable t \<Longrightarrow>
   \<exists>s' k' x'. gather (run @ t # rest) n s k x = Some (s', k', x', n + length run)
     \<and> nz k' + nz s' + nz x' \<le> nz k + nz s + nz x + length run
     \<and> (\<forall>om m. effect k' s' x' om m = fold (run_cmd om) run (effect k s x om m))"
proof (induction run arbitrary: n s k x)
  case Nil
  then show ?case by (auto simp: mergeable_def)
next
  case (Cons c run)
  then consider "cmd c = 45" | "cmd c = 43" | "cmd c = 88" by (auto simp: mergeable_def)
  then show ?case
  proof cases
    case 1
    then show ?thesis
      using Cons.IH [of "n + 1" "s AND NOT (bits c)" "k OR bits c" "x AND NOT (bits c)"] Cons.prems
        effect_minus [OF 1] nz_and [of s "NOT (bits c)"] nz_and [of x "NOT (bits c)"] nz_or [of k "bits c"] by fastforce
  next
    case 2
    then show ?thesis
      using Cons.IH [of "n + 1" "s OR bits c" "k AND NOT (bits c)" "x AND NOT (bits c)"] Cons.prems
        effect_plus [OF 2] nz_and [of k "NOT (bits c)"] nz_and [of x "NOT (bits c)"] nz_or [of s "bits c"] by fastforce
  next
    case 3
    then show ?thesis
      using Cons.IH [of "n + 1" s k "x OR (bits c AND NOT s)"] Cons.prems
        effect_X [OF 3] nz_or [of x "bits c AND NOT s"] by fastforce
  qed
qed

text \<open>Entries written over an array.\<close>

definition over :: "'a list \<Rightarrow> nat \<Rightarrow> 'a list \<Rightarrow> 'a list" where
  "over a i ds = take i a @ ds @ drop (i + length ds) a"

lemma over_Nil [simp]: "over a i [] = a"
  by (simp add: over_def)

lemma length_over [simp]: "i + length ds \<le> length a \<Longrightarrow> length (over a i ds) = length a"
  by (simp add: over_def)

lemma over_over: "i + length ds + length es \<le> length a \<Longrightarrow> over (over a i ds) (i + length ds) es = over a i (ds @ es)"
  by (cases ds) (auto simp: over_def min_def ac_simps)

lemma over_one: "i < length a \<Longrightarrow> a[i := d] = over a i [d]"
  by (simp add: over_def upd_conv_take_nth_drop)

definition one_cmd :: "byte \<Rightarrow> mode_t \<Rightarrow> BITCMD list" where
  "one_cmd xop b = (if b \<noteq> 0 then [\<lparr>cmd = xop, cmd2 = 0, bits = b\<rparr>] else [])"

lemma emit_cmd_spec: "i + nz b \<le> length a \<Longrightarrow> emit_cmd xop b (a, i) = Some (over a i (one_cmd xop b), i + nz b)"
  by (cases "b = 0"; cases "a ! i") (auto simp: emit_cmd_def one_cmd_def update_at_def nz_def over_one)

definition three_cmds :: "mode_t \<Rightarrow> mode_t \<Rightarrow> mode_t \<Rightarrow> BITCMD list" where
  "three_cmds k s x = one_cmd 45 k @ one_cmd 43 s @ one_cmd 88 x"

lemma length_one_cmd [simp]: "length (one_cmd xop b) = nz b"
  by (simp add: one_cmd_def nz_def)

lemma three_cmds_known: "c \<in> set (three_cmds k s x) \<Longrightarrow> known c"
  by (auto simp: three_cmds_def one_cmd_def known_def split: if_splits)

lemma three_cmds_run: "fold (run_cmd om) (three_cmds k s x) m = effect k s x om m"
  by (auto simp: three_cmds_def one_cmd_def run_cmd_def effect_def Let_def)

lemma effect_0 [simp]: "effect 0 0 0 om m = m"
  by (simp add: effect_def)

lemma drop_append_length: "drop n a = cs @ t # rest \<Longrightarrow> n + length cs < length a"
  by (drule arg_cong [of _ _ length]) simp

lemma emit_three:
  assumes "i + nz k + nz s + nz x \<le> length a"
  shows "do { (a1, i1) \<leftarrow> emit_cmd 45 k (a, i); (a2, i2) \<leftarrow> emit_cmd 43 s (a1, i1); emit_cmd 88 x (a2, i2) }
    = Some (over a i (three_cmds k s x), i + length (three_cmds k s x))"
proof -
  have "emit_cmd 45 k (a, i) = Some (over a i (one_cmd 45 k), i + nz k)" using assms by (intro emit_cmd_spec) simp
  moreover have "emit_cmd 43 s (over a i (one_cmd 45 k), i + nz k) = Some (over a i (one_cmd 45 k @ one_cmd 43 s), i + nz k + nz s)"
    using assms over_over [of i "one_cmd 45 k" "one_cmd 43 s" a] by (simp add: emit_cmd_spec)
  moreover have "emit_cmd 88 x (over a i (one_cmd 45 k @ one_cmd 43 s), i + nz k + nz s)
      = Some (over a i (three_cmds k s x), i + nz k + nz s + nz x)"
    using assms over_over [of i "one_cmd 45 k @ one_cmd 43 s" "one_cmd 88 x" a] by (simp add: emit_cmd_spec three_cmds_def add.assoc)
  ultimately show ?thesis by (simp add: three_cmds_def)
qed

lemma compress_run:
  assumes "drop n a = run @ t # rest" "run \<noteq> []" "\<forall>c \<in> set run. mergeable c" "\<not> mergeable t" "i \<le> n"
  shows "\<exists>ds. compress_loop a i n = compress_loop (over a i ds) (i + length ds) (n + length run)
    \<and> length ds \<le> length run \<and> (\<forall>c \<in> set ds. known c) \<and> (\<forall>om m. fold (run_cmd om) ds m = fold (run_cmd om) run m)"
proof -
  obtain s k x where g: "gather (drop n a) n 0 0 0 = Some (s, k, x, n + length run)" "nz k + nz s + nz x \<le> length run"
      "\<forall>om m. effect k s x om m = fold (run_cmd om) run m"
    using gather_run [OF assms(3,4), of rest n 0 0 0] unfolding assms(1) by (auto simp: nz_def)
  have n: "n < length a" "n + length run < length a" using drop_append_length [OF assms(1)] by auto
  have "a ! n = hd run" using assms(1,2) n hd_drop_conv_nth [of n a] by simp
  then have m: "mergeable (a ! n)" using assms(2,3) by simp
  have e: "do { (a1, i1) \<leftarrow> emit_cmd 45 k (a, i); (a2, i2) \<leftarrow> emit_cmd 43 s (a1, i1); emit_cmd 88 x (a2, i2) }
      = Some (over a i (three_cmds k s x), i + length (three_cmds k s x))"
    using g(2) n assms(5) by (intro emit_three) simp
  have "compress_loop a i n = do { (a1, i1) \<leftarrow> emit_cmd 45 k (a, i); (a2, i2) \<leftarrow> emit_cmd 43 s (a1, i1);
      (a3, i3) \<leftarrow> emit_cmd 88 x (a2, i2); compress_loop a3 i3 (n + length run) }"
    using n m g(1) by (subst compress_loop.simps) simp
  also have "\<dots> = Option.bind (do { (a1, i1) \<leftarrow> emit_cmd 45 k (a, i); (a2, i2) \<leftarrow> emit_cmd 43 s (a1, i1); emit_cmd 88 x (a2, i2) })
      (\<lambda>(a3, i3). compress_loop a3 i3 (n + length run))"
    by (auto simp: split_def)
  finally show ?thesis
    using g(2,3) three_cmds_run three_cmds_known unfolding e by (intro exI [of _ "three_cmds k s x"]) (auto simp: three_cmds_def)
qed

lemma compress_loop_spec:
  "drop n a = cs @ t # rest \<Longrightarrow> \<forall>c \<in> set cs. known c \<Longrightarrow> cmd t = 0 \<Longrightarrow> i \<le> n \<Longrightarrow>
   \<exists>ds. compress_loop a i n = Some (over a i (ds @ [t])) \<and> length ds \<le> length cs
     \<and> (\<forall>c \<in> set ds. known c) \<and> (\<forall>om m. fold (run_cmd om) ds m = fold (run_cmd om) cs m)"
proof (induction "length cs" arbitrary: cs a i n rule: less_induct)
  case less
  have n: "n < length a" "n + length cs < length a" using drop_append_length [OF less.prems(1)] by auto
  show ?case
  proof (cases cs)
    case Nil
    then have "a ! n = t" "\<not> mergeable t" using less.prems n hd_drop_conv_nth [of n a] by (auto simp: mergeable_def)
    then show ?thesis
      using Nil less.prems(3,4) n by (subst compress_loop.simps) (simp add: update_at_def over_one)
  next
    case (Cons c cs')
    have c: "a ! n = c" using Cons less.prems(1) n hd_drop_conv_nth [of n a] by simp
    show ?thesis
    proof (cases "mergeable c")
      case False
      then have nz: "cmd c \<noteq> 0" using less.prems(2) Cons by (auto simp: known_def)
      have step: "compress_loop a i n = compress_loop (over a i [c]) (i + 1) (n + 1)"
        using n c False nz less.prems(4) by (subst compress_loop.simps) (simp add: update_at_def over_one)
      have "drop (Suc n) a = tl (drop n a)" by (simp add: drop_Suc tl_drop)
      then have d: "drop (n + 1) (over a i [c]) = cs' @ t # rest"
        using less.prems(1,4) n Cons by (simp add: over_def min_def Suc_diff_le)
      then obtain ds where ds: "compress_loop (over a i [c]) (i + 1) (n + 1) = Some (over (over a i [c]) (i + 1) (ds @ [t]))"
          "length ds \<le> length cs'" "\<forall>c \<in> set ds. known c" "\<forall>om m. fold (run_cmd om) ds m = fold (run_cmd om) cs' m"
        using less.hyps [of cs' "n + 1" "over a i [c]" "i + 1"] less.prems(2,3,4) Cons by auto
      then show ?thesis
        using step Cons less.prems(2,4) n over_over [of i "[c]" "ds @ [t]" a] by (intro exI [of _ "c # ds"]) auto
    next
      case True
      define run where "run = takeWhile mergeable cs"
      define more where "more = dropWhile mergeable cs"
      have cs: "cs = run @ more" "run \<noteq> []" "\<forall>c \<in> set run. mergeable c"
        using True Cons by (auto simp: run_def more_def dest: set_takeWhileD)
      have "\<not> mergeable t" using less.prems(3) by (simp add: mergeable_def)
      moreover have "\<not> mergeable v" if "more = v # vs" for v vs using that by (simp add: more_def dropWhile_eq_Cons_conv)
      ultimately obtain u us where u: "more @ t # rest = u # us" "\<not> mergeable u" by (cases more) auto
      have "drop n a = run @ u # us" using less.prems(1) cs(1) u(1) by simp
      then obtain es where es: "compress_loop a i n = compress_loop (over a i es) (i + length es) (n + length run)" "length es \<le> length run"
          "\<forall>c \<in> set es. known c" "\<forall>om m. fold (run_cmd om) es m = fold (run_cmd om) run m"
        using compress_run [OF _ cs(2,3) u(2) less.prems(4)] by blast
      have "drop (n + length run) a = more @ t # rest" using less.prems(1) cs(1) drop_drop [of "length run" n a] by (simp add: add.commute)
      then have d: "drop (n + length run) (over a i es) = more @ t # rest"
        using es(2) less.prems(4) n by (simp add: over_def min_def)
      then obtain ds where ds: "compress_loop (over a i es) (i + length es) (n + length run) = Some (over (over a i es) (i + length es) (ds @ [t]))"
          "length ds \<le> length more" "\<forall>c \<in> set ds. known c" "\<forall>om m. fold (run_cmd om) ds m = fold (run_cmd om) more m"
        using less.hyps [of more "n + length run" "over a i es" "i + length es"] less.prems(2,3,4) cs es(2) by auto
      then show ?thesis
        using es cs(1) less.prems(4) n over_over [of i es "ds @ [t]" a] by (intro exI [of _ "es @ ds"]) auto
    qed
  qed
qed

end
