(* ===== verification/ModeSpec.thy ===== *)
theory ModeSpec
  imports Setmode
begin

unbundle bit_operations_syntax

text \<open>
  What \<open>setmode\<close> and \<open>getmode\<close> do together: a mode string is interpreted on the mode of a file directly, change after
  change, and running the compiled and compressed commands gives the same mode, for every string.
\<close>

section \<open>Interpreting a mode string\<close>

text \<open>The change one operator makes: the bits it may touch are those of \<open>who\<close>, or those the file creation mask leaves.\<close>

definition change :: "mode_env \<Rightarrow> byte \<Rightarrow> mode_t \<Rightarrow> mode_t \<Rightarrow> mode_t \<Rightarrow> mode_t \<Rightarrow> mode_t" where
  "change E xop who perm omode m = (
     let b = (if who \<noteq> 0 then who else NOT (e_umask E)) AND perm in
     if xop = 61 then (m AND NOT (if who \<noteq> 0 then who else STANDARD_BITS)) OR b
     else if xop = 43 then m OR b
     else if xop = 45 then m AND NOT b
     else if may_exec omode then m OR b else m)"

text \<open>The permissions of one class are copied to those of the classes in \<open>who\<close>, or of all within the mask.\<close>

definition class_bits :: "byte \<Rightarrow> mode_t \<Rightarrow> mode_t" where
  "class_bits c m = (if c = 117 then drop_bit 6 (m AND S_IRWXU) else if c = 103 then drop_bit 3 (m AND S_IRWXG) else m AND S_IRWXO)"

definition spread_bits :: "mode_t \<Rightarrow> mode_t \<Rightarrow> mode_t" where
  "spread_bits who v = (if who AND 0x100 \<noteq> 0 then push_bit 6 v else 0) OR (if who AND 0x20 \<noteq> 0 then push_bit 3 v else 0)
     OR (if who AND 4 \<noteq> 0 then v else 0)"

definition copy_change :: "mode_env \<Rightarrow> byte \<Rightarrow> byte \<Rightarrow> mode_t \<Rightarrow> mode_t \<Rightarrow> mode_t" where
  "copy_change E xop c who m = (
     let wh = (if who \<noteq> 0 then who else STANDARD_BITS);
         b = (if who \<noteq> 0 then - 1 else NOT (e_umask E));
         v = spread_bits wh (class_bits c m) AND b in
     if xop = 61 then (m AND NOT (spread_bits wh S_IRWXO AND b)) OR v
     else if xop = 43 then m OR v
     else m AND NOT v)"

text \<open>What is left at the end of the permissions of an operator.\<close>

definition last_change :: "mode_env \<Rightarrow> byte \<Rightarrow> bool \<Rightarrow> mode_t \<Rightarrow> mode_t \<Rightarrow> mode_t \<Rightarrow> mode_t \<Rightarrow> mode_t \<Rightarrow> mode_t" where
  "last_change E xop eqd who perm px om m = (let m = (if perm \<noteq> 0 \<or> xop = 61 \<and> \<not> eqd then change E xop who perm om m else m) in
     if px \<noteq> 0 then change E 88 who px om m else m)"

fun change_loop :: "mode_env \<Rightarrow> byte \<Rightarrow> bool \<Rightarrow> mode_t \<Rightarrow> mode_t \<Rightarrow> mode_t \<Rightarrow> mode_t \<Rightarrow> mode_t \<Rightarrow> byte list \<Rightarrow> mode_t \<times> bool \<times> mode_t \<times> byte list" where
  "change_loop E xop eqd who perm px om m [] =
     (last_change E xop eqd who perm px om m, eqd \<or> xop = 61, who, [])"
| "change_loop E xop eqd who perm px om m (c # p) =
     (if c = 114 then change_loop E xop eqd who (perm OR S_IRALL) px om m p
      else if c = 115 then change_loop E xop eqd who (if who AND NOT S_IRWXO \<noteq> 0 then perm OR (S_ISUID OR S_ISGID) else perm) px om m p
      else if c = 116 then change_loop E xop eqd (who OR S_ISTXT) (perm OR S_ISTXT) px om m p
      else if c = 119 then change_loop E xop eqd who (perm OR S_IWALL) px om m p
      else if c = 88 then change_loop E xop eqd who perm S_IXALL om m p
      else if c = 120 then change_loop E xop eqd who (perm OR S_IXALL) px om m p
      else if c = 117 \<or> c = 103 \<or> c = 111 then
        (let m = (if perm \<noteq> 0 then change E xop who perm om m else m);
             m = (if xop = 43 \<and> px \<noteq> 0 then change E 88 who px om m else m) in
         change_loop E xop (eqd \<or> xop = 61) who 0 (if xop = 43 then 0 else px) om (copy_change E xop c who m) p)
      else
        (last_change E xop eqd who perm px om m, eqd \<or> xop = 61, who, c # p))"

lemma change_loop_length: "length (snd (snd (snd (change_loop E xop eqd who perm px om m p)))) \<le> length p"
  by (induction E xop eqd who perm px om m p rule: change_loop.induct) (auto simp: Let_def le_Suc_eq)

function interp_ops :: "mode_env \<Rightarrow> bool \<Rightarrow> mode_t \<Rightarrow> mode_t \<Rightarrow> mode_t \<Rightarrow> byte list \<Rightarrow> mode_t option" where
  "interp_ops E eqd who om m p =
     (if p = [] \<or> hd p \<noteq> 43 \<and> hd p \<noteq> 45 \<and> hd p \<noteq> 61 then None
      else
        let r = change_loop E (hd p) (if hd p = 61 then False else eqd) (who AND NOT S_ISTXT) 0 0 om m (tl p);
            m' = fst r; eqd' = fst (snd r); who' = fst (snd (snd r)); p' = snd (snd (snd r)) in
        if p' = [] then Some m'
        else if hd p' \<noteq> 44 then interp_ops E eqd' who' om m' p'
        else interp_ops E eqd' (fst (who_loop 0 (tl p'))) om m' (snd (who_loop 0 (tl p'))))"
  by pat_completeness auto
termination
proof (relation "measure (\<lambda>(E, eqd, who, om, m, p). length p)", goal_cases)
  case (2 E eqd who om m p r m' eqd' who' p')
  then show ?case using change_loop_length [of E "hd p" "if hd p = 61 then False else eqd" "who AND NOT S_ISTXT" 0 0 om m "tl p"] by (cases p) auto
next
  case (3 E eqd who om m p r m' eqd' who' p')
  then show ?case
    using change_loop_length [of E "hd p" "if hd p = 61 then False else eqd" "who AND NOT S_ISTXT" 0 0 om m "tl p"]
      who_loop_length [of 0 "tl p'"] by (cases p) auto
qed simp

declare interp_ops.simps [simp del]

definition interp_mode :: "mode_env \<Rightarrow> byte list \<Rightarrow> mode_t \<Rightarrow> mode_t option" where
  "interp_mode E p omode = interp_ops E False (fst (who_loop 0 p)) omode omode (snd (who_loop 0 p))"

section \<open>Adding commands\<close>

definition room_ok :: "cmds \<Rightarrow> bool" where
  "room_ok st \<longleftrightarrow> 3 \<le> length (fst st) \<and> snd st < length (fst st)"

definition prog :: "cmds \<Rightarrow> BITCMD list" where
  "prog st = take (snd st) (fst st)"

text \<open>From one state of the array to the next: commands are added that make a change \<open>f\<close>.\<close>

definition grows :: "cmds \<Rightarrow> cmds \<Rightarrow> (mode_t \<Rightarrow> mode_t \<Rightarrow> mode_t) \<Rightarrow> bool" where
  "grows st st' f \<longleftrightarrow> room_ok st' \<and> (\<exists>new. prog st' = prog st @ new \<and> (\<forall>c \<in> set new. known c) \<and> (\<forall>om m. fold (run_cmd om) new m = f om m))"

lemma grows_refl: "room_ok st \<Longrightarrow> grows st st (\<lambda>om m. m)"
  by (auto simp: grows_def)

lemma grows_trans: "grows st st' f \<Longrightarrow> grows st' st'' g \<Longrightarrow> grows st st'' (\<lambda>om m. g om (f om m))"
  by (fastforce simp: grows_def)

lemma make_room_spec:
  assumes "room_ok (a, n)" "\<forall>k. e_realloc E k"
  shows "\<exists>a'. make_room E (a, n) = Some (a', n) \<and> n + 2 < length a' \<and> take n a' = take n a"
  using assms by (auto simp: make_room_def room_ok_def SET_LEN_INCR_def)

lemma ADDCMD_grows:
  assumes "room_ok st" "\<forall>k. e_realloc E k" "xop \<in> {43, 45, 61, 88}"
  shows "\<exists>st'. ADDCMD E st xop who perm = Some st' \<and> grows st st' (change E xop who perm)"
proof -
  obtain a n where st: "st = (a, n)" by (cases st)
  then obtain a' where a': "make_room E st = Some (a', n)" "n + 2 < length a'" "take n a' = take n a"
    using make_room_spec assms by blast
  let ?b = "(if who \<noteq> 0 then who else NOT (e_umask E)) AND perm"
  show ?thesis
  proof (cases "xop = 61")
    case True
    let ?c0 = "(a' ! n)\<lparr>cmd := 45, bits := if who \<noteq> 0 then who else STANDARD_BITS\<rparr>" and ?c1 = "(a' ! (n + 1))\<lparr>cmd := 43, bits := ?b\<rparr>"
    let ?a = "a'[n := ?c0, n + 1 := ?c1]"
    have "ADDCMD E st xop who perm = Some (?a, n + 2)"
      using a' True by (simp add: ADDCMD_def addcmd_def update_at_def)
    moreover have "take (n + 2) ?a = take n a @ [?c0, ?c1]"
      using a' by (simp add: take_Suc_conv_app_nth)
    then have "grows st (?a, n + 2) (change E xop who perm)"
      using a' True st unfolding grows_def prog_def room_ok_def
      by (intro conjI exI [of _ "[?c0, ?c1]"]) (auto simp: known_def run_cmd_def change_def Let_def)
    ultimately show ?thesis by blast
  next
    case False
    let ?c = "(a' ! n)\<lparr>cmd := xop, bits := ?b\<rparr>"
    have "ADDCMD E st xop who perm = Some (a'[n := ?c], n + 1)"
      using a' False assms(3) by (auto simp: ADDCMD_def addcmd_def update_at_def)
    moreover have "take (n + 1) (a'[n := ?c]) = take n a @ [?c]" using a' by (simp add: take_Suc_conv_app_nth)
    then have "grows st (a'[n := ?c], n + 1) (change E xop who perm)"
      using a' False st assms(3) unfolding grows_def prog_def room_ok_def
      by (intro conjI exI [of _ "[?c]"]) (auto simp: known_def run_cmd_def change_def Let_def)
    ultimately show ?thesis by blast
  qed
qed

text \<open>The flags of a copying command.\<close>

definition places :: "bool \<Rightarrow> bool \<Rightarrow> bool \<Rightarrow> byte" where
  "places pu pg po = (if pu then CMD2_UBITS else 0) OR (if pg then CMD2_GBITS else 0) OR (if po then CMD2_OBITS else 0)"

definition how :: "byte \<Rightarrow> byte" where
  "how xop = (if xop = 43 then CMD2_SET else if xop = 45 then CMD2_CLR else if xop = 61 then CMD2_SET OR CMD2_CLR else 0)"

lemmas cmd2_defs = CMD2_UBITS_def CMD2_GBITS_def CMD2_OBITS_def CMD2_SET_def CMD2_CLR_def

lemma flags:
  assumes "xop \<in> {43, 45, 61}"
  shows "(places pu pg po OR how xop) AND CMD2_UBITS \<noteq> 0 \<longleftrightarrow> pu" "(places pu pg po OR how xop) AND CMD2_GBITS \<noteq> 0 \<longleftrightarrow> pg"
    "(places pu pg po OR how xop) AND CMD2_OBITS \<noteq> 0 \<longleftrightarrow> po" "(places pu pg po OR how xop) AND CMD2_SET \<noteq> 0 \<longleftrightarrow> xop \<noteq> 45"
    "(places pu pg po OR how xop) AND CMD2_CLR \<noteq> 0 \<longleftrightarrow> xop \<noteq> 43"
  using assms by (cases pu; cases pg; cases po; auto simp: places_def how_def cmd2_defs)+

definition spread3 :: "bool \<Rightarrow> bool \<Rightarrow> bool \<Rightarrow> mode_t \<Rightarrow> mode_t" where
  "spread3 pu pg po v = (if pu then push_bit 6 v else 0) OR (if pg then push_bit 3 v else 0) OR (if po then v else 0)"

lemma copy_bits_spec:
  assumes "xop \<in> {43, 45, 61}" "cmd2 c = places pu pg po OR how xop"
  shows "copy_bits c v m = (if xop = 61 then (m AND NOT (spread3 pu pg po S_IRWXO AND bits c)) OR (spread3 pu pg po v AND bits c)
    else if xop = 43 then m OR (spread3 pu pg po v AND bits c) else m AND NOT (spread3 pu pg po v AND bits c))"
proof -
  consider "xop = 43" | "xop = 45" | "xop = 61" using assms(1) by blast
  then show ?thesis
    by cases (rule bit_word_eqI; auto simp: copy_bits_def assms(2) Let_def flags [unfolded insert_iff empty_iff] spread3_def bit_simps)+
qed

lemma ADDCOPY_grows:
  assumes "room_ok st" "\<forall>k. e_realloc E k" "xop \<in> {43, 45, 61}" "c \<in> {117, 103, 111}"
  shows "\<exists>st'. ADDCOPY E st c who xop = Some st' \<and> grows st st' (\<lambda>om. copy_change E xop c who)"
proof -
  obtain a n where st: "st = (a, n)" by (cases st)
  then obtain a' where a': "make_room E st = Some (a', n)" "n + 2 < length a'" "take n a' = take n a"
    using make_room_spec assms by blast
  define wh where "wh = (if who \<noteq> 0 then who else STANDARD_BITS)"
  define b where "b = (if who \<noteq> 0 then - 1 else NOT (e_umask E))"
  let ?pl = "places (wh AND 0x100 \<noteq> 0) (wh AND 0x20 \<noteq> 0) (wh AND 4 \<noteq> 0)"
  let ?c = "(a' ! n)\<lparr>cmd := c, cmd2 := ?pl OR how xop, bits := b\<rparr>"
  have std: "STANDARD_BITS AND 0x100 \<noteq> 0" "STANDARD_BITS AND 0x20 \<noteq> 0" "STANDARD_BITS AND 4 \<noteq> 0"
    by (simp_all add: STANDARD_BITS_def S_ISUID_def S_ISGID_def S_IRWXU_def S_IRWXG_def S_IRWXO_def)
  have "ADDCOPY E st c who xop = Some (a'[n := ?c], n + 1)"
    using a' std by (simp add: ADDCOPY_def addcopy_def update_at_def places_def how_def wh_def b_def Let_def)
  moreover have "take (n + 1) (a'[n := ?c]) = take n a @ [?c]" using a' by (simp add: take_Suc_conv_app_nth)
  moreover have "run_cmd om ?c m = copy_change E xop c who m" for om m
  proof -
    have "run_cmd om ?c m = copy_bits ?c (class_bits c m) m" using assms(4) by (auto simp: run_cmd_def class_bits_def)
    also have "\<dots> = copy_change E xop c who m"
      using copy_bits_spec [OF assms(3), of ?c] assms(3)
      by (auto simp: copy_change_def Let_def spread_bits_def spread3_def wh_def [symmetric] b_def [symmetric])
    finally show ?thesis .
  qed
  then have "grows st (a'[n := ?c], n + 1) (\<lambda>om. copy_change E xop c who)"
    using a' st assms(4) calculation(2) unfolding grows_def prog_def room_ok_def
    by (intro conjI exI [of _ "[?c]"]) (auto simp: known_def)
  ultimately show ?thesis by blast
qed

section \<open>The compiler follows the interpreter\<close>

lemma grows_room: "grows st st' f \<Longrightarrow> room_ok st'"
  by (simp add: grows_def)

lemma ADDCMD_if:
  assumes "room_ok st" "\<forall>k. e_realloc E k" "xop \<in> {43, 45, 61, 88}"
  shows "\<exists>st'. (if P then ADDCMD E st xop who perm else Some st) = Some st' \<and> grows st st' (\<lambda>om m. if P then change E xop who perm om m else m)"
  using ADDCMD_grows [OF assms] grows_refl [OF assms(1)] by (cases P) auto

lemma perm_end_grows:
  assumes "room_ok st" "\<forall>k. e_realloc E k" "xop \<in> {43, 45, 61}"
  shows "\<exists>st'. perm_end E xop eqd st who perm px = Some (st', eqd \<or> xop = 61) \<and> grows st st' (last_change E xop eqd who perm px)"
proof -
  let ?P = "perm \<noteq> 0 \<or> xop = 61 \<and> \<not> eqd"
  have x: "xop \<in> {43, 45, 61, 88}" using assms(3) by auto
  obtain st1 where 1: "(if ?P then ADDCMD E st xop who perm else Some st) = Some st1"
      "grows st st1 (\<lambda>om m. if ?P then change E xop who perm om m else m)"
    using ADDCMD_if [OF assms(1,2) x, of ?P] by blast
  obtain st2 where 2: "(if px \<noteq> 0 then ADDCMD E st1 88 who px else Some st1) = Some st2"
      "grows st1 st2 (\<lambda>om m. if px \<noteq> 0 then change E 88 who px om m else m)"
    using ADDCMD_if [OF grows_room [OF 1(2)] assms(2), of 88 "px \<noteq> 0"] by blast
  have "grows st st2 (last_change E xop eqd who perm px)"
    using grows_trans [OF 1(2) 2(2)] unfolding last_change_def [abs_def] Let_def .
  moreover have "perm_end E xop eqd st who perm px = Some (st2, eqd \<or> xop = 61)"
    using 1(1) 2(1) by (cases ?P) (auto simp: perm_end_def)
  ultimately show ?thesis by blast
qed

lemma perm_loop_grows:
  assumes "\<forall>k. e_realloc E k" "xop \<in> {43, 45, 61}"
  shows "room_ok st \<Longrightarrow> \<exists>st' eqd' who' p' f. perm_loop E xop eqd st who perm px p = Some (st', eqd', who', p') \<and> grows st st' f
    \<and> (\<forall>om m. change_loop E xop eqd who perm px om m p = (f om m, eqd', who', p'))"
proof (induction p arbitrary: eqd st who perm px)
  case Nil
  then show ?case using perm_end_grows [OF Nil assms, of eqd who perm px] by auto
next
  case (Cons c p)
  consider "c \<in> {114, 115, 116, 119, 88, 120}" | "c \<in> {117, 103, 111}" | "c \<notin> {114, 115, 116, 119, 88, 120, 117, 103, 111}" by auto
  then show ?case
  proof cases
    case 1
    then show ?thesis using Cons.IH [OF Cons.prems] by auto
  next
    case 3
    then show ?thesis using perm_end_grows [OF Cons.prems assms, of eqd who perm px] by auto
  next
    case 2
    have x: "xop \<in> {43, 45, 61, 88}" using assms(2) by auto
    obtain st1 where 1: "(if perm \<noteq> 0 then ADDCMD E st xop who perm else Some st) = Some st1"
        "grows st st1 (\<lambda>om m. if perm \<noteq> 0 then change E xop who perm om m else m)"
      using ADDCMD_if [OF Cons.prems assms(1) x, of "perm \<noteq> 0"] by blast
    obtain st2 where 3: "(if xop = 43 \<and> px \<noteq> 0 then ADDCMD E st1 88 who px else Some st1) = Some st2"
        "grows st1 st2 (\<lambda>om m. if xop = 43 \<and> px \<noteq> 0 then change E 88 who px om m else m)"
      using ADDCMD_if [OF grows_room [OF 1(2)] assms(1), of 88 "xop = 43 \<and> px \<noteq> 0"] by blast
    obtain st3 where 4: "ADDCOPY E st2 c who xop = Some st3" "grows st2 st3 (\<lambda>om. copy_change E xop c who)"
      using ADDCOPY_grows [OF grows_room [OF 3(2)] assms 2] by blast
    let ?px = "if xop = 43 then 0 else px"
    have px: "(if xop = 43 \<and> px \<noteq> 0 then do { st \<leftarrow> ADDCMD E st1 88 who px; Some (st, 0) } else Some (st1, px)) = Some (st2, ?px)"
      using 3(1) by (auto split: if_splits)
    obtain st' eqd' who' p' f where 5: "perm_loop E xop (eqd \<or> xop = 61) st3 who 0 ?px p = Some (st', eqd', who', p')" "grows st3 st' f"
        "\<forall>om m. change_loop E xop (eqd \<or> xop = 61) who 0 ?px om m p = (f om m, eqd', who', p')"
      using Cons.IH [OF grows_room [OF 4(2)]] by blast
    have "perm_loop E xop eqd st who perm px (c # p) = Some (st', eqd', who', p')"
      using 2 1(1) px 4(1) 5(1) by (auto simp del: if_split)
    moreover note grows_trans [OF grows_trans [OF grows_trans [OF 1(2) 3(2)] 4(2)] 5(2)]
    moreover have "change_loop E xop eqd who perm px om m (c # p) = (f om (copy_change E xop c who
        (if xop = 43 \<and> px \<noteq> 0 then change E 88 who px om (if perm \<noteq> 0 then change E xop who perm om m else m)
         else if perm \<noteq> 0 then change E xop who perm om m else m)), eqd', who', p')" for om m
      using 2 5(3) by (auto simp: Let_def)
    ultimately show ?thesis by blast
  qed
qed

lemma op_loop_grows:
  assumes "\<forall>k. e_realloc E k"
  shows "room_ok st \<Longrightarrow>
    (\<exists>st' f. op_loop E eqd st who p = Some (Some st') \<and> grows st st' f \<and> (\<forall>om m. interp_ops E eqd who om m p = Some (f om m)))
    \<or> op_loop E eqd st who p = Some None \<and> (\<forall>om m. interp_ops E eqd who om m p = None)"
proof (induction "length p" arbitrary: p eqd st who rule: less_induct)
  case less
  show ?case
  proof (cases "p = [] \<or> hd p \<noteq> 43 \<and> hd p \<noteq> 45 \<and> hd p \<noteq> 61")
    case True
    then show ?thesis by (subst op_loop.simps, subst interp_ops.simps) simp
  next
    case False
    let ?eqd = "if hd p = 61 then False else eqd"
    have x: "hd p \<in> {43, 45, 61}" using False by auto
    obtain st1 eqd1 who1 p1 f1 where 1: "perm_loop E (hd p) ?eqd st (who AND NOT S_ISTXT) 0 0 (tl p) = Some (st1, eqd1, who1, p1)" "grows st st1 f1"
        "\<forall>om m. change_loop E (hd p) ?eqd (who AND NOT S_ISTXT) 0 0 om m (tl p) = (f1 om m, eqd1, who1, p1)"
      using perm_loop_grows [OF assms x less.prems] by blast
    have len: "length p1 < length p" using perm_loop_length [OF 1(1)] False by (cases p) auto
    define who2 where "who2 = (if hd p1 \<noteq> 44 then who1 else fst (who_loop 0 (tl p1)))"
    define p2 where "p2 = (if hd p1 \<noteq> 44 then p1 else snd (who_loop 0 (tl p1)))"
    have op: "op_loop E eqd st who p = (if p1 = [] then Some (Some st1) else op_loop E eqd1 st1 who2 p2)"
      using False 1(1) by (subst op_loop.simps) (auto simp: who2_def p2_def)
    have ip: "interp_ops E eqd who om m p = (if p1 = [] then Some (f1 om m) else interp_ops E eqd1 who2 om (f1 om m) p2)" for om m
      using False 1(3) by (subst interp_ops.simps) (auto simp: who2_def p2_def Let_def)
    show ?thesis
    proof (cases "p1 = []")
      case True
      then show ?thesis using op ip 1(2) by auto
    next
      case ne: False
      have "length p2 < length p" using len who_loop_length [of 0 "tl p1"] ne by (cases p1) (auto simp: p2_def)
      from less.hyps [OF this grows_room [OF 1(2)], of eqd1 who2] show ?thesis
      proof (elim disjE exE conjE)
        fix st' f assume "op_loop E eqd1 st1 who2 p2 = Some (Some st')" "grows st1 st' f"
          "\<forall>om m. interp_ops E eqd1 who2 om m p2 = Some (f om m)"
        then show ?thesis using op ip ne grows_trans [OF 1(2), of st' f] by auto
      qed (use op ip ne in auto)
    qed
  qed
qed

text \<open>The finished array: terminated, compressed, and run.\<close>

lemma finish_program:
  assumes "room_ok (a, n)" "\<forall>c \<in> set (prog (a, n)). known c"
  shows "\<exists>a' a''. update_at a n (\<lambda>c. c\<lparr>cmd := 0\<rparr>) = Some a' \<and> compress_mode a' = Some a''
    \<and> (\<forall>om. getmode a'' om = Some (fold (run_cmd om) (prog (a, n)) om))"
proof -
  let ?t = "(a ! n)\<lparr>cmd := 0\<rparr>"
  have n: "n < length a" using assms(1) by (simp add: room_ok_def)
  then have "drop 0 (a[n := ?t]) = prog (a, n) @ ?t # drop (Suc n) a" by (simp add: prog_def upd_conv_take_nth_drop)
  then obtain ds where ds: "compress_loop (a[n := ?t]) 0 0 = Some (over (a[n := ?t]) 0 (ds @ [?t]))" "\<forall>c \<in> set ds. known c"
      "\<forall>om m. fold (run_cmd om) ds m = fold (run_cmd om) (prog (a, n)) m"
    using compress_loop_spec [OF _ assms(2), of 0 "a[n := ?t]" ?t "drop (Suc n) a" 0] by auto
  have "\<not> known ?t" by (simp add: known_def)
  then have "getmode (over (a[n := ?t]) 0 (ds @ [?t])) om = Some (fold (run_cmd om) (prog (a, n)) om)" for om
    using getmode_run [OF ds(2)] ds(3) by (simp add: getmode_def over_def)
  then show ?thesis using n ds(1) by (simp add: update_at_def compress_mode_def)
qed

text \<open>Compiled, or refused where the interpreter refuses.\<close>

lemma setmode_compiles:
  assumes "p \<noteq> []" "\<not> isdigit (sint (hd p))" "e_malloc E" "\<forall>k. e_realloc E k"
  shows "(\<exists>a. setmode rl E p = Some (Some a) \<and> (\<forall>omode. getmode a omode = interp_mode E p omode \<and> interp_mode E p omode \<noteq> None))
    \<or> setmode rl E p = Some None \<and> (\<forall>omode. interp_mode E p omode = None)"
proof -
  let ?st = "(map (e_junk E) [0..<SET_LEN + 2], 0) :: cmds" and ?who = "fst (who_loop 0 p)" and ?p = "snd (who_loop 0 p)"
  have r: "room_ok ?st" by (simp add: room_ok_def SET_LEN_def)
  have s: "setmode rl E p = do { r \<leftarrow> op_loop E False ?st ?who ?p; (case r of None \<Rightarrow> Some None
      | Some (a, n) \<Rightarrow> do { a \<leftarrow> update_at a n (\<lambda>c. c\<lparr>cmd := 0\<rparr>); a \<leftarrow> compress_mode a; Some (Some a) }) }"
    using assms by (simp add: setmode_def)
  from op_loop_grows [OF assms(4) r, of False ?who ?p] show ?thesis
  proof (elim disjE exE conjE)
    fix st' f assume o: "op_loop E False ?st ?who ?p = Some (Some st')" "grows ?st st' f"
      "\<forall>om m. interp_ops E False ?who om m ?p = Some (f om m)"
    obtain a n where st': "st' = (a, n)" by (cases st')
    have g: "room_ok (a, n)" "\<forall>c \<in> set (prog (a, n)). known c" "\<forall>om m. fold (run_cmd om) (prog (a, n)) m = f om m"
      using o(2) unfolding st' by (auto simp: grows_def prog_def)
    then show ?thesis using finish_program [OF g(1,2)] s o(1,3) unfolding st' interp_mode_def by auto
  next
    assume "op_loop E False ?st ?who ?p = Some None" "\<forall>om m. interp_ops E False ?who om m ?p = None"
    then show ?thesis using s unfolding interp_mode_def by auto
  qed
qed

section \<open>A clause of the common form\<close>

text \<open>The bits the letters of a clause stand for.\<close>

definition who_bits :: "byte list \<Rightarrow> mode_t" where
  "who_bits ws = (if 97 \<in> set ws \<or> 117 \<in> set ws then S_ISUID OR S_IRWXU else 0)
     OR (if 97 \<in> set ws \<or> 103 \<in> set ws then S_ISGID OR S_IRWXG else 0) OR (if 97 \<in> set ws \<or> 111 \<in> set ws then S_IRWXO else 0)"

definition perm_bits :: "byte list \<Rightarrow> mode_t" where
  "perm_bits ps = (if 114 \<in> set ps then S_IRALL else 0) OR (if 119 \<in> set ps then S_IWALL else 0) OR (if 120 \<in> set ps then S_IXALL else 0)"

lemma who_bits_Cons:
  "who_bits (c # ws) = (if c = 97 then STANDARD_BITS else if c = 117 then S_ISUID OR S_IRWXU else if c = 103 then S_ISGID OR S_IRWXG
     else if c = 111 then S_IRWXO else 0) OR who_bits ws"
  by (rule bit_word_eqI) (auto simp: who_bits_def STANDARD_BITS_def bit_or_iff)

lemma perm_bits_Cons:
  "perm_bits (c # ps) = (if c = 114 then S_IRALL else if c = 119 then S_IWALL else if c = 120 then S_IXALL else 0) OR perm_bits ps"
  by (rule bit_word_eqI) (auto simp: perm_bits_def bit_or_iff)

lemma who_loop_letters:
  "set ws \<subseteq> {97, 117, 103, 111} \<Longrightarrow> c \<notin> {97, 117, 103, 111} \<Longrightarrow> who_loop w (ws @ c # p) = (w OR who_bits ws, c # p)"
proof (induction ws arbitrary: w)
  case (Cons d ws)
  then show ?case by (auto simp: who_bits_Cons or.assoc)
qed (simp add: who_bits_def)

lemma change_loop_letters:
  "set ps \<subseteq> {114, 119, 120} \<Longrightarrow>
   change_loop E xop eqd who perm px om m ps = (last_change E xop eqd who (perm OR perm_bits ps) px om m, eqd \<or> xop = 61, who, [])"
proof (induction ps arbitrary: perm)
  case (Cons d ps)
  then show ?case by (auto simp: perm_bits_Cons or.assoc)
qed (simp add: perm_bits_def)

lemma who_bits_sticky: "who_bits ws AND NOT S_ISTXT = who_bits ws"
  by (simp add: who_bits_def S_ISUID_def S_ISGID_def S_IRWXU_def S_IRWXG_def S_IRWXO_def S_ISTXT_def)

lemma change_none: "xop \<in> {43, 45} \<Longrightarrow> change E xop who 0 om m = m"
  by (auto simp: change_def)

lemma interp_clause:
  assumes "set ws \<subseteq> {97, 117, 103, 111}" "xop \<in> {43, 45, 61}" "set ps \<subseteq> {114, 119, 120}"
  shows "interp_mode E (ws @ xop # ps) om = Some (change E xop (who_bits ws) (perm_bits ps) om om)"
proof -
  have "xop \<notin> {97, 117, 103, 111}" using assms(2) by auto
  then have w: "who_loop 0 (ws @ xop # ps) = (who_bits ws, xop # ps)" using who_loop_letters [OF assms(1), of xop 0 ps] by simp
  have "interp_mode E (ws @ xop # ps) om = Some (last_change E xop False (who_bits ws) (perm_bits ps) 0 om om)"
    unfolding interp_mode_def w fst_conv snd_conv
    using assms(2) by (subst interp_ops.simps) (auto simp: change_loop_letters [OF assms(3)] who_bits_sticky)
  also have "last_change E xop False (who_bits ws) (perm_bits ps) 0 om om = change E xop (who_bits ws) (perm_bits ps) om om"
    using assms(2) change_none [of xop] by (auto simp: last_change_def)
  finally show ?thesis .
qed

section \<open>A number\<close>

lemma octal_number:
  assumes "0 \<notin> set p" "p \<noteq> []" "isdigit (sint (hd p))"
  shows "\<exists>e err. strtol DefaultRuneLocale (p @ [0]) 0 8 =
    Some (let v = digits_value 8 (takeWhile (is_dig 8) p) in if 0x7fffffff < v then 0x7fffffff else word_of_int v, e, err)"
proof -
  obtain c q where p: "p = c # q" using assms(2) by (cases p) auto
  have c: "48 \<le> c \<and> c \<le> 57" using assms(3) uint_bounded [of c] unfolding p isdigit_C by (auto simp: sint_byte word_le_def split: if_splits)
  then have "\<not> space_byte c" "c \<noteq> 45" "c \<noteq> 43" by (auto simp: space_byte_def word_le_def)
  then have "number_digits 8 p = (False, 8, takeWhile (is_dig 8) p, dropWhile (is_dig 8) p)"
    by (auto simp: number_digits_def p split_sign_def split_base_def split: list.splits)
  moreover have "cstr (p @ [0]) 0 p" using assms(1) by (simp add: cstr_def slice_def)
  ultimately show ?thesis
    using strto_spec [of "p @ [0]" 0 p 8 False 8 "takeWhile (is_dig 8) p" "dropWhile (is_dig 8) p"
        "\<lambda>neg. if neg then - LONG_MIN else LONG_MAX" "\<lambda>neg. if neg then LONG_MIN else LONG_MAX"]
    by (simp add: strtol_def LONG_MAX_def Let_def)
qed

lemma octal_byte: "48 \<le> sint c \<and> sint c \<le> 55 \<longleftrightarrow> 48 \<le> c \<and> c \<le> 55" for c :: byte
  using uint_bounded [of c] by (auto simp: sint_byte word_le_def word_less_def)

lemma mode_bits_12: "v AND NOT (STANDARD_BITS OR S_ISTXT) = 0 \<longleftrightarrow> uint v < 2 ^ 12" for v :: mode_t
proof -
  have m: "STANDARD_BITS OR S_ISTXT = mask 12"
    by (simp add: STANDARD_BITS_def S_ISUID_def S_ISGID_def S_IRWXU_def S_IRWXG_def S_IRWXO_def S_ISTXT_def mask_eq_exp_minus_1)
  have "v AND NOT (mask 12) = 0 \<longleftrightarrow> take_bit 12 v = v"
    by (auto simp: bit_eq_iff bit_simps)
  also have "\<dots> \<longleftrightarrow> take_bit 12 (uint v) = uint v"
    by (metis unsigned_take_bit_eq word_uint_eq_iff)
  finally show ?thesis by (simp add: m take_bit_int_eq_self_iff)
qed

text \<open>A concrete environment: the mask 022, storage that is cleared.\<close>

definition env0 :: mode_env where
  "env0 = \<lparr>e_umask = 0x12, e_malloc = True, e_realloc = (\<lambda>n. True), e_junk = (\<lambda>i. \<lparr>cmd = 0, cmd2 = 0, bits = 0\<rparr>)\<rparr>"

lemma env0_simps [simp]: "e_umask env0 = 0x12" "e_malloc env0" "e_realloc env0 k" "e_junk env0 i = \<lparr>cmd = 0, cmd2 = 0, bits = 0\<rparr>"
  by (simp_all add: env0_def)

lemmas mode_consts = STANDARD_BITS_def S_ISUID_def S_ISGID_def S_IRWXU_def S_IRWXG_def S_IRWXO_def S_ISTXT_def S_IFDIR_def
  S_IRALL_def S_IWALL_def S_IXALL_def

section \<open>Properties\<close>

text \<open>
  C11: compressing an array of commands in place never leaves the array and keeps what the commands do to every mode.
\<close>

theorem compress_mode_equiv:
  assumes "a = cs @ t # rest" "\<forall>c \<in> set cs. known c" "cmd t = 0"
  shows "\<exists>a'. compress_mode a = Some a' \<and> length a' = length a \<and> (\<forall>omode. getmode a' omode = getmode a omode \<and> getmode a omode \<noteq> None)"
proof -
  obtain ds where ds: "compress_loop a 0 0 = Some (over a 0 (ds @ [t]))" "length ds \<le> length cs" "\<forall>c \<in> set ds. known c"
      "\<forall>om m. fold (run_cmd om) ds m = fold (run_cmd om) cs m"
    using compress_loop_spec [OF _ assms(2,3), of 0 a rest 0] assms(1) by auto
  have t: "\<not> known t" using assms(3) by (simp add: known_def)
  have "getmode a om = Some (fold (run_cmd om) cs om)" for om using getmode_run [OF assms(2) t] assms(1) by (simp add: getmode_def)
  moreover have "getmode (over a 0 (ds @ [t])) om = Some (fold (run_cmd om) ds om)" for om
    using getmode_run [OF ds(3) t] by (simp add: getmode_def over_def)
  ultimately show ?thesis using ds(1,2,4) assms(1) by (simp add: compress_mode_def)
qed

theorem compress_mode_equiv_witness:
  "\<exists>a'. compress_mode [\<lparr>cmd = 45, cmd2 = 0, bits = 0x1FF\<rparr>, \<lparr>cmd = 43, cmd2 = 0, bits = 0x1A4\<rparr>, \<lparr>cmd = 88, cmd2 = 0, bits = 0x49\<rparr>,
      \<lparr>cmd = 43, cmd2 = 0, bits = 0x10\<rparr>, \<lparr>cmd = 0, cmd2 = 0, bits = 0\<rparr>] = Some a' \<and> getmode a' 0x40 = Some 0x1FD"
proof -
  let ?cs = "[\<lparr>cmd = 45, cmd2 = 0, bits = 0x1FF\<rparr>, \<lparr>cmd = 43, cmd2 = 0, bits = 0x1A4\<rparr>, \<lparr>cmd = 88, cmd2 = 0, bits = 0x49\<rparr>,
    \<lparr>cmd = 43, cmd2 = 0, bits = 0x10\<rparr>]" and ?t = "\<lparr>cmd = 0, cmd2 = 0, bits = 0\<rparr>"
  have "getmode (?cs @ [?t]) 0x40 = Some 0x1FD" by code_simp
  then show ?thesis using compress_mode_equiv [of "?cs @ [?t]" ?cs ?t "[]"] by (auto simp: known_def)
qed




text \<open>
  A mode of letters, an operator and read, write and execute permissions is compiled to commands that set, clear or assign
  exactly these permissions of the classes named, or of all within the file creation mask where none is named.
\<close>

theorem setmode_clause:
  assumes "set ws \<subseteq> {97, 117, 103, 111}" "xop \<in> {43, 45, 61}" "set ps \<subseteq> {114, 119, 120}" "e_malloc E" "\<forall>k. e_realloc E k"
    and "b = (if ws \<noteq> [] then who_bits ws else NOT (e_umask E)) AND perm_bits ps"
  shows "\<exists>a. setmode rl E (ws @ xop # ps) = Some (Some a) \<and>
    (\<forall>omode. getmode a omode = Some (if xop = 43 then omode OR b else if xop = 45 then omode AND NOT b
       else (omode AND NOT (if ws \<noteq> [] then who_bits ws else STANDARD_BITS)) OR b))"
proof -
  let ?p = "ws @ xop # ps"
  have w: "who_bits ws \<noteq> 0 \<longleftrightarrow> ws \<noteq> []"
  proof (cases ws)
    case (Cons c cs)
    then show ?thesis using assms(1)
      by (auto simp: who_bits_Cons STANDARD_BITS_def S_ISUID_def S_ISGID_def S_IRWXU_def S_IRWXG_def S_IRWXO_def or_eq_0_iff)
  qed (simp add: who_bits_def)
  have "hd ?p \<in> {97, 117, 103, 111, 43, 45, 61}" using assms(1,2) by (cases ws) auto
  then have "\<not> isdigit (sint (hd ?p))" by (auto simp: isdigit_C sint_byte)
  then show ?thesis
    using setmode_compiles [of ?p E rl] interp_clause [OF assms(1-3), of E] assms(2,4-6) w
    by (fastforce simp: change_def Let_def)
qed

theorem setmode_clause_witness:
  "\<exists>a. setmode DefaultRuneLocale env0 [117, 111, 61, 114, 120] = Some (Some a) \<and> getmode a 0x1FF = Some 0x17D"
proof -
  have "\<exists>a. setmode DefaultRuneLocale env0 ([117, 111] @ 61 # [114, 120]) = Some (Some a) \<and>
    (\<forall>omode. getmode a omode = Some (if 61 = (43::byte) then omode OR 0x145 else if 61 = (45::byte) then omode AND NOT 0x145
       else (omode AND NOT (if [117, 111] \<noteq> ([] :: byte list) then who_bits [117, 111] else STANDARD_BITS)) OR 0x145))"
    by (rule setmode_clause) (auto simp: who_bits_def perm_bits_def mode_consts)
  then show ?thesis by (auto simp: who_bits_def mode_consts)
qed

text \<open>
  C35: a mode that begins with a digit is refused when another character is no octal digit, when the number does not fit the
  type \<open>long\<close>, or when its lower 16 bits are more than the twelve bits of a mode; otherwise its commands assign those twelve
  bits, and then go on with what the rest of the storage held, which nothing has terminated. A first digit 8 or 9 counts as 0.
\<close>

theorem setmode_octal:
  assumes "0 \<notin> set p" "p \<noteq> []" "isdigit (sint (hd p))" "e_malloc E" "v = digits_value 8 (takeWhile (is_dig 8) p)"
  shows "if (\<forall>c \<in> set (tl p). 48 \<le> c \<and> c \<le> 55) \<and> v \<le> 0x7fffffff \<and> v mod 2 ^ 16 < 2 ^ 12
    then \<exists>a. setmode DefaultRuneLocale E p = Some (Some a)
      \<and> (\<forall>omode. getmode a omode = getmode_loop (map (e_junk E) [2..<SET_LEN + 2]) omode ((omode AND NOT (mask 12)) OR word_of_int v))
    else setmode DefaultRuneLocale E p = Some None"
proof -
  let ?a = "map (e_junk E) [0..<SET_LEN + 2]" and ?all = "STANDARD_BITS OR S_ISTXT" and ?w = "word_of_int v :: mode_t"
  define l :: u_long where "l = (if 0x7fffffff < v then 0x7fffffff else word_of_int v)"
  obtain e err where st: "strtol DefaultRuneLocale (p @ [0]) 0 8 = Some (l, e, err)"
    using octal_number [OF assms(1-3)] by (auto simp: assms(5) l_def Let_def)
  have all: "?all = mask 12"
    by (simp add: STANDARD_BITS_def S_ISUID_def S_ISGID_def S_IRWXU_def S_IRWXG_def S_IRWXO_def S_ISTXT_def mask_eq_exp_minus_1)
  have oct: "(\<exists>c \<in> set (tl p). sint c < 48 \<or> sint c > 55) \<longleftrightarrow> \<not> (\<forall>c \<in> set (tl p). 48 \<le> c \<and> c \<le> 55)"
    using octal_byte by (metis not_less)
  have small: "ucast l AND NOT ?all = 0 \<longleftrightarrow> v \<le> 0x7fffffff \<and> v mod 2 ^ 16 < 2 ^ 12"
    unfolding mode_bits_12 by (auto simp: l_def unsigned_ucast_eq uint_word_of_int take_bit_eq_mod mod_mod_cancel)
  have fits: "ucast l = ?w" if "v \<le> 0x7fffffff" using that by (simp add: l_def word_uint_eq_iff unsigned_ucast_eq uint_word_of_int take_bit_eq_mod mod_mod_cancel)
  obtain j0 j1 js where j: "?a = j0 # j1 # js" "js = map (e_junk E) [2..<SET_LEN + 2]"
    by (simp add: SET_LEN_def upt_rec numeral_eq_Suc)
  have add: "ADDCMD E (?a, 0) 61 ?all x = Some (j0\<lparr>cmd := 45, bits := ?all\<rparr> # j1\<lparr>cmd := 43, bits := ?all AND x\<rparr> # js, 2)" for x
    using j by (simp add: ADDCMD_def make_room_def addcmd_def update_at_def all SET_LEN_def)
  have run: "getmode (j0\<lparr>cmd := 45, bits := ?all\<rparr> # j1\<lparr>cmd := 43, bits := ?all AND ?w\<rparr> # js) om
      = getmode_loop js om ((om AND NOT (mask 12)) OR ?w)" if "?w AND NOT ?all = 0" for om
  proof -
    have "?all AND ?w = ?w" using that by (auto simp: bit_eq_iff bit_simps)
    then show ?thesis by (simp add: getmode_def all)
  qed
  show ?thesis
    using assms(2-4) st oct small fits add run j(2) by (auto simp: setmode_def simp del: upt_Suc)
qed

theorem setmode_octal_witness:
  "(\<exists>a. setmode DefaultRuneLocale env0 [50, 48, 48, 55, 53, 53] = Some (Some a) \<and> getmode a 0x8124 = Some 0x81ED)
   \<and> setmode DefaultRuneLocale env0 [49, 55, 55, 55, 55] = Some None"
proof -
  have v: "digits_value 8 (takeWhile (is_dig 8) [50, 48, 48, 55, 53, 53]) = 66029"
    "digits_value 8 (takeWhile (is_dig 8) [49, 55, 55, 55, 55]) = 8191" by code_simp+
  have m: "(0x8124 AND NOT (mask 12)) OR word_of_int 66029 = (0x81ED :: mode_t)" by (simp add: mask_eq_exp_minus_1)
  have j: "getmode_loop (map (e_junk env0) [2..<SET_LEN + 2]) om x = Some x" for om x by (simp add: SET_LEN_def upt_rec)
  have d: "isdigit (sint (50 :: byte))" "isdigit (sint (49 :: byte))" by (simp_all add: isdigit_C)
  from setmode_octal [of "[50, 48, 48, 55, 53, 53]" env0 66029]
  have "\<exists>a. setmode DefaultRuneLocale env0 [50, 48, 48, 55, 53, 53] = Some (Some a) \<and> getmode a 0x8124 = Some 0x81ED"
    unfolding j m [symmetric] using d v(1) by (auto simp del: word_of_int_numeral)
  moreover from setmode_octal [of "[49, 55, 55, 55, 55]" env0 8191] have "setmode DefaultRuneLocale env0 [49, 55, 55, 55, 55] = Some None"
    using d v(2) by simp
  ultimately show ?thesis by blast
qed

text \<open>
  Without letters for the classes the permission \<open>s\<close> is ignored, and \<open>t\<close> discards the other permissions: \<open>+s\<close>
  leaves every mode as it is and \<open>+rt\<close> sets the sticky bit only.
\<close>

lemma setmode_quirks:
  "(\<exists>a. setmode rl env0 [43, 115] = Some (Some a) \<and> (\<forall>omode. getmode a omode = Some omode))
   \<and> (\<exists>a. setmode rl env0 [43, 114, 116] = Some (Some a) \<and> (\<forall>omode. getmode a omode = Some (omode OR S_ISTXT)))"
proof -
  have i: "interp_mode env0 [43, 115] om = Some om" "interp_mode env0 [43, 114, 116] om = Some (om OR S_ISTXT)" for om
    by (simp_all add: interp_mode_def, (subst interp_ops.simps, simp add: last_change_def change_def mode_consts)+)
  show ?thesis
    using setmode_compiles [of "[43, 115]" env0 rl] setmode_compiles [of "[43, 114, 116]" env0 rl]
    by (auto simp: isdigit_C i)
qed

end
