(* ===== verification/Rng.thy ===== *)
theory Rng
  imports Prelude "HOL-Library.Signed_Division" "HOL-Library.Monad_Syntax"
begin

unbundle bit_operations_syntax

text \<open>
  Pseudo-random numbers, \<open>lib/libc/stdlib/random.c\<close> and \<open>rand.c\<close>. The arrays of state information are in a memory of
  longs; an address is the number of a long in it, and \<open>None\<close> is an access outside. State arrays are aligned.
\<close>

section \<open>Definitions\<close>

subsection \<open>The constants\<close>

definition TYPE_0 :: int where "TYPE_0 = 0"
definition TYPE_1 :: int where "TYPE_1 = 1"
definition TYPE_2 :: int where "TYPE_2 = 2"
definition TYPE_3 :: int where "TYPE_3 = 3"
definition TYPE_4 :: int where "TYPE_4 = 4"
definition BREAK_0 :: int where "BREAK_0 = 8"
definition BREAK_1 :: int where "BREAK_1 = 32"
definition BREAK_2 :: int where "BREAK_2 = 64"
definition BREAK_3 :: int where "BREAK_3 = 128"
definition BREAK_4 :: int where "BREAK_4 = 256"
definition MAX_TYPES :: int where "MAX_TYPES = 5"

definition degrees :: "int list" where "degrees = [0, 7, 15, 31, 63]"
definition seps :: "int list" where "seps = [0, 3, 1, 3, 1]"

definition randtbl :: "u_long list" where
  "randtbl = [3,
     0x9a319039, 0x32d9c024, 0x9b663182, 0x5da1f342, 0xde3b81e0, 0xdf0a6fb5,
     0xf103bc02, 0x48f340fb, 0x7449e56b, 0xbeb1dbb0, 0xab5c5918, 0x946554fd,
     0x8c2e680f, 0xeb3d799f, 0xb11ee0b7, 0x2d436b86, 0xda672e2a, 0x1588ca88,
     0xe369735d, 0x904f35f7, 0xd7158fd6, 0x6fa6f051, 0x616e6b96, 0xac94efdc,
     0x36413f93, 0xc622c298, 0xf5a42ab8, 0x8a88d77b, 0xf5ad9d0e, 0x8999220b,
     0x27fb47b9]"

subsection \<open>The state\<close>

record rng =
  longs :: "u_long list"
  fptr :: int
  rptr :: int
  rstate :: int
  rand_type :: int
  rand_deg :: int
  rand_sep :: int
  end_ptr :: int

text \<open>What the static variables hold at first, with \<open>randtbl\<close> at address \<open>p\<close> of the memory \<open>m\<close>.\<close>

definition rng_start :: "u_long list \<Rightarrow> int \<Rightarrow> rng" where
  "rng_start m p = \<lparr>longs = m, fptr = p + 4, rptr = p + 1, rstate = p + 1, rand_type = TYPE_3, rand_deg = 31, rand_sep = 3, end_ptr = p + 32\<rparr>"

definition lload :: "rng \<Rightarrow> int \<Rightarrow> u_long option" where
  "lload g p = (if 0 \<le> p \<and> p < int (length (longs g)) then Some (longs g ! nat p) else None)"

definition lstore :: "rng \<Rightarrow> int \<Rightarrow> u_long \<Rightarrow> rng option" where
  "lstore g p v = (if 0 \<le> p \<and> p < int (length (longs g)) then Some (g\<lparr>longs := (longs g)[nat p := v]\<rparr>) else None)"

subsection \<open>The operations\<close>

definition random :: "rng \<Rightarrow> (u_long \<times> rng) option" where
  "random g =
     (if rand_type g = TYPE_0 then do {
        v \<leftarrow> lload g (rstate g);
        let i = (v * 1103515245 + 12345) AND 0x7fffffff;
        g \<leftarrow> lstore g (rstate g) i;
        Some (i, g) }
      else do {
        x \<leftarrow> lload g (fptr g);
        y \<leftarrow> lload g (rptr g);
        g \<leftarrow> lstore g (fptr g) (x + y);
        let i = signed_drop_bit 1 (x + y) AND 0x7fffffff;
        Some (i,
          if fptr g + 1 \<ge> end_ptr g then g\<lparr>fptr := rstate g, rptr := rptr g + 1\<rparr>
          else if rptr g + 1 \<ge> end_ptr g then g\<lparr>fptr := fptr g + 1, rptr := rstate g\<rparr>
          else g\<lparr>fptr := fptr g + 1, rptr := rptr g + 1\<rparr>) })"

text \<open>The loops of \<open>srandom\<close>: \<open>n\<close> longs are filled from index \<open>i\<close> on, and \<open>n\<close> numbers are drawn.\<close>

fun lcg_fill :: "nat \<Rightarrow> int \<Rightarrow> rng \<Rightarrow> rng option" where
  "lcg_fill 0 i g = Some g"
| "lcg_fill (Suc n) i g = do {
     v \<leftarrow> lload g (rstate g + (i - 1));
     g \<leftarrow> lstore g (rstate g + i) (1103515245 * v + 12345);
     lcg_fill n (i + 1) g }"

fun discard :: "nat \<Rightarrow> rng \<Rightarrow> rng option" where
  "discard 0 g = Some g"
| "discard (Suc n) g = do { (i, g) \<leftarrow> random g; discard n g }"

definition srandom :: "u_int \<Rightarrow> rng \<Rightarrow> rng option" where
  "srandom x g =
     (if rand_type g = TYPE_0 then lstore g (rstate g) x
      else do {
        g \<leftarrow> lstore g (rstate g) x;
        g \<leftarrow> lcg_fill (nat (rand_deg g - 1)) 1 g;
        discard (nat (10 * rand_deg g)) (g\<lparr>fptr := rstate g + rand_sep g, rptr := rstate g\<rparr>) })"

text \<open>The first word of a state array: the type and the place of the rear pointer.\<close>

definition save_header :: "rng \<Rightarrow> rng option" where
  "save_header g =
     lstore g (rstate g - 1) (word_of_int (if rand_type g = TYPE_0 then rand_type g else MAX_TYPES * (rptr g - rstate g) + rand_type g))"

definition choose_type :: "int \<Rightarrow> int" where
  "choose_type n = (if n < BREAK_1 then TYPE_0 else if n < BREAK_2 then TYPE_1 else if n < BREAK_3 then TYPE_2
     else if n < BREAK_4 then TYPE_3 else TYPE_4)"

definition initstate :: "u_int \<Rightarrow> int \<Rightarrow> int \<Rightarrow> rng \<Rightarrow> (int option \<times> rng) option" where
  "initstate seed arg_state n g = (
     let ostate = rstate g - 1 in
     do {
       g \<leftarrow> save_header g;
       (if n < BREAK_0 then Some (None, g)
        else do {
          let t = choose_type n;
          let g = g\<lparr>rand_type := t, rand_deg := degrees ! nat t, rand_sep := seps ! nat t\<rparr>;
          let g = g\<lparr>rstate := arg_state + 1\<rparr>;
          let g = g\<lparr>end_ptr := rstate g + rand_deg g\<rparr>;
          g \<leftarrow> srandom seed g;
          g \<leftarrow> save_header g;
          Some (Some ostate, g) }) })"

definition setstate :: "int \<Rightarrow> rng \<Rightarrow> (int \<times> rng) option" where
  "setstate arg_state g = do {
     h \<leftarrow> lload g arg_state;
     let t = sint h smod MAX_TYPES;
     let rear = sint h sdiv MAX_TYPES;
     let ostate = rstate g - 1;
     g \<leftarrow> save_header g;
     let g = (if 0 \<le> t \<and> t \<le> 4 then g\<lparr>rand_type := t, rand_deg := degrees ! nat t, rand_sep := seps ! nat t\<rparr> else g);
     let g = g\<lparr>rstate := arg_state + 1\<rparr>;
     let g = (if rand_type g \<noteq> TYPE_0
       then g\<lparr>rptr := rstate g + rear, fptr := rstate g + (rear + rand_sep g) smod rand_deg g\<rparr> else g);
     Some (ostate, g\<lparr>end_ptr := rstate g + rand_deg g\<rparr>) }"

text \<open>The older generator: its state is one word.\<close>

definition RAND_MAX :: u_long where "RAND_MAX = 0x7fffffff"

definition rand :: "u_long \<Rightarrow> u_long \<times> u_long" where
  "rand nxt = (let nxt = nxt * 1103515245 + 12345 in (nxt mod (RAND_MAX + 1), nxt))"

definition srand :: "u_int \<Rightarrow> u_long" where
  "srand seed = seed"

section \<open>What a generator computes\<close>

text \<open>
  A generator is its type and the numbers it goes on from: for the linear congruential one the last number, for the others
  the last sums, as many as the degree, the oldest first.
\<close>

type_synonym gen = "int \<times> u_long list"

definition deg :: "int \<Rightarrow> nat" where "deg t = nat (degrees ! nat t)"
definition sep :: "int \<Rightarrow> nat" where "sep t = nat (seps ! nat t)"

definition gen_step :: "gen \<Rightarrow> u_long \<times> gen" where
  "gen_step = (\<lambda>(t, w).
     if t = 0 then (let v = (hd w * 1103515245 + 12345) AND 0x7fffffff in (v, t, [v]))
     else (let v = hd w + w ! (deg t - sep t) in (drop_bit 1 v, t, tl w @ [v])))"

text \<open>What a state array \<open>a\<close> stands for when its rear pointer is at \<open>r\<close>.\<close>

definition window :: "u_long list \<Rightarrow> int \<Rightarrow> int \<Rightarrow> nat \<Rightarrow> u_long list" where
  "window m a t r = (if t = 0 then [m ! nat a AND 0x7fffffff] else rotate ((r + sep t) mod deg t) (take (deg t) (drop (nat a) m)))"

definition view :: "rng \<Rightarrow> gen" where
  "view g = (rand_type g, window (longs g) (rstate g) (rand_type g) (nat (rptr g - rstate g)))"

definition arr_len :: "int \<Rightarrow> int" where
  "arr_len t = (if t = 0 then 1 else int (deg t))"

definition arr_ok :: "u_long list \<Rightarrow> int \<Rightarrow> int \<Rightarrow> bool" where
  "arr_ok m a t \<longleftrightarrow> 1 \<le> a \<and> 0 \<le> t \<and> t \<le> 4 \<and> a + arr_len t \<le> int (length m)"

definition rng_base :: "rng \<Rightarrow> bool" where
  "rng_base g \<longleftrightarrow> arr_ok (longs g) (rstate g) (rand_type g)
     \<and> rand_deg g = int (deg (rand_type g)) \<and> rand_sep g = int (sep (rand_type g)) \<and> end_ptr g = rstate g + rand_deg g"

text \<open>The invariant: the pointers are in the table, and the front pointer is \<open>rand_sep\<close> places before the rear one.\<close>

definition rng_ok :: "rng \<Rightarrow> bool" where
  "rng_ok g \<longleftrightarrow> rng_base g \<and>
     (rand_type g \<noteq> 0 \<longrightarrow> (\<exists>r < deg (rand_type g). rptr g = rstate g + int r
          \<and> fptr g = rstate g + int ((r + sep (rand_type g)) mod deg (rand_type g))))"

section \<open>The circular table\<close>

lemma types: "0 \<le> t \<Longrightarrow> t \<le> 4 \<Longrightarrow> t \<in> {0, 1, 2, 3, 4}" for t :: int
  by auto

lemma sep_deg: "0 \<le> t \<Longrightarrow> t \<le> 4 \<Longrightarrow> t \<noteq> 0 \<Longrightarrow> 0 < sep t \<and> sep t < deg t \<and> deg t \<le> 63"
  by (drule (1) types) (auto simp: deg_def sep_def degrees_def seps_def)

lemma tables [simp]:
  "0 \<le> t \<Longrightarrow> t \<le> 4 \<Longrightarrow> degrees ! nat t = int (deg t)" "0 \<le> t \<Longrightarrow> t \<le> 4 \<Longrightarrow> seps ! nat t = int (sep t)"
  by (drule (1) types, auto simp: deg_def sep_def degrees_def seps_def)+

lemma hd_rotate: "f < length T \<Longrightarrow> hd (rotate f T) = T ! f"
  using nth_rotate [of 0 T f] by (cases T) (auto simp: hd_conv_nth)

lemma mod_next: "(i + 1) mod d = (if i + 1 < d then i + 1 else 0)" if "i < d" for i d :: nat
  using that by (cases "i + 1 = d") auto

lemma rear_back: "(((r + s) mod d) + (d - s)) mod d = r" if "r < d" "s \<le> d" for r s d :: nat
proof -
  have "(((r + s) mod d) + (d - s)) mod d = (r + s + (d - s)) mod d" by (simp add: mod_add_left_eq)
  also have "r + s + (d - s) = r + d" using that(2) by simp
  finally show ?thesis using that(1) by simp
qed

lemma rotate_advance:
  assumes "f < length T"
  shows "rotate ((f + 1) mod length T) (T[f := v]) = tl (rotate f T) @ [v]"
proof (rule nth_equalityI)
  show "length (rotate ((f + 1) mod length T) (T[f := v])) = length (tl (rotate f T) @ [v])" using assms by simp
next
  fix k assume "k < length (rotate ((f + 1) mod length T) (T[f := v]))"
  then have k: "k < length T" by simp
  have l: "rotate ((f + 1) mod length T) (T[f := v]) ! k = T[f := v] ! ((f + 1 + k) mod length T)"
    using k by (simp add: nth_rotate mod_add_left_eq)
  show "rotate ((f + 1) mod length T) (T[f := v]) ! k = (tl (rotate f T) @ [v]) ! k"
  proof (cases "k = length T - 1")
    case True
    then have "f + 1 + k = f + length T" using assms by simp
    then have "(f + 1 + k) mod length T = f" using assms by (simp only: mod_add_self2 mod_less)
    then show ?thesis unfolding l using True assms by (simp add: nth_append)
  next
    case False
    then have k': "Suc k < length T" using k by simp
    have "(f + Suc k) mod length T \<noteq> f"
      using assms k' by (cases "f + Suc k < length T") (auto simp: le_mod_geq mod_if)
    then show ?thesis unfolding l using k' by (simp add: nth_append nth_tl nth_rotate less_diff_conv)
  qed
qed

lemma low31: "x AND 0x7fffffff = take_bit 31 x" for x :: u_long
  by (simp add: take_bit_eq_mask mask_eq_exp_minus_1)

lemma uint_low31: "uint (take_bit 31 x) = uint x mod 2 ^ 31" for x :: u_long
  by (simp add: unsigned_take_bit_eq take_bit_int_def)

lemma lcg_low31: "((x AND 0x7fffffff) * a + c) AND 0x7fffffff = (x * a + c) AND 0x7fffffff" for x :: u_long
  unfolding low31 word_uint_eq_iff uint_low31 by (simp add: uint_low31 [simplified] uint_word_ariths mod_mod_cancel mod_simps) (intro mod_add_cong mod_mult_cong; simp)

lemma drop_sign: "signed_drop_bit 1 x AND 0x7fffffff = drop_bit 1 x" for x :: u_long
  unfolding low31 by (rule bit_word_eqI) (auto simp: bit_simps dest: bit_imp_le_length)

lemma pointers_advance:
  fixes r s d f :: nat
  assumes "r < d" "0 < s" "s < d" "f = (r + s) mod d"
  shows "(f + 1) mod d = ((r + 1) mod d + s) mod d"
    "f + 1 \<ge> d \<Longrightarrow> (f + 1) mod d = 0 \<and> (r + 1) mod d = r + 1"
    "f + 1 < d \<Longrightarrow> (f + 1) mod d = f + 1 \<and> (r + 1) mod d = (if r + 1 \<ge> d then 0 else r + 1)"
proof -
  have "(f + 1) mod d = (r + s + 1) mod d" unfolding assms(4) by (rule mod_add_left_eq)
  moreover have "((r + 1) mod d + s) mod d = (r + 1 + s) mod d" by (rule mod_add_left_eq)
  ultimately show "(f + 1) mod d = ((r + 1) mod d + s) mod d" by (simp add: ac_simps)
  have "f \<noteq> r" using assms by (cases "r + s < d") (auto simp: mod_if)
  moreover have "f < d" using assms by simp
  ultimately show "f + 1 \<ge> d \<Longrightarrow> (f + 1) mod d = 0 \<and> (r + 1) mod d = r + 1"
    using assms(1) mod_next [of f d] mod_next [of r d] by auto
  show "f + 1 < d \<Longrightarrow> (f + 1) mod d = f + 1 \<and> (r + 1) mod d = (if r + 1 \<ge> d then 0 else r + 1)"
    using mod_next [OF assms(1)] by auto
qed

lemma nat_add_int: "nat (int i + int j) = i + j"
  by simp

text \<open>What an operation leaves alone: everything but the numbers of its array.\<close>

definition same_but :: "u_long list \<Rightarrow> u_long list \<Rightarrow> int \<Rightarrow> int \<Rightarrow> bool" where
  "same_but m m' a n \<longleftrightarrow> length m' = length m \<and> (\<forall>i. int i < a \<or> a + n \<le> int i \<longrightarrow> m' ! i = m ! i)"

lemma random_lcg:
  assumes "rng_ok g" "rand_type g = 0"
  shows "\<exists>v g'. random g = Some (v, g') \<and> rng_ok g' \<and> gen_step (view g) = (v, view g')
    \<and> rstate g' = rstate g \<and> rand_type g' = rand_type g \<and> same_but (longs g) (longs g') (rstate g) (arr_len (rand_type g))"
proof -
  have a: "1 \<le> rstate g" "nat (rstate g) < length (longs g)" "rstate g < int (length (longs g))"
    using assms by (auto simp: rng_ok_def rng_base_def arr_ok_def arr_len_def)
  then show ?thesis
    using assms
    by (auto simp: random_def TYPE_0_def lload_def lstore_def gen_step_def view_def window_def Let_def rng_ok_def rng_base_def arr_ok_def same_but_def
        arr_len_def lcg_low31 and.assoc)
qed

lemma random_sum:
  assumes "rng_ok g" "rand_type g \<noteq> 0"
  shows "\<exists>v g'. random g = Some (v, g') \<and> rng_ok g' \<and> gen_step (view g) = (v, view g')
    \<and> rstate g' = rstate g \<and> rand_type g' = rand_type g \<and> same_but (longs g) (longs g') (rstate g) (arr_len (rand_type g))"
proof -
  let ?t = "rand_type g" and ?m = "longs g"
  define a d s where "a = nat (rstate g)" and "d = deg ?t" and "s = sep ?t"
  have t: "0 \<le> ?t" "?t \<le> 4" and a: "rstate g = int a" "1 \<le> a" "a + d \<le> length ?m"
    using assms by (auto simp: rng_ok_def rng_base_def arr_ok_def arr_len_def a_def d_def)
  obtain r where r: "r < d" "rptr g = int (a + r)" "fptr g = int (a + (r + s) mod d)" "end_ptr g = int (a + d)"
    using assms a by (auto simp: rng_ok_def rng_base_def d_def s_def)
  have sd: "0 < s" "s < d" using sep_deg [OF t assms(2)] by (auto simp: s_def d_def)
  define f where "f = (r + s) mod d"
  have f: "f < d" using sd by (simp add: f_def)
  define T where "T = take d (drop a ?m)"
  have T: "length T = d" "\<And>i. i < d \<Longrightarrow> T ! i = ?m ! (a + i)" using a by (auto simp: T_def)
  define v where "v = T ! f + T ! r"
  define m' where "m' = ?m[a + f := v]"
  have T': "take d (drop a m') = T[f := v]" using f a by (simp add: m'_def T_def drop_update_swap take_update_swap)
  define r' where "r' = (r + 1) mod d"
  define g' where "g' = g\<lparr>longs := m', fptr := int (a + (f + 1) mod d), rptr := int (a + r')\<rparr>"
  have pa: "(f + 1) mod d = (r' + s) mod d" "r' < d" using pointers_advance(1) [OF r(1) sd f_def] sd by (auto simp: r'_def)
  have run: "random g = Some (drop_bit 1 v, g')"
  proof -
    have "random g = Some (drop_bit 1 v, if f + 1 \<ge> d then g\<lparr>longs := m', fptr := rstate g, rptr := rptr g + 1\<rparr>
        else if r + 1 \<ge> d then g\<lparr>longs := m', fptr := fptr g + 1, rptr := rstate g\<rparr>
        else g\<lparr>longs := m', fptr := fptr g + 1, rptr := rptr g + 1\<rparr>)"
      using assms(2) r f a T(2) [OF f] T(2) [OF r(1)] unfolding f_def [symmetric]
      by (auto simp: random_def TYPE_0_def lload_def lstore_def v_def m'_def drop_sign [simplified] nat_add_int)
    then show ?thesis
      using pointers_advance(2,3) [OF r(1) sd f_def] r a unfolding g'_def r'_def f_def [symmetric]
      by (cases "f + 1 \<ge> d"; cases "r + 1 \<ge> d") auto
  qed
  have "view g = (?t, rotate f T)" using assms(2) r a by (simp add: view_def window_def T_def f_def s_def d_def)
  moreover have "view g' = (?t, rotate ((f + 1) mod d) (T[f := v]))"
    using assms(2) a T' pa by (simp add: view_def window_def g'_def s_def d_def)
  moreover have "rotate f T ! (d - s) = T ! r"
    using nth_rotate [of "d - s" T f] sd T(1) rear_back [OF r(1), of s] by (simp add: f_def)
  ultimately have "gen_step (view g) = (drop_bit 1 v, view g')"
    using assms(2) hd_rotate [of f T] rotate_advance [of f T v] f T(1) by (simp add: gen_step_def v_def s_def d_def Let_def)
  moreover have "rng_ok g'" using assms pa a sd
    by (auto simp: rng_ok_def rng_base_def g'_def arr_ok_def m'_def s_def d_def)
  moreover have "same_but ?m m' (rstate g) (arr_len ?t)" using f a assms(2) by (auto simp: same_but_def m'_def arr_len_def d_def nth_list_update)
  ultimately show ?thesis using run by (auto simp: g'_def)
qed

lemma random_refines:
  assumes "rng_ok g"
  shows "\<exists>v g'. random g = Some (v, g') \<and> rng_ok g' \<and> gen_step (view g) = (v, view g')
    \<and> rstate g' = rstate g \<and> rand_type g' = rand_type g \<and> same_but (longs g) (longs g') (rstate g) (arr_len (rand_type g))"
  using random_lcg [OF assms] random_sum [OF assms] by blast

section \<open>Drawing again and again\<close>

primrec draw_n :: "('s \<Rightarrow> (u_long \<times> 's) option) \<Rightarrow> nat \<Rightarrow> 's \<Rightarrow> (u_long list \<times> 's) option" where
  "draw_n draw 0 s = Some ([], s)"
| "draw_n draw (Suc n) s = do { (v, s) \<leftarrow> draw s; (vs, s) \<leftarrow> draw_n draw n s; Some (v # vs, s) }"

primrec numbers :: "('v \<Rightarrow> u_long \<times> 'v) \<Rightarrow> nat \<Rightarrow> 'v \<Rightarrow> u_long list" where
  "numbers step 0 w = []"
| "numbers step (Suc n) w = fst (step w) # numbers step n (snd (step w))"

text \<open>A source of numbers: what a call returns and leaves is determined by a view of the state.\<close>

locale rand_source =
  fixes draw :: "'s \<Rightarrow> (u_long \<times> 's) option"
    and ok :: "'s \<Rightarrow> bool"
    and look :: "'s \<Rightarrow> 'v"
    and step :: "'v \<Rightarrow> u_long \<times> 'v"
  assumes draws: "ok s \<Longrightarrow> \<exists>v s'. draw s = Some (v, s') \<and> ok s' \<and> step (look s) = (v, look s')"
begin

lemma draw_n_spec:
  "ok s \<Longrightarrow> \<exists>s'. draw_n draw n s = Some (numbers step n (look s), s') \<and> ok s' \<and> look s' = ((snd \<circ> step) ^^ n) (look s)"
proof (induction n arbitrary: s)
  case (Suc n)
  obtain v s1 where 1: "draw s = Some (v, s1)" "ok s1" "step (look s) = (v, look s1)" using draws [OF Suc.prems] by blast
  then show ?case using Suc.IH [OF 1(2)] by (auto simp: funpow_Suc_right simp del: funpow.simps)
qed simp

end

interpretation rs: rand_source random rng_ok view gen_step
  by unfold_locales (use random_refines in blast)

interpretation lc: rand_source "\<lambda>s. Some (rand s)" "\<lambda>s. True" "\<lambda>s. (0 :: int, [s AND 0x7fffffff])" gen_step
proof
  fix s :: u_long
  have "x mod (RAND_MAX + 1) = x AND 0x7fffffff" for x
    by (simp add: RAND_MAX_def low31 take_bit_eq_mod)
  then show "\<exists>v s'. Some (rand s) = Some (v, s') \<and> True \<and> gen_step (0, [s AND 0x7fffffff]) = (v, 0, [s' AND 0x7fffffff])"
    by (auto simp: rand_def Let_def gen_step_def lcg_low31)
qed

section \<open>Seeding\<close>

primrec lcg_list :: "nat \<Rightarrow> u_long \<Rightarrow> u_long list" where
  "lcg_list 0 x = []"
| "lcg_list (Suc n) x = x # lcg_list n (1103515245 * x + 12345)"

lemma length_lcg_list [simp]: "length (lcg_list n x) = n"
  by (induction n arbitrary: x) auto

definition gen_seed :: "int \<Rightarrow> u_long \<Rightarrow> gen" where
  "gen_seed t x = (if t = 0 then (0, [x AND 0x7fffffff])
     else ((snd \<circ> gen_step) ^^ (10 * deg t)) (t, rotate (sep t) (lcg_list (deg t) x)))"

lemma lcg_fill_spec:
  "rstate g + i = int a \<Longrightarrow> 1 \<le> a \<Longrightarrow> a + n \<le> length (longs g) \<Longrightarrow>
   lcg_fill n i g = Some (g\<lparr>longs := take a (longs g) @ lcg_list n (1103515245 * longs g ! (a - 1) + 12345) @ drop (a + n) (longs g)\<rparr>)"
proof (induction n arbitrary: i g a)
  case (Suc n)
  let ?v = "1103515245 * longs g ! (a - 1) + 12345" and ?m = "longs g"
  have p: "rstate g + (i - 1) = int (a - 1)" using Suc.prems by simp
  have "lload g (rstate g + (i - 1)) = Some (?m ! (a - 1))" using Suc.prems(3) unfolding p by (simp add: lload_def)
  moreover have "lstore g (rstate g + i) ?v = Some (g\<lparr>longs := ?m[a := ?v]\<rparr>)"
    using Suc.prems by (simp add: lstore_def)
  moreover have "lcg_fill n (i + 1) (g\<lparr>longs := ?m[a := ?v]\<rparr>)
      = Some (g\<lparr>longs := take (a + 1) (?m[a := ?v]) @ lcg_list n (1103515245 * ?v + 12345) @ drop (a + 1 + n) ?m\<rparr>)"
    using Suc.prems Suc.IH [of "g\<lparr>longs := ?m[a := ?v]\<rparr>" "i + 1" "a + 1"] by simp
  moreover have "take (a + 1) (?m[a := ?v]) = take a ?m @ [?v]" using Suc.prems by (simp add: take_Suc_conv_app_nth)
  ultimately show ?case by simp
qed simp

lemma same_but_refl: "same_but m m a n"
  by (simp add: same_but_def)

lemma same_but_trans: "same_but m m' a n \<Longrightarrow> same_but m' m'' a n \<Longrightarrow> same_but m m'' a n"
  by (simp add: same_but_def)

lemma discard_spec:
  "rng_ok g \<Longrightarrow> \<exists>g'. discard n g = Some g' \<and> rng_ok g' \<and> view g' = ((snd \<circ> gen_step) ^^ n) (view g)
    \<and> rstate g' = rstate g \<and> rand_type g' = rand_type g \<and> same_but (longs g) (longs g') (rstate g) (arr_len (rand_type g))"
proof (induction n arbitrary: g)
  case (Suc n)
  obtain v g1 where 1: "random g = Some (v, g1)" "rng_ok g1" "gen_step (view g) = (v, view g1)" "rstate g1 = rstate g"
      "rand_type g1 = rand_type g" "same_but (longs g) (longs g1) (rstate g) (arr_len (rand_type g))"
    using random_refines [OF Suc.prems] by blast
  then show ?case using Suc.IH [OF 1(2)] same_but_trans [OF 1(6)] by (auto simp: funpow_Suc_right simp del: funpow.simps)
qed (simp add: same_but_refl)

lemma srandom_spec:
  assumes "rng_base g"
  shows "\<exists>g'. srandom x g = Some g' \<and> rng_ok g' \<and> view g' = gen_seed (rand_type g) x
    \<and> rstate g' = rstate g \<and> rand_type g' = rand_type g \<and> same_but (longs g) (longs g') (rstate g) (arr_len (rand_type g))"
proof (cases "rand_type g = 0")
  case True
  then show ?thesis using assms
    by (auto simp: srandom_def TYPE_0_def lstore_def rng_ok_def rng_base_def arr_ok_def arr_len_def view_def window_def gen_seed_def same_but_def)
next
  case False
  let ?t = "rand_type g" and ?m = "longs g"
  define a d s where "a = nat (rstate g)" and "d = deg ?t" and "s = sep ?t"
  have t: "0 \<le> ?t" "?t \<le> 4" and a: "rstate g = int a" "1 \<le> a" "a + d \<le> length ?m" and c: "rand_deg g = int d" "rand_sep g = int s"
    using assms False by (auto simp: rng_base_def arr_ok_def arr_len_def a_def d_def s_def)
  have sd: "0 < s" "s < d" using sep_deg [OF t False] by (auto simp: s_def d_def)
  obtain e where e: "d = Suc e" using sd by (cases d) auto
  define m' where "m' = take a ?m @ lcg_list d x @ drop (a + d) ?m"
  define g1 where "g1 = g\<lparr>longs := m', fptr := int (a + s), rptr := int a\<rparr>"
  have "lstore g (rstate g) x = Some (g\<lparr>longs := ?m[a := x]\<rparr>)" using a sd by (simp add: lstore_def)
  moreover have "lcg_fill e 1 (g\<lparr>longs := ?m[a := x]\<rparr>) = Some (g\<lparr>longs := m'\<rparr>)"
    using lcg_fill_spec [of "g\<lparr>longs := ?m[a := x]\<rparr>" 1 "a + 1" e] a e by (simp add: m'_def take_Suc_conv_app_nth)
  ultimately have run: "srandom x g = discard (10 * d) g1"
    using False c a e by (simp add: srandom_def TYPE_0_def g1_def nat_mult_distrib nat_add_distrib)
  have g1: "rng_ok g1" using assms False a sd c
    unfolding rng_ok_def by (auto simp: g1_def rng_base_def arr_ok_def m'_def s_def d_def intro!: exI [of _ 0])
  have "view g1 = (?t, rotate s (lcg_list d x))" using False a sd
    by (simp add: view_def g1_def window_def m'_def s_def d_def)
  then show ?thesis
    using discard_spec [OF g1, of "10 * d"] run False same_but_trans [of ?m m' "rstate g" "arr_len ?t"] a
    by (auto simp: gen_seed_def g1_def d_def s_def m'_def same_but_def arr_len_def nth_append)
qed

end
