(* ===== verification/RngSwitch.thy ===== *)
theory RngSwitch
  imports Rng
begin

unbundle bit_operations_syntax

text \<open>
  Switching between state arrays, \<open>initstate\<close> and \<open>setstate\<close> of \<open>lib/libc/stdlib/random.c\<close>, and the properties of the
  generators.
\<close>

section \<open>State arrays\<close>

text \<open>A state array at \<open>a\<close>, not in use, whose first word says from where its generator goes on.\<close>

definition saved :: "u_long list \<Rightarrow> int \<Rightarrow> gen \<Rightarrow> bool" where
  "saved m a gn \<longleftrightarrow> arr_ok m (a + 1) (fst gn) \<and> (\<exists>r. (fst gn = 0 \<and> r = 0 \<or> fst gn \<noteq> 0 \<and> r < deg (fst gn))
     \<and> m ! nat a = word_of_int (5 * int r + fst gn) \<and> snd gn = window m (a + 1) (fst gn) r)"

definition areas_apart :: "int \<Rightarrow> int \<Rightarrow> int \<Rightarrow> int \<Rightarrow> bool" where
  "areas_apart a n b k \<longleftrightarrow> a + n \<le> b \<or> b + k \<le> a"

lemma window_frame:
  assumes "same_but m m' b n" "areas_apart a (arr_len t) b n" "arr_ok m a t"
  shows "window m' a t r = window m a t r"
proof -
  define k where "k = nat a"
  have eq: "m' ! (k + i) = m ! (k + i)" if "int i < arr_len t" for i
    using assms that by (auto simp: same_but_def areas_apart_def arr_ok_def k_def)
  have len: "length m' = length m" "k + nat (arr_len t) \<le> length m" using assms by (auto simp: same_but_def arr_ok_def k_def arr_len_def)
  show ?thesis
  proof (cases "t = 0")
    case True
    then show ?thesis using eq [of 0] by (simp add: window_def arr_len_def k_def)
  next
    case False
    then have "take (deg t) (drop k m') = take (deg t) (drop k m)"
      using eq len by (intro nth_equalityI) (auto simp: arr_len_def)
    then show ?thesis using False by (simp add: window_def k_def)
  qed
qed

lemma saved_frame:
  assumes "saved m a gn" "same_but m m' b n" "areas_apart a (1 + arr_len (fst gn)) b n"
  shows "saved m' a gn"
proof -
  have ok: "arr_ok m (a + 1) (fst gn)" using assms(1) by (simp add: saved_def)
  have "areas_apart (a + 1) (arr_len (fst gn)) b n" using assms(3) by (auto simp: areas_apart_def)
  note w = window_frame [OF assms(2) this ok]
  have "m' ! nat a = m ! nat a" using ok assms(2,3) by (auto simp: same_but_def areas_apart_def arr_ok_def arr_len_def split: if_splits)
  then show ?thesis using assms(1,2) w by (auto simp: saved_def arr_ok_def same_but_def)
qed

lemma view_frame:
  assumes "rng_ok g" "same_but (longs g) m' b n" "areas_apart (rstate g) (arr_len (rand_type g)) b n"
  shows "rng_ok (g\<lparr>longs := m'\<rparr>)" "view (g\<lparr>longs := m'\<rparr>) = view g"
  using assms window_frame [OF assms(2,3)] by (auto simp: rng_ok_def rng_base_def arr_ok_def same_but_def view_def)

lemma save_header_spec:
  assumes "rng_ok g"
  shows "\<exists>m'. save_header g = Some (g\<lparr>longs := m'\<rparr>) \<and> same_but (longs g) m' (rstate g - 1) 1
    \<and> rng_ok (g\<lparr>longs := m'\<rparr>) \<and> view (g\<lparr>longs := m'\<rparr>) = view g \<and> saved m' (rstate g - 1) (view g)"
proof -
  let ?t = "rand_type g"
  have t: "0 \<le> ?t" "?t \<le> 4" and b: "1 \<le> rstate g" "rstate g + arr_len ?t \<le> int (length (longs g))"
    using assms by (auto simp: rng_ok_def rng_base_def arr_ok_def)
  obtain r where r: "?t = 0 \<and> r = 0 \<or> ?t \<noteq> 0 \<and> r < deg ?t \<and> rptr g = rstate g + int r" using assms by (auto simp: rng_ok_def)
  let ?h = "word_of_int (5 * int r + ?t) :: u_long"
  define m' where "m' = (longs g)[nat (rstate g - 1) := ?h]"
  have "0 \<le> arr_len ?t" by (simp add: arr_len_def)
  then have run: "save_header g = Some (g\<lparr>longs := m'\<rparr>)" using r b
    by (auto simp: save_header_def lstore_def m'_def MAX_TYPES_def TYPE_0_def)
  have sb: "same_but (longs g) m' (rstate g - 1) 1" using b by (auto simp: same_but_def m'_def nth_list_update)
  have ap: "areas_apart (rstate g) (arr_len ?t) (rstate g - 1) 1" by (simp add: areas_apart_def)
  note vf = view_frame [OF assms sb ap]
  have w: "snd (view g) = window m' (rstate g) ?t r"
    using r vf(2) by (auto simp: view_def window_def)
  have "saved m' (rstate g - 1) (view g)"
    unfolding saved_def w using r b vf(1) \<open>0 \<le> arr_len ?t\<close>
    by (intro conjI exI [of _ r]) (auto simp: view_def m'_def rng_ok_def rng_base_def)
  then show ?thesis using run sb vf by blast
qed

lemma sint_small: "0 \<le> k \<Longrightarrow> k < 1000 \<Longrightarrow> sint (word_of_int k :: u_long) = k"
  by (simp add: sint_sbintrunc' signed_take_bit_int_eq_self)

lemma header_value:
  assumes "0 \<le> t" "t \<le> 4" "r < 64"
  shows "sint (word_of_int (5 * int r + t) :: u_long) smod 5 = t" "sint (word_of_int (5 * int r + t) :: u_long) sdiv 5 = int r"
proof -
  have "sint (word_of_int (5 * int r + t) :: u_long) = 5 * int r + t"
    using assms by (intro sint_small) auto
  moreover have "(5 * int r + t) div 5 = int r" "(5 * int r + t) mod 5 = t" using assms by simp_all
  ultimately show "sint (word_of_int (5 * int r + t) :: u_long) smod 5 = t" "sint (word_of_int (5 * int r + t) :: u_long) sdiv 5 = int r"
    using assms by (auto simp: signed_modulo_int_def signed_divide_int_def sgn_if)
qed

section \<open>Switching\<close>

text \<open>The state after a switch to the array at \<open>a\<close>, whose first word says type \<open>t\<close> and rear pointer \<open>r\<close>.\<close>

definition restored :: "u_long list \<Rightarrow> int \<Rightarrow> int \<Rightarrow> nat \<Rightarrow> rng \<Rightarrow> rng" where
  "restored m a t r g = g\<lparr>longs := m, rand_type := t, rand_deg := int (deg t), rand_sep := int (sep t), rstate := a + 1,
     rptr := if t \<noteq> 0 then a + 1 + int r else rptr g, fptr := if t \<noteq> 0 then a + 1 + int ((r + sep t) mod deg t) else fptr g,
     end_ptr := a + 1 + int (deg t)\<rparr>"

definition place_ok :: "int \<Rightarrow> nat \<Rightarrow> bool" where
  "place_ok t r \<longleftrightarrow> 0 \<le> t \<and> t \<le> 4 \<and> (t = 0 \<and> r = 0 \<or> t \<noteq> 0 \<and> r < deg t)"

lemma place_header:
  assumes "place_ok t r"
  shows "sint (word_of_int (5 * int r + t) :: u_long) smod 5 = t" "sint (word_of_int (5 * int r + t) :: u_long) sdiv 5 = int r"
  using header_value [of t r] sep_deg [of t] assms by (auto simp: place_ok_def)

lemma setstate_run:
  assumes "save_header g = Some (g\<lparr>longs := m\<rparr>)" "0 \<le> a" "a < int (length (longs g))" "place_ok t r"
    "longs g ! nat a = word_of_int (5 * int r + t)"
  shows "setstate a g = Some (rstate g - 1, restored m a t r g)"
proof -
  have sm: "(int r + int (sep t)) smod int (deg t) = int ((r + sep t) mod deg t)"
    by (auto simp: signed_modulo_int_def of_nat_mod sgn_if)
  show ?thesis
    using assms sm place_header [OF assms(4)]
    by (auto simp: setstate_def lload_def MAX_TYPES_def TYPE_0_def restored_def Let_def place_ok_def)
qed

lemma restored_ok:
  assumes "arr_ok m (a + 1) t" "place_ok t r"
  shows "rng_ok (restored m a t r g)" "view (restored m a t r g) = (t, window m (a + 1) t r)"
  using assms by (auto simp: rng_ok_def rng_base_def restored_def view_def window_def place_ok_def)

lemma setstate_spec:
  assumes "rng_ok g" "saved (longs g) a gn" "areas_apart a (1 + arr_len (fst gn)) (rstate g - 1) 1"
  shows "\<exists>g'. setstate a g = Some (rstate g - 1, g') \<and> rng_ok g' \<and> view g' = gn \<and> saved (longs g') (rstate g - 1) (view g)
    \<and> rstate g' = a + 1 \<and> same_but (longs g) (longs g') (rstate g - 1) 1"
proof -
  let ?t = "fst gn"
  obtain m' where m': "save_header g = Some (g\<lparr>longs := m'\<rparr>)" "same_but (longs g) m' (rstate g - 1) 1" "saved m' (rstate g - 1) (view g)"
    using save_header_spec [OF assms(1)] by blast
  have s': "saved m' a gn" by (rule saved_frame [OF assms(2) m'(2) assms(3)])
  then obtain r where ok: "arr_ok m' (a + 1) ?t" and r: "place_ok ?t r" "m' ! nat a = word_of_int (5 * int r + ?t)"
      "snd gn = window m' (a + 1) ?t r"
    by (auto simp: saved_def place_ok_def arr_ok_def)
  have a: "0 \<le> a" "a < int (length (longs g))" using assms(2) by (auto simp: saved_def arr_ok_def arr_len_def split: if_splits)
  then have "m' ! nat a = longs g ! nat a" using m'(2) assms(3) by (auto simp: same_but_def areas_apart_def arr_len_def split: if_splits)
  then show ?thesis
    using setstate_run [OF m'(1) a r(1)] restored_ok [OF ok r(1), of g] r(2,3) m'(2,3) by (cases gn) (auto simp: restored_def)
qed

lemma choose_type_range: "0 \<le> choose_type n" "choose_type n \<le> 4"
  by (auto simp: choose_type_def TYPE_0_def TYPE_1_def TYPE_2_def TYPE_3_def TYPE_4_def)

lemma same_but_mono: "same_but m m' a n \<Longrightarrow> b \<le> a \<Longrightarrow> a + n \<le> b + k \<Longrightarrow> same_but m m' b k"
  by (simp add: same_but_def)

lemma initstate_spec:
  assumes "rng_ok g" "8 \<le> n" "t = choose_type n" "arr_ok (longs g) (a + 1) t"
    "areas_apart (rstate g - 1) (1 + arr_len (rand_type g)) a (1 + arr_len t)"
  shows "\<exists>g'. initstate x a n g = Some (Some (rstate g - 1), g') \<and> rng_ok g' \<and> view g' = gen_seed t x
    \<and> saved (longs g') a (view g') \<and> saved (longs g') (rstate g - 1) (view g) \<and> rstate g' = a + 1 \<and> rand_type g' = t"
proof -
  obtain m1 where 1: "save_header g = Some (g\<lparr>longs := m1\<rparr>)" "same_but (longs g) m1 (rstate g - 1) 1" "saved m1 (rstate g - 1) (view g)"
    using save_header_spec [OF assms(1)] by blast
  have t: "0 \<le> t" "t \<le> 4" using choose_type_range assms(3) by auto
  define g2 where "g2 = g\<lparr>longs := m1, rand_type := t, rand_deg := int (deg t), rand_sep := int (sep t), rstate := a + 1,
    end_ptr := a + 1 + int (deg t)\<rparr>"
  have "rng_base g2" using assms(4) 1(2) by (auto simp: rng_base_def g2_def arr_ok_def same_but_def)
  then obtain g3 where 3: "srandom x g2 = Some g3" "rng_ok g3" "view g3 = gen_seed t x" "rstate g3 = a + 1" "rand_type g3 = t"
      "same_but m1 (longs g3) (a + 1) (arr_len t)"
    using srandom_spec [of g2 x] by (auto simp: g2_def)
  obtain m4 where 4: "save_header g3 = Some (g3\<lparr>longs := m4\<rparr>)" "same_but (longs g3) m4 a 1" "rng_ok (g3\<lparr>longs := m4\<rparr>)"
      "view (g3\<lparr>longs := m4\<rparr>) = view g3" "saved m4 a (view g3)"
    using save_header_spec [OF 3(2)] 3(4) by auto
  have i: "initstate x a n g = Some (Some (rstate g - 1), g3\<lparr>longs := m4\<rparr>)"
    using 1(1) 3(1) 4(1) assms(2,3) t by (simp add: initstate_def BREAK_0_def g2_def Let_def)
  have "same_but m1 (longs g3) a (1 + arr_len t)" by (rule same_but_mono [OF 3(6)]) simp_all
  moreover have "same_but (longs g3) m4 a (1 + arr_len t)" by (rule same_but_mono [OF 4(2)]) (simp_all add: arr_len_def)
  ultimately have sb: "same_but m1 m4 a (1 + arr_len t)" by (rule same_but_trans)
  have "saved m4 (rstate g - 1) (view g)" using saved_frame [OF 1(3) sb] assms(5) by (simp add: view_def)
  then show ?thesis using i 3 4 by auto
qed

lemma draw_n_frame:
  "rng_ok g \<Longrightarrow> draw_n random n g = Some (vs, g') \<Longrightarrow>
   rstate g' = rstate g \<and> rand_type g' = rand_type g \<and> same_but (longs g) (longs g') (rstate g) (arr_len (rand_type g))"
proof (induction n arbitrary: g vs)
  case (Suc n)
  obtain v g1 where 1: "random g = Some (v, g1)" "rng_ok g1" "rstate g1 = rstate g"
      "rand_type g1 = rand_type g" "same_but (longs g) (longs g1) (rstate g) (arr_len (rand_type g))"
    using random_refines [OF Suc.prems(1)] by blast
  then show ?case using Suc.IH [OF 1(2)] Suc.prems(2) same_but_trans [OF 1(5)] by (auto simp: bind_eq_Some_conv)
qed (simp add: same_but_refl)

section \<open>The sequence\<close>

text \<open>The recurrence of a trinomial, from a first window on.\<close>

function recur :: "nat \<Rightarrow> nat \<Rightarrow> u_long list \<Rightarrow> nat \<Rightarrow> u_long" where
  "recur d s w k = (if k < d \<or> s = 0 \<or> d \<le> s then w ! k else recur d s w (k - d) + recur d s w (k - s))"
  by pat_completeness auto
termination
  by (relation "measure (\<lambda>(d, s, w, k). k)") auto

declare recur.simps [simp del]

lemma recur_sum: "0 < s \<Longrightarrow> s < d \<Longrightarrow> recur d s w (k + d) = recur d s w k + recur d s w (k + d - s)"
  by (subst recur.simps) simp

lemma numbers_trinomial:
  assumes "t \<noteq> 0" "0 < sep t" "sep t < deg t" "\<forall>k. s (k + deg t) = s k + s (k + deg t - sep t)"
  shows "numbers gen_step n (t, map s [j..<j + deg t]) = map (\<lambda>k. drop_bit 1 (s (j + k + deg t))) [0..<n]"
proof (induction n arbitrary: j)
  case (Suc n)
  let ?w = "map s [j..<j + deg t]"
  have "hd ?w = s j" "?w ! (deg t - sep t) = s (j + deg t - sep t)" using assms(2,3) by (auto simp: hd_map)
  then have v: "hd ?w + ?w ! (deg t - sep t) = s (j + deg t)" using assms(4) by simp
  have "tl ?w @ [s (j + deg t)] = map s [j + 1..<j + 1 + deg t]" using assms(2,3) by (simp add: map_tl [symmetric] tl_upt)
  then have "gen_step (t, ?w) = (drop_bit 1 (s (j + deg t)), t, map s [j + 1..<j + 1 + deg t])"
    using assms(1) v by (simp add: gen_step_def Let_def)
  then show ?case using Suc.IH [of "j + 1"] by (simp add: map_upt_Suc del: upt_Suc)
qed simp

lemma gen_step_31: "fst (gen_step gn) < 2 ^ 31"
proof -
  have "x AND 0x7fffffff < 2 ^ 31" for x :: u_long unfolding low31 using take_bit_int_less_exp [of 31 "uint x"]
    by (simp add: word_less_def unsigned_take_bit_eq)
  moreover have "drop_bit 1 x < 2 ^ 31" for x :: u_long using uint_bounded [of x]
    by (simp add: word_less_def unsigned_drop_bit_eq drop_bit_int_def take_bit_int_eq_self)
  ultimately show ?thesis by (simp add: gen_step_def Let_def split: prod.splits)
qed

lemma rng_start_ok: "rng_ok (rng_start (randtbl @ m) 0)"
  by (auto simp: rng_ok_def rng_base_def rng_start_def arr_ok_def arr_len_def deg_def sep_def degrees_def seps_def TYPE_3_def randtbl_def
      intro!: exI [of _ 0])

section \<open>Properties\<close>

text \<open>
  C36: a call of \<open>random\<close> in a state that keeps the invariant touches nothing but its table, keeps the invariant, and returns a
  number of 31 bits.
\<close>

theorem random_total:
  assumes "rng_ok g"
  shows "\<exists>v g'. random g = Some (v, g') \<and> rng_ok g' \<and> v < 2 ^ 31 \<and> rstate g' = rstate g
    \<and> same_but (longs g) (longs g') (rstate g) (arr_len (rand_type g))"
  using random_refines [OF assms] gen_step_31 [of "view g"] by (metis fst_conv)

theorem random_total_witness:
  "\<exists>v g'. random (rng_start randtbl 0) = Some (v, g') \<and> rng_ok g' \<and> v < 2 ^ 31"
  using random_total [of "rng_start randtbl 0"] rng_start_ok [of "[]"] by auto

text \<open>
  C18: the numbers a generator of type 1 to 4 returns are the upper 31 bits of the sequence in which each number is the sum of
  those \<open>deg\<close> and \<open>sep\<close> places before it, modulo \<open>2 ^ 32\<close>, from the window the circular table holds on.
\<close>

theorem random_sequence:
  assumes "rng_ok g" "rand_type g \<noteq> 0" "d = deg (rand_type g)" "p = sep (rand_type g)"
  shows "\<exists>s g'. (\<forall>i < d. s i = snd (view g) ! i) \<and> (\<forall>k. s (k + d) = s k + s (k + d - p))
    \<and> draw_n random n g = Some (map (\<lambda>k. drop_bit 1 (s (k + d))) [0..<n], g') \<and> rng_ok g'"
proof -
  define s where "s = recur d p (snd (view g))"
  have "0 \<le> rand_type g" "rand_type g \<le> 4" and len: "length (snd (view g)) = d"
    using assms by (auto simp: rng_ok_def rng_base_def arr_ok_def arr_len_def view_def window_def)
  then have dp: "0 < p" "p < d" using sep_deg [of "rand_type g"] assms by auto
  have first: "s i = snd (view g) ! i" if "i < d" for i using that unfolding s_def by (subst recur.simps) simp
  have sum: "s (k + d) = s k + s (k + d - p)" for k unfolding s_def by (rule recur_sum [OF dp])
  have "view g = (rand_type g, map s [0..<0 + d])"
    using first len by (auto simp: view_def intro!: nth_equalityI)
  then show ?thesis
    using rs.draw_n_spec [OF assms(1), of n] numbers_trinomial [of "rand_type g" s n 0] first sum assms(2-4) dp by auto
qed

theorem random_sequence_witness:
  "\<exists>s g'. (\<forall>k. s (k + 31) = s k + s (k + 31 - 3)) \<and> draw_n random 40 (rng_start randtbl 0) = Some (map (\<lambda>k. drop_bit 1 (s (k + 31))) [0..<40], g')"
proof -
  have c: "rand_type (rng_start randtbl 0) = 3" "31 = deg 3" "3 = sep 3" "(3 :: int) \<noteq> 0"
    by (simp_all add: rng_start_def TYPE_3_def deg_def sep_def degrees_def seps_def)
  have "rng_ok (rng_start randtbl 0)" using rng_start_ok [of "[]"] by simp
  from random_sequence [OF this, of 31 3 40] show ?thesis unfolding c(1) using c(2-4) by blast
qed

text \<open>
  With less than 32 bytes of state information \<open>random\<close> returns the numbers \<open>rand\<close> returns from the same seed.
\<close>

theorem random_like_rand:
  assumes "rng_base g" "rand_type g = 0" "srandom x g = Some g'"
  shows "map_option fst (draw_n random n g') = map_option fst (draw_n (\<lambda>s. Some (rand s)) n (srand x))"
proof -
  have "rng_ok g'" "view g' = (0, [x AND 0x7fffffff])" using srandom_spec [OF assms(1), of x] assms(2,3) by (auto simp: gen_seed_def)
  then show ?thesis using rs.draw_n_spec [of g' n] lc.draw_n_spec [where s = "srand x" and n = n] by (auto simp: srand_def)
qed

theorem random_like_rand_witness:
  "map_option fst (draw_n random 3 \<lparr>longs = [0, 7], fptr = 0, rptr = 0, rstate = 1, rand_type = 0, rand_deg = 0, rand_sep = 0, end_ptr = 1\<rparr>)
   = map_option fst (draw_n (\<lambda>s. Some (rand s)) 3 (srand 7))"
  by (rule random_like_rand [of "\<lparr>longs = [0, 0], fptr = 0, rptr = 0, rstate = 1, rand_type = 0, rand_deg = 0, rand_sep = 0, end_ptr = 1\<rparr>"])
    (simp_all add: rng_base_def arr_ok_def arr_len_def deg_def sep_def degrees_def seps_def srandom_def TYPE_0_def lstore_def)

text \<open>
  A generator that is left with \<open>initstate\<close> goes on where it was after \<open>setstate\<close> with the pointer \<open>initstate\<close> returned,
  whatever numbers were drawn from the other array meanwhile, and the other one goes on too after a second \<open>setstate\<close>.
\<close>

theorem setstate_resumes:
  assumes "rng_ok g" "8 \<le> n" "t = choose_type n" "arr_ok (longs g) (b + 1) t"
    "areas_apart (rstate g - 1) (1 + arr_len (rand_type g)) b (1 + arr_len t)"
  shows "\<exists>a g1 g2 g3 g4. initstate x b n g = Some (Some a, g1) \<and> draw_n random k g1 = Some (numbers gen_step k (gen_seed t x), g2)
    \<and> setstate a g2 = Some (b, g3) \<and> (\<forall>j. map_option fst (draw_n random j g3) = map_option fst (draw_n random j g))
    \<and> setstate b g3 = Some (a, g4) \<and> (\<forall>j. map_option fst (draw_n random j g4) = map_option fst (draw_n random j g2))"
proof -
  let ?a = "rstate g - 1"
  obtain g1 where 1: "initstate x b n g = Some (Some ?a, g1)" "rng_ok g1" "view g1 = gen_seed t x" "saved (longs g1) ?a (view g)"
      "rstate g1 = b + 1" "rand_type g1 = t"
    using initstate_spec [OF assms] by blast
  obtain g2 where 2: "draw_n random k g1 = Some (numbers gen_step k (gen_seed t x), g2)" "rng_ok g2"
    using rs.draw_n_spec [OF 1(2), of k] 1(3) by auto
  note f = draw_n_frame [OF 1(2) 2(1)]
  have v: "fst (view g) = rand_type g" "fst (view g2) = t" using f 1(6) by (auto simp: view_def)
  have "saved (longs g2) ?a (view g)"
    using saved_frame [OF 1(4), of "longs g2" "b + 1" "arr_len t"] f 1(5,6) assms(5) v by (auto simp: areas_apart_def)
  moreover have "areas_apart ?a (1 + arr_len (fst (view g))) (rstate g2 - 1) 1" using f 1(5) assms(5) v by (auto simp: areas_apart_def arr_len_def split: if_splits)
  ultimately obtain g3 where 3: "setstate ?a g2 = Some (b, g3)" "rng_ok g3" "view g3 = view g" "saved (longs g3) b (view g2)" "rstate g3 = ?a + 1"
    using setstate_spec [OF 2(2)] f 1(5) by fastforce
  have "areas_apart b (1 + arr_len (fst (view g2))) (rstate g3 - 1) 1"
    using assms(5) 3(5) v by (auto simp: areas_apart_def arr_len_def split: if_splits)
  then obtain g4 where 4: "setstate b g3 = Some (?a, g4)" "rng_ok g4" "view g4 = view g2"
    using setstate_spec [OF 3(2,4)] 3(5) by auto
  have "map_option fst (draw_n random j g3) = map_option fst (draw_n random j g)"
    "map_option fst (draw_n random j g4) = map_option fst (draw_n random j g2)" for j
    using rs.draw_n_spec [OF 3(2), of j] rs.draw_n_spec [OF assms(1), of j] rs.draw_n_spec [OF 4(2), of j] rs.draw_n_spec [OF 2(2), of j]
      3(3) 4(3) by auto
  then show ?thesis using 1(1) 2(1) 3(1) 4(1) by blast
qed

theorem setstate_resumes_witness:
  "\<exists>a g1 g2 g3. initstate 5 32 32 (rng_start (randtbl @ replicate 8 0) 0) = Some (Some a, g1)
    \<and> draw_n random 10 g1 = Some (numbers gen_step 10 (gen_seed 1 5), g2) \<and> setstate a g2 = Some (32, g3)
    \<and> map_option fst (draw_n random 100 g3) = map_option fst (draw_n random 100 (rng_start (randtbl @ replicate 8 0) 0))"
proof -
  let ?g = "rng_start (randtbl @ replicate 8 0) 0"
  have "choose_type 32 = 1" by (simp add: choose_type_def BREAK_1_def BREAK_2_def TYPE_1_def)
  moreover have "arr_ok (longs ?g) (32 + 1) 1" "areas_apart (rstate ?g - 1) (1 + arr_len (rand_type ?g)) 32 (1 + arr_len 1)"
    by (simp_all add: arr_ok_def areas_apart_def arr_len_def rng_start_def randtbl_def deg_def degrees_def TYPE_3_def)
  ultimately show ?thesis
    using setstate_resumes [OF rng_start_ok, of 32 1 "replicate 8 0" 32 5 10] by fastforce
qed

text \<open>
  The table and the pointers the library starts with are those that \<open>initstate\<close> with seed 1 and 128 bytes gives.
\<close>

theorem random_default:
  "initstate 1 0 128 (rng_start randtbl 0) = Some (Some 0, rng_start randtbl 0)"
  by code_simp

text \<open>
  \<open>setstate\<close> with the array in use reads the first word before it is brought up to date, so the pointers go back to where
  they were when the array was last saved while the table stays as it is.
\<close>

theorem setstate_current:
  assumes "rng_ok g" "rand_type g = t" "t \<noteq> 0" "r < deg t" "longs g ! nat (rstate g - 1) = word_of_int (5 * int r + t)"
  shows "\<exists>g'. setstate (rstate g - 1) g = Some (rstate g - 1, g') \<and> rng_ok g' \<and> rptr g' = rstate g + int r
    \<and> view g' = (t, window (longs g) (rstate g) t r)"
proof -
  let ?a = "rstate g - 1"
  obtain m' where m': "save_header g = Some (g\<lparr>longs := m'\<rparr>)" "same_but (longs g) m' ?a 1" using save_header_spec [OF assms(1)] by blast
  have ok: "arr_ok (longs g) (rstate g) t" "0 \<le> ?a" "?a < int (length (longs g))"
    using assms(1,2) by (auto simp: rng_ok_def rng_base_def arr_ok_def arr_len_def split: if_splits)
  have r: "place_ok t r" using assms(3,4) ok(1) by (simp add: place_ok_def arr_ok_def)
  have "arr_ok m' (?a + 1) t" using ok(1) m'(2) by (auto simp: arr_ok_def same_but_def)
  moreover have "window m' (rstate g) t r = window (longs g) (rstate g) t r"
    using window_frame [OF m'(2) _ ok(1)] by (simp add: areas_apart_def)
  ultimately show ?thesis
    using setstate_run [OF m'(1) ok(2,3) r assms(5)] restored_ok [of m' ?a t r g] r assms(3) by (auto simp: restored_def)
qed

theorem setstate_current_witness:
  "\<exists>g g'. random (rng_start randtbl 0) = Some (2078917053, g) \<and> rptr g = 2 \<and> setstate 0 g = Some (0, g') \<and> rptr g' = 1
    \<and> map_option fst (random g) = Some 143302914 \<and> map_option fst (random g') = Some 1224903130"
proof -
  define g where "g = snd (the (random (rng_start randtbl 0)))"
  have r: "random (rng_start randtbl 0) = Some (2078917053, g)" unfolding g_def by code_simp
  then have ok: "rng_ok g" using random_refines [OF rng_start_ok [of "[]"]] by auto
  have f: "rand_type g = 3" "rstate g = 1" "rptr g = 2"
      "longs g ! nat (rstate g - 1) = word_of_int (5 * int 0 + 3)" "0 < deg 3"
    unfolding g_def by code_simp+
  obtain g' where g': "setstate 0 g = Some (0, g')" "rptr g' = 1" using setstate_current [OF ok f(1) _ f(5,4)] f(2) by auto
  have "map_option fst (random g) = Some 143302914" "map_option fst (Option.bind (setstate 0 g) (\<lambda>(a, g'). random g')) = Some 1224903130"
    unfolding g_def by code_simp+
  then show ?thesis using r f(3) g' by auto
qed

text \<open>
  A first word with a negative remainder is reported as corrupted, with the message that the state is not changed, and yet the
  array is taken into use, under the type of the one before.
\<close>

lemma setstate_garbled:
  assumes "rng_ok g" "0 \<le> a" "a < int (length (longs g))" "sint (longs g ! nat a) smod 5 < 0"
  shows "\<exists>g'. setstate a g = Some (rstate g - 1, g') \<and> rstate g' = a + 1 \<and> rand_type g' = rand_type g"
  using save_header_spec [OF assms(1)] assms(2-4) by (auto simp: setstate_def lload_def MAX_TYPES_def Let_def)

end
