(* ===== verification/Env.thy ===== *)
theory Env
  imports Prelude "HOL-Library.Monad_Syntax"
begin

text \<open>
  The environment list, \<open>lib/libc/stdlib/getenv.c\<close>, \<open>setenv.c\<close> and \<open>putenv.c\<close>. The array \<open>environ\<close> is the list of its
  strings up to the null pointer, each in storage of its own; a string is the list of its characters.
\<close>

section \<open>Definitions\<close>

text \<open>
  \<open>environ\<close> is a null pointer when it is \<open>None\<close>; \<open>alloced\<close> is the flag of \<open>setenv\<close>, and \<open>owned\<close> says that the array came
  from the allocator, which \<open>realloc\<close> needs.
\<close>

record environment =
  environ :: "byte list list option"
  alloced :: bool
  owned :: bool

text \<open>What the allocator gives: the new array, the new string, the copy of the argument of \<open>putenv\<close>.\<close>

record alloc =
  vec_ok :: bool
  str_ok :: bool
  dup_ok :: bool

definition name_part :: "byte list \<Rightarrow> byte list" where
  "name_part name = takeWhile (\<lambda>c. c \<noteq> 61) name"

definition entry_of :: "byte list \<Rightarrow> byte list \<Rightarrow> bool" where
  "entry_of nm c \<longleftrightarrow> take (length nm) c = nm \<and> length nm < length c \<and> c ! length nm = 61"

fun findenv_loop :: "byte list \<Rightarrow> nat \<Rightarrow> byte list list \<Rightarrow> (nat \<times> byte list) option" where
  "findenv_loop nm i [] = None"
| "findenv_loop nm i (c # cs) = (if entry_of nm c then Some (i, drop (length nm + 1) c) else findenv_loop nm (i + 1) cs)"

definition findenv :: "byte list \<Rightarrow> environment \<Rightarrow> (nat \<times> byte list) option" where
  "findenv name e = (case environ e of None \<Rightarrow> None | Some es \<Rightarrow> findenv_loop (name_part name) 0 es)"

definition getenv :: "byte list \<Rightarrow> environment \<Rightarrow> byte list option" where
  "getenv name e = map_option snd (findenv name e)"

text \<open>The end of \<open>setenv\<close>: a new string is put at \<open>offset\<close>, or a null pointer, which ends the list there.\<close>

definition put_entry :: "alloc \<Rightarrow> byte list \<Rightarrow> byte list \<Rightarrow> nat \<Rightarrow> byte list list \<Rightarrow> environment \<Rightarrow> int \<times> environment" where
  "put_entry A name val offset es e =
     (if str_ok A then (0, e\<lparr>environ := Some (take offset es @ [name_part name @ 61 # val] @ drop (offset + 1) es)\<rparr>)
      else (- 1, e\<lparr>environ := Some (take offset es)\<rparr>))"

definition setenv :: "alloc \<Rightarrow> byte list \<Rightarrow> byte list \<Rightarrow> bool \<Rightarrow> environment \<Rightarrow> (int \<times> environment) option" where
  "setenv A name value rewrite e = (
     let val = (case value of c # cs \<Rightarrow> if c = 61 then cs else value | [] \<Rightarrow> []) in
     case environ e of
       None \<Rightarrow> None
     | Some es \<Rightarrow>
         (case findenv name e of
            Some (offset, c) \<Rightarrow>
              if \<not> rewrite then Some (0, e)
              else if length c \<ge> length val
                then Some (0, e\<lparr>environ := Some (es[offset := take (length (name_part name) + 1) (es ! offset) @ val])\<rparr>)
              else Some (put_entry A name val offset es e)
          | None \<Rightarrow>
              if alloced e then
                (if \<not> owned e then None
                 else if \<not> vec_ok A then Some (- 1, e\<lparr>environ := None\<rparr>)
                 else Some (put_entry A name val (length es) es e))
              else
                (if \<not> vec_ok A then Some (- 1, e\<lparr>alloced := True\<rparr>)
                 else Some (put_entry A name val (length es) es (e\<lparr>alloced := True, owned := True\<rparr>)))))"

lemma findenv_loop_bound: "findenv_loop nm i es = Some (k, v) \<Longrightarrow> i \<le> k \<and> k < i + length es"
  by (induction nm i es rule: findenv_loop.induct) (auto split: if_splits)

function unsetenv_loop :: "byte list \<Rightarrow> byte list list \<Rightarrow> byte list list" where
  "unsetenv_loop nm es = (case findenv_loop nm 0 es of None \<Rightarrow> es | Some (k, v) \<Rightarrow> unsetenv_loop nm (take k es @ drop (k + 1) es))"
  by pat_completeness auto
termination
  by (relation "measure (\<lambda>(nm, es). length es)") (auto dest!: findenv_loop_bound)

declare unsetenv_loop.simps [simp del]

definition unsetenv :: "byte list \<Rightarrow> environment \<Rightarrow> environment" where
  "unsetenv name e = e\<lparr>environ := map_option (unsetenv_loop (name_part name)) (environ e)\<rparr>"

definition putenv :: "alloc \<Rightarrow> byte list \<Rightarrow> environment \<Rightarrow> (int \<times> environment) option" where
  "putenv A str e =
     (if \<not> dup_ok A then Some (- 1, e)
      else if 61 \<notin> set str then Some (- 1, e)
      else setenv A (takeWhile (\<lambda>c. c \<noteq> 61) str) (tl (dropWhile (\<lambda>c. c \<noteq> 61) str)) True e)"

section \<open>The environment as a map\<close>

definition binding :: "byte list \<Rightarrow> byte list \<times> byte list" where
  "binding c = (takeWhile (\<lambda>b. b \<noteq> 61) c, tl (dropWhile (\<lambda>b. b \<noteq> 61) c))"

definition bindings :: "byte list list \<Rightarrow> (byte list \<times> byte list) list" where
  "bindings es = map binding (filter (\<lambda>c. 61 \<in> set c) es)"

definition env_map :: "environment \<Rightarrow> byte list \<Rightarrow> byte list option" where
  "env_map e = (case environ e of None \<Rightarrow> Map.empty | Some es \<Rightarrow> map_of (bindings es))"

lemma bindings_simps [simp]:
  "bindings [] = []" "bindings (c # es) = (if 61 \<in> set c then [binding c] else []) @ bindings es" "bindings (es @ fs) = bindings es @ bindings fs"
  by (simp_all add: bindings_def)

lemma binding_entry: "61 \<notin> set nm \<Longrightarrow> binding (nm @ 61 # v) = (nm, v)"
  by (induction nm) (simp_all add: binding_def)

lemma entry_of_iff: "entry_of nm c \<longleftrightarrow> (\<exists>v. c = nm @ 61 # v)"
proof
  assume a: "entry_of nm c"
  then have "c = take (length nm) c @ c ! length nm # drop (Suc (length nm)) c" by (intro id_take_nth_drop) (simp add: entry_of_def)
  then show "\<exists>v. c = nm @ 61 # v" using a by (auto simp: entry_of_def)
qed (auto simp: entry_of_def)

lemma entry_of_binding: "61 \<notin> set nm \<Longrightarrow> entry_of nm c \<longleftrightarrow> 61 \<in> set c \<and> fst (binding c) = nm"
proof
  assume n: "61 \<notin> set nm" and c: "61 \<in> set c \<and> fst (binding c) = nm"
  then have "dropWhile (\<lambda>b. b \<noteq> 61) c \<noteq> []" by auto
  then obtain v where "dropWhile (\<lambda>b. b \<noteq> 61) c = 61 # v" using hd_dropWhile [of "\<lambda>b. b \<noteq> 61" c] by (cases "dropWhile (\<lambda>b. b \<noteq> 61) c") auto
  then have "c = nm @ 61 # v" using c takeWhile_dropWhile_id [of "\<lambda>b. b \<noteq> 61" c] by (simp add: binding_def)
  then show "entry_of nm c" by (auto simp: entry_of_iff)
qed (auto simp: entry_of_iff binding_entry)

lemma findenv_loop_map: "61 \<notin> set nm \<Longrightarrow> map_option snd (findenv_loop nm i es) = map_of (bindings es) nm"
proof (induction nm i es rule: findenv_loop.induct)
  case (2 nm i c cs)
  show ?case
  proof (cases "entry_of nm c")
    case True
    then obtain v where "c = nm @ 61 # v" by (auto simp: entry_of_iff)
    then show ?thesis using True 2(2) by (simp add: binding_entry)
  next
    case False
    then show ?thesis using 2 entry_of_binding [OF 2(2), of c] by (cases "binding c") auto
  qed
qed simp

lemma findenv_loop_split:
  "findenv_loop nm i es = Some (k, v) \<Longrightarrow>
   \<exists>pre post. es = pre @ (nm @ 61 # v) # post \<and> k = i + length pre \<and> (\<forall>d \<in> set pre. \<not> entry_of nm d)"
proof (induction nm i es rule: findenv_loop.induct)
  case (2 nm i c cs)
  show ?case
  proof (cases "entry_of nm c")
    case True
    then obtain w where "c = nm @ 61 # w" by (auto simp: entry_of_iff)
    then show ?thesis using True 2(2) by (intro exI [of _ "[]"] exI [of _ cs]) auto
  next
    case False
    then obtain pre post where "cs = pre @ (nm @ 61 # v) # post" "k = i + 1 + length pre" "\<forall>d \<in> set pre. \<not> entry_of nm d"
      using 2 by auto
    then show ?thesis using False by (intro exI [of _ "c # pre"] exI [of _ post]) auto
  qed
qed simp

lemma findenv_loop_None: "findenv_loop nm i es = None \<longleftrightarrow> (\<forall>d \<in> set es. \<not> entry_of nm d)"
  by (induction nm i es rule: findenv_loop.induct) auto

lemma name_part_eq: "61 \<notin> set (name_part name)"
  by (auto simp: name_part_def dest: set_takeWhileD)

lemma getenv_map: "getenv name e = env_map e (name_part name)"
  using findenv_loop_map [OF name_part_eq] by (simp add: getenv_def findenv_def env_map_def split: option.splits)

lemma map_of_replace:
  assumes "61 \<notin> set nm" "\<forall>d \<in> set pre. \<not> entry_of nm d"
  shows "map_of (bindings (pre @ (nm @ 61 # v) # post)) = (map_of (bindings (pre @ post)))(nm \<mapsto> v)"
proof -
  have "nm \<notin> fst ` set (bindings pre)" using assms entry_of_binding [OF assms(1)] by (auto simp: bindings_def)
  then have "map_of (bindings pre) nm = None" by (simp add: map_of_eq_None_iff)
  then show ?thesis using assms(1) by (auto simp: binding_entry map_add_def fun_eq_iff split: option.splits)
qed

lemma map_of_overwrite:
  assumes "61 \<notin> set nm" "\<forall>d \<in> set pre. \<not> entry_of nm d"
  shows "map_of (bindings (pre @ (nm @ 61 # v) # post)) = (map_of (bindings (pre @ (nm @ 61 # w) # post)))(nm \<mapsto> v)"
  using map_of_replace [OF assms] by simp

section \<open>The operations on the map\<close>

definition env_ok :: "environment \<Rightarrow> bool" where
  "env_ok e \<longleftrightarrow> environ e \<noteq> None \<and> (alloced e \<longrightarrow> owned e)"

definition plain_val :: "byte list \<Rightarrow> byte list" where
  "plain_val value = (case value of c # cs \<Rightarrow> if c = 61 then cs else value | [] \<Rightarrow> [])"

lemma setenv_spec:
  assumes "env_ok e" "vec_ok A" "str_ok A"
  shows "\<exists>e'. setenv A name value rewrite e = Some (0, e') \<and> env_ok e' \<and>
    env_map e' = (if env_map e (name_part name) \<noteq> None \<and> \<not> rewrite then env_map e else (env_map e)(name_part name \<mapsto> plain_val value))"
proof -
  let ?nm = "name_part name" and ?val = "plain_val value"
  obtain es where es: "environ e = Some es" using assms(1) by (auto simp: env_ok_def)
  have m: "env_map e = map_of (bindings es)" by (simp add: env_map_def es)
  have f: "findenv name e = findenv_loop ?nm 0 es" by (simp add: findenv_def es)
  show ?thesis
  proof (cases "findenv_loop ?nm 0 es")
    case None
    have n: "\<forall>d \<in> set es. \<not> entry_of ?nm d" "env_map e ?nm = None"
      using None findenv_loop_None [of ?nm 0 es] findenv_loop_map [OF name_part_eq, of name 0 es] by (blast, simp add: m)
    have "map_of (bindings (es @ [?nm @ 61 # ?val])) = (map_of (bindings es))(?nm \<mapsto> ?val)"
      using map_of_replace [OF name_part_eq n(1), of ?val "[]"] by simp
    then show ?thesis
      using assms None es f n(2) by (auto simp: setenv_def put_entry_def plain_val_def [symmetric] env_ok_def env_map_def Let_def simp del: bindings_simps)
  next
    case (Some kv)
    then obtain pre post w where p: "kv = (length pre, w)" "es = pre @ (?nm @ 61 # w) # post" "\<forall>d \<in> set pre. \<not> entry_of ?nm d"
      using findenv_loop_split [of ?nm 0 es "fst kv" "snd kv"] by (cases kv) auto
    have "env_map e ?nm = Some w" using Some findenv_loop_map [OF name_part_eq, of name 0 es] p(1) by (simp add: m)
    moreover note map_of_overwrite [OF name_part_eq p(3), of ?val post w]
    ultimately show ?thesis
      using assms Some es f p(1,2) m
      by (auto simp: setenv_def put_entry_def plain_val_def [symmetric] env_ok_def env_map_def list_update_append Let_def simp del: bindings_simps)
  qed
qed

lemma unsetenv_loop_filter: "unsetenv_loop nm es = filter (\<lambda>c. \<not> entry_of nm c) es"
proof (induction nm es rule: unsetenv_loop.induct)
  case (1 nm es)
  show ?case
  proof (cases "findenv_loop nm 0 es")
    case None
    then show ?thesis using findenv_loop_None [of nm 0 es] by (subst unsetenv_loop.simps) (simp add: filter_id_conv)
  next
    case (Some kv)
    then obtain pre post w where p: "kv = (length pre, w)" "es = pre @ (nm @ 61 # w) # post"
      using findenv_loop_split [of nm 0 es "fst kv" "snd kv"] by (cases kv) auto
    have "unsetenv_loop nm es = unsetenv_loop nm (pre @ post)" using Some p by (subst unsetenv_loop.simps) simp
    also have "\<dots> = filter (\<lambda>c. \<not> entry_of nm c) (pre @ post)" using 1 [OF Some, of "length pre" w] p by simp
    finally show ?thesis using p(2) by (auto simp: entry_of_iff)
  qed
qed

lemma bindings_filter: "61 \<notin> set nm \<Longrightarrow> bindings (filter (\<lambda>c. \<not> entry_of nm c) es) = filter (\<lambda>(k, v). k \<noteq> nm) (bindings es)"
  by (induction es) (auto simp: entry_of_binding split: prod.splits)

lemma map_of_filter_key: "map_of (filter (\<lambda>(k, v). k \<noteq> nm) xs) = (map_of xs)(nm := None)"
  by (induction xs) (auto simp: fun_eq_iff)

lemma unsetenv_spec: "env_map (unsetenv name e) = (env_map e)(name_part name := None)"
  by (auto simp: unsetenv_def env_map_def unsetenv_loop_filter bindings_filter [OF name_part_eq] map_of_filter_key split: option.splits)

section \<open>Variables as an interface\<close>

text \<open>A store of variables, for keys and values of a certain form.\<close>

locale var_store =
  fixes get :: "'k \<Rightarrow> 's \<Rightarrow> 'v option"
    and assign :: "'k \<Rightarrow> 'v \<Rightarrow> 's \<Rightarrow> 's"
    and unset :: "'k \<Rightarrow> 's \<Rightarrow> 's"
    and ok :: "'s \<Rightarrow> bool"
    and key :: "'k \<Rightarrow> bool"
    and val :: "'v \<Rightarrow> bool"
  assumes get_assign: "ok s \<Longrightarrow> key k \<Longrightarrow> val v \<Longrightarrow> key j \<Longrightarrow> get j (assign k v s) = (if j = k then Some v else get j s)"
    and get_unset: "ok s \<Longrightarrow> key k \<Longrightarrow> key j \<Longrightarrow> get j (unset k s) = (if j = k then None else get j s)"
    and ok_assign: "ok s \<Longrightarrow> key k \<Longrightarrow> val v \<Longrightarrow> ok (assign k v s)"
    and ok_unset: "ok s \<Longrightarrow> key k \<Longrightarrow> ok (unset k s)"
begin

lemma assign_all:
  "ok s \<Longrightarrow> \<forall>(k, v) \<in> set kvs. key k \<and> val v \<Longrightarrow> key j \<Longrightarrow>
   ok (fold (\<lambda>(k, v). assign k v) kvs s) \<and>
   get j (fold (\<lambda>(k, v). assign k v) kvs s) = (case map_of (rev kvs) j of None \<Rightarrow> get j s | Some v \<Rightarrow> Some v)"
proof (induction kvs arbitrary: s)
  case (Cons kv kvs)
  obtain k v where kv: "kv = (k, v)" by (cases kv)
  then have "ok (assign k v s)" "get j (assign k v s) = (if j = k then Some v else get j s)"
    using Cons.prems get_assign ok_assign by auto
  then show ?case using Cons.IH [of "assign k v s"] Cons.prems kv by (auto simp: map_add_def split: option.splits)
qed simp

end

definition good_alloc :: alloc where
  "good_alloc = \<lparr>vec_ok = True, str_ok = True, dup_ok = True\<rparr>"

definition after_put :: "byte list \<Rightarrow> environment \<Rightarrow> environment" where
  "after_put str e = snd (the (putenv good_alloc str e))"

lemma name_part_plain: "61 \<notin> set nm \<Longrightarrow> name_part nm = nm"
  by (induction nm) (auto simp: name_part_def)

lemma after_put_spec:
  assumes "env_ok e" "61 \<notin> set nm"
  shows "env_ok (after_put (nm @ 61 # value) e)" "env_map (after_put (nm @ 61 # value) e) = (env_map e)(nm \<mapsto> plain_val value)"
    "putenv good_alloc (nm @ 61 # value) e = Some (0, after_put (nm @ 61 # value) e)"
proof -
  have "putenv good_alloc (nm @ 61 # value) e = setenv good_alloc nm value True e"
    using binding_entry [OF assms(2), of "value"] by (simp add: putenv_def good_alloc_def binding_def)
  then show "env_ok (after_put (nm @ 61 # value) e)" "env_map (after_put (nm @ 61 # value) e) = (env_map e)(nm \<mapsto> plain_val value)"
    "putenv good_alloc (nm @ 61 # value) e = Some (0, after_put (nm @ 61 # value) e)"
    using setenv_spec [OF assms(1), of good_alloc nm "value" True] name_part_plain [OF assms(2)] by (auto simp: after_put_def good_alloc_def)
qed

lemma unsetenv_ok: "env_ok e \<Longrightarrow> env_ok (unsetenv name e)"
  by (auto simp: env_ok_def unsetenv_def)

interpretation ev: var_store getenv "\<lambda>k v. after_put (k @ 61 # v)" unsetenv env_ok "\<lambda>k. 61 \<notin> set k" "\<lambda>v. v = [] \<or> hd v \<noteq> 61"
proof (unfold_locales, goal_cases)
  case (1 s k v j)
  then have "plain_val v = v" by (cases v) (auto simp: plain_val_def)
  then show ?case using 1 by (auto simp: getenv_map name_part_plain after_put_spec)
qed (auto simp: getenv_map name_part_plain unsetenv_spec after_put_spec unsetenv_ok)

section \<open>Properties\<close>

text \<open>
  C29: \<open>setenv\<close> with storage at hand binds the name, without what follows an equal sign in it, to the value, without an equal
  sign before it, unless the name is bound and \<open>rewrite\<close> is zero; every other variable keeps its value.
\<close>

theorem setenv_getenv:
  assumes "env_ok e" "vec_ok A" "str_ok A"
  shows "\<exists>e'. setenv A name value rewrite e = Some (0, e') \<and> env_ok e' \<and>
    (\<forall>other. getenv other e' = (if name_part other = name_part name \<and> (rewrite \<or> getenv name e = None) then Some (plain_val value) else getenv other e))"
  using setenv_spec [OF assms, of name "value" rewrite] by (auto simp: getenv_map)

theorem setenv_getenv_witness:
  "\<exists>e'. setenv good_alloc [72, 61] [61, 47] True \<lparr>environ = Some [[65, 61, 49], [72, 61]], alloced = False, owned = False\<rparr> = Some (0, e')
    \<and> getenv [72] e' = Some [47] \<and> getenv [65] e' = Some [49]"
proof -
  let ?e = "\<lparr>environ = Some [[65, 61, 49], [72, 61]], alloced = False, owned = False\<rparr>"
  have "env_ok ?e" by (simp add: env_ok_def)
  then obtain e' where "setenv good_alloc [72, 61] [61, 47] True ?e = Some (0, e')"
      "\<forall>other. getenv other e' = (if name_part other = name_part [72, 61] \<and> (True \<or> getenv [72, 61] ?e = None)
        then Some (plain_val [61, 47]) else getenv other ?e)"
    using setenv_getenv [of ?e good_alloc "[72, 61]" "[61, 47]" True] by (auto simp: good_alloc_def)
  moreover have "getenv [65] ?e = Some [49]" by code_simp
  ultimately show ?thesis by (simp add: name_part_def plain_val_def)
qed

text \<open>
  After any sequence of \<open>putenv\<close> calls on strings \<open>name=value\<close>, each variable has the value it was given last, and
  \<open>unsetenv\<close> then removes all instances of one variable and no other.
\<close>

theorem putenv_sequence:
  assumes "env_ok e" "\<forall>(k, v) \<in> set kvs. 61 \<notin> set k \<and> (v = [] \<or> hd v \<noteq> 61)" "61 \<notin> set j" "61 \<notin> set u"
    and "e' = fold (\<lambda>(k, v). after_put (k @ 61 # v)) kvs e"
  shows "getenv j e' = (case map_of (rev kvs) j of None \<Rightarrow> getenv j e | Some v \<Rightarrow> Some v)
    \<and> getenv j (unsetenv u e') = (if j = u then None else getenv j e')"
  using ev.assign_all [OF assms(1,2,3)] ev.get_unset [of e' u j] assms(3-5) by auto

theorem putenv_sequence_witness:
  "getenv [65] (unsetenv [66] (fold (\<lambda>(k, v). after_put (k @ 61 # v)) [([65], [49]), ([66], [50]), ([65], [51, 51])]
     \<lparr>environ = Some [], alloced = False, owned = False\<rparr>)) = Some [51, 51]"
  using putenv_sequence [of "\<lparr>environ = Some [], alloced = False, owned = False\<rparr>" "[([65], [49]), ([66], [50]), ([65], [51, 51])]" "[65]" "[66]"]
  by (auto simp: env_ok_def)

text \<open>
  C37: when storage fails \<open>setenv\<close> returns \<open>- 1\<close>, but the environment is not what it was: for a longer value of a bound name
  the variables from it on are lost, and after a failure to enlarge the array for the first time the next call for a new name
  hands an array that is not from the allocator to \<open>realloc\<close>.
\<close>

theorem setenv_failure:
  assumes "environ e = Some es" "\<not> str_ok A" "\<not> vec_ok A"
  shows "(\<forall>k c. findenv name e = Some (k, c) \<and> length c < length (plain_val value) \<longrightarrow>
      setenv A name value True e = Some (- 1, e\<lparr>environ := Some (take k es)\<rparr>))
    \<and> (getenv name e = None \<and> \<not> alloced e \<and> \<not> owned e \<longrightarrow>
      (\<exists>e'. setenv A name value True e = Some (- 1, e') \<and> environ e' = Some es \<and> setenv B name value True e' = None))"
  using assms by (auto simp: setenv_def plain_val_def [symmetric] put_entry_def getenv_def findenv_def Let_def)

theorem setenv_failure_witness:
  "setenv \<lparr>vec_ok = False, str_ok = False, dup_ok = True\<rparr> [72] [47, 48] True \<lparr>environ = Some [[72, 61], [65, 61, 49]], alloced = False, owned = False\<rparr>
   = Some (- 1, \<lparr>environ = Some [], alloced = False, owned = False\<rparr>)"
proof -
  let ?e = "\<lparr>environ = Some [[72, 61], [65, 61, 49]], alloced = False, owned = False\<rparr>"
  have "findenv [72] ?e = Some (0, [])" by code_simp
  then show ?thesis
    using setenv_failure [of ?e "[[72, 61], [65, 61, 49]]" "\<lparr>vec_ok = False, str_ok = False, dup_ok = True\<rparr>" "[72]" "[47, 48]" good_alloc]
    by (auto simp: plain_val_def)
qed

end
