(* ===== verification/Getopt.thy ===== *)
theory Getopt
  imports Prelude "HOL-Library.Monad_Syntax"
begin

text \<open>
  Options of the command line, \<open>lib/libc/stdlib/getopt.c\<close>. The vector is a list of strings, a string the list of its
  characters; the static pointer \<open>place\<close> is the rest of the string it points into. The messages are left out.
\<close>

section \<open>Definitions\<close>

record optvars =
  optind :: nat
  optopt :: byte
  optreset :: bool
  optarg :: "byte list option"
  place :: "byte list"

definition optvars_start :: optvars where
  "optvars_start = \<lparr>optind = 1, optopt = 0, optreset = False, optarg = None, place = []\<rparr>"

definition BADCH :: int where "BADCH = 63"
definition BADARG :: int where "BADARG = 58"
definition EOF :: int where "EOF = - 1"

text \<open>Where \<open>strchr\<close> finds a letter, the rest of the string from it on.\<close>

definition strchr_at :: "byte list \<Rightarrow> byte \<Rightarrow> byte list option" where
  "strchr_at s c = (case dropWhile (\<lambda>b. b \<noteq> c) s of [] \<Rightarrow> None | oli \<Rightarrow> Some oli)"

text \<open>The letter at \<open>place\<close>.\<close>

definition getopt_letter :: "byte list list \<Rightarrow> byte list \<Rightarrow> optvars \<Rightarrow> int \<times> optvars" where
  "getopt_letter nargv ostr g = (
     let c = hd (place g);
         g = g\<lparr>optopt := c, place := tl (place g)\<rparr>;
         next_arg = (\<lambda>g. if place g = [] then g\<lparr>optind := optind g + 1\<rparr> else g) in
     case (if c = 58 then None else strchr_at ostr c) of
       None \<Rightarrow> if c = 45 then (EOF, g) else (BADCH, next_arg g)
     | Some oli \<Rightarrow>
         if tl oli = [] \<or> hd (tl oli) \<noteq> 58 then (sint c, next_arg (g\<lparr>optarg := None\<rparr>))
         else if place g \<noteq> [] then (sint c, g\<lparr>optarg := Some (place g), place := [], optind := optind g + 1\<rparr>)
         else if length nargv \<le> optind g + 1 then
           (if ostr \<noteq> [] \<and> hd ostr = 58 then BADARG else BADCH, g\<lparr>optind := optind g + 1, place := []\<rparr>)
         else (sint c, g\<lparr>optarg := Some (nargv ! (optind g + 1)), place := [], optind := optind g + 2\<rparr>))"

definition getopt :: "byte list list \<Rightarrow> byte list \<Rightarrow> optvars \<Rightarrow> int \<times> optvars" where
  "getopt nargv ostr g =
     (if optreset g \<or> place g = [] then
        let g = g\<lparr>optreset := False\<rparr> in
        if optind g \<ge> length nargv \<or> nargv ! optind g = [] \<or> hd (nargv ! optind g) \<noteq> 45 then (EOF, g\<lparr>place := []\<rparr>)
        else
          let arg = nargv ! optind g in
          if tl arg \<noteq> [] then
            (if hd (tl arg) = 45 then (EOF, g\<lparr>optind := optind g + 1, place := []\<rparr>)
             else getopt_letter nargv ostr (g\<lparr>place := tl arg\<rparr>))
          else getopt_letter nargv ostr (g\<lparr>place := arg\<rparr>)
      else getopt_letter nargv ostr g)"

text \<open>The loop every program has around it: calls until \<open>EOF\<close>, with what the variables hold after each.\<close>

partial_function (option) getopt_all ::
    "byte list list \<Rightarrow> byte list \<Rightarrow> optvars \<Rightarrow> ((int \<times> byte \<times> byte list option) list \<times> optvars) option" where
  "getopt_all nargv ostr g = (
     let r = getopt nargv ostr g in
     if fst r = EOF then Some ([], snd r)
     else do {
       rest \<leftarrow> getopt_all nargv ostr (snd r);
       Some ((fst r, optopt (snd r), optarg (snd r)) # fst rest, snd rest) })"

section \<open>Reading a list of arguments\<close>

datatype answer = Opt byte "byte list option" | Bad byte | Missing byte

text \<open>Whether a letter is an option, and whether it has an argument.\<close>

definition opt_kind :: "byte list \<Rightarrow> byte \<Rightarrow> bool option" where
  "opt_kind ostr c = (if c = 58 then None else
     case strchr_at ostr c of None \<Rightarrow> None | Some oli \<Rightarrow> Some (tl oli \<noteq> [] \<and> hd (tl oli) = 58))"

text \<open>
  The answers and the operands that follow them. \<open>cs\<close> are letters still to be read from the argument \<open>cur\<close>, and \<open>args\<close> the
  arguments behind it.
\<close>

function parse :: "byte list \<Rightarrow> byte list \<Rightarrow> byte list \<Rightarrow> byte list list \<Rightarrow> answer list \<times> byte list list" where
  "parse ostr cur [] [] = ([], [])"
| "parse ostr cur [] (a # args) =
     (if a = [] \<or> hd a \<noteq> 45 then ([], a # args)
      else if tl a = [] then parse ostr a a args
      else if hd (tl a) = 45 then ([], args)
      else parse ostr a (tl a) args)"
| "parse ostr cur (c # cs) args =
     (case opt_kind ostr c of
        None \<Rightarrow> if c = 45 then ([], cur # args) else apfst (Cons (Bad c)) (parse ostr cur cs args)
      | Some needs \<Rightarrow>
          if \<not> needs then apfst (Cons (Opt c None)) (parse ostr cur cs args)
          else if cs \<noteq> [] then apfst (Cons (Opt c (Some cs))) (parse ostr cur [] args)
          else if args = [] then ([Missing c], [])
          else apfst (Cons (Opt c (Some (hd args)))) (parse ostr cur [] (tl args)))"
  by pat_completeness auto
termination
proof (relation "measure (\<lambda>(ostr, cur, cs, args). length cs + sum_list (map (\<lambda>a. length a + 1) args))", goal_cases)
  case (7 ostr cur c cs args x2)
  then show ?case by (cases args) auto
qed auto

text \<open>An answer as the caller sees it: the value, \<open>optopt\<close>, and \<open>optarg\<close> where it is set.\<close>

definition shows_as :: "byte list \<Rightarrow> int \<times> byte \<times> byte list option \<Rightarrow> answer \<Rightarrow> bool" where
  "shows_as ostr r a = (case a of
     Opt c arg \<Rightarrow> r = (sint c, c, arg)
   | Bad c \<Rightarrow> fst r = 63 \<and> fst (snd r) = c
   | Missing c \<Rightarrow> fst r = (if ostr \<noteq> [] \<and> hd ostr = 58 then 58 else 63) \<and> fst (snd r) = c)"

definition at_args :: "byte list list \<Rightarrow> optvars \<Rightarrow> byte list \<Rightarrow> byte list \<Rightarrow> byte list list \<Rightarrow> bool" where
  "at_args nargv g cur cs args \<longleftrightarrow> (cs \<noteq> [] \<longrightarrow> \<not> optreset g) \<and> (optreset g \<or> place g = cs)
     \<and> drop (optind g) nargv = (if cs = [] then args else cur # args)"

lemma drop_step:
  assumes "drop i xs = a # as"
  shows "i < length xs" "xs ! i = a" "drop (i + 1) xs = as"
proof -
  show i: "i < length xs" using assms by (cases "i < length xs") auto
  then show "xs ! i = a" "drop (i + 1) xs = as" using assms Cons_nth_drop_Suc [OF i] by auto
qed

lemma sint_not_EOF: "c \<noteq> 255 \<Longrightarrow> sint c \<noteq> EOF" for c :: byte
proof
  assume "c \<noteq> 255" "sint c = EOF"
  moreover have "c = of_int (sint c)" by simp
  ultimately show False by (simp only: EOF_def) simp
qed

section \<open>The calls follow the arguments\<close>

definition follows :: "byte list list \<Rightarrow> byte list \<Rightarrow> optvars \<Rightarrow> answer list \<times> byte list list \<Rightarrow> bool" where
  "follows nargv ostr g p \<longleftrightarrow> (\<exists>rs g'. getopt_all nargv ostr g = Some (rs, g') \<and> list_all2 (shows_as ostr) rs (fst p)
     \<and> drop (optind g') nargv = snd p)"

lemma follows_end: "getopt nargv ostr g = (EOF, g') \<Longrightarrow> drop (optind g') nargv = rest \<Longrightarrow> follows nargv ostr g ([], rest)"
  by (subst follows_def, subst getopt_all.simps) simp

lemma follows_call:
  assumes "getopt nargv ostr g = (v, g')" "v \<noteq> EOF" "shows_as ostr (v, optopt g', optarg g') a" "follows nargv ostr g' p"
  shows "follows nargv ostr g (apfst (Cons a) p)"
  using assms by (subst follows_def, subst getopt_all.simps) (auto simp: follows_def list_all2_Cons2)

lemma follows_same:
  assumes "getopt nargv ostr g = getopt nargv ostr g'" "follows nargv ostr g' p"
  shows "follows nargv ostr g p"
  using assms getopt_all.simps [of nargv ostr g] getopt_all.simps [of nargv ostr g'] by (simp add: follows_def)

lemma opt_kind_cases:
  "opt_kind ostr c = None \<Longrightarrow> (if c = 58 then None else strchr_at ostr c) = None"
  "opt_kind ostr c = Some needs \<Longrightarrow> \<exists>oli. (if c = 58 then None else strchr_at ostr c) = Some oli \<and> needs = (tl oli \<noteq> [] \<and> hd (tl oli) = 58) \<and> c \<in> set ostr"
proof -
  show "opt_kind ostr c = None \<Longrightarrow> (if c = 58 then None else strchr_at ostr c) = None"
    by (auto simp: opt_kind_def split: option.splits if_splits)
  assume k: "opt_kind ostr c = Some needs"
  then obtain oli where o: "strchr_at ostr c = Some oli" "c \<noteq> 58" "needs = (tl oli \<noteq> [] \<and> hd (tl oli) = 58)"
    by (auto simp: opt_kind_def split: option.splits if_splits)
  have "c \<in> set ostr"
  proof (rule ccontr)
    assume "c \<notin> set ostr"
    then have z: "dropWhile (\<lambda>b. b \<noteq> c) ostr = []" by (simp add: dropWhile_eq_Nil_conv) blast
    show False using o(1) unfolding strchr_at_def z by simp
  qed
  then show "\<exists>oli. (if c = 58 then None else strchr_at ostr c) = Some oli \<and> needs = (tl oli \<noteq> [] \<and> hd (tl oli) = 58) \<and> c \<in> set ostr"
    using o by auto
qed

lemma follows_stop:
  assumes "at_args nargv g cur [] []"
  shows "follows nargv ostr g ([], [])"
proof (rule follows_end)
  show "getopt nargv ostr g = (EOF, g\<lparr>optreset := False, place := []\<rparr>)" using assms by (auto simp: getopt_def at_args_def Let_def)
  show "drop (optind (g\<lparr>optreset := False, place := []\<rparr>)) nargv = []" using assms by (simp add: at_args_def)
qed

text \<open>A new argument is looked at.\<close>

lemma follows_scan:
  assumes "at_args nargv g cur [] (a # args)"
    and dash: "\<And>g1. a = [45] \<Longrightarrow> at_args nargv g1 a a args \<Longrightarrow> follows nargv ostr g1 (parse ostr a a args)"
    and word: "\<And>g1. a \<noteq> [] \<Longrightarrow> hd a = 45 \<Longrightarrow> tl a \<noteq> [] \<Longrightarrow> hd (tl a) \<noteq> 45 \<Longrightarrow> at_args nargv g1 a (tl a) args \<Longrightarrow>
      follows nargv ostr g1 (parse ostr a (tl a) args)"
  shows "follows nargv ostr g (parse ostr cur [] (a # args))"
proof -
  have r: "optreset g \<or> place g = []" and d: "drop (optind g) nargv = a # args" using assms(1) by (auto simp: at_args_def)
  note i = drop_step [OF d]
  have new: "getopt nargv ostr g = getopt nargv ostr (g\<lparr>optreset := False, place := p\<rparr>)"
    if "a \<noteq> []" "hd a = 45" "tl a = [] \<and> p = a \<or> tl a \<noteq> [] \<and> hd (tl a) \<noteq> 45 \<and> p = tl a" for p
    using that i r by (auto simp: getopt_def Let_def)
  have at: "at_args nargv (g\<lparr>optreset := False, place := p\<rparr>) a p args" if "p \<noteq> []" for p
    using that d by (simp add: at_args_def)
  consider "a = [] \<or> hd a \<noteq> 45" | "a \<noteq> []" "hd a = 45" "tl a = []" | "a \<noteq> []" "hd a = 45" "tl a \<noteq> []" "hd (tl a) = 45"
    | "a \<noteq> []" "hd a = 45" "tl a \<noteq> []" "hd (tl a) \<noteq> 45" by blast
  then show ?thesis
  proof cases
    case 1
    then have "getopt nargv ostr g = (EOF, g\<lparr>optreset := False, place := []\<rparr>)" using i r by (auto simp: getopt_def Let_def)
    from follows_end [OF this] show ?thesis using 1 d by auto
  next
    case 2
    then have "a = [45]" by (cases a) auto
    with 2 show ?thesis using follows_same [OF new [of a] dash [OF _ at [of a]]] by simp
  next
    case 3
    then have "getopt nargv ostr g = (EOF, g\<lparr>optreset := False, optind := optind g + 1, place := []\<rparr>)" using i r by (auto simp: getopt_def Let_def)
    from follows_end [OF this] show ?thesis using 3 i by auto
  next
    case 4
    then show ?thesis using follows_same [OF new [of "tl a"] word [OF _ _ _ _ at [of "tl a"]]] by simp
  qed
qed

text \<open>A letter is read.\<close>

lemma follows_letter:
  assumes "255 \<notin> set ostr" "at_args nargv g cur (c # cs) args"
    and more: "\<And>g1. at_args nargv g1 cur cs args \<Longrightarrow> follows nargv ostr g1 (parse ostr cur cs args)"
    and rest: "\<And>g1 as. as = args \<or> args \<noteq> [] \<and> as = tl args \<Longrightarrow> at_args nargv g1 cur [] as \<Longrightarrow> follows nargv ostr g1 (parse ostr cur [] as)"
  shows "follows nargv ostr g (parse ostr cur (c # cs) args)"
proof -
  have p: "\<not> optreset g" "place g = c # cs" and d: "drop (optind g) nargv = cur # args" using assms(2) by (auto simp: at_args_def)
  note i = drop_step [OF d]
  have go: "getopt nargv ostr g = getopt_letter nargv ostr g" using p by (simp add: getopt_def)
  let ?n = "\<lambda>g. if cs = [] then g\<lparr>optind := optind g + 1\<rparr> else g" and ?g = "g\<lparr>optopt := c, place := cs\<rparr>"
  have next_at: "at_args nargv (?n g1) cur cs args" if "g1 = ?g \<or> g1 = ?g\<lparr>optarg := None\<rparr>" for g1
    using that p d i by (auto simp: at_args_def)
  show ?thesis
  proof (cases "opt_kind ostr c")
    case None
    have call: "getopt nargv ostr g = (if c = 45 then (EOF, ?g) else (BADCH, ?n ?g))"
      unfolding go getopt_letter_def Let_def p(2) list.sel opt_kind_cases(1) [OF None] by simp
    show ?thesis
    proof (cases "c = 45")
      case True
      then show ?thesis using call follows_end [of nargv ostr g ?g] d None by simp
    next
      case False
      then have "follows nargv ostr g (apfst (Cons (Bad c)) (parse ostr cur cs args))"
        using call more [OF next_at] by (intro follows_call [of _ _ _ BADCH "?n ?g"]) (auto simp: BADCH_def EOF_def shows_as_def)
      then show ?thesis using None False by simp
    qed
  next
    case (Some needs)
    obtain oli where o: "(if c = 58 then None else strchr_at ostr c) = Some oli" "needs = (tl oli \<noteq> [] \<and> hd (tl oli) = 58)" "c \<in> set ostr"
      using opt_kind_cases(2) [OF Some] by blast
    have e: "sint c \<noteq> EOF" using sint_not_EOF [of c] assms(1) o(3) by auto
    have call: "getopt nargv ostr g = (if \<not> needs then (sint c, ?n (?g\<lparr>optarg := None\<rparr>))
        else if cs \<noteq> [] then (sint c, ?g\<lparr>optarg := Some cs, place := [], optind := optind g + 1\<rparr>)
        else if args = [] then (if ostr \<noteq> [] \<and> hd ostr = 58 then BADARG else BADCH, ?g\<lparr>optind := optind g + 1, place := []\<rparr>)
        else (sint c, ?g\<lparr>optarg := Some (hd args), place := [], optind := optind g + 2\<rparr>))"
      using i drop_eq_Nil [of "optind g + 1" nargv] hd_drop_conv_nth [of "optind g + 1" nargv]
      unfolding go getopt_letter_def Let_def p(2) list.sel o(1) option.case o(2) by (auto simp: not_le)
    consider "\<not> needs" | "needs" "cs \<noteq> []" | "needs" "cs = []" "args = []" | "needs" "cs = []" "args \<noteq> []" by blast
    then show ?thesis
    proof cases
      case 1
      then have "follows nargv ostr g (apfst (Cons (Opt c None)) (parse ostr cur cs args))"
        using call e more [OF next_at] by (intro follows_call [of _ _ _ "sint c" "?n (?g\<lparr>optarg := None\<rparr>)"]) (auto simp: shows_as_def)
      then show ?thesis using 1 Some by simp
    next
      case 2
      then have "follows nargv ostr g (apfst (Cons (Opt c (Some cs))) (parse ostr cur [] args))"
        using call e p i rest [of args]
        by (intro follows_call [of _ _ _ "sint c" "?g\<lparr>optarg := Some cs, place := [], optind := optind g + 1\<rparr>"])
          (auto simp: shows_as_def at_args_def)
      then show ?thesis using 2 Some by simp
    next
      case 3
      then have "follows nargv ostr g (apfst (Cons (Missing c)) ([], []))"
        using call i by (intro follows_call [of _ _ _ _ "?g\<lparr>optind := optind g + 1, place := []\<rparr>"] follows_stop [of _ _ cur])
          (auto simp: shows_as_def at_args_def BADARG_def BADCH_def EOF_def)
      then show ?thesis using 3 Some by simp
    next
      case 4
      have "drop (optind g + 2) nargv = tl args" using i(3) by (simp add: drop_Suc tl_drop [symmetric])
      then have "follows nargv ostr g (apfst (Cons (Opt c (Some (hd args)))) (parse ostr cur [] (tl args)))"
        using 4 call e p rest [of "tl args"]
        by (intro follows_call [of _ _ _ "sint c" "?g\<lparr>optarg := Some (hd args), place := [], optind := optind g + 2\<rparr>"])
          (auto simp: shows_as_def at_args_def)
      then show ?thesis using 4 Some by simp
    qed
  qed
qed

lemma getopt_follows:
  "255 \<notin> set ostr \<Longrightarrow> at_args nargv g cur cs args \<Longrightarrow> follows nargv ostr g (parse ostr cur cs args)"
proof (induction "length cs + sum_list (map (\<lambda>a. length a + 1) args)" arbitrary: g cur cs args rule: less_induct)
  case less
  show ?case
  proof (cases cs)
    case (Cons c cs')
    have "follows nargv ostr g (parse ostr cur (c # cs') args)"
    proof (rule follows_letter)
      fix g1 as assume "as = args \<or> args \<noteq> [] \<and> as = tl args" "at_args nargv g1 cur [] as"
      then show "follows nargv ostr g1 (parse ostr cur [] as)"
        using less.hyps [of "[]" as g1 cur] less.prems(1) Cons by (cases args) auto
    qed (use less Cons in auto)
    then show ?thesis using Cons by simp
  next
    case Nil
    show ?thesis
    proof (cases args)
      case (Cons a as)
      have "follows nargv ostr g (parse ostr cur [] (a # as))"
        using less.prems Nil Cons less.hyps [of a as _ a] less.hyps [of "tl a" as _ a] by (intro follows_scan) auto
      then show ?thesis using Cons Nil by simp
    qed (use less.prems Nil follows_stop in auto)
  qed
qed

section \<open>Properties\<close>



text \<open>Every argument that begins with two dashes ends the options and is skipped, whatever follows the dashes.\<close>

lemma getopt_two_dashes:
  assumes "optreset g \<or> place g = []" "optind g < length nargv" "nargv ! optind g = 45 # 45 # xs"
  shows "fst (getopt nargv ostr g) = EOF \<and> optind (snd (getopt nargv ostr g)) = optind g + 1"
  using assms by (auto simp: getopt_def Let_def)

end
