(* ===== verification/Subopt.thy ===== *)
theory Subopt
  imports StrTok
begin

text \<open>
  Suboptions, \<open>lib/libc/stdlib/getsubopt.c\<close>: each call takes the next name, with its value where there is one, off a list in a
  string, cuts it off by writing zero bytes, and looks the name up among the caller's. A null pointer is \<open>None\<close>.
\<close>

section \<open>Definitions\<close>

definition sub_sep :: "byte \<Rightarrow> bool" where
  "sub_sep c \<longleftrightarrow> c = 44 \<or> c = 32 \<or> c = 9"

function skip_seps :: "mem \<Rightarrow> ptr \<Rightarrow> ptr option" where
  "skip_seps m p = do { c \<leftarrow> load m p; (if c \<noteq> 0 \<and> sub_sep c then skip_seps m (p + 1) else Some p) }"
  by pat_completeness auto
termination by (relation "measure (\<lambda>(m, p). length m - p)") auto

function name_end :: "mem \<Rightarrow> ptr \<Rightarrow> ptr option" where
  "name_end m p = do { c \<leftarrow> load m p; (if c \<noteq> 0 \<and> c \<noteq> 61 \<and> \<not> sub_sep c then name_end m (p + 1) else Some p) }"
  by pat_completeness auto
termination by (relation "measure (\<lambda>(m, p). length m - p)") auto

function value_end :: "mem \<Rightarrow> ptr \<Rightarrow> ptr option" where
  "value_end m p = do { c \<leftarrow> load m p; (if c \<noteq> 0 \<and> \<not> sub_sep c then value_end m (p + 1) else Some p) }"
  by pat_completeness auto
termination by (relation "measure (\<lambda>(m, p). length m - p)") auto

fun find_token :: "mem \<Rightarrow> ptr \<Rightarrow> ptr list \<Rightarrow> int \<Rightarrow> int option" where
  "find_token m s [] cnt = Some (- 1)"
| "find_token m s (t # ts) cnt = do { r \<leftarrow> strcmp m s t; (if r = 0 then Some cnt else find_token m s ts (cnt + 1)) }"

text \<open>Behind the name at \<open>p\<close>: the value, the rest and the memory.\<close>

definition cut_subopt :: "mem \<Rightarrow> ptr \<Rightarrow> (ptr option \<times> ptr \<times> mem) option" where
  "cut_subopt m p = do {
     c \<leftarrow> load m p;
     (if c = 0 then Some (None, p, m)
      else do {
        m \<leftarrow> store m p 0;
        (v, p, m) \<leftarrow> (if c = 61 then do {
            e \<leftarrow> value_end m (p + 1);
            c \<leftarrow> load m e;
            (if c \<noteq> 0 then do { m \<leftarrow> store m e 0; Some (Some (p + 1), e + 1, m) } else Some (Some (p + 1), e, m)) }
          else Some (None, p + 1, m));
        p \<leftarrow> skip_seps m p;
        Some (v, p, m) }) }"

record subopt =
  so_ret :: int
  suboptarg :: "ptr option"
  valuep :: "ptr option"
  optionp :: "ptr option option"

definition getsubopt :: "mem \<Rightarrow> ptr option option \<Rightarrow> ptr list \<Rightarrow> (subopt \<times> mem) option" where
  "getsubopt m op tokens =
     (case op of
       None \<Rightarrow> Some (\<lparr>so_ret = - 1, suboptarg = None, valuep = None, optionp = op\<rparr>, m)
     | Some None \<Rightarrow> Some (\<lparr>so_ret = - 1, suboptarg = None, valuep = None, optionp = op\<rparr>, m)
     | Some (Some p) \<Rightarrow> do {
         p \<leftarrow> skip_seps m p;
         c \<leftarrow> load m p;
         (if c = 0 then Some (\<lparr>so_ret = - 1, suboptarg = None, valuep = None, optionp = Some (Some p)\<rparr>, m)
          else do {
            e \<leftarrow> name_end m (p + 1);
            (v, q, m) \<leftarrow> cut_subopt m e;
            r \<leftarrow> find_token m p tokens 0;
            Some (\<lparr>so_ret = r, suboptarg = Some p, valuep = v, optionp = Some (Some q)\<rparr>, m) }) })"

section \<open>Lists of suboptions\<close>

text \<open>The next name, its value and the rest.\<close>

definition sub_next :: "byte list \<Rightarrow> (byte list \<times> byte list option \<times> byte list) option" where
  "sub_next s =
     (case dropWhile sub_sep s of
       [] \<Rightarrow> None
     | c # r \<Rightarrow>
         let name = c # takeWhile (\<lambda>c. c \<noteq> 61 \<and> \<not> sub_sep c) r; r = dropWhile (\<lambda>c. c \<noteq> 61 \<and> \<not> sub_sep c) r in
         if r \<noteq> [] \<and> hd r = 61
         then Some (name, Some (takeWhile (\<lambda>c. \<not> sub_sep c) (tl r)), dropWhile sub_sep (dropWhile (\<lambda>c. \<not> sub_sep c) (tl r)))
         else Some (name, None, dropWhile sub_sep r))"

definition position :: "byte list \<Rightarrow> byte list list \<Rightarrow> int" where
  "position s ts = (if s \<in> set ts then int (length (takeWhile (\<lambda>t. t \<noteq> s) ts)) else - 1)"

declare skip_seps.simps [simp del] name_end.simps [simp del] value_end.simps [simp del]

lemma skip_seps_spec: "cstr m p s \<Longrightarrow> skip_seps m p = Some (p + length (takeWhile sub_sep s))"
  by (induction s arbitrary: p; subst skip_seps.simps) (auto simp: cstr_Nil cstr_Cons)

lemma name_end_spec: "cstr m p s \<Longrightarrow> name_end m p = Some (p + length (takeWhile (\<lambda>c. c \<noteq> 61 \<and> \<not> sub_sep c) s))"
  by (induction s arbitrary: p; subst name_end.simps) (auto simp: cstr_Nil cstr_Cons)

lemma value_end_spec: "cstr m p s \<Longrightarrow> value_end m p = Some (p + length (takeWhile (\<lambda>c. \<not> sub_sep c) s))"
  by (induction s arbitrary: p; subst value_end.simps) (auto simp: cstr_Nil cstr_Cons)

lemma find_token_spec:
  "cstr m s name \<Longrightarrow> list_all2 (cstr m) ps ts \<Longrightarrow>
   find_token m s ps k = Some (if name \<in> set ts then k + int (length (takeWhile (\<lambda>t. t \<noteq> name) ts)) else - 1)"
proof (induction ps arbitrary: ts k)
  case (Cons p ps)
  obtain t ts' where ts: "ts = t # ts'" "cstr m p t" "list_all2 (cstr m) ps ts'" using Cons.prems(2) by (auto simp: list_all2_Cons1)
  have "strcmp m s p = Some (str_order name t)" by (rule strcmp_spec [OF Cons.prems(1) ts(2)])
  moreover have "str_order name t = 0 \<longleftrightarrow> name = t" by (rule str_order_eq_0 [OF cstr_0 [OF Cons.prems(1)] cstr_0 [OF ts(2)]])
  ultimately show ?case using Cons.IH [OF Cons.prems(1) ts(3), of "k + 1"] ts(1) by auto
qed simp

text \<open>The bytes from the end of the name on.\<close>

definition sub_tail :: "byte list \<Rightarrow> byte list option \<times> byte list" where
  "sub_tail r =
     (if r \<noteq> [] \<and> hd r = 61 then (Some (takeWhile (\<lambda>c. \<not> sub_sep c) (tl r)), dropWhile sub_sep (dropWhile (\<lambda>c. \<not> sub_sep c) (tl r)))
      else (None, dropWhile sub_sep r))"

text \<open>A string that is cut at a separator, and the rest of it behind further ones.\<close>

lemma cut_seps:
  assumes "cstr m p (t @ c # r)" "sub_sep c"
  shows "cstr (m[p + length t := 0]) p t" "cstr (m[p + length t := 0]) (p + length t + 1) r"
    "skip_seps (m[p + length t := 0]) (p + length t + 1) = Some (p + length t + 1 + length (takeWhile sub_sep r))"
    "cstr (m[p + length t := 0]) (p + length t + 1 + length (takeWhile sub_sep r)) (dropWhile sub_sep (c # r))"
    "p + length t < length m"
proof -
  show "cstr (m[p + length t := 0]) p t" by (rule cstr_cut [OF assms(1)])
  have "cstr m (p + length t + 1) r" using cstr_append [OF assms(1)] by (simp add: cstr_Cons)
  then show r: "cstr (m[p + length t := 0]) (p + length t + 1) r" by (rule cstr_update) simp
  then show "skip_seps (m[p + length t := 0]) (p + length t + 1) = Some (p + length t + 1 + length (takeWhile sub_sep r))" by (rule skip_seps_spec)
  show "cstr (m[p + length t := 0]) (p + length t + 1 + length (takeWhile sub_sep r)) (dropWhile sub_sep (c # r))"
    using cstr_append [of "m[p + length t := 0]" "p + length t + 1" "takeWhile sub_sep r" "dropWhile sub_sep r"] r assms(2) by simp
  show "p + length t < length m" using cstr_bound [OF assms(1)] by simp
qed

definition same_beyond :: "ptr \<Rightarrow> ptr \<Rightarrow> mem \<Rightarrow> mem \<Rightarrow> bool" where
  "same_beyond a b m m' \<longleftrightarrow> length m' = length m \<and> (\<forall>i. i < a \<or> b \<le> i \<longrightarrow> m' ! i = m ! i)"

lemma cut_subopt_spec:
  assumes s: "cstr m a (name @ w)" and w: "w = [] \<or> hd w = 61 \<or> sub_sep (hd w)"
  shows "\<exists>v q m'. cut_subopt m (a + length name) = Some (v, q, m') \<and> cstr m' a name \<and> cstr m' q (snd (sub_tail w))
    \<and> rel_option (cstr m') v (fst (sub_tail w)) \<and> same_beyond a (a + length (name @ w)) m m'"
proof (cases w)
  case Nil
  have "a + length name < length m" "m ! (a + length name) = 0" using s Nil by (auto simp: cstr_def)
  then show ?thesis using s Nil cstr_append [of m a name "[]"] by (auto simp: cut_subopt_def sub_tail_def same_beyond_def)
next
  case (Cons c r)
  let ?e = "a + length name" and ?m = "m[a + length name := 0]"
  have e: "?e < length m" "m ! ?e = c" "c \<noteq> 0" "cstr m (?e + 1) r"
    using cstr_append [OF s] Cons by (auto simp: cstr_Cons)
  have r: "cstr ?m (?e + 1) r" "cstr ?m a name" using e(4) cstr_cut [of m a name c r] s Cons by (auto intro: cstr_update)
  show ?thesis
  proof (cases "c = 61")
    case False
    then have c: "sub_sep c" using w Cons by simp
    note cut = cut_seps [OF s [unfolded Cons] c]
    have "cut_subopt m ?e = Some (None, ?e + 1 + length (takeWhile sub_sep r), ?m)"
      using e False cut(3) by (simp add: cut_subopt_def)
    then show ?thesis using cut(1,4) False Cons by (auto simp: sub_tail_def same_beyond_def)
  next
    case True
    define v u where "v = takeWhile (\<lambda>c. \<not> sub_sep c) r" and "u = dropWhile (\<lambda>c. \<not> sub_sep c) r"
    have vu: "r = v @ u" "value_end ?m (?e + 1) = Some (?e + 1 + length v)" "\<not> sub_sep 61"
      using value_end_spec [OF r(1)] by (auto simp: v_def u_def sub_sep_def)
    have tail: "sub_tail w = (Some v, dropWhile sub_sep u)" using Cons True by (simp add: sub_tail_def v_def u_def)
    show ?thesis
    proof (cases u)
      case Nil
      have z: "?e + 1 + length v < length ?m" "?m ! (?e + 1 + length v) = 0" "cstr ?m (?e + 1 + length v) []"
        using r(1) vu(1) Nil cstr_append [of ?m "?e + 1" v "[]"] by (auto simp: cstr_def)
      then have "cut_subopt m ?e = Some (Some (?e + 1), ?e + 1 + length v, ?m)"
        using e True vu(2) skip_seps_spec [OF z(3)] by (simp add: cut_subopt_def)
      then show ?thesis using r z(3) vu(1) Nil tail Cons by (auto simp: same_beyond_def)
    next
      case (Cons d u')
      have "sub_sep d" using hd_dropWhile [of "\<lambda>c. \<not> sub_sep c" r, folded u_def] Cons by simp
      then have d: "sub_sep d" "d \<noteq> 0" by (auto simp: sub_sep_def)
      have r': "cstr ?m (?e + 1) (v @ d # u')" using r(1) vu(1) Cons by simp
      note cut = cut_seps [OF r' d(1)]
      let ?m2 = "?m[?e + 1 + length v := 0]"
      have "?m ! (?e + 1 + length v) = d" using cstr_append [OF r'] by (simp add: cstr_Cons)
      then have "cut_subopt m ?e = Some (Some (?e + 1), ?e + 1 + length v + 1 + length (takeWhile sub_sep u'), ?m2)"
        using e True vu(2) d(2) cut(3,5) by (simp add: cut_subopt_def)
      moreover have "cstr ?m2 a name" using cstr_update [OF r(2)] by simp
      ultimately show ?thesis using cut(1,4) vu(1) tail Cons \<open>w = c # r\<close> by (auto simp: same_beyond_def)
    qed
  qed
qed

lemma sub_next_eq:
  "sub_next s = (case dropWhile sub_sep s of [] \<Rightarrow> None
    | c # r \<Rightarrow> Some (c # takeWhile (\<lambda>c. c \<noteq> 61 \<and> \<not> sub_sep c) r, sub_tail (dropWhile (\<lambda>c. c \<noteq> 61 \<and> \<not> sub_sep c) r)))"
  by (cases "dropWhile sub_sep s") (simp_all add: sub_next_def sub_tail_def Let_def del: dropWhile_eq_Nil_conv)

section \<open>Properties\<close>

text \<open>
  C32: a call of \<open>getsubopt\<close> on a list of suboptions gives the first name and its value, cut off as strings of their own, and the
  place of the name among the caller's strings, or \<open>- 1\<close> when it is not there, and goes on to the rest of the list; on a list of
  separators it gives \<open>- 1\<close> and the end of the list. The memory changes only within the list.
\<close>

theorem getsubopt_correct:
  assumes s: "cstr m p s" and ts: "list_all2 (\<lambda>q t. cstr m q t \<and> (q + length t < p \<or> p + length s < q)) tokens names"
  shows "case sub_next s of
      None \<Rightarrow> getsubopt m (Some (Some p)) tokens
        = Some (\<lparr>so_ret = - 1, suboptarg = None, valuep = None, optionp = Some (Some (p + length s))\<rparr>, m)
    | Some (name, vl, rest) \<Rightarrow> \<exists>a v q m'. getsubopt m (Some (Some p)) tokens
        = Some (\<lparr>so_ret = position name names, suboptarg = Some a, valuep = v, optionp = Some (Some q)\<rparr>, m')
        \<and> cstr m' a name \<and> rel_option (cstr m') v vl \<and> cstr m' q rest \<and> same_beyond p (p + length s) m m'"
proof (cases "dropWhile sub_sep s")
  case Nil
  then have "takeWhile sub_sep s = s" by (metis append_Nil2 takeWhile_dropWhile_id)
  then have "skip_seps m p = Some (p + length s)" using skip_seps_spec [OF s] by argo
  moreover have "p + length s < length m" "m ! (p + length s) = 0" using s by (auto simp: cstr_def)
  ultimately show ?thesis unfolding sub_next_eq Nil by (simp add: getsubopt_def)
next
  case (Cons c r)
  define a name w where "a = p + length (takeWhile sub_sep s)" and "name = c # takeWhile (\<lambda>c. c \<noteq> 61 \<and> \<not> sub_sep c) r"
    and "w = dropWhile (\<lambda>c. c \<noteq> 61 \<and> \<not> sub_sep c) r"
  have sp: "s = takeWhile sub_sep s @ c # r" by (metis Cons takeWhile_dropWhile_id)
  have cr: "cstr m a (c # r)" unfolding a_def using cstr_append [of m p "takeWhile sub_sep s" "c # r"] s sp by argo
  then have ld: "a < length m" "m ! a = c" "c \<noteq> 0" "cstr m (a + 1) r" by (auto simp: cstr_Cons)
  have nw: "c # r = name @ w" by (simp add: name_def w_def)
  have "w = [] \<or> hd w = 61 \<or> sub_sep (hd w)" using hd_dropWhile [of "\<lambda>c. c \<noteq> 61 \<and> \<not> sub_sep c" r] by (auto simp: w_def)
  then obtain v q m' where 1: "cut_subopt m (a + length name) = Some (v, q, m')" "cstr m' a name" "cstr m' q (snd (sub_tail w))"
      "rel_option (cstr m') v (fst (sub_tail w))" "same_beyond a (a + length (name @ w)) m m'"
    using cut_subopt_spec [of m a name w] cr nw by auto
  have ne: "name_end m (a + 1) = Some (a + length name)" using name_end_spec [OF ld(4)] by (simp add: name_def)
  have "a + length (name @ w) = p + length s" using arg_cong [OF sp, of length] nw by (simp add: a_def)
  then have sb: "same_beyond p (p + length s) m m'" using 1(5) by (auto simp: same_beyond_def a_def)
  have "list_all2 (cstr m') tokens names"
  proof (rule list_all2_mono [OF ts])
    fix q t assume "cstr m q t \<and> (q + length t < p \<or> p + length s < q)"
    then show "cstr m' q t" using sb cstr_cong [of m q t m'] by (auto simp: same_beyond_def)
  qed
  then have "getsubopt m (Some (Some p)) tokens
      = Some (\<lparr>so_ret = position name names, suboptarg = Some a, valuep = v, optionp = Some (Some q)\<rparr>, m')"
    using skip_seps_spec [OF s] ld ne 1(1) find_token_spec [OF 1(2)] by (simp add: getsubopt_def position_def a_def)
  then show ?thesis using 1(2-4) sb Cons by (auto simp: sub_next_eq name_def w_def split: prod.splits)
qed

text \<open>The list \<open>,rw=1 ro\<close> against the names \<open>ro\<close> and \<open>rw\<close>.\<close>

theorem getsubopt_correct_witness:
  "\<exists>a v q m'. getsubopt [44, 114, 119, 61, 49, 32, 114, 111, 0, 114, 111, 0, 114, 119, 0] (Some (Some 0)) [9, 12]
      = Some (\<lparr>so_ret = 1, suboptarg = Some a, valuep = v, optionp = Some (Some q)\<rparr>, m')
    \<and> cstr m' a [114, 119] \<and> rel_option (cstr m') v (Some [49]) \<and> cstr m' q [114, 111]"
proof -
  let ?m = "[44, 114, 119, 61, 49, 32, 114, 111, 0, 114, 111, 0, 114, 119, 0] :: mem" and ?s = "[44, 114, 119, 61, 49, 32, 114, 111] :: byte list"
  have c: "cstr ?m 0 ?s" "cstr ?m 9 [114, 111]" "cstr ?m 12 [114, 119]" by (simp_all add: cstr_def slice_def)
  have n: "sub_next ?s = Some ([114, 119], Some [49], [114, 111])" by code_simp
  show ?thesis
    using getsubopt_correct [OF c(1), of "[9, 12]" "[[114, 111], [114, 119]]"] c(2,3) unfolding n by (auto simp: position_def)
qed

end
