(* ===== verification/Spec2Isabelle.thy ===== *)
theory Spec2Isabelle
  imports QDivRem StrTok Strto Rune Heap Vis Fnmatch DNameTrip RpcTrip ModeSpec RngSwitch Env Getopt Subopt
begin

text \<open>
  Routines of the C library of BSD/OS 2.0, \<open>src/lib/libc\<close>, and of its library for remote procedure calls,
  \<open>src/lib/librpc\<close>, for the i386 port: \<open>char\<close> is a signed byte, \<open>int\<close> and \<open>long\<close> have 32 bits, \<open>quad_t\<close> has 64, the low-order byte comes first.

  \<^bold>\<open>The parts and how they meet.\<close> The library is a set of routines over the memory of the process.
  The 64-bit arithmetic the compiler calls for (\<open>quad\<close>) stands by itself. The block and string routines
  (\<open>string\<close>) read and write memory; the conversions (\<open>stdlib\<close>) and the address routines (\<open>net\<close>) read strings and
  ask the character classes (\<open>locale\<close>) about their characters; sorting and searching (\<open>stdlib\<close>) move the elements
  of an array as the caller's comparison function says; the visual encoding and the file name matcher (\<open>gen\<close>)
  work on strings again. The filters of external data (\<open>librpc\<close>) move objects between memory and a stream, in memory or of
  records over a connection.

  \<^bold>\<open>Theories and sources.\<close> Each theory opens with its definitions, one per function of the source or per
  loop of a function, in the order of the source and under its names.
  \<^item> \<open>Prelude\<close>: the machine types, and facts on words that the components share.
  \<^item> \<open>Quad\<close>: \<open>quad/adddi3.c\<close> to \<open>xordi3.c\<close>, the union of halves as a record; \<open>QDivRem\<close>: \<open>quad/qdivrem.c\<close> (Knuth's
    algorithm D on arrays of 16-bit digits) and the division routines on top of it.
  \<^item> \<open>CMem\<close>: the memory as a list of bytes; \<open>None\<close> is an access outside. \<open>MemBlk\<close>: \<open>string/bcopy.c\<close>, \<open>memset.c\<close>
    and the other block routines; \<open>Strings\<close>: copying, comparing and searching strings; \<open>StrTok\<close>: spans, \<open>strsep\<close>
    and \<open>strtok\<close> with its saved pointer as state.
  \<^item> \<open>Ctype\<close>: \<open>include/ctype.h\<close>, the table of \<open>locale/runetable.c\<close> and the searches of \<open>rune.c\<close> beyond it;
    \<open>Rune\<close>: the encodings of \<open>locale/runenone.c\<close>, \<open>utf2.c\<close> and \<open>euc.c\<close>, and the routines of \<open>multibyte.c\<close> and
    \<open>mbrune.c\<close> over them.
  \<^item> \<open>Strto\<close>: \<open>stdlib/strtol.c\<close>, \<open>strtoul.c\<close>, \<open>strtoq.c\<close>, \<open>strtouq.c\<close>.
  \<^item> \<open>Xchg\<close>: the byte and word loops of \<open>stdlib/qsort.c\<close> and \<open>heapsort.c\<close>; \<open>Sort\<close>: \<open>qsort.c\<close> and \<open>bsearch.c\<close> on the
    array of elements; \<open>Heap\<close>: \<open>heapsort.c\<close>.
  \<^item> \<open>Rng\<close>: \<open>stdlib/random.c\<close> and \<open>rand.c\<close>, the tables, pointers and seeding of the generators; \<open>RngSwitch\<close>: saving
    and switching of state arrays, and the properties of the generators.
  \<^item> \<open>Env\<close>: \<open>stdlib/getenv.c\<close>, \<open>setenv.c\<close> and \<open>putenv.c\<close>, the list of environment strings; \<open>Getopt\<close>: \<open>stdlib/getopt.c\<close>;
    \<open>Subopt\<close>: \<open>stdlib/getsubopt.c\<close>.
  \<^item> \<open>Vis\<close>: \<open>gen/vis.c\<close> and \<open>gen/unvis.c\<close>, the decoder as a state machine; \<open>Fnmatch\<close>: \<open>gen/fnmatch.c\<close>.
  \<^item> \<open>Setmode\<close>: \<open>gen/setmode.c\<close>, the compiler for file modes, its array of commands and the compression of it; \<open>ModeSpec\<close>: a
    direct interpretation of mode strings and that compiled modes agree with it.
  \<^item> \<open>Inet\<close>: \<open>net/inet_addr.c\<close>, \<open>inet_network.c\<close>, \<open>inet_ntoa.c\<close>, \<open>inet_makeaddr.c\<close>, \<open>inet_lnaof.c\<close>, \<open>inet_netof.c\<close>.
  \<^item> \<open>DName\<close>: \<open>net/res_comp.c\<close>, compressed domain names in messages; \<open>DNameTrip\<close>: compressing and expanding again.
  \<^item> \<open>Xdr\<close>: the filters of \<open>librpc/rpc/xdr.c\<close>, \<open>xdr_array.c\<close> and \<open>xdr_reference.c\<close> over the handle of \<open>xdr.h\<close>, with the vector
    of stream operations as a record of functions; \<open>XdrStream\<close>: the contract of a stream and the filters of fixed size
    as codecs; \<open>XdrHeap\<close>: the filters that allocate; \<open>XdrMem\<close>: \<open>xdr_mem.c\<close>, the stream in memory.
  \<^item> \<open>XdrRec\<close>: \<open>librpc/rpc/xdr_rec.c\<close>, streams of records cut into fragments, with the structure of the stream as a record and the
    routines that read and write among its fields; \<open>RecConn\<close>: fragments on the wire, and writing; \<open>RecRead\<close>: reading, and the
    contract of a stream; \<open>RecTrip\<close>: whole records and new streams; \<open>RpcTcp\<close>: \<open>readtcp\<close> and \<open>writetcp\<close> of \<open>clnt_tcp.c\<close> and \<open>svc_tcp.c\<close>.
  \<^item> \<open>RpcMsg\<close>: \<open>librpc/rpc/rpc_prot.c\<close> and \<open>rpc_callmsg.c\<close>, the messages of remote procedure calls in memory; \<open>RpcTrip\<close>: filters in
    sequence, and calls and replies there and back.

  \<^bold>\<open>Interfaces.\<close> Seven locales state what one part relies on in another. \<open>tokenizer\<close> (in \<open>StrTok\<close>) is the contract
  of a routine called again and again on a string; \<open>strsep\<close> and \<open>strtok\<close> are its interpretations. \<open>rune_codec\<close>
  (in \<open>Rune\<close>) is the contract of an encoding; the multibyte routines are proved over it, for both encodings.
  \<open>comparator\<close> (in \<open>Sort\<close>) is what makes a comparison function an order; quicksort, heapsort and binary search
  are proved over it, and the orders of \<open>strcmp\<close>, \<open>memcmp\<close> and \<open>__cmpdi2\<close> interpret it, here also on pointers.
  \<open>xdr_stream\<close> (in \<open>XdrStream\<close>) is what the filters need of a stream, with its bytes written, to be read and owned as a
  record of views; memory streams interpret it, and so do the record streams over any connection that keeps the contract
  \<open>rec_conn\<close> (in \<open>RecConn\<close>): what is read is the beginning of what is pending, what is written is added to what was sent. The client's
  and the server's end of a TCP connection interpret that. \<open>rand_source\<close> (in \<open>Rng\<close>) is a source of numbers that a view of its state
  determines; \<open>random\<close> and \<open>rand\<close> interpret it. \<open>var_store\<close> (in \<open>Env\<close>) is a store of variables; the environment
  interprets it.

  \<^bold>\<open>What the lemmas show.\<close> The quad routines are 64-bit arithmetic on all inputs. The memory and string
  routines read and write exactly the bytes they should and return what their documentation says, for every
  alignment and overlap. The conversions return the clamped number, report overflow exactly, and stop at the
  right character. Tokens, encodings, the visual encoding and addresses are described by lists or by a decoder
  and an encoder that undo each other. Expanding a domain name ends on every message and stays in its buffer.
  The filters of external data write and read back the same objects, arrays and strings, on any stream; over record streams they arrive as they were sent, for all sizes of the buffers and
  all partial reads and writes, and no request crosses the end of a record. Calls and rejected replies are read as they were written. Sorting gives
  an ordered permutation. The matcher agrees with a declarative meaning of patterns, the generators of random numbers
  with linear recurrences, a compiled file mode with the interpretation of its text, the calls of \<open>getopt\<close> with a reading
  of the list of arguments, and the environment with a map. Where the code departs from its documentation the exact
  behaviour is stated: \<open>__moddi3\<close>, \<open>rindex\<close>, \<open>wcstombs\<close>, \<open>mbmb\<close>, \<open>fnmatch\<close>, \<open>inet_network\<close>, \<open>dn_expand\<close>, \<open>setmode\<close>,
  \<open>setstate\<close>, \<open>setenv\<close>, \<open>getopt\<close>, \<open>xdr_u_char\<close>, \<open>xdrmem_getbytes\<close>, \<open>xdrrec_setpos\<close>, the server's \<open>readtcp\<close> and \<open>_seterr_reply\<close>.

  \<^bold>\<open>Bounds and termination.\<close> No definition has fuel: every loop is a total function, by the bytes left in
  memory, the elements left in the range, or a measure given with the definition. The search for a name to point
  to in \<open>dn_comp\<close> may follow a chain of pointers that does not end; it is a partial function whose value \<open>None\<close> is that,
  and so is the loop of calls of \<open>getopt\<close>, which is proved to end. The loops
  of the record streams do not end when \<open>readit\<close> gives no bytes for ever; they are partial functions too, and are proved to end
  when the bytes they wait for are on the way. Lengths and addresses are natural numbers where the code only adds to them and words where it wraps around.

  \<^bold>\<open>Arguments for code that is not here.\<close> The stack garbage \<open>__qdivrem\<close> starts with, the locale, the outcome
  of \<open>malloc\<close> in \<open>heapsort\<close>, the comparison functions, the allocator and the static arrays of the
  filters, the file creation mask and the storage of \<open>setmode\<close>, the storage of \<open>setenv\<close>, \<open>lseek\<close> on the handle of a record stream, and the class macros of \<open>netinet/in.h\<close> are arguments. A socket carries the bytes that will arrive and the outcomes of the next calls of
  \<open>select\<close>, \<open>read\<close> and \<open>write\<close>, so that the theorems hold for every sequence of them.

  \<^bold>\<open>Not modelled.\<close> Standard input and output, the file and database routines, the resolver, the allocator and
  everything that is a system call or a conversation with one; floating point; the programs outside the library.
  The kernel and \<open>usr.bin\<close> are only present as compressed archives. The reading of locale
  files, with \<open>_EUC_init\<close>, is left out of \<open>Ctype\<close> and \<open>Rune\<close>. Of the library, merge and radix sort,
  capability strings and regular expressions could follow the same way; of the remote calls, making connections and the calls themselves.
\<close>

section \<open>Sorting strings in memory\<close>

text \<open>\<open>strcmp\<close> on pointers to strings, the order in which a program sorts an array of them.\<close>

definition strcmp_at :: "mem \<Rightarrow> ptr \<Rightarrow> ptr \<Rightarrow> int" where
  "strcmp_at m p q = (case strcmp m p q of Some c \<Rightarrow> c | None \<Rightarrow> 0)"

lemma strcmp_at_spec: "cstr m p s \<Longrightarrow> cstr m q t \<Longrightarrow> strcmp_at m p q = str_order s t"
  by (simp add: strcmp_at_def strcmp_spec)

interpretation ptr_cmp: comparator "{p. \<exists>s. cstr m p s}" "strcmp_at m" for m
proof
  fix p q assume "p \<in> {p. \<exists>s. cstr m p s}" "q \<in> {p. \<exists>s. cstr m p s}"
  then obtain s t where "cstr m p s" "cstr m q t" by auto
  then show "sgn (strcmp_at m q p) = - sgn (strcmp_at m p q)"
    using str_order_swap [of t s] by (simp add: strcmp_at_spec)
next
  fix p q r assume "p \<in> {p. \<exists>s. cstr m p s}" "q \<in> {p. \<exists>s. cstr m p s}" "r \<in> {p. \<exists>s. cstr m p s}"
    "strcmp_at m p q \<le> 0" "strcmp_at m q r \<le> 0"
  then obtain s t u where "cstr m p s" "cstr m q t" "cstr m r u" "str_order s t \<le> 0" "str_order t u \<le> 0"
    by (auto simp: strcmp_at_spec)
  then show "strcmp_at m p r \<le> 0"
    using str_order_trans [of s t u] by (simp add: strcmp_at_spec cstr_def)
qed

lemma qsort_pointers:
  assumes "\<forall>p \<in> set ps. \<exists>s. cstr m p s" "qs = qsort (strcmp_at m) ps 0 (length ps)"
  shows "length qs = length ps" "set qs = set ps" "mset qs = mset ps" "sorted_in (strcmp_at m) qs 0 (length ps)"
    "set ps \<subseteq> {p. \<exists>s. cstr m p s}"
proof -
  show D: "set ps \<subseteq> {p. \<exists>s. cstr m p s}" using assms(1) by auto
  have pi: "perm_in 0 (length ps) ps qs" unfolding assms(2) by (simp add: perm_in_qsort)
  show "length qs = length ps" using pi by (rule perm_in_length)
  show "set qs = set ps" using pi by (rule perm_in_set)
  show "mset qs = mset ps" using pi by (simp add: perm_in_def)
  show "sorted_in (strcmp_at m) qs 0 (length ps)" unfolding assms(2) using D by (intro ptr_cmp.qsort_sorted) auto
qed

lemma bsearch_pointers:
  assumes "\<forall>p \<in> set ps. \<exists>s. cstr m p s" "qs = qsort (strcmp_at m) ps 0 (length ps)" "p \<in> set ps"
  shows "\<exists>k s. bsearch (strcmp_at m) p qs 0 (length ps) = Some k \<and> cstr m p s \<and> cstr m (qs ! k) s"
proof -
  note q = qsort_pointers [OF assms(1,2)]
  have "case bsearch (strcmp_at m) p qs 0 (length qs) of
      None \<Rightarrow> \<forall>x \<in> set qs. strcmp_at m p x \<noteq> 0 | Some k \<Rightarrow> k < length qs \<and> strcmp_at m p (qs ! k) = 0"
    using q assms(3) by (intro ptr_cmp.bsearch_sorted) auto
  moreover have "strcmp_at m p p = 0" using q(5) assms(3) by (intro ptr_cmp.refl) auto
  ultimately obtain k where k: "bsearch (strcmp_at m) p qs 0 (length ps) = Some k" "k < length ps" "strcmp_at m p (qs ! k) = 0"
    using q(1,2) assms(3) by (auto split: option.splits)
  obtain s where s: "cstr m p s" using assms(1,3) by blast
  have "qs ! k \<in> set ps" using k(2) q(1,2) nth_mem by metis
  then obtain t where t: "cstr m (qs ! k) t" using assms(1) by blast
  have "s = t" using k(3) s t str_order_eq_0 [of s t] by (simp add: strcmp_at_spec) (simp add: cstr_def)
  then show ?thesis using k s t by blast
qed

text \<open>
  C28: an array of pointers to strings, sorted by \<open>qsort\<close> with \<open>strcmp\<close>, points to the same strings in
  lexicographic order of unsigned bytes, and \<open>bsearch\<close> with \<open>strcmp\<close> then finds every string that is there.
\<close>

theorem qsort_strcmp:
  assumes "\<forall>p \<in> set ps. \<exists>s. cstr m p s"
  shows "mset (qsort (strcmp_at m) ps 0 (length ps)) = mset ps
    \<and> (\<forall>i j s t. i < j \<and> j < length ps \<and> cstr m (qsort (strcmp_at m) ps 0 (length ps) ! i) s
         \<and> cstr m (qsort (strcmp_at m) ps 0 (length ps) ! j) t \<longrightarrow> s = t \<or> (s, t) \<in> lexord {(a, b). a < b})
    \<and> (\<forall>p \<in> set ps. \<exists>k s. bsearch (strcmp_at m) p (qsort (strcmp_at m) ps 0 (length ps)) 0 (length ps) = Some k
         \<and> cstr m p s \<and> cstr m (qsort (strcmp_at m) ps 0 (length ps) ! k) s)"
proof (intro conjI allI impI ballI)
  let ?qs = "qsort (strcmp_at m) ps 0 (length ps)"
  show "mset ?qs = mset ps" using qsort_pointers(3) [OF assms HOL.refl] .
  show "\<exists>k s. bsearch (strcmp_at m) p ?qs 0 (length ps) = Some k \<and> cstr m p s \<and> cstr m (?qs ! k) s" if "p \<in> set ps" for p
    using bsearch_pointers [OF assms HOL.refl that] .
  fix i j s t
  assume a: "i < j \<and> j < length ps \<and> cstr m (?qs ! i) s \<and> cstr m (?qs ! j) t"
  then have "strcmp_at m (?qs ! i) (?qs ! j) \<le> 0"
    using qsort_pointers(4) [OF assms HOL.refl] by (simp add: sorted_in_def)
  moreover have "strcmp_at m (?qs ! i) (?qs ! j) = str_order s t" using a by (intro strcmp_at_spec) auto
  ultimately have "str_order s t \<le> 0" by simp
  moreover have "0 \<notin> set s" "0 \<notin> set t" using a by (simp_all add: cstr_def)
  ultimately show "s = t \<or> (s, t) \<in> lexord {(a, b). a < b}"
    using str_order_eq_0 [of s t] str_order_less [of s t] by linarith
qed

theorem qsort_strcmp_witness:
  "mset (qsort (strcmp_at [98, 0, 97, 0]) [0, 2] 0 2) = {#0, 2#}
   \<and> qsort (strcmp_at [98, 0, 97, 0]) [0, 2] 0 2 = [2, 0]"
proof
  have "cstr [98, 0, 97, 0] 0 [98]" "cstr [98, 0, 97, 0] 2 [97]" by (simp_all add: cstr_def slice_def)
  then show "mset (qsort (strcmp_at [98, 0, 97, 0]) [0, 2] 0 2) = {#0, 2#}"
    using qsort_strcmp [of "[0, 2]" "[98, 0, 97, 0]"] by (auto simp: numeral_2_eq_2)
qed code_simp

end
